(* ===== verification/Prelude.thy ===== *)
theory Prelude
  imports Main "HOL-Library.Word" "HOL-Library.Code_Target_Nat"
begin

text \<open>
  Shared ground of the development: bytes, NUL-terminated strings, the few functions of
  the C library whose behaviour the programs rely on, decimal printing, and the generic
  list lemmas the component theories use.

  A C \<open>char\<close> is an element of HOL's type \<open>char\<close> (256 values). Where the code reads a
  byte as an \<open>int\<close> the model uses \<open>ord\<close> (0..255, what \<open>getc\<close> returns) or \<open>schar\<close>
  (-128..127, the value of a plain \<open>char\<close> on the x86 ABI the programs are built for).
  A C string is the list of the bytes before its terminating NUL.
\<close>

named_theorems bytes \<open>reading and writing bytes as integers\<close>
named_theorems cstrings \<open>facts on NUL-terminated strings\<close>

type_synonym cstring = string

section \<open>Bytes\<close>

definition ord :: "char \<Rightarrow> int" where
  "ord c = of_char c"

definition chr :: "int \<Rightarrow> char" where
  "chr n = char_of n"

definition schar :: "char \<Rightarrow> int" where
  "schar c = (if ord c < 128 then ord c else ord c - 256)"

abbreviation EOF :: int where
  "EOF \<equiv> - 1"

abbreviation NUL :: char where
  "NUL \<equiv> CHR 0x00"

lemma chr_ord [simp, bytes]: "chr (ord c) = c"
  by (simp add: chr_def ord_def)

lemma ord_chr [bytes]: "ord (chr n) = n mod 256"
  by (simp add: chr_def ord_def of_char_of)

lemma ord_chr_id [simp, bytes]: "0 \<le> n \<Longrightarrow> n < 256 \<Longrightarrow> ord (chr n) = n"
  by (simp add: ord_chr)

lemma ord_nonneg [simp, bytes]: "0 \<le> ord c"
  by (metis chr_ord ord_chr pos_mod_sign zero_less_numeral)

lemma ord_less [simp, bytes]: "ord c < 256"
proof -
  have "ord c = ord c mod 256"
    using ord_chr [of "ord c"] by simp
  then show ?thesis by (metis pos_mod_bound zero_less_numeral)
qed

lemma ord_inject [simp, bytes]: "ord c = ord d \<longleftrightarrow> c = d"
  by (metis chr_ord)

lemma ord_eq_iff [bytes]: "0 \<le> n \<Longrightarrow> n < 256 \<Longrightarrow> ord c = n \<longleftrightarrow> c = chr n"
  by (metis chr_ord ord_chr_id)

lemma chr_inject [bytes]:
  "0 \<le> m \<Longrightarrow> m < 256 \<Longrightarrow> 0 \<le> n \<Longrightarrow> n < 256 \<Longrightarrow> chr m = chr n \<longleftrightarrow> m = n"
  by (metis ord_chr_id)

lemma ord_neq_EOF [simp]: "ord c \<noteq> EOF"
  using ord_nonneg [of c] by linarith

text \<open>Every byte is the image of a number below 256: the case split by enumeration.\<close>

lemma all_bytes: "(\<forall>c. P c) \<longleftrightarrow> list_all (\<lambda>n. P (chr (int n))) [0..<256]"
proof
  assume *: "list_all (\<lambda>n. P (chr (int n))) [0..<256]"
  show "\<forall>c. P c"
  proof
    fix c
    have "nat (ord c) \<in> set [0..<256]"
      using ord_less [of c] ord_nonneg [of c] by (simp add: nat_less_iff)
    with * have "P (chr (int (nat (ord c))))" unfolding list_all_iff by blast
    then show "P c" by simp
  qed
qed (simp add: list_all_iff)

section \<open>The character classes of ctype.h, in the C locale\<close>

definition isspace :: "char \<Rightarrow> bool" where
  "isspace c \<longleftrightarrow> (9 \<le> ord c \<and> ord c \<le> 13) \<or> ord c = 32"

definition isdigit :: "char \<Rightarrow> bool" where
  "isdigit c \<longleftrightarrow> 48 \<le> ord c \<and> ord c \<le> 57"

definition isupper :: "char \<Rightarrow> bool" where
  "isupper c \<longleftrightarrow> 65 \<le> ord c \<and> ord c \<le> 90"

definition islower :: "char \<Rightarrow> bool" where
  "islower c \<longleftrightarrow> 97 \<le> ord c \<and> ord c \<le> 122"

definition isalnum :: "char \<Rightarrow> bool" where
  "isalnum c \<longleftrightarrow> isdigit c \<or> isupper c \<or> islower c"

definition tolower :: "char \<Rightarrow> char" where
  "tolower c = (if isupper c then chr (ord c + 32) else c)"

definition toupper :: "char \<Rightarrow> char" where
  "toupper c = (if islower c then chr (ord c - 32) else c)"

section \<open>Strings\<close>

text \<open>The string a NUL-terminated buffer holds: the bytes before the first NUL.\<close>

definition cstr :: "string \<Rightarrow> cstring" where
  "cstr s = takeWhile (\<lambda>c. c \<noteq> NUL) s"

definition nul_free :: "string \<Rightarrow> bool" where
  "nul_free s \<longleftrightarrow> NUL \<notin> set s"

lemma cstr_nul_free [simp, cstrings]: "nul_free s \<Longrightarrow> cstr s = s"
  by (simp add: cstr_def nul_free_def takeWhile_eq_all_conv)
     (metis)

lemma nul_free_cstr [simp, cstrings]: "nul_free (cstr s)"
  by (auto simp: cstr_def nul_free_def dest: set_takeWhileD)

lemma cstr_append_NUL [simp, cstrings]: "cstr (s @ NUL # t) = cstr s"
  by (induction s) (auto simp: cstr_def)

lemma nul_free_simps [simp, cstrings]:
  "nul_free []"
  "nul_free (c # s) \<longleftrightarrow> c \<noteq> NUL \<and> nul_free s"
  "nul_free (s @ t) \<longleftrightarrow> nul_free s \<and> nul_free t"
  by (auto simp: nul_free_def)

definition strcaseeq :: "cstring \<Rightarrow> cstring \<Rightarrow> bool" where
  "strcaseeq a b \<longleftrightarrow> map tolower a = map tolower b"

definition strncaseeq :: "cstring \<Rightarrow> cstring \<Rightarrow> nat \<Rightarrow> bool" where
  "strncaseeq a b n \<longleftrightarrow> map tolower (take n a) = map tolower (take n b)"

lemma strcaseeq_refl [simp]: "strcaseeq a a"
  by (simp add: strcaseeq_def)

lemma strcaseeq_sym: "strcaseeq a b \<longleftrightarrow> strcaseeq b a"
  by (auto simp: strcaseeq_def)

lemma strcaseeq_trans: "strcaseeq a b \<Longrightarrow> strcaseeq b c \<longleftrightarrow> strcaseeq a c"
  by (simp add: strcaseeq_def)

text \<open>
  \<open>strchr\<close>, \<open>strrchr\<close> and \<open>strstr\<close> split the string at the place they find: the part
  before it, and the part that starts there.
\<close>

definition strchr :: "cstring \<Rightarrow> char \<Rightarrow> (cstring \<times> cstring) option" where
  "strchr s c = (if c \<in> set s
     then Some (takeWhile (\<lambda>x. x \<noteq> c) s, dropWhile (\<lambda>x. x \<noteq> c) s) else None)"

fun strrchr :: "cstring \<Rightarrow> char \<Rightarrow> (cstring \<times> cstring) option" where
  "strrchr [] c = None"
| "strrchr (x # s) c = (case strrchr s c of
      Some (a, b) \<Rightarrow> Some (x # a, b)
    | None \<Rightarrow> (if x = c then Some ([], x # s) else None))"

fun strstr :: "cstring \<Rightarrow> cstring \<Rightarrow> (cstring \<times> cstring) option" where
  "strstr [] n = (if n = [] then Some ([], []) else None)"
| "strstr (x # s) n = (if take (length n) (x # s) = n then Some ([], x # s)
     else map_option (\<lambda>(a, b). (x # a, b)) (strstr s n))"

lemma strchr_None [simp]: "strchr s c = None \<longleftrightarrow> c \<notin> set s"
  by (simp add: strchr_def)

lemma strchr_append [simp]: "c \<notin> set a \<Longrightarrow> strchr (a @ c # b) c = Some (a, c # b)"
  by (auto simp: strchr_def takeWhile_append dropWhile_append)

lemma strchr_SomeD:
  "strchr s c = Some (a, b) \<Longrightarrow> \<exists>t. s = a @ c # t \<and> b = c # t \<and> c \<notin> set a"
proof -
  assume *: "strchr s c = Some (a, b)"
  then have c: "c \<in> set s" and a: "a = takeWhile (\<lambda>x. x \<noteq> c) s" and b: "b = dropWhile (\<lambda>x. x \<noteq> c) s"
    by (auto simp: strchr_def split: if_splits)
  from c have "b \<noteq> []" by (simp add: b dropWhile_eq_Nil_conv)
  then obtain x t where xt: "b = x # t" by (cases b) auto
  then have "x = c" using hd_dropWhile [of "\<lambda>x. x \<noteq> c" s] b by auto
  moreover have "c \<notin> set a" by (auto simp: a dest: set_takeWhileD)
  moreover have "s = a @ b" by (simp add: a b)
  ultimately show ?thesis using xt by blast
qed

lemma strrchr_None [simp]: "strrchr s c = None \<longleftrightarrow> c \<notin> set s"
  by (induction s) (auto split: option.splits)

lemma strrchr_SomeD:
  "strrchr s c = Some (a, b) \<Longrightarrow> \<exists>t. s = a @ c # t \<and> b = c # t \<and> c \<notin> set t"
proof (induction s arbitrary: a b)
  case (Cons x s)
  show ?case
  proof (cases "strrchr s c")
    case None
    with Cons.prems show ?thesis by (auto split: if_splits)
  next
    case (Some ab)
    with Cons show ?thesis by (cases ab) auto
  qed
qed simp

section \<open>Numbers in strings\<close>

text \<open>
  \<open>strtoll\<close> of the C library, base 10: white space, a sign, digits; the value
  saturates at the 64-bit bounds, and the second result is the unread rest, the whole
  string when there is no digit. \<open>atoi\<close> is the \<open>strtol\<close> value cut to 32 bits.
\<close>

fun scan_digits :: "int \<Rightarrow> cstring \<Rightarrow> int \<times> cstring" where
  "scan_digits n [] = (n, [])"
| "scan_digits n (c # s) =
     (if isdigit c then scan_digits (n * 10 + (ord c - 48)) s else (n, c # s))"

definition sat64 :: "int \<Rightarrow> int" where
  "sat64 n = max (- (2 ^ 63)) (min (2 ^ 63 - 1) n)"

definition strtoll :: "cstring \<Rightarrow> int \<times> cstring" where
  "strtoll s = (let t = dropWhile isspace s;
      neg = (take 1 t = ''-'');
      u = (if take 1 t = ''-'' \<or> take 1 t = ''+'' then tl t else t) in
    if u = [] \<or> \<not> isdigit (hd u) then (0, s)
    else let (n, r) = scan_digits 0 u in (sat64 (if neg then - n else n), r))"

definition atoi :: "cstring \<Rightarrow> int" where
  "atoi s = signed_take_bit 31 (fst (strtoll s))"

text \<open>Decimal and hexadecimal printing: \<open>%i\<close>, \<open>%zx\<close> and \<open>%02X\<close>.\<close>

fun show_nat :: "nat \<Rightarrow> cstring" where
  "show_nat n = (if n < 10 then [chr (48 + int n)]
     else show_nat (n div 10) @ [chr (48 + int (n mod 10))])"

definition show_int :: "int \<Rightarrow> cstring" where
  "show_int n = (if n < 0 then CHR ''-'' # show_nat (nat (- n)) else show_nat (nat n))"

definition hexchar :: "nat \<Rightarrow> char" where
  "hexchar d = (if d < 10 then chr (48 + int d) else chr (87 + int d))"

definition hexcharU :: "nat \<Rightarrow> char" where
  "hexcharU d = (if d < 10 then chr (48 + int d) else chr (55 + int d))"

fun show_hex :: "nat \<Rightarrow> cstring" where
  "show_hex n = (if n < 16 then [hexchar n]
     else show_hex (n div 16) @ [hexchar (n mod 16)])"

definition show_hex2 :: "int \<Rightarrow> cstring" where
  "show_hex2 n = [hexcharU (nat n div 16), hexcharU (nat n mod 16)]"

declare show_nat.simps [simp del] show_hex.simps [simp del]

lemma show_nat_digits: "c \<in> set (show_nat n) \<Longrightarrow> isdigit c"
proof (induction n rule: show_nat.induct)
  case (1 n)
  then show ?case
    by (subst (asm) show_nat.simps) (auto simp: isdigit_def ord_chr_id split: if_splits)
qed

lemma show_nat_nonempty [simp]: "show_nat n \<noteq> []"
  by (subst show_nat.simps) simp

lemma scan_digits_append:
  "(\<forall>c\<in>set s. isdigit c) \<Longrightarrow> scan_digits n (s @ t) = scan_digits (fst (scan_digits n s)) t"
  by (induction s arbitrary: n) auto

lemma scan_show_nat:
  "scan_digits 0 (show_nat n @ t) = scan_digits (int n) t"
proof (induction n arbitrary: t rule: show_nat.induct)
  case (1 n)
  have d: "isdigit (chr (48 + int (n mod 10)))"
    by (auto simp: isdigit_def ord_chr_id)
  show ?case
  proof (cases "n < 10")
    case True
    with d show ?thesis by (simp add: show_nat.simps [of n] ord_chr_id)
  next
    case False
    have "int (n div 10) * 10 + int (n mod 10) = int n"
      by (metis mult.commute of_nat_add of_nat_mult of_nat_numeral mult_div_mod_eq)
    moreover have "ord (chr (48 + int (n mod 10))) = 48 + int (n mod 10)"
      by (rule ord_chr_id) auto
    ultimately show ?thesis
      using False d 1 by (simp add: show_nat.simps [of n])
  qed
qed

lemma strtoll_show_nat:
  assumes "int n < 2 ^ 63" and "t = [] \<or> \<not> isdigit (hd t)"
  shows "strtoll (show_nat n @ t) = (int n, t)"
proof -
  obtain c u where cu: "show_nat n = c # u" by (cases "show_nat n") auto
  then have c: "isdigit c" using show_nat_digits [of c n] by simp
  then have "\<not> isspace c" "c \<noteq> CHR ''-''" "c \<noteq> CHR ''+''"
    by (auto simp: isdigit_def isspace_def ord_def)
  moreover have "scan_digits 0 (show_nat n @ t) = (int n, t)"
    using assms(2) scan_show_nat [of n t] by (cases t) auto
  ultimately show ?thesis
    using assms(1) c by (auto simp: strtoll_def cu sat64_def Let_def)
qed

end
