(* ===== verification/Utils.thy ===== *)
theory Utils
  imports Prelude
begin

text \<open>
  The string and buffer helpers of \<open>lib/utils.c\<close>: growing a buffer (\<open>_sizebuf\<close>), taking a
  NUL-terminated string off a packet (\<open>decstr\<close>), splitting a configuration line into words
  (\<open>tokenize\<close>), and \<open>calen\<close>, \<open>hexdigit\<close> and \<open>atoo\<close>.
\<close>

section \<open>Buffers\<close>

text \<open>
  The capacity \<open>_sizebuf\<close> settles on, with \<open>size_t\<close> arithmetic: the doubling loop returns
  \<open>None\<close> when it never ends, which it does not once the shift has produced 0.
\<close>

partial_function (option) sizebuf_grow :: "64 word \<Rightarrow> 64 word \<Rightarrow> 64 word option" where
  "sizebuf_grow n wanted = (if n < wanted then sizebuf_grow (push_bit 1 n) wanted else Some n)"

declare sizebuf_grow.simps [code]

definition sizebuf :: "64 word \<Rightarrow> 64 word \<Rightarrow> 64 word option" where
  "sizebuf s wanted = (case sizebuf_grow (if s = 0 then 1 else s) wanted of
      None \<Rightarrow> None
    | Some n \<Rightarrow> if n \<le> s then Some s else Some n)"

text \<open>The same on natural numbers, for buffers below \<open>2 ^ 63\<close> elements.\<close>

function sizebuf_nat_grow :: "nat \<Rightarrow> nat \<Rightarrow> nat" where
  "sizebuf_nat_grow n wanted =
     (if 0 < n \<and> n < wanted then sizebuf_nat_grow (2 * n) wanted else n)"
  by pat_completeness auto
termination
  by (relation "measure (\<lambda>(n, w). w - n)") auto

definition sizebuf_nat :: "nat \<Rightarrow> nat \<Rightarrow> nat" where
  "sizebuf_nat s wanted = max s (sizebuf_nat_grow (if s = 0 then 1 else s) wanted)"

declare sizebuf_nat_grow.simps [simp del]

lemma sizebuf_nat_grow_bounds:
  "0 < n \<Longrightarrow> n \<le> sizebuf_nat_grow n w \<and> w \<le> sizebuf_nat_grow n w \<and>
     (sizebuf_nat_grow n w = n \<or> sizebuf_nat_grow n w < 2 * w)"
proof (induction n w rule: sizebuf_nat_grow.induct)
  case (1 n w)
  show ?case
  proof (cases "n < w")
    case True
    with 1 show ?thesis by (auto simp: sizebuf_nat_grow.simps [of n w])
  next
    case False
    then show ?thesis by (simp add: sizebuf_nat_grow.simps [of n w])
  qed
qed

lemma sizebuf_nat_ge [simp]: "w \<le> sizebuf_nat s w" "s \<le> sizebuf_nat s w"
  using sizebuf_nat_grow_bounds [of "if s = 0 then 1 else s" w]
  by (auto simp: sizebuf_nat_def max_def split: if_splits)

lemma push_bit_unat:
  "unat n < 2 ^ 63 \<Longrightarrow> unat (push_bit 1 (n :: 64 word)) = 2 * unat n"
  by (simp add: push_bit_eq_mult unat_word_ariths mult.commute)

lemma sizebuf_grow_nat:
  assumes "unat (w :: 64 word) \<le> 2 ^ 63" and "0 < unat n"
  shows "\<exists>m. sizebuf_grow n w = Some m \<and> unat m = sizebuf_nat_grow (unat n) (unat w)"
  using assms(2)
proof (induction "unat w - unat n" arbitrary: n rule: less_induct)
  case less
  show ?case
  proof (cases "n < w")
    case True
    then have nw: "unat n < unat w" by (simp add: word_less_nat_alt)
    with assms(1) have p: "unat (push_bit 1 n) = 2 * unat n" by (intro push_bit_unat) simp
    have "unat w - unat (push_bit 1 n) < unat w - unat n" "0 < unat (push_bit 1 n)"
      using p nw less.prems by linarith+
    then have "\<exists>m. sizebuf_grow (push_bit 1 n) w = Some m \<and>
        unat m = sizebuf_nat_grow (unat (push_bit 1 n)) (unat w)"
      by (rule less.hyps)
    then obtain m where "sizebuf_grow (push_bit 1 n) w = Some m"
      "unat m = sizebuf_nat_grow (2 * unat n) (unat w)"
      by (auto simp only: p)
    with True nw less.prems show ?thesis
      by (auto simp: sizebuf_grow.simps [of n w] sizebuf_nat_grow.simps [of "unat n"])
  next
    case False
    then show ?thesis
      by (simp add: sizebuf_grow.simps [of n w] sizebuf_nat_grow.simps [of "unat n"]
          word_less_nat_alt)
  qed
qed

lemma sizebuf_refines:
  assumes "unat w \<le> 2 ^ 63"
  shows "map_option unat (sizebuf s w) = Some (sizebuf_nat (unat s) (unat w))"
proof -
  define n where "n = (if s = 0 then 1 else s)"
  have n: "0 < unat n" "unat n = (if unat s = 0 then 1 else unat s)"
    by (auto simp: n_def unat_eq_zero unat_gt_0)
  from sizebuf_grow_nat [OF assms n(1)] obtain m where
    m: "sizebuf_grow n w = Some m" "unat m = sizebuf_nat_grow (unat n) (unat w)" by blast
  then have "sizebuf s w = (if m \<le> s then Some s else Some m)"
    by (simp add: sizebuf_def n_def)
  with m n show ?thesis
    by (auto simp: sizebuf_nat_def word_le_nat_alt max_def)
qed

section \<open>Strings out of packets\<close>

text \<open>
  \<open>decstr\<close> takes the string at \<open>*p\<close> and moves \<open>*p\<close> and \<open>*len\<close> past its NUL; the result
  \<open>None\<close> is the null pointer it returns when no NUL is left.
\<close>

definition decstr :: "string \<Rightarrow> cstring option \<times> string" where
  "decstr p = (let p2 = dropWhile (\<lambda>c. c \<noteq> NUL) p in
     if p2 = [] then (None, p) else (Some (takeWhile (\<lambda>c. c \<noteq> NUL) p), tl p2))"

lemma decstr_append [simp, cstrings]: "nul_free s \<Longrightarrow> decstr (s @ NUL # t) = (Some s, t)"
  by (induction s) (auto simp: decstr_def Let_def)

lemma decstr_None [cstrings]: "nul_free s \<Longrightarrow> decstr s = (None, s)"
  by (auto simp: decstr_def Let_def nul_free_def dropWhile_eq_Nil_conv)

lemma decstr_SomeD:
  "decstr p = (Some s, t) \<Longrightarrow> p = s @ NUL # t \<and> nul_free s"
proof (induction p arbitrary: s)
  case (Cons c p)
  then show ?case
    by (cases "c = NUL") (fastforce simp: decstr_def Let_def split: if_splits)+
qed (simp add: decstr_def)

lemma decstr_shorter: "decstr p = (Some s, t) \<Longrightarrow> length t < length p"
  by (auto dest: decstr_SomeD)

section \<open>Words of a line\<close>

text \<open>
  The inner loop of \<open>tokenize\<close>: the raw text of a word and the rest of the line. \<open>q\<close> is the
  flag of an open quote. The result \<open>None\<close> is a walk past the terminating NUL, where the C
  code reads memory that is not part of the string.
\<close>

fun tok_scan :: "bool \<Rightarrow> cstring \<Rightarrow> (cstring \<times> cstring) option" where
  "tok_scan q [] = (if q then None else Some ([], []))"
| "tok_scan q (c # p) =
     (if q then
        (if c = CHR 0x22 then map_option (\<lambda>(w, r). (c # w, r)) (tok_scan False p)
         else if c = CHR 0x5C then
           (case p of [] \<Rightarrow> None | d # p' \<Rightarrow> map_option (\<lambda>(w, r). (c # d # w, r)) (tok_scan q p'))
         else map_option (\<lambda>(w, r). (c # w, r)) (tok_scan q p))
      else
        (if c = CHR 0x22 then map_option (\<lambda>(w, r). (c # w, r)) (tok_scan True p)
         else if isspace c then Some ([], c # p)
         else if c = CHR 0x5C then
           (case p of [] \<Rightarrow> None | d # p' \<Rightarrow> map_option (\<lambda>(w, r). (c # d # w, r)) (tok_scan q p'))
         else map_option (\<lambda>(w, r). (c # w, r)) (tok_scan q p)))"

text \<open>The second loop, which removes the quotes and the escaping backslashes in place.\<close>

fun tok_unquote :: "cstring \<Rightarrow> cstring" where
  "tok_unquote [] = []"
| "tok_unquote (c # p) =
     (if c = CHR 0x5C then (case p of [] \<Rightarrow> [] | d # p' \<Rightarrow> d # tok_unquote p')
      else if c = CHR 0x22 then tok_unquote p
      else c # tok_unquote p)"

lemma tok_scan_length:
  "tok_scan q p = Some (w, r) \<Longrightarrow> length r \<le> length p"
  by (induction q p arbitrary: w r rule: tok_scan.induct)
     (fastforce split: if_splits list.splits)+

lemma tok_scan_shorter:
  assumes "tok_scan False (c # p) = Some (w, r)" "\<not> isspace c"
  shows "length r < length (c # p)"
proof -
  have "length r \<le> length p \<or> (\<exists>d p'. p = d # p' \<and> length r \<le> length p')"
    using assms by (auto split: if_splits list.splits dest!: tok_scan_length)
  then show ?thesis by auto
qed

function tokenize :: "cstring \<Rightarrow> cstring list option" where
  "tokenize src = (case dropWhile isspace src of
      [] \<Rightarrow> Some []
    | c # p \<Rightarrow> (case tok_scan False (c # p) of
        None \<Rightarrow> None
      | Some (w, r) \<Rightarrow> map_option ((#) (tok_unquote w)) (tokenize r)))"
  by pat_completeness auto
termination
proof (relation "measure length", goal_cases)
  case (2 src c p wr w r)
  then have "\<not> isspace c" using hd_dropWhile [of isspace src] by auto
  moreover have "length (c # p) \<le> length src" using length_dropWhile_le [of isspace src] 2(1) by simp
  ultimately show ?case using tok_scan_shorter [of c p w r] 2(2,3) by simp
qed simp

declare tokenize.simps [simp del] tok_scan.simps(2) [simp del] tok_unquote.simps(2) [simp del]

definition calen :: "cstring list \<Rightarrow> nat" where
  "calen a = length a"

definition hexdigit :: "char \<Rightarrow> int" where
  "hexdigit c =
     (if 48 \<le> ord c \<and> ord c \<le> 57 then ord c - 48
      else if 97 \<le> ord c \<and> ord c \<le> 102 then ord c - 97 + 10
      else if 65 \<le> ord c \<and> ord c \<le> 70 then ord c - 65 + 10
      else -1)"

definition atoo :: "cstring \<Rightarrow> int" where
  "atoo n = fst (strtoll n)"

subsection \<open>Writing words so that they read back\<close>

text \<open>Quoting a word: a backslash before each quote and backslash, and quotes around.\<close>

fun escape_word :: "cstring \<Rightarrow> cstring" where
  "escape_word [] = []"
| "escape_word (c # p) =
     (if c = CHR 0x22 \<or> c = CHR 0x5C then [CHR 0x5C, c] else [c]) @ escape_word p"

definition quote_word :: "cstring \<Rightarrow> cstring" where
  "quote_word w = CHR 0x22 # escape_word w @ [CHR 0x22]"

fun quote_line :: "cstring list \<Rightarrow> cstring" where
  "quote_line [] = []"
| "quote_line (w # ws) = quote_word w @ CHR 0x20 # quote_line ws"

lemma tok_scan_escape:
  "tok_scan True (escape_word w @ CHR 0x22 # p) =
     map_option (\<lambda>(v, r). (escape_word w @ CHR 0x22 # v, r)) (tok_scan False p)"
proof (induction w)
  case Nil
  show ?case by (simp add: tok_scan.simps)
next
  case (Cons c w)
  then show ?case
    by (auto simp: tok_scan.simps option.map_comp comp_def split_def)
qed

lemma tok_unquote_escape: "tok_unquote (escape_word w @ CHR 0x22 # p) = w @ tok_unquote p"
  by (induction w) (auto simp: tok_unquote.simps)

lemma tok_scan_quote_word:
  "tok_scan False (quote_word w @ CHR 0x20 # p) = Some (quote_word w, CHR 0x20 # p)"
  by (simp add: quote_word_def tok_scan.simps(2) tok_scan_escape isspace_def ord_def)

lemma tok_unquote_quote_word: "tok_unquote (quote_word w) = w"
  using tok_unquote_escape [of w "[]"] by (simp add: quote_word_def tok_unquote.simps(2))

lemma tokenize_skip: "isspace c \<Longrightarrow> tokenize (c # p) = tokenize p"
  by (simp add: tokenize.simps [of "c # p"] tokenize.simps [of p])

lemma tokenize_quote_word:
  "tokenize (quote_word w @ CHR 0x20 # p) = map_option ((#) w) (tokenize p)"
proof -
  obtain q where q: "quote_word w = CHR 0x22 # q" by (simp add: quote_word_def)
  have ns: "\<not> isspace (CHR 0x22)" by (simp add: isspace_def ord_def)
  have "dropWhile isspace (quote_word w @ CHR 0x20 # p) = quote_word w @ CHR 0x20 # p"
    by (simp add: q ns)
  then have "tokenize (quote_word w @ CHR 0x20 # p) =
      map_option ((#) (tok_unquote (quote_word w))) (tokenize (CHR 0x20 # p))"
    using tok_scan_quote_word [of w p]
    by (simp add: tokenize.simps [of "CHR 0x22 # q @ CHR 0x20 # p"] q ns)
  then show ?thesis
    by (simp add: tok_unquote_quote_word tokenize_skip isspace_def ord_def)
qed

lemma tokenize_quote_line: "tokenize (quote_line ws) = Some ws"
  by (induction ws) (simp_all add: tokenize_quote_word tokenize.simps [of "[]"])

lemma tokenize_space: "\<forall>c\<in>set s. isspace c \<Longrightarrow> tokenize s = Some []"
proof -
  assume "\<forall>c\<in>set s. isspace c"
  then have *: "dropWhile isspace s = []" by (simp add: dropWhile_eq_Nil_conv)
  show ?thesis by (subst tokenize.simps) (simp only: * list.case)
qed

section \<open>Properties\<close>

text \<open>Growing a buffer to a wanted size of at most \<open>2 ^ 63\<close> elements terminates, never shrinks
  it, gives at least the wanted size, and allocates less than twice that when it grows a buffer
  that had room for at least one element: repeated appends copy a linear amount.\<close>

lemma sizebuf_fits:
  assumes "unat w \<le> 2 ^ 63"
  shows "\<exists>n. sizebuf s w = Some n \<and> s \<le> n \<and> w \<le> n \<and> (n = s \<or> n = 1 \<or> unat n < 2 * unat w)"
proof -
  from sizebuf_refines [OF assms, of s] obtain n where
    n: "sizebuf s w = Some n" "unat n = sizebuf_nat (unat s) (unat w)" by auto
  have "n = s \<or> n = 1 \<or> unat n < 2 * unat w"
    using sizebuf_nat_grow_bounds [of "if unat s = 0 then 1 else unat s" "unat w"] n(2)
    by (auto simp: sizebuf_nat_def max_def word_unat_eq_iff split: if_splits)
  with n show ?thesis by (auto simp: word_le_nat_alt)
qed

lemma sizebuf_fits_witness: "\<exists>n. sizebuf 4 9 = Some n \<and> 9 \<le> n"
  using sizebuf_fits [of 9 4] by auto

text \<open>Words written with quotes and escapes, one blank after each, read back as the same
  words: \<open>tokenize\<close> undoes this quoting for words of any bytes, blanks, quotes and backslashes
  included, and for empty words.\<close>

lemma tokenize_reads_quoted: "tokenize (quote_line ws) = Some ws"
  by (rule tokenize_quote_line)

text \<open>\<open>tokenize\<close> walks past the end of its argument when a quote is left open, whatever
  plain text follows the quote.\<close>

lemma tokenize_overruns:
  assumes "\<forall>c\<in>set s. c \<noteq> CHR 0x22 \<and> c \<noteq> CHR 0x5C"
  shows "tokenize (quote_line ws @ CHR 0x22 # s) = None"
proof -
  have "tok_scan True s = None"
    using assms by (induction s) (auto simp: tok_scan.simps)
  then have "tokenize (CHR 0x22 # s) = None"
    by (simp add: tokenize.simps [of "CHR 0x22 # s"] tok_scan.simps(2) isspace_def ord_def)
  then show ?thesis by (induction ws) (simp_all add: tokenize_quote_word)
qed

lemma tokenize_overruns_witness: "tokenize (CHR 0x22 # ''ab'') = None"
  using tokenize_overruns [of "''ab''" "[]"] by simp

end
