(* ===== verification/Base64.thy ===== *)
theory Base64
  imports Prelude
begin

unbundle bit_operations_syntax

text \<open>
  The base64 codec of \<open>lib/utils.c\<close> (\<open>base64encode\<close>, \<open>base64decode\<close> and their two
  tables), which \<open>htextauth\<close> uses on the credentials of HTTP basic authentication, and the
  theorem that decoding undoes encoding on every byte string.
\<close>

definition base64set :: string where
  "base64set = ''ABCDEFGHIJKLMNOPQRSTUVWXYZabcdefghijklmnopqrstuvwxyz0123456789+/''"

definition base64rev :: "int list" where
  "base64rev = [
    -1, -1, -1, -1, -1, -1, -1, -1, -1, -1, -1, -1, -1, -1, -1, -1,
    -1, -1, -1, -1, -1, -1, -1, -1, -1, -1, -1, -1, -1, -1, -1, -1,
    -1, -1, -1, -1, -1, -1, -1, -1, -1, -1, -1, 62, -1, -1, -1, 63,
    52, 53, 54, 55, 56, 57, 58, 59, 60, 61, -1, -1, -1, -1, -1, -1,
    -1,  0,  1,  2,  3,  4,  5,  6,  7,  8,  9, 10, 11, 12, 13, 14,
    15, 16, 17, 18, 19, 20, 21, 22, 23, 24, 25, -1, -1, -1, -1, -1,
    -1, 26, 27, 28, 29, 30, 31, 32, 33, 34, 35, 36, 37, 38, 39, 40,
    41, 42, 43, 44, 45, 46, 47, 48, 49, 50, 51, -1, -1, -1, -1, -1,
    -1, -1, -1, -1, -1, -1, -1, -1, -1, -1, -1, -1, -1, -1, -1, -1,
    -1, -1, -1, -1, -1, -1, -1, -1, -1, -1, -1, -1, -1, -1, -1, -1,
    -1, -1, -1, -1, -1, -1, -1, -1, -1, -1, -1, -1, -1, -1, -1, -1,
    -1, -1, -1, -1, -1, -1, -1, -1, -1, -1, -1, -1, -1, -1, -1, -1,
    -1, -1, -1, -1, -1, -1, -1, -1, -1, -1, -1, -1, -1, -1, -1, -1,
    -1, -1, -1, -1, -1, -1, -1, -1, -1, -1, -1, -1, -1, -1, -1, -1,
    -1, -1, -1, -1, -1, -1, -1, -1, -1, -1, -1, -1, -1, -1, -1, -1,
    -1, -1, -1, -1, -1, -1, -1, -1, -1, -1, -1, -1, -1, -1, -1, -1]"

fun base64encode :: "string \<Rightarrow> cstring" where
  "base64encode [] = []"
| "base64encode [a] =
     [base64set ! nat (drop_bit 2 (ord a AND 0xfc)),
      base64set ! nat (push_bit 4 (ord a AND 0x03)), CHR ''='', CHR ''='']"
| "base64encode [a, b] =
     [base64set ! nat (drop_bit 2 (ord a AND 0xfc)),
      base64set ! nat (push_bit 4 (ord a AND 0x03) OR drop_bit 4 (ord b AND 0xf0)),
      base64set ! nat (push_bit 2 (ord b AND 0x0f)), CHR ''='']"
| "base64encode (a # b # c # s) =
     [base64set ! nat (drop_bit 2 (ord a AND 0xfc)),
      base64set ! nat (push_bit 4 (ord a AND 0x03) OR drop_bit 4 (ord b AND 0xf0)),
      base64set ! nat (push_bit 2 (ord b AND 0x0f) OR drop_bit 6 (ord c AND 0xc0)),
      base64set ! nat (ord c AND 0x3f)] @ base64encode s"

text \<open>
  The decoding loop. \<open>b\<close> and \<open>cur\<close> are the code's; \<open>cur\<close> is a \<open>char\<close>, so every
  assignment keeps eight bits. A byte of 128 and above is negative as a \<open>char\<close> and ends the
  loop as the NUL does.
\<close>

fun b64_loop :: "int \<Rightarrow> int \<Rightarrow> string \<Rightarrow> cstring \<Rightarrow> string option" where
  "b64_loop b cur buf [] = Some buf"
| "b64_loop b cur buf (c # data) =
     (if \<not> schar c > 0 then Some buf
      else if c = CHR ''='' then Some buf
      else if c = CHR 0x0A then b64_loop b cur buf data
      else let v = base64rev ! nat (ord c) in
        if v = -1 then None
        else if b - 6 \<le> 0 then
          b64_loop (b + 2) (take_bit 8 (push_bit (nat (b + 2)) v))
            (buf @ [chr (cur OR drop_bit (nat (6 - b)) v)]) data
        else b64_loop (b - 6) (take_bit 8 (cur OR push_bit (nat (b - 6)) v)) buf data)"

definition base64decode :: "cstring \<Rightarrow> string option" where
  "base64decode data = b64_loop 8 0 [] data"

declare b64_loop.simps(2) [simp del]

section \<open>Bit fields as quotients and remainders\<close>

lemma or_eq_plus:
  fixes p q :: int
  assumes "take_bit n q = q"
  shows "push_bit n p OR q = push_bit n p + q"
proof -
  have "push_bit n p AND q = 0"
  proof (rule bit_eqI)
    fix m
    have "bit q m \<longrightarrow> m < n" by (metis assms bit_take_bit_iff)
    then show "bit (push_bit n p AND q) m = bit 0 m"
      by (auto simp: bit_simps)
  qed
  then show ?thesis by (metis add.left_neutral plus_and_or)
qed

lemma or_fields:
  fixes p q :: int
  assumes "0 \<le> q" "q < 2 ^ n"
  shows "p * 2 ^ n OR q = p * 2 ^ n + q"
  using or_eq_plus [of n q p] assms by (simp add: push_bit_eq_mult take_bit_int_eq_self)

lemma mask_fields:
  fixes x :: int
  shows "x AND 0x03 = x mod 4" "x AND 0x0f = x mod 16" "x AND 0x3f = x mod 64"
  using take_bit_eq_mask [of 2 x] take_bit_eq_mask [of 4 x] take_bit_eq_mask [of 6 x]
  by (simp_all add: mask_numeral take_bit_eq_mod)

lemma high_fields:
  fixes x :: int
  assumes "0 \<le> x" "x < 256"
  shows "drop_bit 2 (x AND 0xfc) = x div 4" "drop_bit 4 (x AND 0xf0) = x div 16"
    "drop_bit 6 (x AND 0xc0) = x div 64"
proof -
  have a: "drop_bit 2 (x AND 0xfc) = drop_bit 2 x AND 0x3f"
    "drop_bit 4 (x AND 0xf0) = drop_bit 4 x AND 0x0f"
    "drop_bit 6 (x AND 0xc0) = drop_bit 6 x AND 0x03" by simp_all
  have d: "drop_bit 2 x = x div 4" "drop_bit 4 x = x div 16" "drop_bit 6 x = x div 64"
    unfolding drop_bit_eq_div by simp_all
  have *: "drop_bit 2 (x AND 0xfc) = x div 4 mod 64"
    "drop_bit 4 (x AND 0xf0) = x div 16 mod 16" "drop_bit 6 (x AND 0xc0) = x div 64 mod 4"
    unfolding a mask_fields d by (rule refl)+
  have "x div 4 mod 64 = x div 4" "x div 16 mod 16 = x div 16" "x div 64 mod 4 = x div 64"
    using assms by simp_all
  then show "drop_bit 2 (x AND 0xfc) = x div 4" "drop_bit 4 (x AND 0xf0) = x div 16"
    "drop_bit 6 (x AND 0xc0) = x div 64" unfolding * .
qed

lemma field_ops:
  "drop_bit 2 (ord a AND 0xfc) = ord a div 4"
  "push_bit 4 (ord a AND 0x03) = ord a mod 4 * 2 ^ 4"
  "drop_bit 4 (ord a AND 0xf0) = ord a div 16"
  "push_bit 2 (ord a AND 0x0f) = ord a mod 16 * 2 ^ 2"
  "drop_bit 6 (ord a AND 0xc0) = ord a div 64"
  "ord a AND 0x3f = ord a mod 64"
  by (simp_all only: high_fields ord_nonneg ord_less mask_fields push_bit_eq_mult)

lemma quotients:
  fixes v :: int
  assumes "0 \<le> v"
  shows "0 \<le> v div 4" "0 \<le> v div 16" "0 \<le> v div 64"
    "v < 64 \<Longrightarrow> v div 16 < 2 ^ 2" "v < 64 \<Longrightarrow> v div 4 < 2 ^ 4"
    "v < 256 \<Longrightarrow> v div 16 < 2 ^ 4" "v < 256 \<Longrightarrow> v div 64 < 2 ^ 2"
  using assms by simp_all

section \<open>The two tables are inverse\<close>

definition is_sextet :: "char \<Rightarrow> int \<Rightarrow> bool" where
  "is_sextet c v \<longleftrightarrow> schar c > 0 \<and> c \<noteq> CHR ''='' \<and> c \<noteq> CHR 0x0A \<and> v \<noteq> -1 \<and>
     base64rev ! nat (ord c) = v"

text \<open>The decoding table has the runs 0 to 25 at `A', 26 to 51 at `a', 52 to 61 at `0', and `+' and `/'.\<close>

lemma table_run:
  assumes "take k (drop i xs) = map (\<lambda>j. a + int j) [0..<k]" "j < k"
  shows "xs ! (i + j) = a + int j"
proof -
  from assms(1) have "length (take k (drop i xs)) = k" by simp
  then have "i + j < length xs" using assms(2) by simp
  then have "take k (drop i xs) ! j = xs ! (i + j)" using assms(2) by simp
  with assms show ?thesis by simp
qed

lemma table_runs:
  "take 26 (drop 65 base64rev) = map (\<lambda>j. 0 + int j) [0..<26]"
  "take 26 (drop 97 base64rev) = map (\<lambda>j. 26 + int j) [0..<26]"
  "take 10 (drop 48 base64rev) = map (\<lambda>j. 52 + int j) [0..<10]"
  by code_simp+

lemma sextet_chars:
  "map ord base64set = map int ([65..<91] @ [97..<123] @ [48..<58] @ [43, 47])"
  by (simp add: base64set_def upt_rec ord_def)

lemma sextet_ord:
  assumes "n < 64"
  shows "ord (base64set ! n) = int (if n < 26 then 65 + n else if n < 52 then 97 + (n - 26)
    else if n < 62 then 48 + (n - 52) else if n = 62 then 43 else 47)"
proof -
  have "length base64set = 64" by (simp add: base64set_def)
  with assms have "ord (base64set ! n) = map ord base64set ! n" by simp
  also have "\<dots> = int (([65..<91] @ [97..<123] @ [48..<58] @ [43, 47]) ! n)"
    unfolding sextet_chars using assms by (intro nth_map) simp
  also have "([65..<91] @ [97..<123] @ [48..<58] @ [43, 47]) ! n =
    (if n < 26 then 65 + n else if n < 52 then 97 + (n - 26)
     else if n < 62 then 48 + (n - 52) else if n = 62 then 43 else 47)"
    using assms by (auto simp: nth_append nth_Cons' simp del: upt_rec_numeral)
  finally show ?thesis .
qed

lemma sextet_nat:
  assumes "n < 64"
  shows "is_sextet (base64set ! n) (int n)"
proof -
  let ?c = "base64set ! n"
  have o: "0 < ord ?c \<and> ord ?c < 128 \<and> ord ?c \<noteq> 61 \<and> ord ?c \<noteq> 10"
    unfolding sextet_ord [OF assms] by auto
  have r: "base64rev ! 43 = 62" "base64rev ! 47 = 63" by (simp_all add: base64rev_def)
  have "base64rev ! nat (ord ?c) = int n"
  proof (cases "n < 62")
    case True
    then consider "n < 26" | "26 \<le> n" "n < 52" | "52 \<le> n" "n < 62" by linarith
    then show ?thesis
    proof cases
      case 1
      then show ?thesis using table_run [OF table_runs(1), of n] by (simp add: sextet_ord nat_add_distrib)
    next
      case 2
      then show ?thesis using table_run [OF table_runs(2), of "n - 26"] by (simp add: sextet_ord nat_add_distrib)
    next
      case 3
      then show ?thesis using table_run [OF table_runs(3), of "n - 52"]
        by (simp add: sextet_ord nat_diff_distrib')
    qed
  next
    case False
    then have "n = 62 \<or> n = 63" using assms by arith
    then show ?thesis using r by (auto simp: sextet_ord)
  qed
  moreover have "ord (CHR ''='') = 61" "ord (CHR 0x0A) = 10" by (simp_all add: ord_def)
  ultimately show ?thesis using o by (auto simp: is_sextet_def schar_def)
qed

lemma sextet:
  assumes "0 \<le> v" "v < 64"
  shows "is_sextet (base64set ! nat v) v"
  using sextet_nat [of "nat v"] assms by simp

lemma b64_loop_sextet:
  assumes "is_sextet c v"
  shows "b64_loop b cur buf (c # data) =
    (if b - 6 \<le> 0 then
       b64_loop (b + 2) (take_bit 8 (push_bit (nat (b + 2)) v))
         (buf @ [chr (cur OR drop_bit (nat (6 - b)) v)]) data
     else b64_loop (b - 6) (take_bit 8 (cur OR push_bit (nat (b - 6)) v)) buf data)"
  using assms by (simp add: is_sextet_def Let_def b64_loop.simps)

text \<open>The four states of the loop between two groups, one lemma for each sextet read.\<close>

lemma b64_first:
  assumes "is_sextet c v" "0 \<le> v" "v < 64"
  shows "b64_loop 8 0 buf (c # s) = b64_loop 2 (v * 2 ^ 2) buf s"
  using assms by (simp add: b64_loop_sextet push_bit_eq_mult take_bit_eq_mod)

lemma b64_second:
  assumes "is_sextet c v" "0 \<le> v" "v < 64"
  shows "b64_loop 2 (x * 2 ^ 2) buf (c # s) =
    b64_loop 4 (v mod 16 * 2 ^ 4) (buf @ [chr (x * 2 ^ 2 + v div 16)]) s"
proof -
  have o: "x * 2 ^ 2 OR v div 16 = x * 2 ^ 2 + v div 16"
    using assms(2,3) by (intro or_fields quotients)
  have d: "drop_bit 4 v = v div 16" by (simp only: drop_bit_eq_div) simp
  have t: "take_bit 8 (push_bit 4 v) = v mod 16 * 2 ^ 4"
    using mult_mod_right [of 16 v 16] unfolding take_bit_eq_mod push_bit_eq_mult
    by (simp add: mult.commute)
  show ?thesis
    unfolding b64_loop_sextet [OF assms(1)] using o t by (simp add: d)
qed

lemma b64_third:
  assumes "is_sextet c v" "0 \<le> v" "v < 64"
  shows "b64_loop 4 (y * 2 ^ 4) buf (c # s) =
    b64_loop 6 (v mod 4 * 2 ^ 6) (buf @ [chr (y * 2 ^ 4 + v div 4)]) s"
proof -
  have o: "y * 2 ^ 4 OR v div 4 = y * 2 ^ 4 + v div 4"
    using assms(2,3) by (intro or_fields quotients)
  have d: "drop_bit 2 v = v div 4" by (simp only: drop_bit_eq_div) simp
  have t: "take_bit 8 (push_bit 6 v) = v mod 4 * 2 ^ 6"
    using mult_mod_right [of 64 v 4] unfolding take_bit_eq_mod push_bit_eq_mult
    by (simp add: mult.commute)
  show ?thesis
    unfolding b64_loop_sextet [OF assms(1)] using o t by (simp add: d)
qed

lemma b64_fourth:
  assumes "is_sextet c v" "0 \<le> v" "v < 64"
  shows "b64_loop 6 (z * 2 ^ 6) buf (c # s) = b64_loop 8 0 (buf @ [chr (z * 2 ^ 6 + v)]) s"
proof -
  have "z * 2 ^ 6 OR v = z * 2 ^ 6 + v" using assms by (intro or_fields) auto
  then show ?thesis
    using assms by (simp add: b64_loop_sextet push_bit_eq_mult take_bit_eq_mod)
qed

lemma b64_loop_pad: "b64_loop b cur buf (CHR ''='' # s) = Some buf"
  by (simp add: b64_loop.simps)

lemmas b64_reads = b64_first [OF sextet] b64_second [OF sextet] b64_third [OF sextet]
  b64_fourth [OF sextet] b64_loop_pad

lemma byte_ranges:
  "0 \<le> ord a div 4" "ord a div 4 < 64"
  "0 \<le> ord a mod 4 * 2 ^ 4 + ord b div 16" "ord a mod 4 * 2 ^ 4 + ord b div 16 < 64"
  "0 \<le> ord b mod 16 * 2 ^ 2 + ord c div 64" "ord b mod 16 * 2 ^ 2 + ord c div 64 < 64"
  "0 \<le> ord a mod 4 * 2 ^ 4" "ord a mod 4 * 2 ^ 4 < 64"
  "0 \<le> ord b mod 16 * 2 ^ 2" "ord b mod 16 * 2 ^ 2 < 64"
  "0 \<le> ord c mod 64" "ord c mod 64 < 64"
  using ord_less [of a] ord_less [of b] ord_less [of c] ord_nonneg [of a] ord_nonneg [of b]
    ord_nonneg [of c]
  by (simp_all, linarith+)

lemma byte_joins:
  "ord a mod 4 * 2 ^ 4 OR ord b div 16 = ord a mod 4 * 2 ^ 4 + ord b div 16"
  "ord b mod 16 * 2 ^ 2 OR ord c div 64 = ord b mod 16 * 2 ^ 2 + ord c div 64"
  by (simp_all only: or_fields quotients ord_nonneg ord_less)

lemma byte_splits:
  "chr (ord a div 4 * 2 ^ 2 + (ord a mod 4 * 2 ^ 4 + ord b div 16) div 16) = a"
  "chr (ord a div 4 * 2 ^ 2 + ord a mod 4 * 2 ^ 4 div 16) = a"
  "chr ((ord a mod 4 * 2 ^ 4 + ord b div 16) mod 16 * 2 ^ 4 + (ord b mod 16 * 2 ^ 2 + ord c div 64) div 4) = b"
  "chr ((ord a mod 4 * 2 ^ 4 + ord b div 16) mod 16 * 2 ^ 4 + ord b mod 16 * 2 ^ 2 div 4) = b"
  "chr ((ord b mod 16 * 2 ^ 2 + ord c div 64) mod 4 * 2 ^ 6 + ord c mod 64) = c"
proof -
  have b: "ord b div 16 < 16" "0 \<le> ord b div 16" and c: "ord c div 64 < 4" "0 \<le> ord c div 64"
    using quotients [of "ord b"] quotients [of "ord c"] by simp_all
  have "ord a div 4 * 2 ^ 2 + (ord a mod 4 * 2 ^ 4 + ord b div 16) div 16 = ord a"
    using b by simp
  then show "chr (ord a div 4 * 2 ^ 2 + (ord a mod 4 * 2 ^ 4 + ord b div 16) div 16) = a" by simp
  show "chr (ord a div 4 * 2 ^ 2 + ord a mod 4 * 2 ^ 4 div 16) = a" by simp
  have x: "(ord a mod 4 * 2 ^ 4 + ord b div 16) mod 16 = ord b div 16"
    using b by simp
  have "ord b div 16 * 2 ^ 4 + (ord b mod 16 * 2 ^ 2 + ord c div 64) div 4 = ord b"
    using c by simp
  then show "chr ((ord a mod 4 * 2 ^ 4 + ord b div 16) mod 16 * 2 ^ 4 +
      (ord b mod 16 * 2 ^ 2 + ord c div 64) div 4) = b"
    by (simp only: x chr_ord)
  have "ord b div 16 * 2 ^ 4 + ord b mod 16 * 2 ^ 2 div 4 = ord b" by simp
  then show "chr ((ord a mod 4 * 2 ^ 4 + ord b div 16) mod 16 * 2 ^ 4 + ord b mod 16 * 2 ^ 2 div 4) = b"
    by (simp only: x chr_ord)
  have "(ord b mod 16 * 2 ^ 2 + ord c div 64) mod 4 = ord c div 64" using c by simp
  then show "chr ((ord b mod 16 * 2 ^ 2 + ord c div 64) mod 4 * 2 ^ 6 + ord c mod 64) = c" by simp
qed

lemma b64_loop_encode: "b64_loop 8 0 buf (base64encode s) = Some (buf @ s)"
proof (induction s arbitrary: buf rule: base64encode.induct)
  case (2 a)
  show ?case
    by (simp only: base64encode.simps field_ops b64_reads byte_ranges byte_splits)
next
  case (3 a b)
  show ?case
    by (simp only: base64encode.simps byte_joins field_ops b64_reads byte_ranges byte_splits)
       simp
next
  case (4 a b c s)
  then show ?case
    by (simp only: base64encode.simps byte_joins field_ops b64_reads byte_ranges byte_splits
        append_Cons append_Nil)
       simp
qed simp

section \<open>Properties\<close>

text \<open>C35. Decoding undoes encoding on every byte string: whatever bytes \<open>base64encode\<close> is given,
  \<open>base64decode\<close> of its output returns exactly those bytes and their number.\<close>

theorem base64_roundtrip: "base64decode (base64encode s) = Some s"
  by (simp add: base64decode_def b64_loop_encode)

end
