(* ===== verification/Btree.thy ===== *)
theory Btree
  imports Prelude
begin

text \<open>
  The height-balanced binary trees of \<open>lib/utils.c\<close> (\<open>struct btree\<close>, \<open>bbtreeput\<close>,
  \<open>bbtreedel\<close>, \<open>btreeget\<close> and the rotations), over an arbitrary comparison function, as the
  code has them: \<open>ssl-gnutls.c\<close> keeps its index of TLS sessions in one.

  A pointer to a tree is a value of type \<open>'a btree\<close>; following a null pointer is the
  result \<open>None\<close>. The comparison is the interface \<open>btcmp\<close>, the tree as an ordered set is
  the interface \<open>keyed_set\<close>.
\<close>

section \<open>Data and operations\<close>

datatype 'a btree =
    BNil
  | BNode "'a btree" nat 'a "'a btree" \<comment> \<open>\<open>l\<close>, \<open>h\<close>, \<open>d\<close>, \<open>r\<close>\<close>

fun btheight :: "'a btree \<Rightarrow> nat" where
  "btheight BNil = 0"
| "btheight (BNode l h d r) = h"

text \<open>Storing both children and then \<open>btsetheight\<close>.\<close>

definition btsetheight :: "'a btree \<Rightarrow> 'a \<Rightarrow> 'a btree \<Rightarrow> 'a btree" where
  "btsetheight l d r = BNode l (max (btheight l) (btheight r) + 1) d r"

fun bbtrr :: "'a btree \<Rightarrow> 'a btree option" and bbtrl :: "'a btree \<Rightarrow> 'a btree option" where
  "bbtrr (BNode (BNode ll lh ld lr) h d r) =
     (case (if btheight lr > btheight ll then bbtrl (BNode ll lh ld lr)
            else Some (BNode ll lh ld lr)) of
        Some (BNode ll' _ ld' m) \<Rightarrow> Some (btsetheight ll' ld' (btsetheight m d r))
      | _ \<Rightarrow> None)"
| "bbtrr _ = None"
| "bbtrl (BNode l h d (BNode rl rh rd rr)) =
     (case (if btheight rl > btheight rr then bbtrr (BNode rl rh rd rr)
            else Some (BNode rl rh rd rr)) of
        Some (BNode m _ rd' rr') \<Rightarrow> Some (btsetheight (btsetheight l d m) rd' rr')
      | _ \<Rightarrow> None)"
| "bbtrl _ = None"

text \<open>The tail of \<open>bbtreeput\<close> and \<open>bbtreedel\<close>: the height, then at most one rotation each way.\<close>

definition btfix :: "'a btree \<Rightarrow> 'a btree option" where
  "btfix t = (case t of BNil \<Rightarrow> Some BNil | BNode l _ d r \<Rightarrow>
     (case (if btheight l > btheight r + 1 then bbtrr (btsetheight l d r)
            else Some (btsetheight l d r)) of
        Some (BNode l1 h1 d1 r1) \<Rightarrow>
          (if btheight r1 > btheight l1 + 1 then bbtrl (BNode l1 h1 d1 r1)
           else Some (BNode l1 h1 d1 r1))
      | _ \<Rightarrow> None))"

fun bbtreeput :: "('a \<Rightarrow> 'a \<Rightarrow> int) \<Rightarrow> 'a \<Rightarrow> 'a btree \<Rightarrow> ('a btree \<times> bool) option" where
  "bbtreeput cmp item BNil = Some (BNode BNil 1 item BNil, True)"
| "bbtreeput cmp item (BNode l h d r) =
     (if cmp item d < 0 then
        (case bbtreeput cmp item l of None \<Rightarrow> None | Some (l', c) \<Rightarrow>
           map_option (\<lambda>t. (t, c)) (btfix (BNode l' h d r)))
      else if cmp item d > 0 then
        (case bbtreeput cmp item r of None \<Rightarrow> None | Some (r', c) \<Rightarrow>
           map_option (\<lambda>t. (t, c)) (btfix (BNode l h d r')))
      else Some (BNode l h d r, False))"

text \<open>
  Unlinking the leftmost node \<open>s\<close> of the right subtree: the loop of \<open>bbtreedel\<close> that
  walks the left links, and the assignment \<open>*sp = (*sp)->r\<close>. The nodes on the way keep the
  heights they had.
\<close>

fun unlink_min :: "'a btree \<Rightarrow> ('a \<times> 'a btree) option" where
  "unlink_min BNil = None"
| "unlink_min (BNode l h d r) =
     (case l of BNil \<Rightarrow> Some (d, r)
      | BNode _ _ _ _ \<Rightarrow> map_option (\<lambda>(m, l'). (m, BNode l' h d r)) (unlink_min l))"

fun bbtreedel :: "('a \<Rightarrow> 'a \<Rightarrow> int) \<Rightarrow> 'a \<Rightarrow> 'a btree \<Rightarrow> ('a btree \<times> bool) option" where
  "bbtreedel cmp item BNil = Some (BNil, False)"
| "bbtreedel cmp item (BNode l h d r) =
     (if cmp item d < 0 then
        (case bbtreedel cmp item l of None \<Rightarrow> None | Some (l', c) \<Rightarrow>
           map_option (\<lambda>t. (t, c)) (btfix (BNode l' h d r)))
      else if cmp item d > 0 then
        (case bbtreedel cmp item r of None \<Rightarrow> None | Some (r', c) \<Rightarrow>
           map_option (\<lambda>t. (t, c)) (btfix (BNode l h d r')))
      else if r \<noteq> BNil \<and> l \<noteq> BNil then
        (case unlink_min r of None \<Rightarrow> None | Some (m, r') \<Rightarrow>
           map_option (\<lambda>t. (t, True)) (btfix (BNode l h m r')))
      else if l \<noteq> BNil then map_option (\<lambda>t. (t, True)) (btfix l)
      else if r \<noteq> BNil then map_option (\<lambda>t. (t, True)) (btfix r)
      else Some (BNil, True))"

fun btreeget :: "'a btree \<Rightarrow> 'a \<Rightarrow> ('a \<Rightarrow> 'a \<Rightarrow> int) \<Rightarrow> 'a option" where
  "btreeget BNil key cmp = None"
| "btreeget (BNode l h d r) key cmp =
     (if cmp key d < 0 then btreeget l key cmp
      else if cmp key d > 0 then btreeget r key cmp
      else Some d)"

text \<open>\<open>freebtree\<close> visits the data in post-order, handing each to \<open>ffunc\<close>.\<close>

fun freebtree :: "'a btree \<Rightarrow> 'a list" where
  "freebtree BNil = []"
| "freebtree (BNode l h d r) = freebtree l @ freebtree r @ [d]"

text \<open>The comparison used when the caller gives none: the addresses themselves.\<close>

definition ptrcmp :: "64 word \<Rightarrow> 64 word \<Rightarrow> int" where
  "ptrcmp a b = (if a < b then -1 else if a > b then 1 else 0)"

section \<open>Balance\<close>

fun height :: "'a btree \<Rightarrow> nat" where
  "height BNil = 0"
| "height (BNode l h d r) = max (height l) (height r) + 1"

fun avl :: "'a btree \<Rightarrow> bool" where
  "avl BNil \<longleftrightarrow> True"
| "avl (BNode l h d r) \<longleftrightarrow> avl l \<and> avl r \<and> h = max (btheight l) (btheight r) + 1 \<and>
     btheight l \<le> btheight r + 1 \<and> btheight r \<le> btheight l + 1"

lemma avl_height: "avl t \<Longrightarrow> btheight t = height t"
  by (induction t) auto

fun inorder :: "'a btree \<Rightarrow> 'a list" where
  "inorder BNil = []"
| "inorder (BNode l h d r) = inorder l @ d # inorder r"

lemma btheight_pos: "btheight x < btheight t \<Longrightarrow> \<exists>l h d r. t = BNode l h d r"
  by (cases t) auto

lemma btheight_btsetheight [simp]:
  "btheight (btsetheight l d r) = max (btheight l) (btheight r) + 1"
  by (simp add: btsetheight_def)

lemma inorder_btsetheight [simp]: "inorder (btsetheight l d r) = inorder l @ d # inorder r"
  by (simp add: btsetheight_def)

lemma avl_btsetheight [simp]:
  "avl (btsetheight l d r) \<longleftrightarrow> avl l \<and> avl r \<and>
     btheight l \<le> btheight r + 1 \<and> btheight r \<le> btheight l + 1"
  by (auto simp: btsetheight_def)

text \<open>
  A rotation of a tree that leans to one side makes it lean to the other, at the same
  height: the reason why rotating a child first, as \<open>bbtrr\<close> and \<open>bbtrl\<close> do, keeps the balance.
\<close>

lemma lean_flip:
  "avl t \<Longrightarrow> (\<forall>l h d r. t = BNode l h d r \<longrightarrow> btheight r < btheight l \<longrightarrow>
      (\<exists>l' d' r'. bbtrr t = Some (BNode l' h d' r') \<and> avl (BNode l' h d' r') \<and>
         btheight l' + 1 = btheight r'))"
  "avl t \<Longrightarrow> (\<forall>l h d r. t = BNode l h d r \<longrightarrow> btheight l < btheight r \<longrightarrow>
      (\<exists>l' d' r'. bbtrl t = Some (BNode l' h d' r') \<and> avl (BNode l' h d' r') \<and>
         btheight r' + 1 = btheight l'))"
proof (induction t and t rule: bbtrr_bbtrl.induct)
  case (1 ll lh ld lr h d r)
  show ?case
  proof (cases "btheight lr > btheight ll")
    case True
    with 1 show ?thesis by (auto simp: btsetheight_def)
  next
    case False
    with 1 show ?thesis by (auto simp: btsetheight_def)
  qed
next
  case (3 l h d rl rh rd rr)
  show ?case
  proof (cases "btheight rl > btheight rr")
    case True
    with 3 show ?thesis by (auto simp: btsetheight_def)
  next
    case False
    with 3 show ?thesis by (auto simp: btsetheight_def)
  qed
qed auto

text \<open>One rotation step at the top, on a tree whose one side has grown by two.\<close>

lemma bbtrr_balances:
  assumes "avl l" "avl r" "btheight l = btheight r + 2"
  shows "\<exists>t. bbtrr (btsetheight l d r) = Some t \<and> avl t \<and> t \<noteq> BNil \<and>
    (btheight t = btheight l \<or> btheight t = btheight l + 1)"
proof -
  obtain ll lh ld lr where l: "l = BNode ll lh ld lr" using assms(3) by (cases l) auto
  show ?thesis
  proof (cases "btheight lr > btheight ll")
    case True
    with assms(1) l lean_flip(2) [of l] obtain l' d' r' where
      "bbtrl l = Some (BNode l' lh d' r')" "avl (BNode l' lh d' r')" "btheight r' + 1 = btheight l'"
      by blast
    with True assms l show ?thesis by (auto simp: btsetheight_def)
  next
    case False
    with assms l show ?thesis by (auto simp: btsetheight_def)
  qed
qed

lemma bbtrl_balances:
  assumes "avl l" "avl r" "btheight r = btheight l + 2"
  shows "\<exists>t. bbtrl (btsetheight l d r) = Some t \<and> avl t \<and> t \<noteq> BNil \<and>
    (btheight t = btheight r \<or> btheight t = btheight r + 1)"
proof -
  obtain rl rh rd rr where r: "r = BNode rl rh rd rr" using assms(3) by (cases r) auto
  show ?thesis
  proof (cases "btheight rl > btheight rr")
    case True
    with assms(2) r lean_flip(1) [of r] obtain l' d' r' where
      "bbtrr r = Some (BNode l' rh d' r')" "avl (BNode l' rh d' r')" "btheight l' + 1 = btheight r'"
      by blast
    with True assms r show ?thesis by (auto simp: btsetheight_def)
  next
    case False
    with assms r show ?thesis by (auto simp: btsetheight_def)
  qed
qed

lemma avl_not_lopsided:
  "avl (BNode l h d r) \<Longrightarrow> \<not> btheight r > btheight l + 1 \<and> \<not> btheight l > btheight r + 1"
  by auto

lemma btfix_balances:
  assumes "avl l" "avl r" "btheight l \<le> btheight r + 2" "btheight r \<le> btheight l + 2"
  shows "\<exists>t. btfix (BNode l h d r) = Some t \<and> avl t \<and>
    (btheight t = max (btheight l) (btheight r) + 1 \<or>
     btheight t = max (btheight l) (btheight r) \<and>
       (btheight l = btheight r + 2 \<or> btheight r = btheight l + 2))"
proof -
  consider "btheight l = btheight r + 2" | "btheight r = btheight l + 2"
    | "btheight l \<le> btheight r + 1" "btheight r \<le> btheight l + 1"
    using assms by linarith
  then show ?thesis
  proof cases
    case 1
    with bbtrr_balances [OF assms(1,2), of d] obtain t where
      t: "bbtrr (btsetheight l d r) = Some t" "avl t" "t \<noteq> BNil"
      "btheight t = btheight l \<or> btheight t = btheight l + 1" by blast
    obtain l1 h1 d1 r1 where n: "t = BNode l1 h1 d1 r1" using t(3) by (cases t) auto
    have "\<not> btheight r1 > btheight l1 + 1" using avl_not_lopsided [of l1 h1 d1 r1] t(2) n by simp
    with 1 t n show ?thesis by (auto simp: btfix_def)
  next
    case 2
    with bbtrl_balances [OF assms(1,2), of d] obtain t where
      "bbtrl (btsetheight l d r) = Some t" "avl t"
      "btheight t = btheight r \<or> btheight t = btheight r + 1" by blast
    with 2 show ?thesis by (auto simp: btfix_def btsetheight_def)
  next
    case 3
    with assms show ?thesis by (auto simp: btfix_def btsetheight_def)
  qed
qed

lemma bbtreeput_avl:
  "avl t \<Longrightarrow> \<exists>t' c. bbtreeput cmp x t = Some (t', c) \<and> avl t' \<and>
     btheight t \<le> btheight t' \<and> btheight t' \<le> btheight t + 1"
proof (induction t)
  case BNil
  show ?case by auto
next
  case (BNode l h d r)
  have lr: "avl l" "avl r" and h: "h = max (btheight l) (btheight r) + 1"
    and b: "btheight l \<le> btheight r + 1" "btheight r \<le> btheight l + 1"
    using BNode.prems by auto
  consider "cmp x d < 0" | "cmp x d > 0" | "cmp x d = 0" by linarith
  then show ?case
  proof cases
    case 1
    obtain l' c where l': "bbtreeput cmp x l = Some (l', c)" "avl l'"
      "btheight l \<le> btheight l'" "btheight l' \<le> btheight l + 1"
      using BNode.IH(1) lr(1) by blast
    with b lr btfix_balances [of l' r h d] obtain t where
      "btfix (BNode l' h d r) = Some t" "avl t"
      "btheight t = max (btheight l') (btheight r) + 1 \<or>
       btheight t = max (btheight l') (btheight r) \<and>
         (btheight l' = btheight r + 2 \<or> btheight r = btheight l' + 2)"
      by auto
    with 1 l' h b show ?thesis by auto
  next
    case 2
    obtain r' c where r': "bbtreeput cmp x r = Some (r', c)" "avl r'"
      "btheight r \<le> btheight r'" "btheight r' \<le> btheight r + 1"
      using BNode.IH(2) lr(2) by blast
    with b lr btfix_balances [of l r' h d] obtain t where
      "btfix (BNode l h d r') = Some t" "avl t"
      "btheight t = max (btheight l) (btheight r') + 1 \<or>
       btheight t = max (btheight l) (btheight r') \<and>
         (btheight l = btheight r' + 2 \<or> btheight r' = btheight l + 2)"
      by auto
    with 2 r' h b show ?thesis by auto
  next
    case 3
    with BNode.prems show ?thesis by auto
  qed
qed

section \<open>Order\<close>

text \<open>
  Rotations and \<open>btfix\<close> return a tree, whatever the stored heights say, and keep the
  in-order sequence.
\<close>

lemma rotations_inorder:
  "bbtrr t = Some t' \<Longrightarrow> inorder t' = inorder t"
  "bbtrl t = Some t' \<Longrightarrow> inorder t' = inorder t"
proof (induction t and t arbitrary: t' and t' rule: bbtrr_bbtrl.induct)
  case (1 ll lh ld lr h d r)
  then show ?case by (fastforce split: if_splits option.splits btree.splits)
next
  case (3 l h d rl rh rd rr)
  then show ?case by (fastforce split: if_splits option.splits btree.splits)
qed auto

lemma rotations_total:
  "\<forall>l h d r. t = BNode l h d r \<longrightarrow> l \<noteq> BNil \<longrightarrow> (\<exists>l' h' d' r'. bbtrr t = Some (BNode l' h' d' r'))"
  "\<forall>l h d r. t = BNode l h d r \<longrightarrow> r \<noteq> BNil \<longrightarrow> (\<exists>l' h' d' r'. bbtrl t = Some (BNode l' h' d' r'))"
proof (induction t and t rule: bbtrr_bbtrl.induct)
  case (1 ll lh ld lr h d r)
  have "lr \<noteq> BNil" if "btheight lr > btheight ll" using that by auto
  with 1 show ?case by (fastforce simp: btsetheight_def)
next
  case (3 l h d rl rh rd rr)
  have "rl \<noteq> BNil" if "btheight rl > btheight rr" using that by auto
  with 3 show ?case by (fastforce simp: btsetheight_def)
qed auto

lemma btfix_inorder: "btfix t = Some t' \<Longrightarrow> inorder t' = inorder t"
  by (auto simp: btfix_def split: btree.splits option.splits if_splits
      dest!: rotations_inorder) (auto simp: btsetheight_def)

lemma btfix_total: "\<exists>t'. btfix t = Some t'"
proof (cases t)
  case (BNode l h d r)
  have "\<exists>l1 h1 d1 r1. (if btheight l > btheight r + 1 then bbtrr (btsetheight l d r)
      else Some (btsetheight l d r)) = Some (BNode l1 h1 d1 r1)"
    using rotations_total(1) [of "btsetheight l d r"] by (cases l) (auto simp: btsetheight_def)
  then obtain l1 h1 d1 r1 where
    *: "(if btheight l > btheight r + 1 then bbtrr (btsetheight l d r)
      else Some (btsetheight l d r)) = Some (BNode l1 h1 d1 r1)" by blast
  have "\<exists>t'. (if btheight r1 > btheight l1 + 1 then bbtrl (BNode l1 h1 d1 r1)
      else Some (BNode l1 h1 d1 r1)) = Some t'"
    using rotations_total(2) [of "BNode l1 h1 d1 r1"] by (cases r1) auto
  with * BNode show ?thesis by (simp add: btfix_def)
qed (simp add: btfix_def)

lemma unlink_min_inorder:
  "t \<noteq> BNil \<Longrightarrow> \<exists>m t'. unlink_min t = Some (m, t') \<and> inorder t = m # inorder t'"
proof (induction t)
  case (BNode l h d r)
  then show ?case by (cases l) auto
qed simp

text \<open>The two updates on the in-order sequence.\<close>

fun ins_seq :: "('a \<Rightarrow> 'a \<Rightarrow> int) \<Rightarrow> 'a \<Rightarrow> 'a list \<Rightarrow> 'a list" where
  "ins_seq cmp x [] = [x]"
| "ins_seq cmp x (y # ys) = (if cmp x y < 0 then x # y # ys
     else if cmp x y > 0 then y # ins_seq cmp x ys else y # ys)"

definition del_seq :: "('a \<Rightarrow> 'a \<Rightarrow> int) \<Rightarrow> 'a \<Rightarrow> 'a list \<Rightarrow> 'a list" where
  "del_seq cmp x ys = filter (\<lambda>y. cmp x y \<noteq> 0) ys"

section \<open>The comparison interface\<close>

locale btcmp =
  fixes cmp :: "'a \<Rightarrow> 'a \<Rightarrow> int"
  assumes cmp_swap: "cmp a b < 0 \<longleftrightarrow> cmp b a > 0"
    and cmp_trans: "cmp a b < 0 \<Longrightarrow> cmp b c < 0 \<Longrightarrow> cmp a c < 0"
    and cmp_eq_less: "cmp a b = 0 \<Longrightarrow> cmp b c < 0 \<Longrightarrow> cmp a c < 0"
    and cmp_less_eq: "cmp a b < 0 \<Longrightarrow> cmp b c = 0 \<Longrightarrow> cmp a c < 0"
begin

definition ordered :: "'a btree \<Rightarrow> bool" where
  "ordered t \<longleftrightarrow> sorted_wrt (\<lambda>a b. cmp a b < 0) (inorder t)"

lemma cmp_refl [simp]: "cmp a a = 0"
  using cmp_swap [of a a] by linarith

lemma cmp_sym: "cmp a b = 0 \<longleftrightarrow> cmp b a = 0"
  using cmp_swap [of a b] cmp_swap [of b a] by linarith

lemma cmp_eq_trans:
  assumes "cmp a b = 0" "cmp b c = 0"
  shows "cmp a c = 0"
proof -
  have "\<not> cmp a c < 0" using cmp_less_eq [of a c b] assms cmp_sym by auto
  moreover have "\<not> cmp a c > 0"
    using cmp_less_eq [of c a b] assms cmp_sym [of b c] cmp_swap [of c a] by auto
  ultimately show ?thesis by linarith
qed

lemma ordered_BNode:
  "ordered (BNode l h d r) \<longleftrightarrow> ordered l \<and> ordered r \<and>
     (\<forall>x\<in>set (inorder l). cmp x d < 0) \<and> (\<forall>x\<in>set (inorder r). cmp d x < 0)"
  unfolding ordered_def by (auto simp: sorted_wrt_append intro: cmp_trans)

lemma below: "cmp x d < 0 \<Longrightarrow> \<forall>y\<in>set ys. cmp d y < 0 \<Longrightarrow> \<forall>y\<in>set ys. cmp x y < 0"
  using cmp_trans by blast

lemma above: "cmp x d > 0 \<Longrightarrow> \<forall>y\<in>set ys. cmp y d < 0 \<Longrightarrow> \<forall>y\<in>set ys. cmp x y > 0"
  using cmp_trans cmp_swap by blast

lemma at_left: "cmp x d = 0 \<Longrightarrow> \<forall>y\<in>set ys. cmp y d < 0 \<Longrightarrow> \<forall>y\<in>set ys. cmp x y > 0"
  using cmp_less_eq cmp_swap cmp_sym by blast

lemma at_right: "cmp x d = 0 \<Longrightarrow> \<forall>y\<in>set ys. cmp d y < 0 \<Longrightarrow> \<forall>y\<in>set ys. cmp x y < 0"
  using cmp_eq_less by blast

lemma ins_seq_left:
  "cmp x d < 0 \<Longrightarrow> ins_seq cmp x (xs @ d # ys) = ins_seq cmp x xs @ d # ys"
  by (induction xs) auto

lemma ins_seq_right:
  "\<forall>y\<in>set xs. cmp x y > 0 \<Longrightarrow> ins_seq cmp x (xs @ ys) = xs @ ins_seq cmp x ys"
  by (induction xs) auto

lemma set_ins_seq:
  "sorted_wrt (\<lambda>a b. cmp a b < 0) xs \<Longrightarrow> set (ins_seq cmp x xs) =
     (if \<exists>y\<in>set xs. cmp x y = 0 then set xs else insert x (set xs))"
proof (induction xs)
  case (Cons y ys)
  show ?case
  proof (cases "cmp x y < 0")
    case True
    with Cons.prems have "\<forall>z\<in>set ys. cmp x z < 0" using below [of x y ys] by simp
    with True show ?thesis by force
  next
    case False
    with Cons show ?thesis by auto
  qed
qed simp

lemma sorted_ins_seq:
  "sorted_wrt (\<lambda>a b. cmp a b < 0) xs \<Longrightarrow> sorted_wrt (\<lambda>a b. cmp a b < 0) (ins_seq cmp x xs)"
proof (induction xs)
  case (Cons y ys)
  show ?case
  proof (cases "cmp x y < 0")
    case True
    with Cons.prems below show ?thesis by auto
  next
    case False
    with Cons show ?thesis by (auto simp: set_ins_seq cmp_swap [of y x])
  qed
qed simp

lemma put_inorder:
  "ordered t \<Longrightarrow> \<exists>t'. bbtreeput cmp x t = Some (t', \<not> (\<exists>y\<in>set (inorder t). cmp x y = 0)) \<and>
     inorder t' = ins_seq cmp x (inorder t)"
proof (induction t)
  case (BNode l h d r)
  have o: "ordered l" "ordered r" "\<forall>y\<in>set (inorder l). cmp y d < 0" "\<forall>y\<in>set (inorder r). cmp d y < 0"
    using BNode.prems by (simp_all add: ordered_BNode)
  consider "cmp x d < 0" | "cmp x d > 0" | "cmp x d = 0" by linarith
  then show ?case
  proof cases
    case 1
    obtain l' where l': "bbtreeput cmp x l = Some (l', \<not> (\<exists>y\<in>set (inorder l). cmp x y = 0))"
      "inorder l' = ins_seq cmp x (inorder l)" using BNode.IH(1) o(1) by blast
    obtain t' where t': "btfix (BNode l' h d r) = Some t'" using btfix_total by blast
    have "\<forall>y\<in>set (inorder r). cmp x y < 0" using below 1 o(4) by blast
    with 1 l' t' btfix_inorder [OF t'] show ?thesis by (force simp: ins_seq_left)
  next
    case 2
    obtain r' where r': "bbtreeput cmp x r = Some (r', \<not> (\<exists>y\<in>set (inorder r). cmp x y = 0))"
      "inorder r' = ins_seq cmp x (inorder r)" using BNode.IH(2) o(2) by blast
    obtain t' where t': "btfix (BNode l h d r') = Some t'" using btfix_total by blast
    have "\<forall>y\<in>set (inorder l). cmp x y > 0" using above 2 o(3) by blast
    with 2 r' t' btfix_inorder [OF t'] show ?thesis by (force simp: ins_seq_right)
  next
    case 3
    have "\<forall>y\<in>set (inorder l). cmp x y > 0" using at_left 3 o(3) by blast
    with 3 show ?thesis by (simp add: ins_seq_right)
  qed
qed simp

lemma del_seq_id: "\<forall>y\<in>set ys. cmp x y \<noteq> 0 \<Longrightarrow> del_seq cmp x ys = ys"
  by (simp add: del_seq_def)

lemma del_seq_append [simp]: "del_seq cmp x (xs @ ys) = del_seq cmp x xs @ del_seq cmp x ys"
  by (simp add: del_seq_def)

lemma del_seq_Cons [simp]:
  "del_seq cmp x (y # ys) = (if cmp x y = 0 then del_seq cmp x ys else y # del_seq cmp x ys)"
  by (simp add: del_seq_def)

lemma del_inorder:
  "ordered t \<Longrightarrow> \<exists>t'. bbtreedel cmp x t = Some (t', \<exists>y\<in>set (inorder t). cmp x y = 0) \<and>
     inorder t' = del_seq cmp x (inorder t)"
proof (induction t)
  case (BNode l h d r)
  have o: "ordered l" "ordered r" "\<forall>y\<in>set (inorder l). cmp y d < 0" "\<forall>y\<in>set (inorder r). cmp d y < 0"
    using BNode.prems by (simp_all add: ordered_BNode)
  consider "cmp x d < 0" | "cmp x d > 0" | "cmp x d = 0" by linarith
  then show ?case
  proof cases
    case 1
    obtain l' where l': "bbtreedel cmp x l = Some (l', \<exists>y\<in>set (inorder l). cmp x y = 0)"
      "inorder l' = del_seq cmp x (inorder l)" using BNode.IH(1) o(1) by blast
    obtain t' where t': "btfix (BNode l' h d r) = Some t'" using btfix_total by blast
    have "\<forall>y\<in>set (inorder r). cmp x y < 0" using below 1 o(4) by blast
    then have "del_seq cmp x (inorder r) = inorder r" "\<not> (\<exists>y\<in>set (inorder r). cmp x y = 0)"
      by (force intro: del_seq_id)+
    with 1 l' t' btfix_inorder [OF t'] show ?thesis by auto
  next
    case 2
    obtain r' where r': "bbtreedel cmp x r = Some (r', \<exists>y\<in>set (inorder r). cmp x y = 0)"
      "inorder r' = del_seq cmp x (inorder r)" using BNode.IH(2) o(2) by blast
    obtain t' where t': "btfix (BNode l h d r') = Some t'" using btfix_total by blast
    have "\<forall>y\<in>set (inorder l). cmp x y > 0" using above 2 o(3) by blast
    then have "del_seq cmp x (inorder l) = inorder l" "\<not> (\<exists>y\<in>set (inorder l). cmp x y = 0)"
      by (force intro: del_seq_id)+
    with 2 r' t' btfix_inorder [OF t'] show ?thesis by auto
  next
    case 3
    have "\<forall>y\<in>set (inorder l). cmp x y > 0" "\<forall>y\<in>set (inorder r). cmp x y < 0"
      using at_left at_right 3 o by blast+
    then have "del_seq cmp x (inorder l) = inorder l" "del_seq cmp x (inorder r) = inorder r"
      by (force intro: del_seq_id)+
    then have seq: "del_seq cmp x (inorder (BNode l h d r)) = inorder l @ inorder r"
      using 3 by simp
    show ?thesis
    proof (cases "r \<noteq> BNil \<and> l \<noteq> BNil")
      case True
      then obtain m r' where m: "unlink_min r = Some (m, r')" "inorder r = m # inorder r'"
        using unlink_min_inorder by blast
      obtain t' where t': "btfix (BNode l h m r') = Some t'" using btfix_total by blast
      with 3 True m btfix_inorder [OF t'] seq show ?thesis by auto
    next
      case False
      obtain u v where u: "btfix l = Some u" "btfix r = Some v" using btfix_total by blast
      with 3 False btfix_inorder [OF u(1)] btfix_inorder [OF u(2)] seq show ?thesis
        by (cases "l = BNil"; cases "r = BNil") auto
    qed
  qed
qed (simp add: del_seq_def)

lemma get_inorder:
  "ordered t \<Longrightarrow> btreeget t k cmp = Some x \<longleftrightarrow> x \<in> set (inorder t) \<and> cmp k x = 0"
proof (induction t)
  case (BNode l h d r)
  have o: "ordered l" "ordered r" "\<forall>y\<in>set (inorder l). cmp y d < 0" "\<forall>y\<in>set (inorder r). cmp d y < 0"
    using BNode.prems by (simp_all add: ordered_BNode)
  consider "cmp k d < 0" | "cmp k d > 0" | "cmp k d = 0" by linarith
  then show ?case
  proof cases
    case 1
    have "\<forall>y\<in>set (inorder r). cmp k y < 0" using below 1 o(4) by blast
    with 1 BNode.IH(1) o(1) show ?thesis by force
  next
    case 2
    have "\<forall>y\<in>set (inorder l). cmp k y > 0" using above 2 o(3) by blast
    with 2 BNode.IH(2) o(2) show ?thesis by force
  next
    case 3
    have "\<forall>y\<in>set (inorder l). cmp k y > 0" "\<forall>y\<in>set (inorder r). cmp k y < 0"
      using at_left at_right 3 o by blast+
    with 3 show ?thesis by force
  qed
qed simp

end

section \<open>The set interface\<close>

text \<open>
  What the users of a tree rely on: an index of items in which at most one item has the key
  of another, looked up by an item that carries the key.
\<close>

locale keyed_set =
  fixes same :: "'a \<Rightarrow> 'a \<Rightarrow> bool"
    and get :: "'t \<Rightarrow> 'a \<Rightarrow> 'a option"
    and put :: "'a \<Rightarrow> 't \<Rightarrow> ('t \<times> bool) option"
    and del :: "'a \<Rightarrow> 't \<Rightarrow> ('t \<times> bool) option"
    and items :: "'t \<Rightarrow> 'a set"
    and inv :: "'t \<Rightarrow> bool"
  assumes same_refl: "same a a"
    and same_sym: "same a b \<Longrightarrow> same b a"
    and same_trans: "same a b \<Longrightarrow> same b c \<Longrightarrow> same a c"
    and get_spec: "inv t \<Longrightarrow> get t k = Some x \<longleftrightarrow> x \<in> items t \<and> same k x"
    and put_spec: "inv t \<Longrightarrow> \<exists>t'. put x t = Some (t', \<not> (\<exists>y\<in>items t. same x y)) \<and> inv t' \<and>
      items t' = (if \<exists>y\<in>items t. same x y then items t else insert x (items t))"
    and del_spec: "inv t \<Longrightarrow> \<exists>t'. del x t = Some (t', \<exists>y\<in>items t. same x y) \<and> inv t' \<and>
      items t' = items t - {y. same x y}"
begin

lemma get_None: "inv t \<Longrightarrow> get t k = None \<longleftrightarrow> (\<forall>x\<in>items t. \<not> same k x)"
  by (metis get_spec not_Some_eq)

lemma get_cong: "inv t \<Longrightarrow> same k k' \<Longrightarrow> get t k = get t k'"
  by (metis get_spec option.exhaust same_sym same_trans)

lemma get_put:
  assumes "inv t" "put x t = Some (t', c)"
  shows "get t' k = (if same k x \<and> get t k = None then Some x else get t k)"
proof -
  from put_spec [OF assms(1), of x] assms(2) have i: "inv t'"
    and it: "items t' = (if \<exists>y\<in>items t. same x y then items t else insert x (items t))" by auto
  show ?thesis
  proof (cases "\<exists>y\<in>items t. same x y")
    case True
    then have "get t' k = get t k"
      using it get_spec [OF i] get_spec [OF assms(1)] by (metis not_Some_eq)
    moreover have "get t k \<noteq> None" if "same k x"
      using True that get_None [OF assms(1)] same_trans by blast
    ultimately show ?thesis by simp
  next
    case False
    then have "get t' k = Some y \<longleftrightarrow> (y = x \<or> y \<in> items t) \<and> same k y" for y
      using it get_spec [OF i] by auto
    moreover have "get t k = None" if "same k x"
      using False that get_None [OF assms(1)] same_sym same_trans by blast
    ultimately show ?thesis
      using get_spec [OF assms(1)] False same_sym same_trans
      by (metis not_Some_eq)
  qed
qed

lemma get_del:
  assumes "inv t" "del x t = Some (t', c)"
  shows "get t' k = (if same k x then None else get t k)"
proof -
  from del_spec [OF assms(1), of x] assms(2) have i: "inv t'"
    and it: "items t' = items t - {y. same x y}" by auto
  show ?thesis
    using it get_spec [OF i] get_spec [OF assms(1)] same_sym same_trans
    by (metis (no_types, lifting) Diff_iff mem_Collect_eq not_Some_eq)
qed

end

sublocale btcmp \<subseteq> keyed_set
  "\<lambda>a b. cmp a b = 0" "\<lambda>t k. btreeget t k cmp" "bbtreeput cmp" "bbtreedel cmp"
  "\<lambda>t. set (inorder t)" ordered
proof (unfold_locales, goal_cases)
  case (3 a b c)
  then show ?case by (rule cmp_eq_trans)
next
  case (5 t x)
  then obtain t' where
    "bbtreeput cmp x t = Some (t', \<not> (\<exists>y\<in>set (inorder t). cmp x y = 0))"
    "inorder t' = ins_seq cmp x (inorder t)" using put_inorder by blast
  with 5 show ?case by (auto simp: ordered_def set_ins_seq sorted_ins_seq)
next
  case (6 t x)
  then obtain t' where
    "bbtreedel cmp x t = Some (t', \<exists>y\<in>set (inorder t). cmp x y = 0)"
    "inorder t' = del_seq cmp x (inorder t)" using del_inorder by blast
  with 6 show ?case by (auto simp: ordered_def del_seq_def sorted_wrt_filter)
qed (auto simp: cmp_sym get_inorder)

interpretation ptr: btcmp ptrcmp
  by unfold_locales (auto simp: ptrcmp_def split: if_splits)

text \<open>The tree order of an arbitrary comparison, outside the interface.\<close>

definition bt_ordered :: "('a \<Rightarrow> 'a \<Rightarrow> int) \<Rightarrow> 'a btree \<Rightarrow> bool" where
  "bt_ordered cmp t \<longleftrightarrow> sorted_wrt (\<lambda>a b. cmp a b < 0) (inorder t)"

section \<open>Deletion and balance\<close>

text \<open>
  The tree that inserting 3, 0, 1, 2 builds, and the tree that deleting 1 from it leaves: the
  node of the successor is unlinked without touching the heights above it.
\<close>

definition del_before :: "int btree" where
  "del_before = BNode (BNode BNil 1 0 BNil) 3 1 (BNode (BNode BNil 1 2 BNil) 2 3 BNil)"

definition del_after :: "int btree" where
  "del_after = BNode (BNode BNil 1 0 BNil) 3 2 (BNode BNil 2 3 BNil)"

section \<open>Properties\<close>

lemma avl_size: "avl t \<Longrightarrow> 2 ^ (btheight t div 2) \<le> length (inorder t) + 1"
proof (induction t)
  case (BNode l h d r)
  let ?hl = "btheight l" and ?hr = "btheight r"
  have hl: "height l = ?hl" and hr: "height r = ?hr"
    using BNode.prems avl_height [of l] avl_height [of r] by simp_all
  have h: "h = max ?hl ?hr + 1" and d: "?hl \<le> ?hr + 1" "?hr \<le> ?hl + 1"
    using BNode.prems hl hr by (auto simp: max_def)
  have "h div 2 \<le> ?hl div 2 + 1 \<and> h div 2 \<le> ?hr div 2 + 1"
    using h d by (auto simp: max_def split: if_splits)
  then have "(2::nat) ^ (h div 2) \<le> 2 ^ (?hl div 2 + 1)" "(2::nat) ^ (h div 2) \<le> 2 ^ (?hr div 2 + 1)"
    by (meson one_le_numeral power_increasing)+
  moreover have "2 ^ (?hl div 2) \<le> length (inorder l) + 1" "2 ^ (?hr div 2) \<le> length (inorder r) + 1"
    using BNode by simp_all
  ultimately show ?case by simp
qed simp

text \<open>C14. Inserting into a tree that is ordered by the comparison and height-balanced returns, the
  item being absent, 1 and a tree with the item added, and otherwise 0 and the same items; the tree
  is ordered and balanced again, with true heights, its height grown by at most one and at most
  logarithmic in the number of items, and no rotation follows a null pointer.\<close>

theorem bbtreeput_keeps_search_tree:
  assumes "btcmp cmp" "bt_ordered cmp t" "avl t"
  shows "\<exists>t'. bbtreeput cmp x t = Some (t', \<forall>y\<in>set (inorder t). cmp x y \<noteq> 0) \<and>
    set (inorder t') = (if \<forall>y\<in>set (inorder t). cmp x y \<noteq> 0
      then insert x (set (inorder t)) else set (inorder t)) \<and>
    bt_ordered cmp t' \<and> avl t' \<and> btheight t' \<le> btheight t + 1 \<and>
    2 ^ (btheight t' div 2) \<le> length (inorder t') + 1"
proof -
  have "btcmp.ordered cmp t"
    using assms(2) by (simp add: btcmp.ordered_def [OF assms(1)] bt_ordered_def)
  from btcmp.put_inorder [OF assms(1) this, of x] obtain t' where
    t': "bbtreeput cmp x t = Some (t', \<not> (\<exists>y\<in>set (inorder t). cmp x y = 0))"
      "inorder t' = ins_seq cmp x (inorder t)" by blast
  from bbtreeput_avl [OF assms(3), of cmp x] t'(1) have "avl t'" "btheight t' \<le> btheight t + 1"
    by auto
  moreover have "bt_ordered cmp t'"
    using assms(2) btcmp.sorted_ins_seq [OF assms(1)] by (simp add: t'(2) bt_ordered_def)
  moreover have "set (inorder t') = (if \<forall>y\<in>set (inorder t). cmp x y \<noteq> 0
      then insert x (set (inorder t)) else set (inorder t))"
    using assms(2) btcmp.set_ins_seq [OF assms(1)] by (simp add: t'(2) bt_ordered_def)
  ultimately show ?thesis using t'(1) avl_size by auto
qed

lemma bbtreeput_keeps_search_tree_witness:
  "\<exists>t'. bbtreeput ptrcmp 7 (BNode BNil 1 3 BNil) = Some (t', True) \<and> avl t' \<and>
     set (inorder t') = {3, 7}"
proof -
  have "bt_ordered ptrcmp (BNode BNil 1 3 BNil)" "avl (BNode BNil 1 (3 :: 64 word) BNil)"
    by (simp_all add: bt_ordered_def)
  from bbtreeput_keeps_search_tree [OF ptr.btcmp_axioms this, of 7] show ?thesis
    by (auto simp: ptrcmp_def)
qed

text \<open>Deleting from an ordered tree removes exactly the item the comparison finds equal, says
  whether there was one, and leaves the remaining items in their order; it never follows a null
  pointer.\<close>

lemma bbtreedel_removes:
  assumes "btcmp cmp" "bt_ordered cmp t"
  shows "\<exists>t'. bbtreedel cmp x t = Some (t', \<exists>y\<in>set (inorder t). cmp x y = 0) \<and>
    inorder t' = filter (\<lambda>y. cmp x y \<noteq> 0) (inorder t) \<and> bt_ordered cmp t'"
proof -
  have "btcmp.ordered cmp t"
    using assms(2) by (simp add: btcmp.ordered_def [OF assms(1)] bt_ordered_def)
  from btcmp.del_inorder [OF assms(1) this, of x] show ?thesis
    using assms(2) by (auto simp: bt_ordered_def del_seq_def sorted_wrt_filter)
qed

lemma bbtreedel_removes_witness:
  "\<exists>t'. bbtreedel ptrcmp 3 (BNode BNil 2 3 (BNode BNil 1 5 BNil)) = Some (t', True) \<and>
     inorder t' = [5]"
proof -
  have "bt_ordered ptrcmp (BNode BNil 2 3 (BNode BNil 1 5 BNil))"
    by (simp add: bt_ordered_def ptrcmp_def)
  from bbtreedel_removes [OF ptr.btcmp_axioms this, of 3] show ?thesis
    by (auto simp: ptrcmp_def)
qed

text \<open>Deletion does not keep the balance that insertion establishes: there are an ordered,
  balanced tree and an item of it whose deletion leaves a tree that is out of balance, since the
  heights above the unlinked successor are not brought up to date.\<close>

lemma bbtreedel_unbalances:
  "\<exists>t t' :: int btree. bt_ordered (\<lambda>a b. a - b) t \<and> avl t \<and>
     bbtreedel (\<lambda>a b. a - b) 1 t = Some (t', True) \<and> \<not> avl t'"
proof (intro exI conjI)
  show "bt_ordered (\<lambda>a b. a - b) del_before" "avl del_before"
    by (simp_all add: bt_ordered_def del_before_def)
  show "bbtreedel (\<lambda>a b. a - b) 1 del_before = Some (del_after, True)" "\<not> avl del_after"
    by code_simp+
qed

text \<open>A lookup in an ordered tree finds an item exactly when the comparison finds it equal to
  the key.\<close>

lemma btreeget_finds:
  assumes "btcmp cmp" "bt_ordered cmp t"
  shows "btreeget t k cmp = Some x \<longleftrightarrow> x \<in> set (inorder t) \<and> cmp k x = 0"
  using assms btcmp.get_inorder [OF assms(1)] btcmp.ordered_def [OF assms(1)]
  by (simp add: bt_ordered_def)

lemma btreeget_finds_witness:
  "btreeget (BNode BNil 2 3 (BNode BNil 1 5 BNil)) 5 ptrcmp = Some 5"
proof -
  have "bt_ordered ptrcmp (BNode BNil 2 3 (BNode BNil 1 5 BNil))"
    by (simp add: bt_ordered_def ptrcmp_def)
  from btreeget_finds [OF ptr.btcmp_axioms this, of 5 5] show ?thesis
    by (simp add: ptrcmp_def)
qed

end
