(* ===== verification/Streams.thy ===== *)
theory Streams
  imports Prelude
begin

text \<open>
  The two ends of a byte stream as the protocol code uses them: a source read with a
  \<open>getc\<close>, and a sink written with a \<open>printf\<close>. The library has each parser and printer twice,
  once over \<open>FILE\<close> and once over \<open>struct bufio\<close>; the interfaces below are what the two copies
  rely on. \<open>stdio\<close> itself is the first instance of both; \<open>Bufio\<close> provides the second.
\<close>

section \<open>Sources\<close>

locale byte_source =
  fixes getc :: "'s \<Rightarrow> int \<times> 's"
    and contents :: "'s \<Rightarrow> string"
    and live :: "'s \<Rightarrow> bool"
  assumes getc_Cons: "live s \<Longrightarrow> contents s = c # r \<Longrightarrow>
      \<exists>s'. getc s = (ord c, s') \<and> contents s' = r \<and> live s'"
    and getc_Nil: "live s \<Longrightarrow> contents s = [] \<Longrightarrow>
      \<exists>s'. getc s = (EOF, s') \<and> contents s' = [] \<and> live s'"

text \<open>A \<open>FILE\<close> open for reading: the bytes that are left.\<close>

fun fgetc :: "string \<Rightarrow> int \<times> string" where
  "fgetc [] = (EOF, [])"
| "fgetc (c # s) = (ord c, s)"

interpretation instream: byte_source fgetc "\<lambda>s. s" "\<lambda>_. True"
  by unfold_locales auto

context byte_source
begin

lemma getc_file:
  assumes "live s"
  shows "\<exists>s'. getc s = (fst (fgetc (contents s)), s') \<and> contents s' = snd (fgetc (contents s)) \<and> live s'"
proof (cases "contents s")
  case Nil
  then show ?thesis using getc_Nil [OF assms] by simp
next
  case (Cons c r)
  then show ?thesis using getc_Cons [OF assms] by simp
qed

lemma getcE:
  assumes "live s"
  obtains s' where "getc s = (fst (fgetc (contents s)), s')"
    "contents s' = snd (fgetc (contents s))" "live s'"
  using getc_file [OF assms] by blast

end

lemma fgetc_cases:
  obtains "s = []" "fgetc s = (EOF, [])" | c r where "s = c # r" "fgetc s = (ord c, r)"
  by (cases s) auto

section \<open>Sinks\<close>

text \<open>
  \<open>put n s\<close> prints the text \<open>s\<close> from a format of \<open>n\<close> bytes. \<open>None\<close> is a call that does not
  return.
\<close>

locale byte_sink =
  fixes put :: "nat \<Rightarrow> string \<Rightarrow> 'o \<Rightarrow> (int \<times> 'o) option"
    and written :: "'o \<Rightarrow> string"
    and okay :: "'o \<Rightarrow> bool"
  assumes put_done: "okay out \<Longrightarrow> put n s out = Some (r, out') \<Longrightarrow> r \<ge> 0 \<Longrightarrow>
      written out' = written out @ s \<and> okay out'"

text \<open>
  A \<open>FILE\<close> open for writing: what has been written, and the number of bytes it accepts before
  the device fails.
\<close>

record ofile =
  obytes :: string
  oroom :: nat

definition fprintf :: "nat \<Rightarrow> string \<Rightarrow> ofile \<Rightarrow> (int \<times> ofile) option" where
  "fprintf n s f = Some
     (if length s \<le> oroom f
      then (int (length s), f\<lparr>obytes := obytes f @ s, oroom := oroom f - length s\<rparr>)
      else (- 1, f\<lparr>obytes := obytes f @ take (oroom f) s, oroom := 0\<rparr>))"

interpretation outstream: byte_sink fprintf obytes "\<lambda>_. True"
  by unfold_locales (auto simp: fprintf_def split: if_splits)

lemma fprintf_room:
  "length s \<le> oroom f \<Longrightarrow> fprintf n s f =
     Some (int (length s), f\<lparr>obytes := obytes f @ s, oroom := oroom f - length s\<rparr>)"
  by (simp add: fprintf_def)

end
