(* ===== verification/Bufio.thy ===== *)
theory Bufio
  imports Streams Utils
begin

text \<open>
  The buffered streams of \<open>lib/bufio.c\<close>: a read buffer and a write buffer over the three
  functions of a \<open>struct bufioops\<close>. Buffer sizes are kept, since they decide when the code
  moves, grows and shrinks a buffer; the data of a buffer is the list of its first \<open>d\<close> bytes.

  What a \<open>struct bufioops\<close> promises is the interface \<open>channel\<close>; its lemmas say that reading
  and writing through the buffers neither loses, repeats nor reorders a byte.
\<close>

section \<open>Data\<close>

text \<open>
  The operations take the \<open>pdata\<close> and return its new state; a result \<open>Inl e\<close> is the return
  value -1 with \<open>errno\<close> set to \<open>e\<close>. A null function pointer is \<open>None\<close>.
\<close>

record 'p bufioops =
  op_read :: "('p \<Rightarrow> nat \<Rightarrow> (int + string) \<times> 'p) option"
  op_write :: "('p \<Rightarrow> string \<Rightarrow> (int + nat) \<times> 'p) option"
  op_close :: "('p \<Rightarrow> int \<times> 'p) option"

record 'p bufio =
  rbuf :: string
  rsize :: nat
  rh :: nat
  wbuf :: string
  wsize :: nat
  wh :: nat
  bufhint :: nat
  bio_err :: int
  bio_eof :: bool
  pdata :: 'p

definition EPIPE :: int where
  "EPIPE = 32"

definition bioopen :: "'p \<Rightarrow> 'p bufio" where
  "bioopen p = \<lparr>rbuf = [], rsize = 0, rh = 0, wbuf = [], wsize = 0, wh = 0, bufhint = 4096,
     bio_err = 0, bio_eof = False, pdata = p\<rparr>"

section \<open>Reading\<close>

definition biordata :: "'p bufio \<Rightarrow> nat" where
  "biordata b = length (rbuf b) - rh b"

definition biorspace :: "'p bufio \<Rightarrow> nat" where
  "biorspace b = (if biordata b \<ge> bufhint b then 0 else bufhint b - biordata b)"

definition bioeof :: "'p bufio \<Rightarrow> bool" where
  "bioeof b \<longleftrightarrow> bio_eof b \<and> rh b \<ge> length (rbuf b)"

text \<open>How \<open>biofill\<close> makes room for the bytes it is about to read.\<close>

definition bio_room :: "'p bufio \<Rightarrow> 'p bufio" where
  "bio_room b =
    (let b1 = (if rh b = length (rbuf b) then b\<lparr>rh := 0, rbuf := []\<rparr> else b);
         b2 = (if length (rbuf b1) = rsize b1
               then (if rh b1 > 0 then b1\<lparr>rbuf := drop (rh b1) (rbuf b1), rh := 0\<rparr>
                     else b1\<lparr>rsize := sizebuf_nat (rsize b1)
                       (if rsize b1 * 2 < bufhint b1 then bufhint b1 else rsize b1 * 2)\<rparr>)
               else b1)
     in if rsize b2 > bufhint b2 \<and> length (rbuf b2) < bufhint b2
        then b2\<lparr>rsize := bufhint b2\<rparr> else b2)"

definition biofill :: "'p bufioops \<Rightarrow> 'p bufio \<Rightarrow> int \<times> 'p bufio" where
  "biofill ops b = (case op_read ops of
      None \<Rightarrow> (0, b\<lparr>bio_eof := True\<rparr>)
    | Some f \<Rightarrow>
        if bio_eof b then (0, b) else
        let b1 = bio_room b in
        (case f (pdata b1) (rsize b1 - length (rbuf b1)) of
           (Inl e, p) \<Rightarrow> (- 1, b1\<lparr>bio_err := e, pdata := p\<rparr>)
         | (Inr bs, p) \<Rightarrow>
             if bs = [] then (0, b1\<lparr>bio_eof := True, pdata := p\<rparr>)
             else let b2 = b1\<lparr>rbuf := rbuf b1 @ bs, pdata := p\<rparr> in (int (biordata b2), b2)))"

definition biofillsome :: "'p bufioops \<Rightarrow> 'p bufio \<Rightarrow> int \<times> 'p bufio" where
  "biofillsome ops b = biofill ops b"

definition unread :: "'p bufio \<Rightarrow> string" where
  "unread b = drop (rh b) (rbuf b)"

lemma length_unread [simp]: "length (unread b) = biordata b"
  by (simp add: unread_def biordata_def)

lemma unread_room [simp]: "unread (bio_room b) = unread b"
  by (auto simp: bio_room_def unread_def Let_def)

lemma biordata_room [simp]: "biordata (bio_room b) = biordata b"
  by (metis length_unread unread_room)

lemma room_fields [simp]:
  "pdata (bio_room b) = pdata b" "bio_eof (bio_room b) = bio_eof b"
  "bufhint (bio_room b) = bufhint b" "wbuf (bio_room b) = wbuf b" "wh (bio_room b) = wh b"
  "wsize (bio_room b) = wsize b" "bio_err (bio_room b) = bio_err b"
  by (auto simp: bio_room_def Let_def)

text \<open>What holds of every stream: both heads are inside their data, the data inside its buffer.\<close>

definition bio_ok :: "'p bufio \<Rightarrow> bool" where
  "bio_ok b \<longleftrightarrow> rh b \<le> length (rbuf b) \<and> length (rbuf b) \<le> rsize b \<and>
     wh b \<le> length (wbuf b) \<and> length (wbuf b) \<le> wsize b \<and> 0 < bufhint b"

lemma bio_ok_open: "bio_ok (bioopen p)"
  by (simp add: bio_ok_def bioopen_def)

lemma room_ok:
  assumes "bio_ok b"
  shows "rh (bio_room b) \<le> length (rbuf (bio_room b)) \<and>
    length (rbuf (bio_room b)) < rsize (bio_room b)"
proof -
  define w where "w = (if rsize b * 2 < bufhint b then bufhint b else rsize b * 2)"
  have "rsize b < w" using assms by (auto simp: w_def bio_ok_def)
  then have "rsize b < sizebuf_nat (rsize b) w"
    using sizebuf_nat_ge(1) [of w "rsize b"] by linarith
  then show ?thesis
    using assms
    by (auto simp: bio_room_def Let_def bio_ok_def w_def split: if_splits)
qed

lemma biofill_progress:
  assumes "biofill ops b = (r, b')" "r > 0"
  shows "biordata b < biordata b' \<and> r = int (biordata b')"
proof -
  from assms obtain bs p where
    bs: "bs \<noteq> []" "b' = (bio_room b)\<lparr>rbuf := rbuf (bio_room b) @ bs, pdata := p\<rparr>" "r = int (biordata b')"
    by (auto simp: biofill_def Let_def split: option.splits if_splits prod.splits sum.splits)
  moreover have "biordata (bio_room b) = biordata b" by simp
  ultimately show ?thesis using assms(2) by (cases bs) (auto simp: biordata_def)
qed

function biorensure :: "'p bufioops \<Rightarrow> 'p bufio \<Rightarrow> nat \<Rightarrow> int \<times> 'p bufio" where
  "biorensure ops b bytes =
     (if biordata b < bytes
      then (case biofill ops b of (ret, b') \<Rightarrow>
        if ret \<le> 0 then (ret, b') else biorensure ops b' bytes)
      else (int (biordata b), b))"
  by pat_completeness auto
termination
  by (relation "measure (\<lambda>(ops, b, n). n - biordata b)")
     (auto dest!: sym [of _ "biofill _ _"] biofill_progress)

function biogetc :: "'p bufioops \<Rightarrow> 'p bufio \<Rightarrow> int \<times> 'p bufio" where
  "biogetc ops b =
     (if length (rbuf b) \<le> rh b
      then (case biofill ops b of (ret, b') \<Rightarrow> if ret \<le> 0 then (EOF, b') else biogetc ops b')
      else (ord (rbuf b ! rh b), b\<lparr>rh := rh b + 1\<rparr>))"
  by pat_completeness auto
termination
  by (relation "measure (\<lambda>(ops, b). if length (rbuf b) \<le> rh b then 1 else 0)")
     (auto dest!: sym [of _ "biofill _ _"] biofill_progress simp: biordata_def)

definition bioreadsome :: "'p bufioops \<Rightarrow> 'p bufio \<Rightarrow> nat \<Rightarrow> int \<times> string \<times> 'p bufio" where
  "bioreadsome ops b n =
    (let (ret, b1) = (if rh b \<ge> length (rbuf b) then biofill ops b else (1, b)) in
     if ret \<le> 0 then (ret, [], b1)
     else let k = min n (biordata b1) in
       (int k, take k (drop (rh b1) (rbuf b1)), b1\<lparr>rh := rh b1 + k\<rparr>))"

declare biorensure.simps [simp del] biogetc.simps [simp del]

text \<open>\<open>biogetc\<close> fills at most once: a fill that succeeds leaves something to take.\<close>

lemma biogetc_unfold:
  "biogetc ops b =
     (if biordata b = 0
      then (case biofill ops b of (r, b1) \<Rightarrow>
        if r \<le> 0 then (EOF, b1) else (ord (rbuf b1 ! rh b1), b1\<lparr>rh := rh b1 + 1\<rparr>))
      else (ord (rbuf b ! rh b), b\<lparr>rh := rh b + 1\<rparr>))"
proof (cases "biordata b = 0")
  case False
  then show ?thesis by (simp add: biogetc.simps [of ops b] biordata_def)
next
  case True
  obtain r b1 where b1: "biofill ops b = (r, b1)" by fastforce
  show ?thesis
  proof (cases "r \<le> 0")
    case False
    then have "0 < biordata b1" using biofill_progress [OF b1] by simp
    with True False b1 show ?thesis
      by (simp add: biogetc.simps [of ops b] biogetc.simps [of ops b1] biordata_def)
  qed (use True b1 in \<open>simp add: biogetc.simps [of ops b] biordata_def\<close>)
qed

section \<open>Writing\<close>

definition biowdata :: "'p bufio \<Rightarrow> nat" where
  "biowdata b = length (wbuf b) - wh b"

definition biowspace :: "'p bufio \<Rightarrow> nat" where
  "biowspace b = (if biowdata b \<ge> bufhint b then 0 else bufhint b - biowdata b)"

definition unsent :: "'p bufio \<Rightarrow> string" where
  "unsent b = drop (wh b) (wbuf b)"

lemma length_unsent [simp]: "length (unsent b) = biowdata b"
  by (simp add: unsent_def biowdata_def)

text \<open>
  The loop of \<open>bioflush\<close> does not end when the write function keeps returning 0; that is the
  result \<open>None\<close>, as is a call through a null write function.
\<close>

partial_function (option) bioflush ::
  "'p bufioops \<Rightarrow> 'p bufio \<Rightarrow> (int \<times> 'p bufio) option" where
  "bioflush ops b =
     (if wh b < length (wbuf b) then
        (case op_write ops of
           None \<Rightarrow> None
         | Some g \<Rightarrow> (case g (pdata b) (drop (wh b) (wbuf b)) of
             (Inl e, p) \<Rightarrow> Some (- 1, b\<lparr>bio_err := e, pdata := p\<rparr>)
           | (Inr k, p) \<Rightarrow> bioflush ops (b\<lparr>wh := wh b + k, pdata := p\<rparr>)))
      else Some (0, b))"

definition bioflushsome :: "'p bufioops \<Rightarrow> 'p bufio \<Rightarrow> (int \<times> 'p bufio) option" where
  "bioflushsome ops b =
     (if wh b < length (wbuf b) then
        (case op_write ops of
           None \<Rightarrow> None
         | Some g \<Rightarrow> (case g (pdata b) (drop (wh b) (wbuf b)) of
             (Inl e, p) \<Rightarrow> Some (- 1, b\<lparr>bio_err := e, pdata := p\<rparr>)
           | (Inr k, p) \<Rightarrow> Some (1, b\<lparr>wh := wh b + k, pdata := p\<rparr>)))
      else Some (0, b))"

definition biowensure :: "'p bufioops \<Rightarrow> 'p bufio \<Rightarrow> nat \<Rightarrow> (int \<times> 'p bufio) option" where
  "biowensure ops b bytes =
     (if wsize b - length (wbuf b) < bytes then
        (if op_write ops = None then Some (- 1, b\<lparr>bio_err := EPIPE\<rparr>)
         else (case bioflush ops b of
             None \<Rightarrow> None
           | Some (r, b1) \<Rightarrow>
               if r < 0 then Some (- 1, b1)
               else let b2 = b1\<lparr>wh := 0, wbuf := []\<rparr> in
                 if wsize b2 > bufhint b2 \<and> bytes \<le> bufhint b2
                 then Some (0, b2\<lparr>wsize := bufhint b2\<rparr>)
                 else Some (0, b2\<lparr>wsize := sizebuf_nat (wsize b2)
                   (if bytes < bufhint b2 then bufhint b2 else bytes)\<rparr>)))
      else Some (0, b))"

definition bioputc :: "'p bufioops \<Rightarrow> 'p bufio \<Rightarrow> int \<Rightarrow> (int \<times> 'p bufio) option" where
  "bioputc ops b c = (case biowensure ops b 1 of
      None \<Rightarrow> None
    | Some (r, b1) \<Rightarrow> if r < 0 then Some (- 1, b1) else Some (0, b1\<lparr>wbuf := wbuf b1 @ [chr c]\<rparr>))"

text \<open>\<open>wb\<close> counts the bytes written before this round of the loop.\<close>

partial_function (option) biowrite_loop ::
  "'p bufioops \<Rightarrow> nat \<Rightarrow> 'p bufio \<Rightarrow> string \<Rightarrow> (int \<times> 'p bufio) option" where
  "biowrite_loop ops wb b data =
     (if data = [] then Some (int wb, b)
      else (case biowensure ops b (min (length data) (bufhint b)) of
          None \<Rightarrow> None
        | Some (r, b1) \<Rightarrow>
            if r < 0 then Some (if wb > 0 then int wb else - 1, b1)
            else if length data < wsize b1 - length (wbuf b1)
            then Some (int (wb + length data), b1\<lparr>wbuf := wbuf b1 @ data\<rparr>)
            else (case bioflush ops b1 of
                None \<Rightarrow> None
              | Some (r2, b2) \<Rightarrow>
                  if r2 < 0 then Some (if wb > 0 then int wb else - 1, b2)
                  else (case op_write ops of
                      None \<Rightarrow> None
                    | Some g \<Rightarrow> (case g (pdata b2) data of
                        (Inl e, p) \<Rightarrow>
                          Some (if wb > 0 then (int wb, b2\<lparr>wh := 0, wbuf := [], pdata := p\<rparr>)
                            else (- 1, b2\<lparr>wh := 0, wbuf := [], pdata := p, bio_err := e\<rparr>))
                      | (Inr k, p) \<Rightarrow> biowrite_loop ops (wb + k)
                          (b2\<lparr>wh := 0, wbuf := [], pdata := p\<rparr>) (drop k data))))))"

definition biowrite :: "'p bufioops \<Rightarrow> 'p bufio \<Rightarrow> string \<Rightarrow> (int \<times> 'p bufio) option" where
  "biowrite ops b data = biowrite_loop ops 0 b data"

text \<open>Moving the unsent bytes of a full write buffer to its front.\<close>

definition bio_compact :: "'p bufio \<Rightarrow> 'p bufio" where
  "bio_compact b = (if length (wbuf b) = wsize b \<and> wh b > 0
     then b\<lparr>wbuf := drop (wh b) (wbuf b), wh := 0\<rparr> else b)"

definition biowritesome :: "'p bufioops \<Rightarrow> 'p bufio \<Rightarrow> string \<Rightarrow> (int \<times> 'p bufio) option" where
  "biowritesome ops b data =
    (let b1 = b\<lparr>wsize := sizebuf_nat (wsize b) (bufhint b)\<rparr>;
         b2 = bio_compact (if wh b1 = length (wbuf b1) then b1\<lparr>wh := 0, wbuf := []\<rparr> else b1);
         ret = min (length data) (wsize b2 - length (wbuf b2));
         b3 = b2\<lparr>wbuf := wbuf b2 @ take ret data\<rparr>
     in (case bioflushsome ops b3 of
           None \<Rightarrow> None
         | Some (r, b4) \<Rightarrow>
             if r < 0 then
               (if ret = 0 then Some (- 1, b4)
                else if ret < length (wbuf b4) - wh b4
                then Some (- 1, b4\<lparr>wbuf := take (length (wbuf b4) - ret) (wbuf b4)\<rparr>)
                else Some (int ret, b4))
             else Some (int ret, b4)))"

text \<open>
  \<open>bioprintf\<close> of a format of \<open>fmtlen\<close> bytes that prints \<open>text\<close>. \<open>vsnprintf\<close> returns the length
  of the whole text and writes at most the room there is; the loop makes room and prints again.
\<close>

partial_function (option) bioprintf_loop ::
  "'p bufioops \<Rightarrow> 'p bufio \<Rightarrow> string \<Rightarrow> (int \<times> 'p bufio) option" where
  "bioprintf_loop ops b str =
     (if length str < wsize b - length (wbuf b) then Some (0, b\<lparr>wbuf := wbuf b @ str\<rparr>)
      else (case biowensure ops b (length str + 1) of
          None \<Rightarrow> None
        | Some (r, b1) \<Rightarrow> if r < 0 then Some (- 1, b1) else bioprintf_loop ops b1 str))"

definition bioprintf ::
  "'p bufioops \<Rightarrow> 'p bufio \<Rightarrow> nat \<Rightarrow> string \<Rightarrow> (int \<times> 'p bufio) option" where
  "bioprintf ops b fmtlen str = (case biowensure ops b fmtlen of
      None \<Rightarrow> None
    | Some (r, b1) \<Rightarrow> if r < 0 then Some (- 1, b1) else bioprintf_loop ops b1 str)"

text \<open>Copying from the read side of one stream to the write side of another.\<close>

definition biocopysome ::
  "'p bufioops \<Rightarrow> 'p bufio \<Rightarrow> 'q bufio \<Rightarrow> (int \<times> 'p bufio \<times> 'q bufio) option" where
  "biocopysome ops dst src =
     (if rh src \<ge> length (rbuf src) then Some (0, dst, src)
      else (case biowritesome ops dst (drop (rh src) (rbuf src)) of
          None \<Rightarrow> None
        | Some (r, dst') \<Rightarrow>
            if r < 0 then Some (- 1, dst', src)
            else Some (r, dst', src\<lparr>rh := rh src + nat r\<rparr>)))"

definition biocopybuf :: "'p bufio \<Rightarrow> 'q bufio \<Rightarrow> int \<times> 'p bufio \<times> 'q bufio" where
  "biocopybuf dst src =
    (let d1 = bio_compact (dst\<lparr>wsize := sizebuf_nat (wsize dst) (bufhint dst)\<rparr>);
         ret = min (biordata src) (wsize d1 - length (wbuf d1))
     in (int ret, d1\<lparr>wbuf := wbuf d1 @ take ret (drop (rh src) (rbuf src))\<rparr>,
         src\<lparr>rh := rh src + ret\<rparr>))"

text \<open>\<open>bioclose\<close> flushes, whatever comes of it, closes and frees; only \<open>pdata\<close> remains.\<close>

definition bioclose :: "'p bufioops \<Rightarrow> 'p bufio \<Rightarrow> (int \<times> 'p) option" where
  "bioclose ops b = (case bioflush ops b of
      None \<Rightarrow> None
    | Some (_, b1) \<Rightarrow> Some (case op_close ops of None \<Rightarrow> (0, pdata b1) | Some h \<Rightarrow> h (pdata b1)))"

declare bioflush.simps [simp del, code] biowrite_loop.simps [simp del, code]
  bioprintf_loop.simps [simp del, code]

lemma biowritesome_unfold:
  fixes b :: "'p bufio" and data :: string
  defines "b1 \<equiv> b\<lparr>wsize := sizebuf_nat (wsize b) (bufhint b)\<rparr>"
  defines "b2 \<equiv> bio_compact (if wh b1 = length (wbuf b1) then b1\<lparr>wh := 0, wbuf := []\<rparr> else b1)"
  defines "n \<equiv> min (length data) (wsize b2 - length (wbuf b2))"
  defines "b3 \<equiv> b2\<lparr>wbuf := wbuf b2 @ take n data\<rparr>"
  shows "biowritesome ops b data = (case bioflushsome ops b3 of
      None \<Rightarrow> None
    | Some (r, b4) \<Rightarrow> if r < 0 then
        (if n = 0 then Some (- 1, b4) else if n < length (wbuf b4) - wh b4
         then Some (- 1, b4\<lparr>wbuf := take (length (wbuf b4) - n) (wbuf b4)\<rparr>)
         else Some (int n, b4))
        else Some (int n, b4))"
  by (simp only: biowritesome_def Let_def b1_def b2_def b3_def n_def)

section \<open>The channel interface\<close>

text \<open>
  What a stream relies on in the functions it is opened with. \<open>got\<close> is the history of the bytes
  the channel has delivered and \<open>sent\<close> that of the bytes it has taken; a failed call changes
  neither, a read returns at most the bytes it has room for, and a write takes a prefix.
\<close>

locale channel =
  fixes ops :: "'p bufioops"
    and got :: "'p \<Rightarrow> string"
    and sent :: "'p \<Rightarrow> string"
  assumes read_law: "op_read ops = Some f \<Longrightarrow> f p n = (res, p') \<Longrightarrow> sent p' = sent p \<and>
      (case res of Inl e \<Rightarrow> got p' = got p | Inr bs \<Rightarrow> length bs \<le> n \<and> got p' = got p @ bs)"
    and write_law: "op_write ops = Some g \<Longrightarrow> g p bs = (wres, p') \<Longrightarrow> got p' = got p \<and>
      (case wres of Inl e \<Rightarrow> sent p' = sent p
       | Inr k \<Rightarrow> k \<le> length bs \<and> sent p' = sent p @ take k bs)"
begin

text \<open>The bytes accepted from the writer so far, on their way or gone.\<close>

definition outgoing :: "'p bufio \<Rightarrow> string" where
  "outgoing b = sent (pdata b) @ unsent b"

text \<open>The bytes the readers of the stream have taken off it.\<close>

definition read_side :: "'p bufio \<Rightarrow> string \<times> string" where
  "read_side b = (got (pdata b), unread b)"

lemma biofill_law:
  assumes "bio_ok b" "biofill ops b = (r, b')"
  shows "bio_ok b' \<and> outgoing b' = outgoing b \<and> bufhint b' = bufhint b \<and>
    (\<exists>bs. unread b' = unread b @ bs \<and> got (pdata b') = got (pdata b) @ bs \<and>
       (bs \<noteq> [] \<longleftrightarrow> r > 0) \<and> (r > 0 \<longrightarrow> r = int (biordata b')))"
proof -
  define b1 where "b1 = bio_room b"
  have ok1: "rh b1 \<le> length (rbuf b1)" "length (rbuf b1) < rsize b1"
    using room_ok [OF assms(1)] by (simp_all add: b1_def)
  have w: "wh b \<le> length (wbuf b)" "length (wbuf b) \<le> wsize b" "0 < bufhint b"
    using assms(1) by (simp_all add: bio_ok_def)
  have u: "unread b1 = unread b" by (simp add: b1_def)
  show ?thesis
  proof (cases "op_read ops")
    case None
    then show ?thesis using assms by (auto simp: biofill_def bio_ok_def outgoing_def unsent_def unread_def)
  next
    case (Some f)
    show ?thesis
    proof (cases "bio_eof b")
      case True
      then show ?thesis using assms Some by (auto simp: biofill_def)
    next
      case False
      obtain res p where f: "f (pdata b1) (rsize b1 - length (rbuf b1)) = (res, p)" by fastforce
      note law = read_law [OF Some f]
      show ?thesis
      proof (cases res)
        case (Inl e)
        then have "b' = b1\<lparr>bio_err := e, pdata := p\<rparr>" "r = - 1"
          using assms(2) Some False f by (auto simp: biofill_def b1_def Let_def)
        then show ?thesis
          using law Inl ok1 w u by (auto simp: bio_ok_def outgoing_def unsent_def unread_def b1_def)
      next
        case (Inr bs)
        show ?thesis
        proof (cases "bs = []")
          case True
          then have "b' = b1\<lparr>bio_eof := True, pdata := p\<rparr>" "r = 0"
            using assms(2) Some False f Inr by (auto simp: biofill_def b1_def Let_def)
          then show ?thesis
            using law Inr True ok1 w u by (auto simp: bio_ok_def outgoing_def unsent_def unread_def b1_def)
        next
          case nonempty: False
          then have b': "b' = b1\<lparr>rbuf := rbuf b1 @ bs, pdata := p\<rparr>" "r = int (biordata b')"
            using assms(2) Some False f Inr by (auto simp: biofill_def b1_def Let_def)
          have un: "unread b' = unread b @ bs" using b' u ok1 by (simp add: unread_def)
          moreover have "r > 0" using b'(2) un nonempty length_unread [of b'] by (cases bs) auto
          ultimately show ?thesis
            using law Inr nonempty ok1 w b' by (auto simp: bio_ok_def outgoing_def unsent_def b1_def)
        qed
      qed
    qed
  qed
qed

lemma biogetc_law:
  assumes "bio_ok b" "biogetc ops b = (c, b')"
  shows "bio_ok b' \<and> outgoing b' = outgoing b \<and> (\<exists>bs. got (pdata b') = got (pdata b) @ bs \<and>
    (if c = EOF then unread b' = unread b @ bs \<and> unread b = []
     else \<exists>x. c = ord x \<and> unread b @ bs = x # unread b'))"
proof (cases "biordata b = 0")
  case False
  then have b': "c = ord (rbuf b ! rh b)" "b' = b\<lparr>rh := rh b + 1\<rparr>"
    using assms(2) by (auto simp: biogetc_unfold)
  moreover have "unread b = (rbuf b ! rh b) # unread b'"
    using False b' by (simp add: unread_def biordata_def Cons_nth_drop_Suc)
  ultimately show ?thesis
    using assms(1) False by (auto simp: bio_ok_def outgoing_def unsent_def biordata_def)
next
  case True
  obtain r b1 where b1: "biofill ops b = (r, b1)" by fastforce
  from biofill_law [OF assms(1) b1] obtain bs where
    law: "bio_ok b1" "outgoing b1 = outgoing b" "unread b1 = unread b @ bs"
      "got (pdata b1) = got (pdata b) @ bs" "bs \<noteq> [] \<longleftrightarrow> r > 0" by blast
  have empty: "unread b = []" using True by (metis length_unread length_0_conv)
  show ?thesis
  proof (cases "r \<le> 0")
    case True
    with \<open>biordata b = 0\<close> b1 assms(2) have "c = EOF" "b' = b1" by (simp_all add: biogetc_unfold)
    with law empty show ?thesis by auto
  next
    case False
    with \<open>biordata b = 0\<close> b1 assms(2) have
      c: "c = ord (rbuf b1 ! rh b1)" "b' = b1\<lparr>rh := rh b1 + 1\<rparr>" by (simp_all add: biogetc_unfold)
    have "0 < biordata b1" using biofill_progress [OF b1] False by simp
    then have lt: "rh b1 < length (rbuf b1)" by (simp add: biordata_def)
    then have "unread b1 = (rbuf b1 ! rh b1) # unread b'"
      by (simp add: c unread_def Cons_nth_drop_Suc)
    with law c empty lt show ?thesis
      by (auto simp: bio_ok_def outgoing_def unsent_def)
  qed
qed

lemma bioreadsome_law:
  assumes "bio_ok b" "bioreadsome ops b n = (r, xs, b')"
  shows "bio_ok b' \<and> outgoing b' = outgoing b \<and> (\<exists>bs. got (pdata b') = got (pdata b) @ bs \<and>
    unread b @ bs = xs @ unread b' \<and> (r \<ge> 0 \<longrightarrow> r = int (length xs)) \<and> (r < 0 \<longrightarrow> xs = []))"
proof -
  obtain q b1 where q: "(if rh b \<ge> length (rbuf b) then biofill ops b else (1, b)) = (q, b1)" by fastforce
  have "bio_ok b1 \<and> outgoing b1 = outgoing b \<and>
      (\<exists>bs. unread b1 = unread b @ bs \<and> got (pdata b1) = got (pdata b) @ bs)"
  proof (cases "rh b \<ge> length (rbuf b)")
    case True
    with q biofill_law [OF assms(1), of q b1] show ?thesis by auto
  next
    case False
    with q assms(1) show ?thesis by auto
  qed
  then obtain bs where law: "bio_ok b1" "outgoing b1 = outgoing b" "unread b1 = unread b @ bs"
      "got (pdata b1) = got (pdata b) @ bs" by blast
  show ?thesis
  proof (cases "q \<le> 0")
    case True
    have "(r, xs, b') = (q, [], b1)" using assms(2) q True by (simp add: bioreadsome_def)
    with law True show ?thesis by auto
  next
    case False
    define k where "k = min n (biordata b1)"
    have r: "r = int k" "xs = take k (unread b1)" "b' = b1\<lparr>rh := rh b1 + k\<rparr>"
      using assms(2) q False by (simp_all add: bioreadsome_def k_def unread_def Let_def)
    have "unread b' = drop k (unread b1)" by (simp add: r(3) unread_def add.commute)
    moreover have "length xs = k" by (simp add: r(2) k_def)
    moreover have "bio_ok b'" using law(1) by (auto simp: r(3) k_def bio_ok_def biordata_def)
    moreover have "xs @ drop k (unread b1) = unread b1" by (simp add: r(2))
    moreover have "outgoing b' = outgoing b" "pdata b' = pdata b1"
      using law(2) by (simp_all add: r(3) outgoing_def unsent_def)
    ultimately show ?thesis
      using law(3,4) r(1) by (intro conjI exI [of _ bs]) simp_all
  qed
qed

lemma biorensure_law:
  "bio_ok b \<Longrightarrow> biorensure ops b n = (r, b') \<Longrightarrow>
     bio_ok b' \<and> outgoing b' = outgoing b \<and> (r > 0 \<longrightarrow> r = int (biordata b')) \<and>
     (n \<le> biordata b' \<or> r \<le> 0) \<and>
     (\<exists>bs. unread b' = unread b @ bs \<and> got (pdata b') = got (pdata b) @ bs)"
proof (induction "n - biordata b" arbitrary: b rule: less_induct)
  case less
  show ?case
  proof (cases "biordata b < n")
    case False
    with less.prems show ?thesis by (auto simp: biorensure.simps [of ops b])
  next
    case True
    obtain q b1 where q: "biofill ops b = (q, b1)" by fastforce
    note law = biofill_law [OF less.prems(1) q]
    show ?thesis
    proof (cases "q \<le> 0")
      case True
      with \<open>biordata b < n\<close> q less.prems(2) law show ?thesis
        by (auto simp: biorensure.simps [of ops b])
    next
      case False
      have "biorensure ops b1 n = (r, b')"
        using less.prems(2) True False q by (simp add: biorensure.simps [of ops b])
      moreover have "n - biordata b1 < n - biordata b"
        using biofill_progress [OF q] False True by auto
      ultimately have "bio_ok b' \<and> outgoing b' = outgoing b1 \<and> (r > 0 \<longrightarrow> r = int (biordata b')) \<and>
          (n \<le> biordata b' \<or> r \<le> 0) \<and>
          (\<exists>bs. unread b' = unread b1 @ bs \<and> got (pdata b') = got (pdata b1) @ bs)"
        using law by (intro less.hyps) auto
      with law show ?thesis by auto
    qed
  qed
qed

lemma write_step:
  assumes "op_write ops = Some g" "g (pdata b) (unsent b) = (res, p)" "bio_ok b"
  shows "case res of
      Inl e \<Rightarrow> bio_ok (b\<lparr>bio_err := e, pdata := p\<rparr>) \<and> outgoing (b\<lparr>bio_err := e, pdata := p\<rparr>) = outgoing b \<and>
        got p = got (pdata b)
    | Inr k \<Rightarrow> bio_ok (b\<lparr>wh := wh b + k, pdata := p\<rparr>) \<and>
        outgoing (b\<lparr>wh := wh b + k, pdata := p\<rparr>) = outgoing b \<and> got p = got (pdata b)"
proof (cases res)
  case (Inl e)
  with write_law [OF assms(1,2)] assms(3) show ?thesis
    by (simp add: bio_ok_def outgoing_def unsent_def)
next
  case (Inr k)
  with write_law [OF assms(1,2)] have "k \<le> biowdata b" "sent p = sent (pdata b) @ take k (unsent b)"
    "got p = got (pdata b)" by simp_all
  moreover have "take k (unsent b) @ drop (wh b + k) (wbuf b) = unsent b"
    by (metis append_take_drop_id drop_drop add.commute unsent_def)
  ultimately show ?thesis
    using Inr assms(3) by (auto simp: bio_ok_def outgoing_def biowdata_def unsent_def)
qed

definition same_out :: "'p bufio \<Rightarrow> 'p bufio \<Rightarrow> bool" where
  "same_out b b' \<longleftrightarrow> outgoing b' = outgoing b \<and> read_side b' = read_side b \<and> bufhint b' = bufhint b"

lemma same_out_refl [simp]: "same_out b b"
  by (simp add: same_out_def)

lemma same_out_trans [trans]: "same_out a b \<Longrightarrow> same_out b c \<Longrightarrow> same_out a c"
  by (simp add: same_out_def)

lemma write_error:
  assumes "op_write ops = Some g" "g (pdata b) (drop (wh b) (wbuf b)) = (Inl e, p)" "bio_ok b"
  shows "bio_ok (b\<lparr>bio_err := e, pdata := p\<rparr>) \<and> same_out b (b\<lparr>bio_err := e, pdata := p\<rparr>)"
  using write_step [OF assms(1) _ assms(3), of "Inl e" p] assms(2)
  by (auto simp: same_out_def read_side_def unread_def unsent_def)

lemma write_some:
  assumes "op_write ops = Some g" "g (pdata b) (drop (wh b) (wbuf b)) = (Inr k, p)" "bio_ok b"
  shows "bio_ok (b\<lparr>wh := wh b + k, pdata := p\<rparr>) \<and> same_out b (b\<lparr>wh := wh b + k, pdata := p\<rparr>)"
  using write_step [OF assms(1) _ assms(3), of "Inr k" p] assms(2)
  by (auto simp: same_out_def read_side_def unread_def unsent_def)

lemma bioflush_law:
  assumes "bioflush ops b = Some (r, b')" "bio_ok b"
  shows "bio_ok b' \<and> same_out b b' \<and> wsize b' = wsize b \<and> wbuf b' = wbuf b \<and>
    (r = 0 \<and> unsent b' = [] \<or> r < 0)"
proof -
  define P where "P = (\<lambda>fops c (q, c'). fops = ops \<longrightarrow> bio_ok c \<longrightarrow> bio_ok c' \<and> same_out c c' \<and>
    wsize c' = wsize c \<and> wbuf c' = wbuf c \<and> (q = (0::int) \<and> unsent c' = [] \<or> q < 0))"
  have "P ops b (r, b')"
  proof (rule bioflush.raw_induct [where P = P, OF _ assms(1)])
    fix fl fops c y
    assume IH: "\<And>o' c y. fl o' c = Some y \<Longrightarrow> P o' c y"
      and y: "(if wh c < length (wbuf c) then
        (case op_write fops of
           None \<Rightarrow> None
         | Some g \<Rightarrow> (case g (pdata c) (drop (wh c) (wbuf c)) of
             (Inl e, p) \<Rightarrow> Some (- 1, c\<lparr>bio_err := e, pdata := p\<rparr>)
           | (Inr k, p) \<Rightarrow> fl fops (c\<lparr>wh := wh c + k, pdata := p\<rparr>)))
      else Some (0, c)) = Some y"
    show "P fops c y"
    proof (cases "fops = ops \<and> bio_ok c \<and> wh c < length (wbuf c)")
      case False
      with y show ?thesis by (auto simp: P_def unsent_def split: if_splits option.splits)
    next
      case True
      with y obtain g where g: "op_write ops = Some g" by (auto split: option.splits)
      obtain res p where res: "g (pdata c) (drop (wh c) (wbuf c)) = (res, p)" by fastforce
      show ?thesis
      proof (cases res)
        case (Inl e)
        with y True g res write_error [of g c e p] show ?thesis by (auto simp: P_def)
      next
        case (Inr k)
        with y True g res have "P fops (c\<lparr>wh := wh c + k, pdata := p\<rparr>) y" by (auto intro: IH)
        with Inr True g res write_some [of g c k p] show ?thesis
          by (cases y) (auto simp: P_def dest: same_out_trans)
      qed
    qed
  qed
  with assms(2) show ?thesis by (simp add: P_def)
qed

lemma bioflushsome_law:
  assumes "bioflushsome ops b = Some (r, b')" "bio_ok b"
  shows "bio_ok b' \<and> same_out b b' \<and> wsize b' = wsize b \<and> wbuf b' = wbuf b"
  using assms write_error [OF _ _ assms(2)] write_some [OF _ _ assms(2)]
  by (auto simp: bioflushsome_def split: if_splits option.splits prod.splits sum.splits)

lemma reset_law:
  assumes "bio_ok b" "unsent b = []"
  shows "bio_ok (b\<lparr>wh := 0, wbuf := []\<rparr>)" "same_out b (b\<lparr>wh := 0, wbuf := []\<rparr>)"
  using assms by (auto simp: bio_ok_def same_out_def outgoing_def unsent_def read_side_def unread_def)

lemma same_out_wsize [simp]: "same_out b (c\<lparr>wsize := n\<rparr>) = same_out b c"
  by (auto simp: same_out_def outgoing_def unsent_def read_side_def unread_def)

lemma bio_ok_wsize: "bio_ok b \<Longrightarrow> length (wbuf b) \<le> n \<Longrightarrow> bio_ok (b\<lparr>wsize := n\<rparr>)"
  by (simp add: bio_ok_def)

lemma biowensure_law:
  assumes "biowensure ops b n = Some (r, b')" "bio_ok b"
  shows "bio_ok b' \<and> same_out b b' \<and> (r = 0 \<and> n \<le> wsize b' - length (wbuf b') \<or> r < 0)"
proof (cases "wsize b - length (wbuf b) < n \<and> op_write ops \<noteq> None")
  case False
  with assms show ?thesis
    by (auto simp: biowensure_def same_out_def outgoing_def unsent_def read_side_def unread_def
        bio_ok_def split: if_splits)
next
  case True
  with assms(1) obtain q b1 where q: "bioflush ops b = Some (q, b1)"
    by (auto simp: biowensure_def split: option.splits)
  note law = bioflush_law [OF q assms(2)]
  show ?thesis
  proof (cases "q < 0")
    case True
    with \<open>wsize b - length (wbuf b) < n \<and> op_write ops \<noteq> None\<close> assms(1) q law show ?thesis
      by (auto simp: biowensure_def)
  next
    case False
    with law have e: "bio_ok b1" "same_out b b1" "unsent b1 = []" by auto
    define m where "m = (if wsize b1 > bufhint b1 \<and> n \<le> bufhint b1 then bufhint b1
      else sizebuf_nat (wsize b1) (if n < bufhint b1 then bufhint b1 else n))"
    have "b' = b1\<lparr>wh := 0, wbuf := [], wsize := m\<rparr>" "r = 0"
      using True False assms(1) q by (auto simp: biowensure_def Let_def m_def split: if_splits)
    moreover have "n \<le> m"
      by (auto simp: m_def intro: order_trans [OF _ sizebuf_nat_ge(1)])
    ultimately show ?thesis
      using reset_law [OF e(1,3)] e(2) bio_ok_wsize [of "b1\<lparr>wh := 0, wbuf := []\<rparr>" m]
      by (auto dest: same_out_trans)
  qed
qed

text \<open>Appending to the write buffer where there is room.\<close>

lemma append_law:
  assumes "bio_ok b" "length xs \<le> wsize b - length (wbuf b)"
  shows "bio_ok (b\<lparr>wbuf := wbuf b @ xs\<rparr>)" "outgoing (b\<lparr>wbuf := wbuf b @ xs\<rparr>) = outgoing b @ xs"
    "read_side (b\<lparr>wbuf := wbuf b @ xs\<rparr>) = read_side b"
  using assms by (auto simp: bio_ok_def outgoing_def unsent_def read_side_def unread_def)

lemma bioputc_law:
  assumes "bioputc ops b c = Some (r, b')" "bio_ok b"
  shows "bio_ok b' \<and> read_side b' = read_side b \<and>
    (r = 0 \<and> outgoing b' = outgoing b @ [chr c] \<or> r < 0 \<and> outgoing b' = outgoing b)"
proof -
  obtain q b1 where q: "biowensure ops b 1 = Some (q, b1)"
    using assms(1) by (auto simp: bioputc_def split: option.splits)
  note law = biowensure_law [OF q assms(2)]
  show ?thesis
  proof (cases "q < 0")
    case True
    with q assms(1) law show ?thesis by (auto simp: bioputc_def same_out_def)
  next
    case False
    with q assms(1) have "r = 0" "b' = b1\<lparr>wbuf := wbuf b1 @ [chr c]\<rparr>" by (simp_all add: bioputc_def)
    with law False append_law [of b1 "[chr c]"] show ?thesis by (auto simp: same_out_def)
  qed
qed

text \<open>What a write of \<open>data\<close> that returns \<open>r\<close> may have done to the outgoing bytes.\<close>

definition wrote :: "'p bufio \<Rightarrow> string \<Rightarrow> int \<Rightarrow> 'p bufio \<Rightarrow> bool" where
  "wrote b data r b' \<longleftrightarrow> bio_ok b' \<and> read_side b' = read_side b \<and>
     (0 \<le> r \<and> r \<le> int (length data) \<and> outgoing b' = outgoing b @ take (nat r) data \<or>
      r = - 1 \<and> outgoing b' = outgoing b)"

lemma wrote_trans:
  assumes "wrote d (drop k data) r c'" "k \<le> length data" "outgoing d = outgoing c @ take k data"
    "read_side d = read_side c" "0 \<le> r \<or> k = 0"
  shows "wrote c data (int k + r) c'"
proof (cases "0 \<le> r")
  case True
  then have "nat (int k + r) = k + nat r" by simp
  with True assms show ?thesis by (auto simp: wrote_def take_add)
qed (use assms in \<open>auto simp: wrote_def\<close>)

lemma direct_write:
  assumes "op_write ops = Some g" "g (pdata b) data = (res, p)" "bio_ok b" "unsent b = []"
    and c: "c = b\<lparr>wh := 0, wbuf := [], pdata := p\<rparr>"
  shows "bio_ok c \<and> bio_ok (c\<lparr>bio_err := e\<rparr>) \<and> read_side c = read_side b \<and>
    (case res of Inl e \<Rightarrow> outgoing c = outgoing b \<and> outgoing (c\<lparr>bio_err := e\<rparr>) = outgoing b \<and>
        read_side (c\<lparr>bio_err := e\<rparr>) = read_side b
     | Inr k \<Rightarrow> k \<le> length data \<and> outgoing c = outgoing b @ take k data)"
  using write_law [OF assms(1,2)] assms(3,4)
  by (auto simp: c bio_ok_def outgoing_def unsent_def read_side_def unread_def split: sum.splits)

lemma biowrite_loop_law:
  assumes "biowrite_loop ops wb b data = Some (r, b')" "bio_ok b"
  shows "(wb = 0 \<and> wrote b data r b') \<or> (wb > 0 \<and> int wb \<le> r \<and> wrote b data (r - int wb) b')"
proof -
  define P where "P = (\<lambda>fops wb c data (q, c'). fops = ops \<longrightarrow> bio_ok c \<longrightarrow>
    (wb = (0::nat) \<and> wrote c data q c') \<or> (wb > 0 \<and> int wb \<le> q \<and> wrote c data (q - int wb) c'))"
  have "P ops wb b data (r, b')"
  proof (rule biowrite_loop.raw_induct [where P = P, OF _ assms(1)])
    fix wr fops wb c data y
    assume IH: "\<And>o' w c d y. wr o' w c d = Some y \<Longrightarrow> P o' w c d y"
      and y: "(if data = [] then Some (int wb, c)
      else (case biowensure fops c (min (length data) (bufhint c)) of
          None \<Rightarrow> None
        | Some (r, b1) \<Rightarrow>
            if r < 0 then Some (if wb > 0 then int wb else - 1, b1)
            else if length data < wsize b1 - length (wbuf b1)
            then Some (int (wb + length data), b1\<lparr>wbuf := wbuf b1 @ data\<rparr>)
            else (case bioflush fops b1 of
                None \<Rightarrow> None
              | Some (r2, b2) \<Rightarrow>
                  if r2 < 0 then Some (if wb > 0 then int wb else - 1, b2)
                  else (case op_write fops of
                      None \<Rightarrow> None
                    | Some g \<Rightarrow> (case g (pdata b2) data of
                        (Inl e, p) \<Rightarrow>
                          Some (if wb > 0 then (int wb, b2\<lparr>wh := 0, wbuf := [], pdata := p\<rparr>)
                            else (- 1, b2\<lparr>wh := 0, wbuf := [], pdata := p, bio_err := e\<rparr>))
                      | (Inr k, p) \<Rightarrow> wr fops (wb + k)
                          (b2\<lparr>wh := 0, wbuf := [], pdata := p\<rparr>) (drop k data)))))) = Some y"
    show "P fops wb c data y"
    proof (cases "fops = ops \<and> bio_ok c \<and> data \<noteq> []")
      case False
      with y show ?thesis by (auto simp: P_def wrote_def split: if_splits)
    next
      case True
      with y obtain r1 b1 where e1: "biowensure ops c (min (length data) (bufhint c)) = Some (r1, b1)"
        by (auto split: option.splits)
      have l1: "bio_ok b1" "outgoing b1 = outgoing c" "read_side b1 = read_side c"
        using biowensure_law [OF e1] True by (auto simp: same_out_def)
      consider (fail) "r1 < 0" | (fits) "r1 \<ge> 0" "length data < wsize b1 - length (wbuf b1)"
        | (direct) "r1 \<ge> 0" "\<not> length data < wsize b1 - length (wbuf b1)" by linarith
      then show ?thesis
      proof cases
        case fail
        with y True e1 l1 show ?thesis by (auto simp: P_def wrote_def split: if_splits)
      next
        case fits
        with y True e1 l1 append_law [of b1 data] show ?thesis by (auto simp: P_def wrote_def)
      next
        case direct
        with y True e1 obtain r2 b2 where e2: "bioflush ops b1 = Some (r2, b2)"
          by (auto split: option.splits)
        have l2: "bio_ok b2" "outgoing b2 = outgoing c" "read_side b2 = read_side c"
          "r2 = 0 \<and> unsent b2 = [] \<or> r2 < 0"
          using bioflush_law [OF e2 l1(1)] l1 by (auto simp: same_out_def)
        show ?thesis
        proof (cases "r2 < 0")
          case True
          with y \<open>fops = ops \<and> bio_ok c \<and> data \<noteq> []\<close> direct e1 e2 l2 show ?thesis
            by (auto simp: P_def wrote_def split: if_splits)
        next
          case False
          with l2(4) have un: "unsent b2 = []" by simp
          from y True direct e1 e2 False obtain g where g: "op_write ops = Some g"
            by (auto split: option.splits)
          obtain res p where res: "g (pdata b2) data = (res, p)" by fastforce
          note dw = direct_write [OF g res l2(1) un refl]
          show ?thesis
          proof (cases res)
            case (Inl e)
            with y True direct e1 e2 False g res dw l2 show ?thesis
              by (auto simp: P_def wrote_def split: if_splits)
          next
            case (Inr k)
            with y True direct e1 e2 False g res have
              "P fops (wb + k) (b2\<lparr>wh := 0, wbuf := [], pdata := p\<rparr>) (drop k data) y"
              by (auto intro: IH)
            moreover obtain q c' where qc: "y = (q, c')" by fastforce
            moreover define d where "d = b2\<lparr>wh := 0, wbuf := [], pdata := p\<rparr>"
            moreover have d: "bio_ok d" "k \<le> length data" "outgoing d = outgoing c @ take k data"
              "read_side d = read_side c"
              using Inr dw l2 by (simp_all add: d_def)
            ultimately consider "wb + k = 0" "wrote d (drop k data) q c'"
              | "wb + k > 0" "int (wb + k) \<le> q" "wrote d (drop k data) (q - int (wb + k)) c'"
              using True by (auto simp: P_def)
            then show ?thesis
            proof cases
              case 1
              with wrote_trans [OF 1(2) d(2-4)] True show ?thesis by (simp add: P_def qc)
            next
              case 2
              with wrote_trans [OF 2(3) d(2-4)] True show ?thesis
                by (cases "wb = 0") (simp_all add: P_def qc algebra_simps)
            qed
          qed
        qed
      qed
    qed
  qed
  with assms(2) show ?thesis by (simp add: P_def)
qed

lemma biowrite_law: "biowrite ops b data = Some (r, b') \<Longrightarrow> bio_ok b \<Longrightarrow> wrote b data r b'"
  using biowrite_loop_law [of 0 b data r b'] by (simp add: biowrite_def)

lemma compact_law:
  assumes "bio_ok b"
  shows "bio_ok (bio_compact b)" "same_out b (bio_compact b)"
  using assms
  by (auto simp: bio_compact_def bio_ok_def same_out_def outgoing_def unsent_def read_side_def unread_def)

lemma grow_law:
  assumes "bio_ok b"
  shows "bio_ok (b\<lparr>wsize := sizebuf_nat (wsize b) n\<rparr>)"
  using assms sizebuf_nat_ge(2) [of "wsize b" n] by (auto simp: bio_ok_def intro: order_trans)

text \<open>Taking back the last \<open>n\<close> bytes of the write buffer.\<close>

lemma take_back_law:
  assumes "bio_ok b" "n < length (wbuf b) - wh b" "outgoing b = out @ xs" "length xs = n"
  shows "bio_ok (b\<lparr>wbuf := take (length (wbuf b) - n) (wbuf b)\<rparr>)"
    "outgoing (b\<lparr>wbuf := take (length (wbuf b) - n) (wbuf b)\<rparr>) = out"
    "read_side (b\<lparr>wbuf := take (length (wbuf b) - n) (wbuf b)\<rparr>) = read_side b"
proof -
  let ?m = "length (wbuf b) - n"
  have "wh b \<le> ?m" using assms(2) by simp
  then have "unsent b = drop (wh b) (take ?m (wbuf b)) @ drop ?m (wbuf b)"
    using drop_append [of "wh b" "take ?m (wbuf b)" "drop ?m (wbuf b)"] by (simp add: unsent_def)
  then have "(sent (pdata b) @ drop (wh b) (take ?m (wbuf b))) @ drop ?m (wbuf b) = out @ xs"
    using assms(3) by (simp add: outgoing_def)
  moreover have "length (drop ?m (wbuf b)) = length xs" using assms(2,4) by simp
  ultimately have "sent (pdata b) @ drop (wh b) (take ?m (wbuf b)) = out"
    by (metis append_eq_append_conv)
  then show "outgoing (b\<lparr>wbuf := take (length (wbuf b) - n) (wbuf b)\<rparr>) = out"
    by (simp add: outgoing_def unsent_def)
qed (use assms in \<open>auto simp: bio_ok_def read_side_def unread_def\<close>)

lemma biowritesome_law:
  assumes "biowritesome ops b data = Some (r, b')" "bio_ok b"
  shows "wrote b data r b'"
proof -
  define b1 where "b1 = b\<lparr>wsize := sizebuf_nat (wsize b) (bufhint b)\<rparr>"
  define b2 where "b2 = bio_compact (if wh b1 = length (wbuf b1) then b1\<lparr>wh := 0, wbuf := []\<rparr> else b1)"
  define n where "n = min (length data) (wsize b2 - length (wbuf b2))"
  define b3 where "b3 = b2\<lparr>wbuf := wbuf b2 @ take n data\<rparr>"
  have 1: "bio_ok b1" "same_out b b1" using grow_law [OF assms(2)] by (simp_all add: b1_def)
  have "bio_ok b2 \<and> same_out b b2"
  proof (cases "wh b1 = length (wbuf b1)")
    case True
    then have "unsent b1 = []" by (simp add: unsent_def)
    then have r: "bio_ok (b1\<lparr>wh := 0, wbuf := []\<rparr>)" "same_out b (b1\<lparr>wh := 0, wbuf := []\<rparr>)"
      using reset_law [OF 1(1)] same_out_trans [OF 1(2)] by simp_all
    from True compact_law [OF r(1)] same_out_trans [OF r(2)] show ?thesis by (simp add: b2_def)
  next
    case False
    with compact_law [OF 1(1)] 1(2) show ?thesis by (auto simp: b2_def dest: same_out_trans)
  qed
  then have 3: "bio_ok b3" "outgoing b3 = outgoing b @ take n data" "read_side b3 = read_side b"
    using append_law [of b2 "take n data"] by (simp_all add: b3_def n_def same_out_def)
  note wsome = biowritesome_unfold [of ops b data, folded b1_def, folded b2_def, folded n_def, folded b3_def]
  then obtain q b4 where q: "bioflushsome ops b3 = Some (q, b4)"
    using assms(1) by (auto split: option.splits)
  have 4: "bio_ok b4" "outgoing b4 = outgoing b @ take n data" "read_side b4 = read_side b"
    using bioflushsome_law [OF q 3(1)] 3 by (simp_all add: same_out_def)
  have res: "(r, b') = (if q < 0 then
      (if n = 0 then (- 1, b4) else if n < length (wbuf b4) - wh b4
       then (- 1, b4\<lparr>wbuf := take (length (wbuf b4) - n) (wbuf b4)\<rparr>) else (int n, b4)) else (int n, b4))"
    using assms(1) q wsome by (auto split: if_splits)
  have "length (take n data) = n" by (simp add: n_def)
  note tb = take_back_law [OF 4(1) _ 4(2) this]
  have le: "n \<le> length data" by (simp add: n_def)
  show ?thesis
    using res 4 tb le by (auto simp: wrote_def split: if_splits)
qed

lemma bioprintf_loop_law:
  assumes "bioprintf_loop ops b str = Some (r, b')" "bio_ok b"
  shows "bio_ok b' \<and> read_side b' = read_side b \<and>
    (r = 0 \<and> outgoing b' = outgoing b @ str \<or> r < 0 \<and> outgoing b' = outgoing b)"
proof (cases "length str < wsize b - length (wbuf b)")
  case True
  with assms append_law [of b str] show ?thesis by (auto simp: bioprintf_loop.simps [of ops b])
next
  case False
  with assms(1) obtain q b1 where q: "biowensure ops b (length str + 1) = Some (q, b1)"
    by (auto simp: bioprintf_loop.simps [of ops b] split: option.splits)
  note law = biowensure_law [OF q assms(2)]
  show ?thesis
  proof (cases "q < 0")
    case True
    with False assms(1) q law show ?thesis
      by (auto simp: bioprintf_loop.simps [of ops b] same_out_def)
  next
    case q0: False
    with law have room: "length str < wsize b1 - length (wbuf b1)" by simp
    have "bioprintf_loop ops b1 str = Some (r, b')"
      using False assms(1) q q0 by (simp add: bioprintf_loop.simps [of ops b])
    then have "r = 0" "b' = b1\<lparr>wbuf := wbuf b1 @ str\<rparr>"
      using room by (simp_all add: bioprintf_loop.simps [of ops b1])
    with law room append_law [of b1 str] show ?thesis by (auto simp: same_out_def)
  qed
qed

lemma bioprintf_law:
  assumes "bioprintf ops b n str = Some (r, b')" "bio_ok b"
  shows "bio_ok b' \<and> read_side b' = read_side b \<and>
    (r = 0 \<and> outgoing b' = outgoing b @ str \<or> r < 0 \<and> outgoing b' = outgoing b)"
proof -
  obtain q b1 where q: "biowensure ops b n = Some (q, b1)"
    using assms(1) by (auto simp: bioprintf_def split: option.splits)
  note law = biowensure_law [OF q assms(2)]
  show ?thesis
  proof (cases "q < 0")
    case True
    with assms(1) q law show ?thesis by (auto simp: bioprintf_def same_out_def)
  next
    case False
    with assms(1) q have "bioprintf_loop ops b1 str = Some (r, b')" by (simp add: bioprintf_def)
    with law bioprintf_loop_law [of b1 str r b'] show ?thesis by (auto simp: same_out_def)
  qed
qed

text \<open>Copying between two streams of the same kind of channel moves bytes and loses none.\<close>

lemma biocopysome_law:
  assumes "biocopysome ops dst src = Some (r, dst', src')" "bio_ok dst"
    and "rh src \<le> length (rbuf src)"
  shows "bio_ok dst' \<and> read_side dst' = read_side dst \<and> (r \<ge> 0 \<or> r = - 1) \<and>
    (\<exists>xs. unread src = xs @ unread src' \<and> outgoing dst' = outgoing dst @ xs \<and>
       length xs = nat r \<and> rh src' \<le> length (rbuf src'))"
proof (cases "rh src \<ge> length (rbuf src)")
  case True
  with assms show ?thesis by (auto simp: biocopysome_def)
next
  case False
  with assms(1) obtain q d where q: "biowritesome ops dst (unread src) = Some (q, d)"
    by (auto simp: biocopysome_def unread_def split: option.splits)
  have w: "wrote dst (unread src) q d" by (rule biowritesome_law [OF q assms(2)])
  show ?thesis
  proof (cases "q < 0")
    case True
    with w have "q = - 1" by (auto simp: wrote_def)
    with w q False assms(1,3) show ?thesis
      by (auto simp: biocopysome_def unread_def wrote_def)
  next
    case q0: False
    with q False assms(1) have r: "r = q" "dst' = d" "src' = src\<lparr>rh := rh src + nat q\<rparr>"
      by (auto simp: biocopysome_def unread_def [symmetric])
    have n: "nat q \<le> biordata src" and o: "outgoing d = outgoing dst @ take (nat q) (unread src)"
      using w q0 by (auto simp: wrote_def)
    have "unread src' = drop (nat q) (unread src)" by (simp add: r(3) unread_def add.commute)
    moreover have "rh src' \<le> length (rbuf src')"
      using n assms(3) by (simp add: r(3) biordata_def)
    ultimately show ?thesis
      using w q0 n o r(1,2) by (auto simp: wrote_def intro!: exI [of _ "take (nat q) (unread src)"])
  qed
qed

lemma biocopybuf_law:
  assumes "biocopybuf dst src = (r, dst', src')" "bio_ok dst" "rh src \<le> length (rbuf src)"
  shows "bio_ok dst' \<and> read_side dst' = read_side dst \<and>
    (\<exists>xs. unread src = xs @ unread src' \<and> outgoing dst' = outgoing dst @ xs \<and>
       r = int (length xs) \<and> rh src' \<le> length (rbuf src'))"
proof -
  define d1 where "d1 = bio_compact (dst\<lparr>wsize := sizebuf_nat (wsize dst) (bufhint dst)\<rparr>)"
  define n where "n = min (biordata src) (wsize d1 - length (wbuf d1))"
  have 1: "bio_ok d1" "outgoing d1 = outgoing dst" "read_side d1 = read_side dst"
    using compact_law [OF grow_law [OF assms(2), of "bufhint dst"]]
    by (auto simp: d1_def same_out_def outgoing_def unsent_def read_side_def unread_def)
  have r: "r = int n" "dst' = d1\<lparr>wbuf := wbuf d1 @ take n (unread src)\<rparr>"
    "src' = src\<lparr>rh := rh src + n\<rparr>"
    using assms(1) by (auto simp: biocopybuf_def Let_def d1_def n_def unread_def)
  have "length (take n (unread src)) = n" by (simp add: n_def)
  moreover have "n \<le> wsize d1 - length (wbuf d1)" by (simp add: n_def)
  moreover have "unread src' = drop n (unread src)" by (simp add: r(3) unread_def add.commute)
  moreover have "rh src' \<le> length (rbuf src')"
    using assms(3) by (simp add: r(3) n_def biordata_def)
  ultimately show ?thesis
    using 1 append_law [of d1 "take n (unread src)"] r(1,2)
    by (auto intro!: exI [of _ "take n (unread src)"])
qed

end

text \<open>A channel that fails, or takes at least one of the bytes it is offered.\<close>

locale moving_channel = channel +
  assumes write_moves: "op_write ops = Some g \<Longrightarrow> bs \<noteq> [] \<Longrightarrow> g p bs = (Inr k, p') \<Longrightarrow> 0 < k"
begin

lemma bioflush_returns: "op_write ops \<noteq> None \<Longrightarrow> bioflush ops b \<noteq> None"
proof (induction "length (wbuf b) - wh b" arbitrary: b rule: less_induct)
  case less
  then obtain g where g: "op_write ops = Some g" by auto
  show ?case
  proof (cases "wh b < length (wbuf b)")
    case False
    then show ?thesis by (simp add: bioflush.simps [of ops b])
  next
    case True
    obtain res p where res: "g (pdata b) (drop (wh b) (wbuf b)) = (res, p)" by fastforce
    show ?thesis
    proof (cases res)
      case (Inl e)
      with True g res show ?thesis by (simp add: bioflush.simps [of ops b])
    next
      case (Inr k)
      with True write_moves [OF g _ res [unfolded Inr]] have "0 < k" by simp
      with True have "bioflush ops (b\<lparr>wh := wh b + k, pdata := p\<rparr>) \<noteq> None"
        by (intro less.hyps less.prems) simp
      with True g res Inr show ?thesis by (simp add: bioflush.simps [of ops b])
    qed
  qed
qed

lemma biowensure_returns: "\<exists>r b'. biowensure ops b n = Some (r, b')"
proof (cases "op_write ops = None")
  case False
  then obtain r b1 where "bioflush ops b = Some (r, b1)" using bioflush_returns [of b] by auto
  then show ?thesis by (auto simp: biowensure_def Let_def)
qed (simp add: biowensure_def)

lemma bioputc_returns: "\<exists>r b'. bioputc ops b c = Some (r, b')"
  using biowensure_returns [of b 1] by (auto simp: bioputc_def)

lemma bioprintf_returns:
  assumes "bio_ok b"
  shows "\<exists>r b'. bioprintf ops b n str = Some (r, b')"
proof -
  have loop: "\<exists>r b'. bioprintf_loop ops c str = Some (r, b')" if "bio_ok c" for c
  proof (cases "length str < wsize c - length (wbuf c)")
    case True
    then show ?thesis by (simp add: bioprintf_loop.simps [of ops c])
  next
    case False
    obtain q b1 where q: "biowensure ops c (length str + 1) = Some (q, b1)"
      using biowensure_returns by blast
    from biowensure_law [OF q that] have "q < 0 \<or> length str < wsize b1 - length (wbuf b1)" by auto
    with False q show ?thesis
      by (auto simp: bioprintf_loop.simps [of ops c] bioprintf_loop.simps [of ops b1])
  qed
  obtain q b1 where q: "biowensure ops b n = Some (q, b1)" using biowensure_returns by blast
  from loop [of b1] biowensure_law [OF q assms] q show ?thesis by (auto simp: bioprintf_def)
qed

text \<open>
  A partial write queues \<open>r\<close> bytes at most beyond what it sends, and one that takes none of the
  bytes it is offered has sent some of those that were waiting.
\<close>

lemma biowritesome_progress:
  assumes "bio_ok b" "op_write ops \<noteq> None"
  shows "\<exists>r b'. biowritesome ops b data = Some (r, b') \<and> (r \<ge> 0 \<longrightarrow>
    biowdata b' \<le> biowdata b + nat r \<and> (r = 0 \<and> data \<noteq> [] \<longrightarrow> biowdata b' < biowdata b))"
proof -
  define b1 where "b1 = b\<lparr>wsize := sizebuf_nat (wsize b) (bufhint b)\<rparr>"
  define b2 where "b2 = bio_compact (if wh b1 = length (wbuf b1) then b1\<lparr>wh := 0, wbuf := []\<rparr> else b1)"
  define n where "n = min (length data) (wsize b2 - length (wbuf b2))"
  define b3 where "b3 = b2\<lparr>wbuf := wbuf b2 @ take n data\<rparr>"
  note ws = biowritesome_unfold [of ops b data, folded b1_def, folded b2_def, folded n_def, folded b3_def]
  have wsz: "0 < wsize b1"
    using assms(1) by (auto simp: b1_def bio_ok_def intro: less_le_trans [OF _ sizebuf_nat_ge(1)])
  have ok1: "wh b1 \<le> length (wbuf b1)" "length (wbuf b1) \<le> wsize b1"
    using grow_law [OF assms(1), of "bufhint b"] by (simp_all add: b1_def bio_ok_def)
  have w2: "biowdata b2 = biowdata b" and sz: "wsize b2 = wsize b1" and le2: "wh b2 \<le> length (wbuf b2)"
    using ok1 by (auto simp: b2_def b1_def bio_compact_def biowdata_def)
  have full: "wh b2 = 0 \<and> wh b2 < length (wbuf b2)" if "wsize b2 \<le> length (wbuf b2)"
    using that ok1 wsz by (auto simp: b2_def bio_compact_def split: if_splits)
  have w3: "biowdata b3 = biowdata b + n" using w2 le2 by (simp add: b3_def biowdata_def n_def)
  obtain g where g: "op_write ops = Some g" using assms(2) by auto
  obtain res p where res: "g (pdata b3) (drop (wh b3) (wbuf b3)) = (res, p)" by fastforce
  show ?thesis
  proof (cases "wh b3 < length (wbuf b3)")
    case False
    then have "n \<noteq> 0 \<or> data = []"
      using full by (cases "wsize b2 \<le> length (wbuf b2)") (auto simp: b3_def n_def)
    with False w3 show ?thesis
      by (auto simp: ws bioflushsome_def)
  next
    case True
    show ?thesis
    proof (cases res)
      case (Inl e)
      then have "bioflushsome ops b3 = Some (- 1, b3\<lparr>bio_err := e, pdata := p\<rparr>)"
        using True g res by (simp add: bioflushsome_def)
      with w3 show ?thesis by (auto simp: ws biowdata_def)
    next
      case (Inr k)
      then have f: "bioflushsome ops b3 = Some (1, b3\<lparr>wh := wh b3 + k, pdata := p\<rparr>)"
        using True g res by (simp add: bioflushsome_def)
      have "0 < k" using write_moves [OF g _ res [unfolded Inr]] True by simp
      with f w3 True show ?thesis by (auto simp: ws biowdata_def)
    qed
  qed
qed

lemma biowrite_loop_returns:
  "bio_ok b \<Longrightarrow> op_write ops \<noteq> None \<Longrightarrow> \<exists>r b'. biowrite_loop ops wb b data = Some (r, b')"
proof (induction "length data" arbitrary: data wb b rule: less_induct)
  case less
  obtain q b1 where q: "biowensure ops b (min (length data) (bufhint b)) = Some (q, b1)"
    using biowensure_returns by blast
  have ok1: "bio_ok b1" using biowensure_law [OF q less.prems(1)] by simp
  obtain q2 b2 where q2: "bioflush ops b1 = Some (q2, b2)"
    using bioflush_returns [OF less.prems(2), of b1] by auto
  note l2 = bioflush_law [OF q2 ok1]
  obtain g where g: "op_write ops = Some g" using less.prems(2) by auto
  obtain res p where res: "g (pdata b2) data = (res, p)" by fastforce
  have again: "\<exists>r b'. biowrite_loop ops (wb + k) (b2\<lparr>wh := 0, wbuf := [], pdata := p\<rparr>) (drop k data) = Some (r, b')"
    if "res = Inr k" "data \<noteq> []" for k
  proof (rule less.hyps)
    show "length (drop k data) < length data"
      using write_moves [OF g that(2)] res that by auto
    show "bio_ok (b2\<lparr>wh := 0, wbuf := [], pdata := p\<rparr>)" using l2 by (simp add: bio_ok_def)
  qed (rule less.prems(2))
  show ?case
    using q q2 g res again
    by (cases res) (auto simp: biowrite_loop.simps [of ops wb b data])
qed

lemma biowrite_returns: "bio_ok b \<Longrightarrow> op_write ops \<noteq> None \<Longrightarrow> \<exists>r b'. biowrite ops b data = Some (r, b')"
  unfolding biowrite_def by (rule biowrite_loop_returns)

end

text \<open>A channel whose writes succeed in the states \<open>fine\<close>.\<close>

locale firm_channel = moving_channel +
  fixes fine :: "'a \<Rightarrow> bool"
  assumes write_fine: "op_write ops = Some g \<Longrightarrow> fine p \<Longrightarrow> g p bs = (wres, p') \<Longrightarrow>
      (\<exists>k. wres = Inr k) \<and> fine p'"
    and writes: "op_write ops \<noteq> None"
begin

lemma bioflush_fine:
  "fine (pdata b) \<Longrightarrow> bioflush ops b = Some (r, b') \<Longrightarrow> r = 0 \<and> fine (pdata b')"
proof (induction "length (wbuf b) - wh b" arbitrary: b rule: less_induct)
  case less
  show ?case
  proof (cases "wh b < length (wbuf b)")
    case False
    with less.prems show ?thesis by (simp add: bioflush.simps [of ops b])
  next
    case True
    obtain g where g: "op_write ops = Some g" using writes by auto
    obtain res p where res: "g (pdata b) (drop (wh b) (wbuf b)) = (res, p)" by fastforce
    obtain k where k: "res = Inr k" "fine p" using write_fine [OF g less.prems(1) res] by auto
    have "0 < k" using write_moves [OF g _ res [unfolded k(1)]] True by simp
    moreover have "bioflush ops (b\<lparr>wh := wh b + k, pdata := p\<rparr>) = Some (r, b')"
      using less.prems(2) True g res k(1) by (simp add: bioflush.simps [of ops b])
    ultimately show ?thesis using True k(2) by (intro less.hyps) auto
  qed
qed

lemma biowensure_fine:
  assumes "fine (pdata b)" "biowensure ops b n = Some (r, b')"
  shows "r = 0 \<and> fine (pdata b')"
proof (cases "wsize b - length (wbuf b) < n")
  case False
  with assms show ?thesis by (simp add: biowensure_def)
next
  case True
  obtain q b1 where q: "bioflush ops b = Some (q, b1)" using bioflush_returns [OF writes, of b] by auto
  with bioflush_fine [OF assms(1) q] True assms(2) writes show ?thesis
    by (auto simp: biowensure_def Let_def split: if_splits)
qed

lemma bioprintf_fine:
  assumes "bio_ok b" "fine (pdata b)" "bioprintf ops b n str = Some (r, b')"
  shows "r = 0 \<and> fine (pdata b')"
proof -
  have loop: "r = 0 \<and> fine (pdata b')"
    if c: "bio_ok c" "fine (pdata c)" and l: "bioprintf_loop ops c str = Some (r, b')" for c
  proof (cases "length str < wsize c - length (wbuf c)")
    case True
    with c l show ?thesis by (auto simp: bioprintf_loop.simps [of ops c])
  next
    case False
    obtain q b1 where q: "biowensure ops c (length str + 1) = Some (q, b1)"
      using biowensure_returns by blast
    from biowensure_fine [OF c(2) q] biowensure_law [OF q c(1)] have
      "q = 0" "fine (pdata b1)" "length str < wsize b1 - length (wbuf b1)" by auto
    with False l q show ?thesis
      by (auto simp: bioprintf_loop.simps [of ops c] bioprintf_loop.simps [of ops b1])
  qed
  obtain q b1 where q: "biowensure ops b n = Some (q, b1)" using biowensure_returns by blast
  with biowensure_fine [OF assms(2) q] biowensure_law [OF q assms(1)] assms(3) loop [of b1]
  show ?thesis by (auto simp: bioprintf_def)
qed

lemma biowrite_loop_fine:
  assumes "fine (pdata b)" "biowrite_loop ops wb b data = Some (r, b')" "bio_ok b"
  shows "r = int (wb + length data) \<and> fine (pdata b')"
  using assms
proof (induction "length data" arbitrary: wb b data rule: less_induct)
  case less
  show ?case
  proof (cases "data = []")
    case True
    with less.prems show ?thesis by (simp add: biowrite_loop.simps [of ops wb b "[]"])
  next
    case False
    obtain q b1 where q: "biowensure ops b (min (length data) (bufhint b)) = Some (q, b1)"
      using biowensure_returns by blast
    have 1: "q = 0" "fine (pdata b1)" "bio_ok b1"
      using biowensure_fine [OF less.prems(1) q] biowensure_law [OF q less.prems(3)] by auto
    show ?thesis
    proof (cases "length data < wsize b1 - length (wbuf b1)")
      case True
      with False less.prems q 1 show ?thesis by (auto simp: biowrite_loop.simps [of ops wb b data])
    next
      case direct: False
      obtain q2 b2 where q2: "bioflush ops b1 = Some (q2, b2)" using bioflush_returns [OF writes, of b1] by auto
      have 2: "q2 = 0" "fine (pdata b2)" "bio_ok b2"
        using bioflush_fine [OF 1(2) q2] bioflush_law [OF q2 1(3)] by auto
      obtain g where g: "op_write ops = Some g" using writes by auto
      obtain res p where res: "g (pdata b2) data = (res, p)" by fastforce
      obtain k where k: "res = Inr k" "fine p" using write_fine [OF g 2(2) res] by auto
      have k2: "0 < k" "k \<le> length data"
        using write_moves [OF g False] write_law [OF g res] res k(1) by auto
      have "biowrite_loop ops (wb + k) (b2\<lparr>wh := 0, wbuf := [], pdata := p\<rparr>) (drop k data) = Some (r, b')"
        using False less.prems(2) q 1 direct q2 2 g res k by (simp add: biowrite_loop.simps [of ops wb b data])
      moreover have "bio_ok (b2\<lparr>wh := 0, wbuf := [], pdata := p\<rparr>)" using 2(3) by (simp add: bio_ok_def)
      ultimately have "r = int (wb + k + length (drop k data)) \<and> fine (pdata b')"
        using k k2 by (intro less.hyps) auto
      with k2 show ?thesis by simp
    qed
  qed
qed

lemma biowrite_fine:
  "fine (pdata b) \<Longrightarrow> bio_ok b \<Longrightarrow> biowrite ops b data = Some (r, b') \<Longrightarrow>
     r = int (length data) \<and> fine (pdata b')"
  using biowrite_loop_fine [of b 0 data r b'] by (simp add: biowrite_def)

lemma biowritesome_fine:
  "fine (pdata b) \<Longrightarrow> biowritesome ops b data = Some (r, b') \<Longrightarrow> 0 \<le> r \<and> fine (pdata b')"
proof -
  assume b: "fine (pdata b)" "biowritesome ops b data = Some (r, b')"
  have some: "q \<ge> 0 \<and> fine (pdata c')" if "bioflushsome ops c = Some (q, c')" "pdata c = pdata b" for c c' q
    using that b(1) write_fine
    by (fastforce simp: bioflushsome_def split: if_splits option.splits prod.splits sum.splits)
  have "pdata (bio_compact c) = pdata c" for c :: "'a bufio" by (simp add: bio_compact_def)
  with b show ?thesis
    unfolding biowritesome_unfold
    by (auto dest!: some split: option.splits if_splits)
qed

end

text \<open>A channel that still has the bytes \<open>future\<close> to deliver and then reports the end.\<close>

locale live_channel = channel +
  fixes future :: "'a \<Rightarrow> string"
    and up :: "'a \<Rightarrow> bool"
  assumes has_read: "op_read ops \<noteq> None"
    and read_live: "op_read ops = Some f \<Longrightarrow> up p \<Longrightarrow> 0 < n \<Longrightarrow>
      \<exists>bs p'. f p n = (Inr bs, p') \<and> future p = bs @ future p' \<and> up p' \<and> (bs = [] \<longrightarrow> future p = [])"
begin

definition contents :: "'a bufio \<Rightarrow> string" where
  "contents b = unread b @ future (pdata b)"

definition live :: "'a bufio \<Rightarrow> bool" where
  "live b \<longleftrightarrow> bio_ok b \<and> up (pdata b) \<and> (bio_eof b \<longrightarrow> future (pdata b) = [])"

lemma biofill_live:
  assumes "live b"
  shows "\<exists>r b'. biofill ops b = (r, b') \<and> contents b' = contents b \<and> live b' \<and>
    (r \<le> 0 \<longrightarrow> future (pdata b') = [])"
proof -
  obtain f where f: "op_read ops = Some f" using has_read by auto
  obtain r b' where b': "biofill ops b = (r, b')" by fastforce
  have ok: "bio_ok b'" using biofill_law [OF _ b'] assms by (auto simp: live_def)
  show ?thesis
  proof (cases "bio_eof b")
    case True
    with f b' assms show ?thesis by (auto simp: biofill_def live_def contents_def)
  next
    case False
    define b1 where "b1 = bio_room b"
    have b1: "pdata b1 = pdata b" "\<not> bio_eof b1" "unread b1 = unread b"
      using False by (simp_all add: b1_def)
    have le: "rh b1 \<le> length (rbuf b1)" "0 < rsize b1 - length (rbuf b1)"
      using room_ok [of b] assms by (auto simp: b1_def live_def)
    with read_live [OF f, of "pdata b1"] assms b1(1) obtain bs p' where law: "f (pdata b1) (rsize b1 - length (rbuf b1)) = (Inr bs, p')"
      "future (pdata b) = bs @ future p'" "up p'" "bs = [] \<longrightarrow> future (pdata b) = []"
      unfolding live_def by metis
    have fill: "biofill ops b = (if bs = [] then (0, b1\<lparr>bio_eof := True, pdata := p'\<rparr>)
      else let b2 = b1\<lparr>rbuf := rbuf b1 @ bs, pdata := p'\<rparr> in (int (biordata b2), b2))"
      using False f law(1) by (simp add: biofill_def b1_def Let_def)
    have r: "r > 0" if "bs \<noteq> []"
      using that fill b' le(1) by (cases bs) (auto simp: Let_def biordata_def)
    show ?thesis
      using fill b' ok law b1 le r
      by (cases "bs = []") (auto simp: live_def contents_def unread_def Let_def)
  qed
qed

end

sublocale live_channel \<subseteq> stream: byte_source "biogetc ops" contents live
proof
  fix b c r
  assume b: "live b" "contents b = c # r"
  show "\<exists>b'. biogetc ops b = (ord c, b') \<and> contents b' = r \<and> live b'"
  proof (cases "biordata b = 0")
    case False
    then have u: "unread b = (rbuf b ! rh b) # drop (rh b + 1) (rbuf b)"
      by (simp add: unread_def biordata_def Cons_nth_drop_Suc)
    with b False show ?thesis
      by (auto simp: biogetc_unfold contents_def live_def bio_ok_def biordata_def unread_def)
  next
    case True
    then have e: "unread b = []" by (metis length_unread length_0_conv)
    obtain q b1 where q: "biofill ops b = (q, b1)" "contents b1 = contents b" "live b1"
      "q \<le> 0 \<longrightarrow> future (pdata b1) = []" using biofill_live [OF b(1)] by blast
    have "q > 0"
    proof (rule ccontr)
      assume "\<not> q > 0"
      then have "biordata b1 = 0"
        using q biofill_law [OF _ q(1)] b(1) True e by (auto simp: live_def simp flip: length_unread)
      then have "unread b1 = []" by (metis length_unread length_0_conv)
      with q b(2) \<open>\<not> q > 0\<close> show False by (simp add: contents_def)
    qed
    then have "rh b1 < length (rbuf b1)"
      using biofill_progress [OF q(1)] by (simp add: biordata_def)
    moreover from this have u: "unread b1 = (rbuf b1 ! rh b1) # drop (rh b1 + 1) (rbuf b1)"
      by (simp add: unread_def Cons_nth_drop_Suc)
    moreover note \<open>q > 0\<close>
    ultimately show ?thesis using b(2) q True
      by (auto simp: biogetc_unfold contents_def live_def bio_ok_def biordata_def unread_def)
  qed
next
  fix b
  assume b: "live b" "contents b = []"
  then have u: "unread b = []" "biordata b = 0" by (auto simp: contents_def simp flip: length_unread)
  obtain q b1 where q: "biofill ops b = (q, b1)" "contents b1 = contents b" "live b1"
    using biofill_live [OF b(1)] by blast
  have "\<not> q > 0"
    using biofill_progress [OF q(1)] q(2) b(2) by (auto simp: contents_def simp flip: length_unread)
  with u q b(2) show "\<exists>b'. biogetc ops b = (EOF, b') \<and> contents b' = [] \<and> live b'"
    by (auto simp: biogetc_unfold)
qed

sublocale channel \<subseteq> stream: byte_sink "\<lambda>n s b. bioprintf ops b n s" outgoing bio_ok
  using bioprintf_law by unfold_locales fastforce

section \<open>Whole conversations\<close>

text \<open>
  \<open>bio_run ops b rd wr b'\<close>: some sequence of calls leads from \<open>b\<close> to \<open>b'\<close>, in which the readers
  were handed the bytes \<open>rd\<close> and the writers' bytes \<open>wr\<close> were accepted, by the counts the calls
  returned.
\<close>

inductive bio_run :: "'p bufioops \<Rightarrow> 'p bufio \<Rightarrow> string \<Rightarrow> string \<Rightarrow> 'p bufio \<Rightarrow> bool"
  for ops :: "'p bufioops" where
  run_start: "bio_run ops b [] [] b"
| run_getc: "bio_run ops b rd wr c \<Longrightarrow> biogetc ops c = (ord x, d) \<Longrightarrow> bio_run ops b (rd @ [x]) wr d"
| run_getc_end: "bio_run ops b rd wr c \<Longrightarrow> biogetc ops c = (EOF, d) \<Longrightarrow> bio_run ops b rd wr d"
| run_readsome: "bio_run ops b rd wr c \<Longrightarrow> bioreadsome ops c n = (r, xs, d) \<Longrightarrow>
    bio_run ops b (rd @ xs) wr d"
| run_rensure: "bio_run ops b rd wr c \<Longrightarrow> biorensure ops c n = (r, d) \<Longrightarrow> bio_run ops b rd wr d"
| run_fillsome: "bio_run ops b rd wr c \<Longrightarrow> biofillsome ops c = (r, d) \<Longrightarrow> bio_run ops b rd wr d"
| run_flush: "bio_run ops b rd wr c \<Longrightarrow> bioflush ops c = Some (r, d) \<Longrightarrow> bio_run ops b rd wr d"
| run_flushsome: "bio_run ops b rd wr c \<Longrightarrow> bioflushsome ops c = Some (r, d) \<Longrightarrow> bio_run ops b rd wr d"
| run_wensure: "bio_run ops b rd wr c \<Longrightarrow> biowensure ops c n = Some (r, d) \<Longrightarrow> bio_run ops b rd wr d"
| run_putc: "bio_run ops b rd wr c \<Longrightarrow> bioputc ops c k = Some (r, d) \<Longrightarrow>
    bio_run ops b rd (wr @ (if r = 0 then [chr k] else [])) d"
| run_write: "bio_run ops b rd wr c \<Longrightarrow> biowrite ops c xs = Some (r, d) \<Longrightarrow>
    bio_run ops b rd (wr @ take (nat r) xs) d"
| run_writesome: "bio_run ops b rd wr c \<Longrightarrow> biowritesome ops c xs = Some (r, d) \<Longrightarrow>
    bio_run ops b rd (wr @ take (nat r) xs) d"
| run_printf: "bio_run ops b rd wr c \<Longrightarrow> bioprintf ops c n xs = Some (r, d) \<Longrightarrow>
    bio_run ops b rd (wr @ (if r = 0 then xs else [])) d"

context channel
begin

text \<open>
  From \<open>b\<close> to \<open>c\<close> the readers got \<open>xs\<close>, the writers' \<open>ys\<close> were accepted, and whatever the
  channel delivered is either in \<open>xs\<close> or still unread.
\<close>

definition serves :: "'p bufio \<Rightarrow> string \<Rightarrow> string \<Rightarrow> 'p bufio \<Rightarrow> bool" where
  "serves b xs ys c \<longleftrightarrow> bio_ok c \<and> outgoing c = outgoing b @ ys \<and>
     (\<exists>bs. got (pdata c) = got (pdata b) @ bs \<and> unread b @ bs = xs @ unread c)"

lemma serves_refl: "bio_ok b \<Longrightarrow> serves b [] [] b"
  by (simp add: serves_def)

lemma serves_join:
  assumes "serves b xs ys c" "bio_ok c \<Longrightarrow> serves c xs' ys' d"
  shows "serves b (xs @ xs') (ys @ ys') d"
proof -
  obtain bs where 1: "bio_ok c" "outgoing c = outgoing b @ ys" "got (pdata c) = got (pdata b) @ bs"
    "unread b @ bs = xs @ unread c" using assms(1) by (auto simp: serves_def)
  obtain bs' where 2: "bio_ok d" "outgoing d = outgoing c @ ys'" "got (pdata d) = got (pdata c) @ bs'"
    "unread c @ bs' = xs' @ unread d" using assms(2) [OF 1(1)] by (auto simp: serves_def)
  have "unread b @ bs @ bs' = (xs @ xs') @ unread d"
    using 1(4) 2(4) by (metis append_assoc)
  with 1 2 show ?thesis by (auto simp: serves_def)
qed

lemma serves_same: "bio_ok d \<and> same_out c d \<Longrightarrow> serves c [] [] d"
  by (simp add: serves_def same_out_def read_side_def)

lemma getc_serves: "biogetc ops c = (ord x, d) \<Longrightarrow> bio_ok c \<Longrightarrow> serves c [x] [] d"
  using biogetc_law [of c "ord x" d] by (auto simp: serves_def)

lemma getc_end_serves: "biogetc ops c = (EOF, d) \<Longrightarrow> bio_ok c \<Longrightarrow> serves c [] [] d"
  using biogetc_law [of c EOF d] by (auto simp: serves_def)

lemma readsome_serves: "bioreadsome ops c n = (r, xs, d) \<Longrightarrow> bio_ok c \<Longrightarrow> serves c xs [] d"
  using bioreadsome_law [of c n r xs d] by (auto simp: serves_def)

lemma rensure_serves: "biorensure ops c n = (r, d) \<Longrightarrow> bio_ok c \<Longrightarrow> serves c [] [] d"
  using biorensure_law [of c n r d] by (auto simp: serves_def)

lemma fillsome_serves: "biofillsome ops c = (r, d) \<Longrightarrow> bio_ok c \<Longrightarrow> serves c [] [] d"
  using biofill_law [of c r d] by (auto simp: serves_def biofillsome_def)

lemma wrote_serves: "wrote c xs r d \<Longrightarrow> serves c [] (take (nat r) xs) d"
  by (auto simp: serves_def wrote_def read_side_def)

lemma putc_serves:
  "bioputc ops c k = Some (r, d) \<Longrightarrow> bio_ok c \<Longrightarrow> serves c [] (if r = 0 then [chr k] else []) d"
  using bioputc_law [of c k r d] by (auto simp: serves_def read_side_def)

lemma printf_serves:
  "bioprintf ops c n xs = Some (r, d) \<Longrightarrow> bio_ok c \<Longrightarrow> serves c [] (if r = 0 then xs else []) d"
  using bioprintf_law [of c n xs r d] by (auto simp: serves_def read_side_def)

lemma flush_serves:
  "bioflush ops c = Some (r, d) \<Longrightarrow> bio_ok c \<Longrightarrow> serves c [] [] d"
  "bioflushsome ops c = Some (r, d) \<Longrightarrow> bio_ok c \<Longrightarrow> serves c [] [] d"
  "biowensure ops c n = Some (r, d) \<Longrightarrow> bio_ok c \<Longrightarrow> serves c [] [] d"
  using bioflush_law [of c r d] bioflushsome_law [of c r d] biowensure_law [of c n r d]
  by (auto intro: serves_same)

lemmas write_serves = wrote_serves [OF biowrite_law] wrote_serves [OF biowritesome_law]

lemma run_law: "bio_run ops b rd wr c \<Longrightarrow> bio_ok b \<Longrightarrow> serves b rd wr c"
proof (induction rule: bio_run.induct)
  case (run_start b)
  then show ?case by (rule serves_refl)
next
  case (run_getc b rd wr c x d)
  with serves_join [OF _ getc_serves [OF run_getc.hyps(2)]] show ?case by force
next
  case (run_getc_end b rd wr c d)
  with serves_join [OF _ getc_end_serves [OF run_getc_end.hyps(2)]] show ?case by force
next
  case (run_readsome b rd wr c n r xs d)
  with serves_join [OF _ readsome_serves [OF run_readsome.hyps(2)]] show ?case by force
next
  case (run_rensure b rd wr c n r d)
  with serves_join [OF _ rensure_serves [OF run_rensure.hyps(2)]] show ?case by force
next
  case (run_fillsome b rd wr c r d)
  with serves_join [OF _ fillsome_serves [OF run_fillsome.hyps(2)]] show ?case by force
next
  case (run_flush b rd wr c r d)
  with serves_join [OF _ flush_serves(1) [OF run_flush.hyps(2)]] show ?case by force
next
  case (run_flushsome b rd wr c r d)
  with serves_join [OF _ flush_serves(2) [OF run_flushsome.hyps(2)]] show ?case by force
next
  case (run_wensure b rd wr c n r d)
  with serves_join [OF _ flush_serves(3) [OF run_wensure.hyps(2)]] show ?case by force
next
  case (run_putc b rd wr c k r d)
  with serves_join [OF _ putc_serves [OF run_putc.hyps(2)]] show ?case by force
next
  case (run_write b rd wr c xs r d)
  with serves_join [OF _ write_serves(1) [OF run_write.hyps(2)]] show ?case by force
next
  case (run_writesome b rd wr c xs r d)
  with serves_join [OF _ write_serves(2) [OF run_writesome.hyps(2)]] show ?case by force
next
  case (run_printf b rd wr c n xs r d)
  with serves_join [OF _ printf_serves [OF run_printf.hyps(2)]] show ?case by force
qed

end

end
