(* ===== verification/Mtio.thy ===== *)
theory Mtio
  imports Bufio
begin

text \<open>
  The descriptors of \<open>lib/mtio.c\<close>: reading and writing with \<open>EAGAIN\<close> turned into a wait, and
  descriptors passed along with the data of a UNIX socket. They provide the channel that the
  buffered streams of \<open>Bufio\<close> are opened on (\<open>mtbioopen\<close>), so the interfaces \<open>channel\<close>,
  \<open>moving_channel\<close> and \<open>live_channel\<close> are interpreted here.

  The kernel is the sequence of the outcomes of the system calls still to come. An \<open>EAGAIN\<close>
  outcome carries what the following \<open>block\<close> returns: negative for a failure, 0 for a timeout.
\<close>

section \<open>Data\<close>

datatype rd_event = RdAgain int | RdData string "int list" | RdErr int

text \<open>\<open>WrTake k\<close>: the kernel takes \<open>k + 1\<close> bytes, or all there are when there are fewer.\<close>

datatype wr_event = WrAgain int | WrTake nat | WrErr int

record stdiofd =
  fd :: int
  sock :: bool
  timeout :: int
  rights :: int
  sendrights :: int
  rscript :: "rd_event list"
  wscript :: "wr_event list"
  received :: string
  accepted :: "(string \<times> int option) list"
  closed :: "int list"

definition ETIMEDOUT :: int where
  "ETIMEDOUT = 110"

definition sent_bytes :: "stdiofd \<Rightarrow> string" where
  "sent_bytes d = concat (map fst (accepted d))"

section \<open>Operations\<close>

text \<open>The first descriptor that arrives is kept, the others are closed.\<close>

fun take_rights :: "int list \<Rightarrow> stdiofd \<Rightarrow> stdiofd" where
  "take_rights [] d = d"
| "take_rights (f # fs) d =
     take_rights fs (if rights d < 0 then d\<lparr>rights := f\<rparr> else d\<lparr>closed := closed d @ [f]\<rparr>)"

text \<open>One successful \<open>read\<close> or \<open>mtrecv\<close> of at most \<open>n\<close> of the bytes \<open>bs\<close> that are ready.\<close>

definition mtrecv :: "stdiofd \<Rightarrow> nat \<Rightarrow> string \<Rightarrow> int list \<Rightarrow> rd_event list \<Rightarrow> string \<times> stdiofd" where
  "mtrecv d n bs fds evs =
    (let d1 = (if sock d then take_rights fds d else d) in
     (take n bs, d1\<lparr>received := received d1 @ take n bs,
        rscript := (if drop n bs = [] then evs else RdData (drop n bs) [] # evs)\<rparr>))"

fun mtread_loop :: "rd_event list \<Rightarrow> stdiofd \<Rightarrow> nat \<Rightarrow> (int + string) \<times> stdiofd" where
  "mtread_loop [] d n = (Inr [], d\<lparr>rscript := []\<rparr>)"
| "mtread_loop (RdAgain ev # evs) d n =
     (if ev = 0 then (Inl ETIMEDOUT, d\<lparr>rscript := evs\<rparr>) else mtread_loop evs d n)"
| "mtread_loop (RdErr e # evs) d n = (Inl e, d\<lparr>rscript := evs\<rparr>)"
| "mtread_loop (RdData bs fds # evs) d n =
     (case mtrecv d n bs fds evs of (xs, d') \<Rightarrow> (Inr xs, d'))"

definition mtread :: "stdiofd \<Rightarrow> nat \<Rightarrow> (int + string) \<times> stdiofd" where
  "mtread d n = mtread_loop (rscript d) d n"

text \<open>
  What every attempt of \<open>mtsend\<close> does to the descriptor that waits to be sent, before it is
  known whether the kernel takes the message: it is attached, forgotten and closed.
\<close>

definition attach_rights :: "stdiofd \<Rightarrow> int option \<times> stdiofd" where
  "attach_rights d =
     (if sock d \<and> sendrights d \<ge> 0
      then (Some (sendrights d), d\<lparr>sendrights := - 1, closed := closed d @ [sendrights d]\<rparr>)
      else (None, d))"

fun mtwrite_loop :: "wr_event list \<Rightarrow> stdiofd \<Rightarrow> string \<Rightarrow> (int + nat) \<times> stdiofd" where
  "mtwrite_loop [] d bs =
     (case attach_rights d of (cr, d1) \<Rightarrow>
        (Inr (length bs), d1\<lparr>wscript := [], accepted := accepted d1 @ [(bs, cr)]\<rparr>))"
| "mtwrite_loop (WrAgain ev # evs) d bs =
     (case attach_rights d of (cr, d1) \<Rightarrow>
        if ev = 0 then (Inl ETIMEDOUT, d1\<lparr>wscript := evs\<rparr>) else mtwrite_loop evs d1 bs)"
| "mtwrite_loop (WrErr e # evs) d bs =
     (case attach_rights d of (cr, d1) \<Rightarrow> (Inl e, d1\<lparr>wscript := evs\<rparr>))"
| "mtwrite_loop (WrTake k # evs) d bs =
     (case attach_rights d of (cr, d1) \<Rightarrow>
        let n = min (Suc k) (length bs) in
        (Inr n, d1\<lparr>wscript := evs, accepted := accepted d1 @ [(take n bs, cr)]\<rparr>))"

definition mtwrite :: "stdiofd \<Rightarrow> string \<Rightarrow> (int + nat) \<times> stdiofd" where
  "mtwrite d bs = mtwrite_loop (wscript d) d bs"

definition mtclose :: "stdiofd \<Rightarrow> int \<times> stdiofd" where
  "mtclose d = (0, d\<lparr>closed := closed d @ [fd d] @
     (if rights d \<ge> 0 then [rights d] else []) @ (if sendrights d \<ge> 0 then [sendrights d] else [])\<rparr>)"

definition mtops :: "stdiofd bufioops" where
  "mtops = \<lparr>op_read = Some mtread, op_write = Some mtwrite, op_close = Some mtclose\<rparr>"

definition mtbioopen ::
  "int \<Rightarrow> bool \<Rightarrow> int \<Rightarrow> string \<Rightarrow> rd_event list \<Rightarrow> wr_event list \<Rightarrow> stdiofd bufio option" where
  "mtbioopen f issock tmo mode rs ws =
     (if mode = ''r'' \<or> mode = ''w'' \<or> mode = ''r+'' then
        Some (bioopen \<lparr>fd = f, sock = issock, timeout = tmo, rights = - 1, sendrights = - 1,
          rscript = rs, wscript = ws, received = [], accepted = [], closed = []\<rparr>)
      else None)"

section \<open>The channel\<close>

lemma take_rights_fields [simp]:
  "received (take_rights fs d) = received d" "accepted (take_rights fs d) = accepted d"
  "rscript (take_rights fs d) = rscript d"
  by (induction fs arbitrary: d) auto

lemma attach_fields [simp]:
  "received (snd (attach_rights d)) = received d" "accepted (snd (attach_rights d)) = accepted d"
  by (auto simp: attach_rights_def)

lemma attach_sent: "attach_rights d = (cr, d1) \<Longrightarrow> sent_bytes d1 = sent_bytes d"
  by (auto simp: attach_rights_def sent_bytes_def split: if_splits)

lemma sent_wscript [simp]: "sent_bytes (d\<lparr>wscript := ws\<rparr>) = sent_bytes d"
  by (simp add: sent_bytes_def)

lemma mtread_loop_law:
  "mtread_loop evs d n = (res, d') \<Longrightarrow> accepted d' = accepted d \<and>
     (case res of Inl e \<Rightarrow> received d' = received d
      | Inr bs \<Rightarrow> length bs \<le> n \<and> received d' = received d @ bs)"
  by (induction evs d n rule: mtread_loop.induct) (auto simp: mtrecv_def Let_def split: if_splits)

lemma mtwrite_loop_law:
  "mtwrite_loop evs d bs = (res, d') \<Longrightarrow> received d' = received d \<and>
     (case res of Inl e \<Rightarrow> sent_bytes d' = sent_bytes d
      | Inr k \<Rightarrow> k \<le> length bs \<and> sent_bytes d' = sent_bytes d @ take k bs)"
proof (induction evs d bs rule: mtwrite_loop.induct)
  case (1 d bs)
  then show ?case using attach_fields [of d] by (cases "attach_rights d") (auto simp: sent_bytes_def)
next
  case (2 ev evs d bs)
  then show ?case
    using attach_fields [of d] attach_sent [of d]
    by (cases "attach_rights d") (auto split: if_splits sum.splits)
next
  case (3 e evs d bs)
  then show ?case using attach_fields [of d] by (cases "attach_rights d") (auto simp: sent_bytes_def)
next
  case (4 k evs d bs)
  then show ?case
    using attach_fields [of d] by (cases "attach_rights d") (auto simp: sent_bytes_def Let_def)
qed

lemma mtwrite_loop_moves: "mtwrite_loop evs d bs = (Inr k, d') \<Longrightarrow> bs \<noteq> [] \<Longrightarrow> 0 < k"
  by (induction evs d bs rule: mtwrite_loop.induct) (auto split: prod.splits if_splits simp: Let_def)

text \<open>What a reader will still get, and a script on which no read fails.\<close>

fun coming :: "rd_event list \<Rightarrow> string" where
  "coming [] = []"
| "coming (RdData bs fds # evs) = bs @ coming evs"
| "coming (_ # evs) = coming evs"

fun healthy :: "rd_event list \<Rightarrow> bool" where
  "healthy [] = True"
| "healthy (RdData bs fds # evs) \<longleftrightarrow> bs \<noteq> [] \<and> healthy evs"
| "healthy (RdAgain ev # evs) \<longleftrightarrow> ev \<noteq> 0 \<and> healthy evs"
| "healthy (RdErr e # evs) = False"

lemma mtread_loop_live:
  "healthy evs \<Longrightarrow> 0 < n \<Longrightarrow> \<exists>bs d'. mtread_loop evs d n = (Inr bs, d') \<and>
     coming evs = bs @ coming (rscript d') \<and> healthy (rscript d') \<and> (bs = [] \<longrightarrow> coming evs = [])"
  by (induction evs d n rule: mtread_loop.induct) (auto simp: mtrecv_def Let_def)

interpretation mt: moving_channel mtops received sent_bytes
proof
  fix f p n res p'
  assume "op_read mtops = Some f" "f p n = (res, p')"
  then show "sent_bytes p' = sent_bytes p \<and>
      (case res of Inl e \<Rightarrow> received p' = received p
       | Inr bs \<Rightarrow> length bs \<le> n \<and> received p' = received p @ bs)"
    using mtread_loop_law [of "rscript p" p n res p'] by (auto simp: mtops_def mtread_def sent_bytes_def)
next
  fix g p bs wres p'
  assume "op_write mtops = Some g" "g p bs = (wres, p')"
  then show "received p' = received p \<and>
      (case wres of Inl e \<Rightarrow> sent_bytes p' = sent_bytes p
       | Inr k \<Rightarrow> k \<le> length bs \<and> sent_bytes p' = sent_bytes p @ take k bs)"
    using mtwrite_loop_law [of "wscript p" p bs wres p'] by (auto simp: mtops_def mtwrite_def)
next
  fix g bs p k p'
  assume "op_write mtops = Some g" "bs \<noteq> []" "g p bs = (Inr k, p')"
  then show "0 < k"
    using mtwrite_loop_moves [of "wscript p" p bs k p'] by (auto simp: mtops_def mtwrite_def)
qed

interpretation mt: live_channel mtops received sent_bytes "\<lambda>d. coming (rscript d)"
  "\<lambda>d. healthy (rscript d)"
proof
  fix f and p :: stdiofd and n :: nat
  assume f: "op_read mtops = Some f" and up: "healthy (rscript p)" and n: "0 < n"
  show "\<exists>bs p'. f p n = (Inr bs, p') \<and> coming (rscript p) = bs @ coming (rscript p') \<and>
      healthy (rscript p') \<and> (bs = [] \<longrightarrow> coming (rscript p) = [])"
    using f mtread_loop_live [OF up n] by (auto simp: mtops_def mtread_def)
qed (simp add: mtops_def)

text \<open>A script on which no write fails.\<close>

fun taking :: "wr_event list \<Rightarrow> bool" where
  "taking [] = True"
| "taking (WrTake k # evs) \<longleftrightarrow> taking evs"
| "taking (WrAgain ev # evs) \<longleftrightarrow> ev \<noteq> 0 \<and> taking evs"
| "taking (WrErr e # evs) = False"

lemma mtwrite_loop_taking:
  "taking evs \<Longrightarrow> mtwrite_loop evs d bs = (res, d') \<Longrightarrow> (\<exists>k. res = Inr k) \<and> taking (wscript d')"
  by (induction evs d bs rule: mtwrite_loop.induct) (auto simp: Let_def split: prod.splits)

interpretation mt: firm_channel mtops received sent_bytes "\<lambda>d. taking (wscript d)"
proof
  fix g and p :: stdiofd and bs wres p'
  assume "op_write mtops = Some g" "taking (wscript p)" "g p bs = (wres, p')"
  then show "(\<exists>k. wres = Inr k) \<and> taking (wscript p')"
    using mtwrite_loop_taking [of "wscript p" p bs wres p'] by (auto simp: mtops_def mtwrite_def)
qed (simp add: mtops_def)

text \<open>A read takes what it returns off the bytes that are coming.\<close>

lemma mtread_coming:
  "mtread_loop evs d n = (res, d') \<Longrightarrow>
     length (coming (rscript d')) + (case res of Inl e \<Rightarrow> 0 | Inr bs \<Rightarrow> length bs) \<le> length (coming evs)"
  by (induction evs d n rule: mtread_loop.induct) (auto simp: mtrecv_def Let_def split: if_splits)

section \<open>Properties\<close>

text \<open>A plain descriptor, for the examples.\<close>

definition the_fd :: "rd_event list \<Rightarrow> wr_event list \<Rightarrow> stdiofd" where
  "the_fd rs ws = \<lparr>fd = 3, sock = False, timeout = 0, rights = - 1, sendrights = - 1,
     rscript = rs, wscript = ws, received = [], accepted = [], closed = []\<rparr>"

text \<open>C12. Through any sequence of calls on a buffered stream, each byte the connection delivers
  is either handed to the reader, in order and once, or still in the read buffer; and the bytes on
  the connection followed by those in the write buffer are exactly the bytes whose acceptance the
  writing calls reported, partial writes, retries and failed writes included.\<close>

theorem bufio_conserves:
  assumes "bio_run mtops (bioopen d) rd wr b"
  shows "received (pdata b) = received d @ rd @ unread b \<and>
    sent_bytes (pdata b) @ unsent b = sent_bytes d @ wr"
  using mt.run_law [OF assms bio_ok_open]
  by (auto simp: mt.serves_def mt.outgoing_def unread_def unsent_def bioopen_def)

lemma bufio_conserves_witness:
  "\<exists>b. bio_run mtops (bioopen (the_fd [RdData ''ab'' []] [])) ''a'' [] b \<and>
     received (pdata b) = ''a'' @ unread b"
proof -
  let ?d = "the_fd [RdData ''ab'' []] []"
  define b where "b = snd (biogetc mtops (bioopen ?d))"
  have "fst (biogetc mtops (bioopen ?d)) = ord (CHR ''a'')" by code_simp
  then have "biogetc mtops (bioopen ?d) = (ord (CHR ''a''), b)"
    by (simp add: b_def prod_eq_iff)
  then have "bio_run mtops (bioopen ?d) ([] @ ''a'') [] b"
    using run_getc [OF run_start] by simp
  with bufio_conserves [OF this] show ?thesis by (auto simp: the_fd_def)
qed

text \<open>A formatted write to a buffered connection always returns, however the kernel splits,
  delays or refuses the data; it either reports success with the whole text appended to the bytes
  on their way, or reports an error with nothing of it appended.\<close>

lemma bioprintf_all_or_nothing:
  assumes "bio_ok (b :: stdiofd bufio)"
  shows "\<exists>r b'. bioprintf mtops b n s = Some (r, b') \<and> bio_ok b' \<and>
    (r = 0 \<and> sent_bytes (pdata b') @ unsent b' = sent_bytes (pdata b) @ unsent b @ s \<or>
     r < 0 \<and> sent_bytes (pdata b') @ unsent b' = sent_bytes (pdata b) @ unsent b)"
proof -
  obtain r b' where r: "bioprintf mtops b n s = Some (r, b')"
    using mt.bioprintf_returns [OF assms] by blast
  with mt.bioprintf_law [OF r assms] show ?thesis by (auto simp: mt.outgoing_def)
qed

lemma bioprintf_all_or_nothing_witness:
  "\<exists>r b'. bioprintf mtops (bioopen (the_fd [] [WrErr 32])) 3 ''abc'' = Some (r, b')"
  using bioprintf_all_or_nothing [of "bioopen (the_fd [] [WrErr 32])" 3 "''abc''"]
  by (auto simp: bio_ok_open)

text \<open>A descriptor queued on a socket is lost when the first attempt to send with it finds the
  socket full: whatever bytes the retry sends go out without it, and it has been closed.\<close>

lemma mtwrite_loses_descriptor:
  assumes "sock d" "0 \<le> sendrights d" "wscript d = WrAgain ev # evs" "ev \<noteq> 0"
    and "mtwrite d bs = (res, d')"
  shows "sendrights d' = - 1 \<and> (\<exists>cl. closed d' = closed d @ [sendrights d] @ cl) \<and>
    (\<exists>msgs. accepted d' = accepted d @ msgs \<and> (\<forall>m\<in>set msgs. snd m = None))"
proof -
  define d1 where "d1 = d\<lparr>sendrights := - 1, closed := closed d @ [sendrights d]\<rparr>"
  have loop: "mtwrite_loop es c ys = (r, c') \<Longrightarrow> sendrights c = - 1 \<Longrightarrow>
      sendrights c' = - 1 \<and> closed c' = closed c \<and>
      (\<exists>msgs. accepted c' = accepted c @ msgs \<and> (\<forall>m\<in>set msgs. snd m = None))" for es c ys r c'
    by (induction es c ys rule: mtwrite_loop.induct)
       (auto simp: attach_rights_def Let_def split: if_splits)
  have "mtwrite_loop evs d1 bs = (res, d')"
    using assms by (simp add: mtwrite_def attach_rights_def d1_def)
  from loop [OF this] show ?thesis
    by (simp_all add: d1_def)
qed

lemma mtwrite_loses_descriptor_witness:
  "\<exists>msgs. accepted (snd (mtwrite (the_fd [] [WrAgain 1, WrTake 9]\<lparr>sock := True, sendrights := 7\<rparr>) ''hi'')) =
     msgs \<and> (\<forall>m\<in>set msgs. snd m = None)"
  using mtwrite_loses_descriptor
    [of "the_fd [] [WrAgain 1, WrTake 9]\<lparr>sock := True, sendrights := 7\<rparr>" 1 "[WrTake 9]" "''hi''"
      "fst (mtwrite (the_fd [] [WrAgain 1, WrTake 9]\<lparr>sock := True, sendrights := 7\<rparr>) ''hi'')"
      "snd (mtwrite (the_fd [] [WrAgain 1, WrTake 9]\<lparr>sock := True, sendrights := 7\<rparr>) ''hi'')"]
  by (simp add: the_fd_def)

end
