(* ===== verification/Req.thy ===== *)
theory Req
  imports Mtio "HOL-Library.Sublist"
begin

text \<open>
  The message heads of \<open>lib/req.c\<close>: building and searching them, parsing a head off a stream and
  writing it, packing a request into the message that passes it between processes, and
  \<open>unquoteurl\<close>. The parsers and printers that the library has twice, over \<open>FILE\<close> and over
  \<open>struct bufio\<close>, are one definition over a \<open>getc\<close> or a printing function; the instances carry
  the names of the code.
\<close>

section \<open>Heads\<close>

text \<open>\<open>None\<close> is a null pointer; a request has no \<open>msg\<close>, a response no \<open>method\<close>.\<close>

record hthead =
  hd_method :: "cstring option"
  hd_url :: "cstring option"
  hd_ver :: "cstring option"
  hd_msg :: "cstring option"
  hd_code :: int
  hd_rest :: "cstring option"
  headers :: "(cstring \<times> cstring) list"

definition mkreq :: "cstring \<Rightarrow> cstring \<Rightarrow> cstring \<Rightarrow> hthead" where
  "mkreq method url ver = \<lparr>hd_method = Some method, hd_url = Some url, hd_ver = Some ver,
     hd_msg = None, hd_code = 0, hd_rest = Some url, headers = []\<rparr>"

definition mkresp :: "int \<Rightarrow> cstring \<Rightarrow> cstring \<Rightarrow> hthead" where
  "mkresp code msg ver = \<lparr>hd_method = None, hd_url = None, hd_ver = Some ver,
     hd_msg = Some msg, hd_code = code, hd_rest = None, headers = []\<rparr>"

fun find_header :: "(cstring \<times> cstring) list \<Rightarrow> cstring \<Rightarrow> cstring option" where
  "find_header [] name = None"
| "find_header ((n, v) # hs) name = (if strcaseeq n name then Some v else find_header hs name)"

definition getheader :: "hthead \<Rightarrow> cstring \<Rightarrow> cstring option" where
  "getheader head name = find_header (headers head) name"

definition replrest :: "hthead \<Rightarrow> cstring \<Rightarrow> hthead" where
  "replrest head rest = head\<lparr>hd_rest := Some rest\<rparr>"

definition headpreheader :: "hthead \<Rightarrow> cstring \<Rightarrow> cstring \<Rightarrow> hthead" where
  "headpreheader head name val = head\<lparr>headers := (name, val) # headers head\<rparr>"

definition headappheader :: "hthead \<Rightarrow> cstring \<Rightarrow> cstring \<Rightarrow> hthead" where
  "headappheader head name val = head\<lparr>headers := headers head @ [(name, val)]\<rparr>"

fun rm_header :: "(cstring \<times> cstring) list \<Rightarrow> cstring \<Rightarrow> (cstring \<times> cstring) list" where
  "rm_header [] name = []"
| "rm_header ((n, v) # hs) name = (if strcaseeq n name then hs else (n, v) # rm_header hs name)"

definition headrmheader :: "hthead \<Rightarrow> cstring \<Rightarrow> hthead" where
  "headrmheader head name = head\<lparr>headers := rm_header (headers head) name\<rparr>"

section \<open>Parsing headers\<close>

text \<open>
  \<open>trim\<close> on the bytes of a buffer: the trailing loop stops at the first byte, which the leading
  loop has made sure is not white space.
\<close>

definition trim :: "string \<Rightarrow> string" where
  "trim s = (case dropWhile isspace s of
      [] \<Rightarrow> []
    | c # t \<Rightarrow> c # rev (dropWhile isspace (rev t)))"

text \<open>
  The loop of \<open>parseheaders\<close>. \<open>st\<close> is the state of the automaton, \<open>tsz\<close> counts the bytes; the
  result says whether the head was complete. State 0 falls through to state 1 on the first byte
  of a name.
\<close>

function hdr_loop :: "('s \<Rightarrow> int \<times> 's) \<Rightarrow> nat \<Rightarrow> string \<Rightarrow> string \<Rightarrow> nat \<Rightarrow> hthead \<Rightarrow> 's \<Rightarrow>
    bool \<times> hthead \<times> 's" where
  "hdr_loop getc st name val tsz head s =
     (case getc s of (c, s') \<Rightarrow>
       if Suc tsz \<ge> 65536 then (False, head, s')
       else if st = 0 \<and> c = 13 then hdr_loop getc 0 name val (Suc tsz) head s'
       else if st = 0 \<and> c = 10 then (True, head, s')
       else if st = 0 \<and> c = EOF then (False, head, s')
       else if st = 0 \<or> st = 1 then
         (if c = 58 then hdr_loop getc 2 (trim name) val (Suc tsz) head s'
          else if c = 13 then hdr_loop getc 1 name val (Suc tsz) head s'
          else if c = 10 then (False, head, s')
          else if c = EOF then (False, head, s')
          else hdr_loop getc 1 (name @ [chr c]) val (Suc tsz) head s')
       else
         (if c = 13 then hdr_loop getc 2 name val (Suc tsz) head s'
          else if c = 10 then
            hdr_loop getc 0 [] [] (Suc tsz) (headappheader head (cstr name) (cstr (trim val))) s'
          else if c = EOF then (False, head, s')
          else hdr_loop getc 2 name (val @ [chr c]) (Suc tsz) head s'))"
  by pat_completeness auto
termination
  by (relation "measure (\<lambda>(getc, st, name, val, tsz, head, s). 65536 - tsz)") auto

declare hdr_loop.simps [simp del]

definition parse_headers :: "('s \<Rightarrow> int \<times> 's) \<Rightarrow> hthead \<Rightarrow> 's \<Rightarrow> bool \<times> hthead \<times> 's" where
  "parse_headers getc head s = hdr_loop getc 0 [] [] 0 head s"

definition parseheaders :: "hthead \<Rightarrow> string \<Rightarrow> bool \<times> hthead \<times> string" where
  "parseheaders = parse_headers fgetc"

definition parseheadersb :: "'p bufioops \<Rightarrow> hthead \<Rightarrow> 'p bufio \<Rightarrow> bool \<times> hthead \<times> 'p bufio" where
  "parseheadersb ops = parse_headers (biogetc ops)"

section \<open>Parsing a response\<close>

text \<open>
  The three loops of \<open>parseresponse\<close>; \<open>Inl\<close> is the jump to \<open>fail\<close>. Leading zeros of the status
  code and carriage returns in the message are skipped without a bound, so these loops end only
  with the input: a source that never ends is \<open>None\<close>.
\<close>

partial_function (option) resp_ver ::
  "('s \<Rightarrow> int \<times> 's) \<Rightarrow> string \<Rightarrow> 's \<Rightarrow> ('s + string \<times> 's) option" where
  "resp_ver getc ver s = (case getc s of (c, s') \<Rightarrow>
     if c = 32 then Some (Inr (ver, s'))
     else if c = EOF \<or> c < 32 \<or> c \<ge> 128 then Some (Inl s')
     else if length ver + 1 \<ge> 128 then Some (Inl s')
     else resp_ver getc (ver @ [chr c]) s')"

partial_function (option) resp_code ::
  "('s \<Rightarrow> int \<times> 's) \<Rightarrow> int \<Rightarrow> 's \<Rightarrow> ('s + int \<times> 's) option" where
  "resp_code getc code s = (case getc s of (c, s') \<Rightarrow>
     if c = 32 then Some (Inr (code, s'))
     else if c = EOF \<or> c < 48 \<or> c > 57 then Some (Inl s')
     else if code * 10 + (c - 48) \<ge> 10000 then Some (Inl s')
     else resp_code getc (code * 10 + (c - 48)) s')"

partial_function (option) resp_msg ::
  "('s \<Rightarrow> int \<times> 's) \<Rightarrow> string \<Rightarrow> 's \<Rightarrow> ('s + string \<times> 's) option" where
  "resp_msg getc msg s = (case getc s of (c, s') \<Rightarrow>
     if c = 10 then Some (Inr (msg, s'))
     else if c = 13 then resp_msg getc msg s'
     else if c = EOF \<or> c < 32 then Some (Inl s')
     else if length msg + 1 \<ge> 512 then Some (Inl s')
     else resp_msg getc (msg @ [chr c]) s')"

declare resp_ver.simps [code] resp_code.simps [code] resp_msg.simps [code]

text \<open>The result is the response, or \<open>None\<close> for the null pointer, and what is left to read.\<close>

definition parse_response :: "('s \<Rightarrow> int \<times> 's) \<Rightarrow> 's \<Rightarrow> (hthead option \<times> 's) option" where
  "parse_response getc s = (case resp_ver getc [] s of
      None \<Rightarrow> None
    | Some (Inl s1) \<Rightarrow> Some (None, s1)
    | Some (Inr (ver, s1)) \<Rightarrow> (case resp_code getc 0 s1 of
        None \<Rightarrow> None
      | Some (Inl s2) \<Rightarrow> Some (None, s2)
      | Some (Inr (code, s2)) \<Rightarrow> (case resp_msg getc [] s2 of
          None \<Rightarrow> None
        | Some (Inl s3) \<Rightarrow> Some (None, s3)
        | Some (Inr (msg, s3)) \<Rightarrow>
            (case parse_headers getc (mkresp code (cstr msg) (cstr ver)) s3 of
               (ok, resp, s4) \<Rightarrow> Some (if ok then Some resp else None, s4)))))"

definition parseresponse :: "string \<Rightarrow> (hthead option \<times> string) option" where
  "parseresponse = parse_response fgetc"

definition parseresponseb :: "'p bufioops \<Rightarrow> 'p bufio \<Rightarrow> (hthead option \<times> 'p bufio) option" where
  "parseresponseb ops = parse_response (biogetc ops)"

section \<open>Writing a response\<close>

text \<open>
  \<open>%s\<close> of a null pointer does not occur: the results are for heads with the fields set. \<open>put\<close> is
  given the length of the format and the text; a negative result ends the loop with -1.
\<close>

fun write_hdrs :: "(nat \<Rightarrow> string \<Rightarrow> 'o \<Rightarrow> (int \<times> 'o) option) \<Rightarrow> (cstring \<times> cstring) list \<Rightarrow> 'o \<Rightarrow>
    (int \<times> 'o) option" where
  "write_hdrs put [] out = Some (0, out)"
| "write_hdrs put ((n, v) # hs) out = (case put 8 (n @ '': '' @ v @ [chr 13, chr 10]) out of
      None \<Rightarrow> None
    | Some (r, out') \<Rightarrow> if r < 0 then Some (- 1, out') else write_hdrs put hs out')"

definition status_line :: "hthead \<Rightarrow> string" where
  "status_line resp = the (hd_ver resp) @ '' '' @ show_int (hd_code resp) @ '' '' @
     the (hd_msg resp) @ [chr 13, chr 10]"

definition write_resp :: "(nat \<Rightarrow> string \<Rightarrow> 'o \<Rightarrow> (int \<times> 'o) option) \<Rightarrow> hthead \<Rightarrow> 'o \<Rightarrow>
    (int \<times> 'o) option" where
  "write_resp put resp out =
     (if hd_ver resp = None \<or> hd_msg resp = None then None
      else (case put 10 (status_line resp) out of
          None \<Rightarrow> None
        | Some (r, out') \<Rightarrow> if r < 0 then Some (- 1, out') else write_hdrs put (headers resp) out'))"

definition writeresp :: "hthead \<Rightarrow> ofile \<Rightarrow> (int \<times> ofile) option" where
  "writeresp = write_resp fprintf"

definition writerespb :: "'p bufioops \<Rightarrow> hthead \<Rightarrow> 'p bufio \<Rightarrow> (int \<times> 'p bufio) option" where
  "writerespb ops = write_resp (\<lambda>n s b. bioprintf ops b n s)"

section \<open>Requests between processes\<close>

fun pack_headers :: "(cstring \<times> cstring) list \<Rightarrow> string" where
  "pack_headers [] = []"
| "pack_headers ((n, v) # hs) = n @ NUL # v @ NUL # pack_headers hs"

text \<open>The message of \<open>sendreq2\<close>; \<open>None\<close> is a null pointer handed to \<open>strlen\<close>.\<close>

definition sendreq2 :: "hthead \<Rightarrow> string option" where
  "sendreq2 req = (case (hd_method req, hd_url req, hd_ver req, hd_rest req) of
      (Some m, Some u, Some v, Some r) \<Rightarrow>
        Some (m @ NUL # u @ NUL # v @ NUL # r @ NUL # pack_headers (headers req) @ [NUL])
    | _ \<Rightarrow> None)"

definition sendreq :: "hthead \<Rightarrow> string option" where
  "sendreq req = sendreq2 req"

text \<open>
  The loop and the body of \<open>recvreq\<close> on the message received. The code hands the result of
  \<open>decstr\<close> to \<open>sstrdup\<close>, or looks at its first byte, before any test: where \<open>decstr\<close> returns the
  null pointer the process crashes, which is the result \<open>None\<close>.
\<close>

function recv_headers :: "string \<Rightarrow> hthead \<Rightarrow> hthead option" where
  "recv_headers p req = (case decstr p of
      (None, _) \<Rightarrow> None
    | (Some name, p1) \<Rightarrow>
        if name = [] then Some req
        else (case decstr p1 of
            (None, _) \<Rightarrow> None
          | (Some val, p2) \<Rightarrow> recv_headers p2 (headappheader req name val)))"
  by pat_completeness auto
termination
  by (relation "measure (length \<circ> fst)") (auto dest!: sym [of _ "decstr _"] decstr_shorter)

declare recv_headers.simps [simp del]

definition recvreq :: "string \<Rightarrow> hthead option" where
  "recvreq p0 = (case decstr p0 of (None, _) \<Rightarrow> None | (Some m, p1) \<Rightarrow>
     (case decstr p1 of (None, _) \<Rightarrow> None | (Some u, p2) \<Rightarrow>
     (case decstr p2 of (None, _) \<Rightarrow> None | (Some v, p3) \<Rightarrow>
     (case decstr p3 of (None, _) \<Rightarrow> None | (Some r, p4) \<Rightarrow>
       recv_headers p4 \<lparr>hd_method = Some m, hd_url = Some u, hd_ver = Some v, hd_msg = None,
         hd_code = 0, hd_rest = Some r, headers = []\<rparr>))))"

section \<open>URL quoting\<close>

text \<open>The value of a hexadecimal digit, as the branches of \<open>unquoteurl\<close> compute it.\<close>

definition unquote_digit :: "char \<Rightarrow> int option" where
  "unquote_digit c =
     (if 48 \<le> ord c \<and> ord c \<le> 57 then Some (ord c - 48)
      else if 97 \<le> ord c \<and> ord c \<le> 102 then Some (ord c - 97 + 10)
      else if 65 \<le> ord c \<and> ord c \<le> 70 then Some (ord c - 65 + 10)
      else None)"

text \<open>The bytes of the result buffer; as a string they end at an unquoted \<open>%00\<close>.\<close>

fun unquote_bytes :: "cstring \<Rightarrow> string option" where
  "unquote_bytes [] = Some []"
| "unquote_bytes (c # p) =
     (if c = CHR ''%'' then
        (case p of
           a # b # p' \<Rightarrow> (case (unquote_digit a, unquote_digit b) of
               (Some x, Some y) \<Rightarrow> map_option ((#) (chr (x * 16 + y))) (unquote_bytes p')
             | _ \<Rightarrow> None)
         | _ \<Rightarrow> None)
      else map_option ((#) c) (unquote_bytes p))"

definition unquoteurl :: "cstring \<Rightarrow> cstring option" where
  "unquoteurl s = map_option cstr (unquote_bytes s)"

section \<open>Any source reads as its contents\<close>

context byte_source
begin

text \<open>The same result of a head parser, with the rest of the source in place of the source.\<close>

definition same_head :: "bool \<times> hthead \<times> 's \<Rightarrow> bool \<times> hthead \<times> string \<Rightarrow> bool" where
  "same_head x y \<longleftrightarrow> (case x of (ok, h, s) \<Rightarrow> live s \<and> y = (ok, h, contents s))"

lemma same_head_if:
  "(b \<Longrightarrow> same_head x x') \<Longrightarrow> (\<not> b \<Longrightarrow> same_head y y') \<Longrightarrow>
     same_head (if b then x else y) (if b then x' else y')"
  by simp

lemma hdr_loop_sim:
  "live s \<Longrightarrow> same_head (hdr_loop getc st name val t h s) (hdr_loop fgetc st name val t h (contents s))"
proof (induction "65536 - t" arbitrary: t st name val h s rule: less_induct)
  case less
  obtain s1 where s1: "getc s = (fst (fgetc (contents s)), s1)"
    "contents s1 = snd (fgetc (contents s))" "live s1" using getcE [OF less.prems] .
  define c where "c = fst (fgetc (contents s))"
  have f: "fgetc (contents s) = (c, contents s1)" by (simp add: c_def s1(2))
  have g: "getc s = (c, s1)" using s1(1) by (simp add: c_def)
  have stop: "same_head (ok, h, s1) (ok, h, contents s1)" for ok
    using s1(3) by (simp add: same_head_def)
  have IH: "\<not> Suc t \<ge> 65536 \<Longrightarrow> same_head (hdr_loop getc st name val (Suc t) h s1)
      (hdr_loop fgetc st name val (Suc t) h (contents s1))" for st name val h
    by (intro less.hyps s1(3)) simp
  show ?case
    unfolding hdr_loop.simps [of getc st] hdr_loop.simps [of fgetc st] g f prod.case
    by (intro same_head_if IH stop)
qed

lemma parse_headers_sim:
  "live s \<Longrightarrow> \<exists>ok h' s'. parse_headers getc h s = (ok, h', s') \<and> live s' \<and>
     parse_headers fgetc h (contents s) = (ok, h', contents s')"
  using hdr_loop_sim [of s 0 "[]" "[]" 0 h] by (auto simp: parse_headers_def same_head_def split: prod.splits)

text \<open>A result of one of the response loops, and the same with the source replaced by its contents.\<close>

definition alive :: "'s + 'v \<times> 's \<Rightarrow> bool" where
  "alive r = (case r of Inl s \<Rightarrow> live s | Inr (v, s) \<Rightarrow> live s)"

definition as_file :: "'s + 'v \<times> 's \<Rightarrow> string + 'v \<times> string" where
  "as_file r = (case r of Inl s \<Rightarrow> Inl (contents s) | Inr (v, s) \<Rightarrow> Inr (v, contents s))"

lemma resp_loops_sim:
  assumes "live s"
  shows "\<exists>r. resp_ver getc ver s = Some r \<and> alive r \<and> resp_ver fgetc ver (contents s) = Some (as_file r)"
    and "\<exists>r. resp_code getc code s = Some r \<and> alive r \<and> resp_code fgetc code (contents s) = Some (as_file r)"
    and "\<exists>r. resp_msg getc ver s = Some r \<and> alive r \<and> resp_msg fgetc ver (contents s) = Some (as_file r)"
proof -
  have "(\<forall>ver. \<exists>r. resp_ver getc ver s = Some r \<and> alive r \<and> resp_ver fgetc ver (contents s) = Some (as_file r)) \<and>
    (\<forall>code. \<exists>r. resp_code getc code s = Some r \<and> alive r \<and> resp_code fgetc code (contents s) = Some (as_file r)) \<and>
    (\<forall>ver. \<exists>r. resp_msg getc ver s = Some r \<and> alive r \<and> resp_msg fgetc ver (contents s) = Some (as_file r))"
    using assms
  proof (induction "contents s" arbitrary: s)
    case Nil
    then obtain s1 where "getc s = (EOF, s1)" "contents s1 = []" "live s1" using getc_Nil [of s] by auto
    with Nil show ?case
      by (simp add: resp_ver.simps [of getc _ s] resp_ver.simps [of fgetc _ "[]"]
          resp_code.simps [of getc _ s] resp_code.simps [of fgetc _ "[]"]
          resp_msg.simps [of getc _ s] resp_msg.simps [of fgetc _ "[]"] alive_def as_file_def
          flip: Nil.hyps)
  next
    case (Cons c r)
    then obtain s1 where s1: "getc s = (ord c, s1)" "contents s1 = r" "live s1"
      using getc_Cons [of s c r] by auto
    note IH = Cons.hyps(1) [OF s1(2) [symmetric] s1(3), unfolded s1(2)]
    show ?case
      using s1 IH
      by (simp add: resp_ver.simps [of getc _ s] resp_ver.simps [of fgetc _ "c # r"]
          resp_code.simps [of getc _ s] resp_code.simps [of fgetc _ "c # r"]
          resp_msg.simps [of getc _ s] resp_msg.simps [of fgetc _ "c # r"] alive_def as_file_def
          flip: Cons.hyps(2))
  qed
  then show "\<exists>r. resp_ver getc ver s = Some r \<and> alive r \<and> resp_ver fgetc ver (contents s) = Some (as_file r)"
    "\<exists>r. resp_code getc code s = Some r \<and> alive r \<and> resp_code fgetc code (contents s) = Some (as_file r)"
    "\<exists>r. resp_msg getc ver s = Some r \<and> alive r \<and> resp_msg fgetc ver (contents s) = Some (as_file r)"
    by blast+
qed

lemma parse_response_sim:
  assumes "live s"
  shows "\<exists>resp s'. parse_response getc s = Some (resp, s') \<and> live s' \<and>
    parse_response fgetc (contents s) = Some (resp, contents s')"
proof -
  obtain r1 where 1: "resp_ver getc [] s = Some r1" "alive r1"
    "resp_ver fgetc [] (contents s) = Some (as_file r1)" using resp_loops_sim(1) [OF assms] by blast
  show ?thesis
  proof (cases r1)
    case (Inl s1)
    with 1 show ?thesis by (simp add: parse_response_def alive_def as_file_def)
  next
    case (Inr p1)
    obtain ver s1 where p1: "p1 = (ver, s1)" by fastforce
    then have l1: "live s1" using 1(2) Inr by (simp add: alive_def)
    obtain r2 where 2: "resp_code getc 0 s1 = Some r2" "alive r2"
      "resp_code fgetc 0 (contents s1) = Some (as_file r2)" using resp_loops_sim(2) [OF l1] by blast
    show ?thesis
    proof (cases r2)
      case (Inl s2)
      with 1 2 Inr p1 show ?thesis by (simp add: parse_response_def alive_def as_file_def)
    next
      case Inr2: (Inr p2)
      obtain code s2 where p2: "p2 = (code, s2)" by fastforce
      then have l2: "live s2" using 2(2) Inr2 by (simp add: alive_def)
      obtain r3 where 3: "resp_msg getc [] s2 = Some r3" "alive r3"
        "resp_msg fgetc [] (contents s2) = Some (as_file r3)" using resp_loops_sim(3) [OF l2] by blast
      show ?thesis
      proof (cases r3)
        case (Inl s3)
        with 1 2 3 Inr Inr2 p1 p2 show ?thesis by (simp add: parse_response_def alive_def as_file_def)
      next
        case Inr3: (Inr p3)
        obtain msg s3 where p3: "p3 = (msg, s3)" by fastforce
        then have l3: "live s3" using 3(2) Inr3 by (simp add: alive_def)
        obtain ok h s4 where "parse_headers getc (mkresp code (cstr msg) (cstr ver)) s3 = (ok, h, s4)"
          "live s4" "parse_headers fgetc (mkresp code (cstr msg) (cstr ver)) (contents s3) = (ok, h, contents s4)"
          using parse_headers_sim [OF l3] by blast
        with 1 2 3 Inr Inr2 Inr3 p1 p2 p3 show ?thesis
          by (simp add: parse_response_def alive_def as_file_def)
      qed
    qed
  qed
qed

end

section \<open>A head that is written reads back\<close>

definition crlf :: string where
  "crlf = [chr 13, chr 10]"

fun hdr_text :: "(cstring \<times> cstring) list \<Rightarrow> string" where
  "hdr_text [] = []"
| "hdr_text ((n, v) # hs) = n @ '': '' @ v @ crlf @ hdr_text hs"

definition resp_text :: "hthead \<Rightarrow> string" where
  "resp_text resp = status_line resp @ hdr_text (headers resp)"

context byte_sink
begin

lemma write_hdrs_text:
  "okay out \<Longrightarrow> write_hdrs put hs out = Some (r, out') \<Longrightarrow> r \<ge> 0 \<Longrightarrow>
     written out' = written out @ hdr_text hs \<and> okay out'"
proof (induction hs arbitrary: out)
  case (Cons h hs)
  obtain n v where h: "h = (n, v)" by fastforce
  obtain q out1 where q: "put 8 (n @ '': '' @ v @ crlf) out = Some (q, out1)"
    using Cons.prems(2) h by (auto simp: crlf_def split: option.splits)
  with Cons.prems h have q0: "q \<ge> 0" by (auto simp: crlf_def split: if_splits)
  with put_done [OF Cons.prems(1) q] have
    "written out1 = written out @ n @ '': '' @ v @ crlf" "okay out1" by auto
  moreover from q q0 Cons.prems(2) h have "write_hdrs put hs out1 = Some (r, out')"
    by (simp add: crlf_def)
  ultimately show ?case using Cons.IH [of out1] Cons.prems(3) h by simp
qed simp

lemma write_resp_text:
  assumes "okay out" "write_resp put resp out = Some (r, out')" "r \<ge> 0"
  shows "written out' = written out @ resp_text resp \<and> okay out'"
proof -
  obtain q out1 where q: "put 10 (status_line resp) out = Some (q, out1)" "q \<ge> 0"
    "write_hdrs put (headers resp) out1 = Some (r, out')"
    using assms(2,3) by (auto simp: write_resp_def split: if_splits option.splits)
  with put_done [OF assms(1) q(1,2)] write_hdrs_text [OF _ q(3) assms(3)] show ?thesis
    by (auto simp: resp_text_def)
qed

end

text \<open>
  What a header line can carry: a name without a colon, no line ends or NUL bytes in either, and
  no white space at the ends.
\<close>

definition plain :: "string \<Rightarrow> bool" where
  "plain s \<longleftrightarrow> nul_free s \<and> chr 13 \<notin> set s \<and> chr 10 \<notin> set s \<and> trim s = s"

definition header_ok :: "cstring \<times> cstring \<Rightarrow> bool" where
  "header_ok h \<longleftrightarrow> plain (fst h) \<and> plain (snd h) \<and> CHR '':'' \<notin> set (fst h)"

lemma ord_simps: "ord (CHR '':'') = 58" "ord (CHR '' '') = 32" "ord (chr 13) = 13" "ord (chr 10) = 10"
  by (simp_all add: ord_def ord_chr_id [unfolded ord_def])

lemma ord_other: "c \<noteq> chr 13 \<Longrightarrow> ord c \<noteq> 13" "c \<noteq> chr 10 \<Longrightarrow> ord c \<noteq> 10" "c \<noteq> CHR '':'' \<Longrightarrow> ord c \<noteq> 58"
  using ord_inject [of c "chr 13"] ord_inject [of c "chr 10"] ord_inject [of c "CHR '':''"]
  by (simp_all only: ord_simps) simp_all

lemma trim_blank: "trim (CHR '' '' # s) = trim s"
  by (simp add: trim_def isspace_def ord_simps)

lemma hdr_name:
  "chr 13 \<notin> set n \<Longrightarrow> chr 10 \<notin> set n \<Longrightarrow> CHR '':'' \<notin> set n \<Longrightarrow> t + length n < 65536 \<Longrightarrow>
     hdr_loop fgetc 1 nm v t h (n @ r) = hdr_loop fgetc 1 (nm @ n) v (t + length n) h r"
proof (induction n arbitrary: nm t)
  case (Cons c n)
  then have "hdr_loop fgetc 1 nm v t h ((c # n) @ r) = hdr_loop fgetc 1 (nm @ [c]) v (Suc t) h (n @ r)"
    by (subst hdr_loop.simps) (auto simp: ord_other)
  with Cons show ?case by simp
qed simp

lemma hdr_value:
  "chr 13 \<notin> set n \<Longrightarrow> chr 10 \<notin> set n \<Longrightarrow> t + length n < 65536 \<Longrightarrow>
     hdr_loop fgetc 2 nm v t h (n @ r) = hdr_loop fgetc 2 nm (v @ n) (t + length n) h r"
proof (induction n arbitrary: v t)
  case (Cons c n)
  then have "hdr_loop fgetc 2 nm v t h ((c # n) @ r) = hdr_loop fgetc 2 nm (v @ [c]) (Suc t) h (n @ r)"
    by (subst hdr_loop.simps) (auto simp: ord_other)
  with Cons show ?case by simp
qed simp

lemma hdr_start:
  assumes "c \<noteq> chr 13" "c \<noteq> chr 10"
  shows "hdr_loop fgetc 0 nm v t h (c # r) = hdr_loop fgetc 1 nm v t h (c # r)"
proof -
  have c: "ord c \<noteq> 13" "ord c \<noteq> 10" using assms ord_other by blast+
  show ?thesis
    unfolding hdr_loop.simps [of fgetc 0 nm v t h "c # r"] hdr_loop.simps [of fgetc 1 nm v t h "c # r"]
    by (simp add: c)
qed

lemma hdr_colon:
  "Suc t < 65536 \<Longrightarrow> hdr_loop fgetc 1 nm v t h (CHR '':'' # r) = hdr_loop fgetc 2 (trim nm) v (Suc t) h r"
  by (subst hdr_loop.simps) (simp add: ord_simps)

lemma hdr_end_line:
  assumes "Suc (Suc t) < 65536"
  shows "hdr_loop fgetc 2 nm v t h (crlf @ r) =
    hdr_loop fgetc 0 [] [] (Suc (Suc t)) (headappheader h (cstr nm) (cstr (trim v))) r"
proof -
  have "hdr_loop fgetc 2 nm v t h (crlf @ r) = hdr_loop fgetc 2 nm v (Suc t) h (chr 10 # r)"
    using assms by (subst hdr_loop.simps) (simp add: crlf_def ord_simps)
  also have "\<dots> = hdr_loop fgetc 0 [] [] (Suc (Suc t)) (headappheader h (cstr nm) (cstr (trim v))) r"
    using assms by (subst hdr_loop.simps) (simp add: ord_simps)
  finally show ?thesis .
qed

lemma hdr_end:
  assumes "Suc (Suc t) < 65536"
  shows "hdr_loop fgetc 0 nm v t h (crlf @ r) = (True, h, r)"
proof -
  have "hdr_loop fgetc 0 nm v t h (crlf @ r) = hdr_loop fgetc 0 nm v (Suc t) h (chr 10 # r)"
    using assms by (subst hdr_loop.simps) (simp add: crlf_def ord_simps)
  also have "\<dots> = (True, h, r)"
    using assms by (subst hdr_loop.simps) (simp add: ord_simps)
  finally show ?thesis .
qed

lemma hdr_line_start:
  assumes "header_ok (n, v)" "t + length n + length v + 2 < 65536"
  shows "hdr_loop fgetc 0 [] [] t h (n @ '': '' @ v @ r) =
    hdr_loop fgetc 2 n ('' '' @ v) (t + length n + length v + 2) h r"
proof -
  have n: "chr 13 \<notin> set n" "chr 10 \<notin> set n" "CHR '':'' \<notin> set n" "trim n = n"
    and v: "chr 13 \<notin> set v" "chr 10 \<notin> set v"
    using assms(1) by (auto simp: header_ok_def plain_def)
  have nz: "CHR '':'' \<noteq> chr 13" "CHR '':'' \<noteq> chr 10" "CHR '' '' \<noteq> chr 13" "CHR '' '' \<noteq> chr 10"
    by (auto dest!: arg_cong [of _ _ ord] simp only: ord_simps)
  have "hdr_loop fgetc 0 [] [] t h (n @ '': '' @ v @ r) = hdr_loop fgetc 1 [] [] t h (n @ '': '' @ v @ r)"
    using n nz hdr_start by (cases n) auto
  also have "\<dots> = hdr_loop fgetc 1 n [] (t + length n) h ('': '' @ v @ r)"
    using n assms(2) hdr_name [of n t "[]"] by simp
  also have "\<dots> = hdr_loop fgetc 2 n [] (Suc (t + length n)) h ('' '' @ v @ r)"
    using assms(2) n(4) hdr_colon [of "t + length n" n "[]"] by simp
  also have "\<dots> = hdr_loop fgetc 2 n ('' '' @ v) (t + length n + length v + 2) h r"
    using v nz assms(2) hdr_value [of "'' '' @ v" "Suc (t + length n)" n "[]" h] by (simp add: algebra_simps)
  finally show ?thesis .
qed

lemma header_ok_trim: "header_ok (n, v) \<Longrightarrow> cstr n = n \<and> cstr (trim ('' '' @ v)) = v"
  by (simp add: header_ok_def plain_def trim_blank)

lemma hdr_line:
  assumes "header_ok (n, v)" "t + length n + length v + 4 < 65536"
  shows "hdr_loop fgetc 0 [] [] t h (n @ '': '' @ v @ crlf @ r) =
    hdr_loop fgetc 0 [] [] (t + length n + length v + 4) (headappheader h n v) r"
proof -
  have e: "Suc (Suc (t + length n + length v + 2)) = t + length n + length v + 4" by simp
  have "Suc (Suc (t + length n + length v + 2)) < 65536" using assms(2) by simp
  note end_line = hdr_end_line [OF this, of n "'' '' @ v" h r, unfolded e]
  have "hdr_loop fgetc 0 [] [] t h (n @ '': '' @ v @ crlf @ r) =
      hdr_loop fgetc 2 n ('' '' @ v) (t + length n + length v + 2) h (crlf @ r)"
    using assms by (intro hdr_line_start) simp_all
  also note end_line
  finally show ?thesis using header_ok_trim [OF assms(1)] by (simp only:)
qed

lemma hdr_lines:
  "\<forall>x\<in>set hs. header_ok x \<Longrightarrow> t + length (hdr_text hs) + 2 < 65536 \<Longrightarrow>
     hdr_loop fgetc 0 [] [] t h (hdr_text hs @ crlf @ r) = (True, h\<lparr>headers := headers h @ hs\<rparr>, r)"
proof (induction hs arbitrary: t h)
  case Nil
  then show ?case by (simp add: hdr_end)
next
  case (Cons x hs)
  obtain n v where x: "x = (n, v)" by fastforce
  have "hdr_loop fgetc 0 [] [] t h (hdr_text (x # hs) @ crlf @ r) =
      hdr_loop fgetc 0 [] [] (t + length n + length v + 4) (headappheader h n v) (hdr_text hs @ crlf @ r)"
    using Cons.prems hdr_line [of n v t h] by (simp add: x crlf_def)
  with Cons show ?case by (simp add: x headappheader_def crlf_def)
qed

lemma parseheaders_text:
  "\<forall>x\<in>set hs. header_ok x \<Longrightarrow> length (hdr_text hs) + 2 < 65536 \<Longrightarrow>
     parse_headers fgetc h (hdr_text hs @ crlf @ r) = (True, h\<lparr>headers := headers h @ hs\<rparr>, r)"
  by (simp add: parse_headers_def hdr_lines)

subsection \<open>Responses\<close>

definition resp_ok :: "hthead \<Rightarrow> bool" where
  "resp_ok r \<longleftrightarrow> (case (hd_ver r, hd_msg r) of
      (Some ver, Some msg) \<Rightarrow> (\<forall>c\<in>set ver. 32 < ord c \<and> ord c < 128) \<and> length ver < 128 \<and>
        (\<forall>c\<in>set msg. 32 \<le> ord c) \<and> length msg < 512 \<and> 0 \<le> hd_code r \<and> hd_code r < 10000 \<and>
        r = (mkresp (hd_code r) msg ver)\<lparr>headers := headers r\<rparr> \<and>
        (\<forall>h\<in>set (headers r). header_ok h) \<and> length (hdr_text (headers r)) + 2 < 65536
    | _ \<Rightarrow> False)"

lemma resp_ver_text:
  "\<forall>c\<in>set n. 32 < ord c \<and> ord c < 128 \<Longrightarrow> length ver + length n < 128 \<Longrightarrow>
     resp_ver fgetc ver (n @ CHR '' '' # r) = Some (Inr (ver @ n, r))"
proof (induction n arbitrary: ver)
  case Nil
  show ?case by (subst resp_ver.simps) (simp add: ord_simps)
next
  case (Cons c n)
  then show ?case by (subst resp_ver.simps) auto
qed

lemma resp_msg_text:
  "\<forall>c\<in>set n. 32 \<le> ord c \<Longrightarrow> length msg + length n < 512 \<Longrightarrow>
     resp_msg fgetc msg (n @ crlf @ r) = Some (Inr (msg @ n, r))"
proof (induction n arbitrary: msg)
  case Nil
  have "resp_msg fgetc msg (chr 10 # r) = Some (Inr (msg, r))"
    by (subst resp_msg.simps) (simp add: ord_simps)
  then show ?case by (subst resp_msg.simps) (simp add: crlf_def ord_simps)
next
  case (Cons c n)
  then have "ord c \<noteq> 10" "ord c \<noteq> 13" by auto
  with Cons show ?case by (subst resp_msg.simps) auto
qed

lemma scan_digits_mono: "0 \<le> n \<Longrightarrow> \<forall>c\<in>set ds. isdigit c \<Longrightarrow> n \<le> fst (scan_digits n ds)"
proof (induction ds arbitrary: n)
  case (Cons c ds)
  then have "n \<le> n * 10 + (ord c - 48)" "0 \<le> n * 10 + (ord c - 48)" by (auto simp: isdigit_def)
  with Cons.IH [of "n * 10 + (ord c - 48)"] Cons.prems show ?case by auto
qed simp

lemma resp_code_text:
  "0 \<le> n \<Longrightarrow> \<forall>c\<in>set ds. isdigit c \<Longrightarrow> fst (scan_digits n ds) < 10000 \<Longrightarrow>
     resp_code fgetc n (ds @ CHR '' '' # r) = Some (Inr (fst (scan_digits n ds), r))"
proof (induction ds arbitrary: n)
  case Nil
  show ?case by (subst resp_code.simps) (simp add: ord_simps)
next
  case (Cons c ds)
  then have c: "48 \<le> ord c" "ord c \<le> 57" "isdigit c" by (auto simp: isdigit_def)
  then have "n * 10 + (ord c - 48) < 10000"
    using scan_digits_mono [of "n * 10 + (ord c - 48)" ds] Cons.prems by simp
  with Cons c show ?case by (subst resp_code.simps) auto
qed

lemma parse_response_text:
  assumes "resp_ok resp"
  shows "parse_response fgetc (resp_text resp @ crlf @ body) = Some (Some resp, body)"
proof -
  obtain ver msg where v: "hd_ver resp = Some ver" "hd_msg resp = Some msg"
    "\<forall>c\<in>set ver. 32 < ord c \<and> ord c < 128" "length ver < 128"
    "\<forall>c\<in>set msg. 32 \<le> ord c" "length msg < 512" "0 \<le> hd_code resp" "hd_code resp < 10000"
    "resp = (mkresp (hd_code resp) msg ver)\<lparr>headers := headers resp\<rparr>"
    "\<forall>h\<in>set (headers resp). header_ok h" "length (hdr_text (headers resp)) + 2 < 65536"
    using assms by (auto simp: resp_ok_def split: option.splits)
  define n where "n = nat (hd_code resp)"
  have code: "show_int (hd_code resp) = show_nat n" "int n = hd_code resp"
    using v(7) by (simp_all add: show_int_def n_def)
  have sc: "fst (scan_digits 0 (show_nat n)) = hd_code resp"
    using scan_show_nat [of n "[]"] code(2) by simp
  define t where "t = hdr_text (headers resp) @ crlf @ body"
  have layout: "resp_text resp @ crlf @ body = ver @ CHR '' '' # show_nat n @ CHR '' '' # msg @ crlf @ t"
    using v(1,2) code by (simp add: resp_text_def status_line_def t_def crlf_def)
  have nf: "cstr ver = ver" "cstr msg = msg"
    using v(3,5) by (force intro!: cstr_nul_free simp: nul_free_def ord_def)+
  have "resp_ver fgetc [] (resp_text resp @ crlf @ body) =
      Some (Inr (ver, show_nat n @ CHR '' '' # msg @ crlf @ t))"
    using resp_ver_text [of ver "[]"] v(3,4) by (simp add: layout)
  moreover have "resp_code fgetc 0 (show_nat n @ CHR '' '' # msg @ crlf @ t) =
      Some (Inr (hd_code resp, msg @ crlf @ t))"
    using resp_code_text [of 0 "show_nat n"] show_nat_digits sc v(8) by simp
  moreover have "resp_msg fgetc [] (msg @ crlf @ t) = Some (Inr (msg, t))"
    using resp_msg_text [of msg "[]"] v(5,6) by simp
  moreover have "parse_headers fgetc (mkresp (hd_code resp) msg ver) t = (True, resp, body)"
    using parseheaders_text [OF v(10,11)] v(9) unfolding t_def by (simp add: mkresp_def)
  ultimately show ?thesis by (simp add: parse_response_def nf)
qed

subsection \<open>Requests between processes\<close>

definition req_fields_ok :: "hthead \<Rightarrow> bool" where
  "req_fields_ok r \<longleftrightarrow> (case (hd_method r, hd_url r, hd_ver r, hd_rest r) of
      (Some m, Some u, Some v, Some s) \<Rightarrow> nul_free m \<and> nul_free u \<and> nul_free v \<and> nul_free s \<and>
        hd_msg r = None \<and> hd_code r = 0 \<and> (\<forall>h\<in>set (headers r). nul_free (fst h) \<and> nul_free (snd h))
    | _ \<Rightarrow> False)"

lemma recv_headers_end: "recv_headers (NUL # p) h = Some h"
  using decstr_append [of "[]" p] by (simp add: recv_headers.simps [of "NUL # p"])

lemma recv_headers_pack:
  "\<forall>x\<in>set hs. nul_free (fst x) \<and> nul_free (snd x) \<Longrightarrow>
     recv_headers (pack_headers hs @ NUL # p) h =
       Some (h\<lparr>headers := headers h @ takeWhile (\<lambda>x. fst x \<noteq> []) hs\<rparr>)"
proof (induction hs arbitrary: h)
  case Nil
  show ?case by (simp add: recv_headers_end)
next
  case (Cons x hs)
  obtain n v where x: "x = (n, v)" by fastforce
  show ?case
  proof (cases "n = []")
    case True
    then show ?thesis by (simp add: x recv_headers_end)
  next
    case False
    with Cons.prems have "recv_headers (pack_headers (x # hs) @ NUL # p) h =
        recv_headers (pack_headers hs @ NUL # p) (headappheader h n v)"
      by (subst recv_headers.simps) (simp add: x)
    with Cons False show ?thesis by (simp add: x headappheader_def)
  qed
qed

lemma recvreq_sendreq_gen:
  assumes "req_fields_ok req"
  shows "\<exists>m. sendreq req = Some m \<and>
    recvreq m = Some (req\<lparr>headers := takeWhile (\<lambda>x. fst x \<noteq> []) (headers req)\<rparr>)"
proof -
  obtain m u v r where f: "hd_method req = Some m" "hd_url req = Some u" "hd_ver req = Some v"
    "hd_rest req = Some r" "nul_free m" "nul_free u" "nul_free v" "nul_free r"
    "hd_msg req = None" "hd_code req = 0"
    "\<forall>h\<in>set (headers req). nul_free (fst h) \<and> nul_free (snd h)"
    using assms by (auto simp: req_fields_ok_def split: option.splits)
  then show ?thesis
    using recv_headers_pack [OF f(11), of "[]"]
    by (cases req) (simp add: sendreq_def sendreq2_def recvreq_def)
qed

lemma decstr_strict_prefix:
  assumes "strict_prefix p (s @ NUL # t)" "nul_free s"
  shows "fst (decstr p) = None \<or> (\<exists>p'. decstr p = (Some s, p') \<and> strict_prefix p' t)"
proof (cases "prefix p s")
  case True
  then have "nul_free p" using assms(2) by (auto simp: prefix_def)
  then show ?thesis by (simp add: decstr_None)
next
  case False
  then obtain p' where p': "p = s @ p'" "prefix p' (NUL # t)"
    using assms(1) by (auto simp: strict_prefix_def prefix_append)
  with False obtain p2 where p2: "p' = NUL # p2" "prefix p2 t" by (cases p') auto
  with assms(1) p'(1) have "strict_prefix p2 t" by (auto simp: strict_prefix_def)
  with p'(1) p2(1) assms(2) show ?thesis by simp
qed

text \<open>Taking a string off a message that was cut: either it is missing or the rest was cut.\<close>

lemma decstr_cut:
  assumes "strict_prefix p (s @ NUL # t)" "nul_free s"
    and "\<And>p'. strict_prefix p' t \<Longrightarrow> k (Some s) p' = None" "\<And>q. k None q = None"
  shows "(case decstr p of (x, q) \<Rightarrow> k x q) = None"
proof (cases "fst (decstr p)")
  case None
  with assms(4) show ?thesis by (cases "decstr p") simp
next
  case (Some x)
  with decstr_strict_prefix [OF assms(1,2)] obtain p' where "decstr p = (Some s, p')" "strict_prefix p' t"
    by auto
  with assms(3) show ?thesis by simp
qed

lemma recv_headers_truncated:
  "strict_prefix p (pack_headers hs @ [NUL]) \<Longrightarrow>
     \<forall>x\<in>set hs. nul_free (fst x) \<and> nul_free (snd x) \<and> fst x \<noteq> [] \<Longrightarrow> recv_headers p h = None"
proof (induction hs arbitrary: p h)
  case Nil
  then have "p = []" by (auto simp: strict_prefix_def prefix_Cons)
  then show ?case by (simp add: recv_headers.simps [of "[]"] decstr_def)
next
  case (Cons x hs)
  obtain n v where x: "x = (n, v)" by fastforce
  with Cons.prems have nv: "nul_free n" "nul_free v" "n \<noteq> []"
    and p: "strict_prefix p (n @ NUL # v @ NUL # pack_headers hs @ [NUL])" by auto
  have "recv_headers q h' = None" if "strict_prefix q (pack_headers hs @ [NUL])" for q h'
    using that Cons by simp
  with nv(3) show ?case
    unfolding recv_headers.simps [of p]
    by (auto intro!: decstr_cut [OF p nv(1)] decstr_cut [OF _ nv(2)])
qed

section \<open>The size of a head\<close>

text \<open>What a run of the header loop from \<open>tsz = t\<close> on \<open>s\<close> leaves is a suffix, within the limit.\<close>

definition within :: "nat \<Rightarrow> string \<Rightarrow> bool \<times> hthead \<times> string \<Rightarrow> bool" where
  "within t s x \<longleftrightarrow> (\<exists>p. s = p @ snd (snd x) \<and> t + length p \<le> 65536)"

lemma within_if: "(b \<Longrightarrow> within t s x) \<Longrightarrow> (\<not> b \<Longrightarrow> within t s y) \<Longrightarrow> within t s (if b then x else y)"
  by simp

lemma hdr_loop_within:
  "t < 65536 \<Longrightarrow> within t s (hdr_loop fgetc st name val t h s)"
proof (induction "65536 - t" arbitrary: t st name val h s rule: less_induct)
  case less
  obtain c s1 where f: "fgetc s = (c, s1)" by fastforce
  then have s1: "\<exists>q. s = q @ s1 \<and> length q \<le> 1" by (cases s) auto
  have stop: "within t s (ok, h, s1)" for ok
    using s1 less.prems by (auto simp: within_def)
  have IH: "\<not> Suc t \<ge> 65536 \<Longrightarrow> within t s (hdr_loop fgetc st name val (Suc t) h s1)" for st name val h
  proof -
    assume "\<not> Suc t \<ge> 65536"
    with less.prems have "within (Suc t) s1 (hdr_loop fgetc st name val (Suc t) h s1)"
      by (intro less.hyps) auto
    then obtain p where p: "s1 = p @ snd (snd (hdr_loop fgetc st name val (Suc t) h s1))"
      "Suc t + length p \<le> 65536" by (auto simp: within_def)
    obtain q where q: "s = q @ s1" "length q \<le> 1" using s1 by blast
    have "s = (q @ p) @ snd (snd (hdr_loop fgetc st name val (Suc t) h s1))" using p(1) q(1) by simp
    moreover have "t + length (q @ p) \<le> 65536" using p(2) q(2) by simp
    ultimately show ?thesis unfolding within_def by blast
  qed
  show ?case
    unfolding hdr_loop.simps [of fgetc st] f prod.case by (intro within_if IH stop)
qed

section \<open>Properties\<close>

text \<open>C27. A response written by \<open>writeresp\<close>, followed by the blank line and any body, is parsed by
  \<open>parseresponse\<close> into the same response and leaves exactly the body, for every status code of up
  to four digits and all headers without line ends, NUL bytes and outer white space whose text is
  within the limit of 65536 bytes.\<close>

theorem response_roundtrip:
  assumes "resp_ok resp" "writeresp resp out = Some (r, out')" "r \<ge> 0"
  shows "\<exists>msg. obytes out' = obytes out @ msg \<and>
    parseresponse (msg @ crlf @ body) = Some (Some resp, body)"
  using outstream.write_resp_text [OF TrueI assms(2) [unfolded writeresp_def] assms(3)]
    parse_response_text [OF assms(1), of body]
  by (auto simp: parseresponse_def)

definition sample_resp :: hthead where
  "sample_resp = (mkresp 200 ''OK'' ''HTTP/1.1'')\<lparr>headers := [(''A'', ''b'')]\<rparr>"

lemma sample_resp_ok: "resp_ok sample_resp"
proof -
  have "header_ok (''A'', ''b'')" by code_simp
  then show ?thesis by (simp add: resp_ok_def sample_resp_def mkresp_def ord_def crlf_def)
qed

lemma response_roundtrip_witness:
  "\<exists>msg. obytes (snd (the (writeresp sample_resp \<lparr>obytes = [], oroom = 100\<rparr>))) = msg \<and>
     parseresponse (msg @ crlf @ ''body'') = Some (Some sample_resp, ''body'')"
proof -
  let ?o = "\<lparr>obytes = [], oroom = 100\<rparr>"
  have "map_option fst (writeresp sample_resp ?o) = Some 0" by code_simp
  then obtain o' where o': "writeresp sample_resp ?o = Some (0, o')" by auto
  from response_roundtrip [OF sample_resp_ok o', of "''body''"] o' show ?thesis by auto
qed

text \<open>C34. Parsing a response off a buffered connection gives what parsing it off a \<open>FILE\<close> with the
  same bytes gives, and leaves the same bytes unread, however the kernel cuts the data into
  pieces and however often a read has to wait.\<close>

theorem parseresponseb_as_file:
  assumes "bio_ok b" "healthy (rscript (pdata b))" "\<not> bio_eof b"
  shows "\<exists>resp b'. parseresponseb mtops b = Some (resp, b') \<and> bio_ok b' \<and>
    parseresponse (unread b @ coming (rscript (pdata b))) =
      Some (resp, unread b' @ coming (rscript (pdata b')))"
  using mt.stream.parse_response_sim [of b] assms
  by (auto simp: mt.live_def mt.contents_def parseresponseb_def parseresponse_def)

lemma parseresponseb_as_file_witness:
  "\<exists>resp b'. parseresponseb mtops (bioopen (the_fd [RdData ''HT'' [], RdAgain 1] [])) = Some (resp, b')"
proof -
  let ?b = "bioopen (the_fd [RdData ''HT'' [], RdAgain 1] [])"
  have "healthy (rscript (pdata ?b))" "\<not> bio_eof ?b" by (simp_all add: bioopen_def the_fd_def)
  from parseresponseb_as_file [OF bio_ok_open this] show ?thesis by blast
qed

text \<open>The header parser takes at most 65536 bytes off its input whatever the input is, and
  what it leaves is the rest of the input.\<close>

lemma parseheaders_bounded:
  "\<exists>taken. s = taken @ snd (snd (parseheaders h s)) \<and> length taken \<le> 65536"
  using hdr_loop_within [of 0 s 0 "[]" "[]" h]
  by (auto simp: parseheaders_def parse_headers_def within_def)


definition sample_req :: hthead where
  "sample_req = headappheader (mkreq ''GET'' ''/x'' ''HTTP/1.1'') ''Host'' ''h''"

lemma sample_req_ok: "req_fields_ok sample_req"
  by code_simp


text \<open>A request message that was cut short anywhere crashes the process that unpacks it,
  which follows the null pointer of \<open>decstr\<close>: the error return of \<open>recvreq\<close> for a malformed
  message is never reached.\<close>

lemma recvreq_truncated_crashes:
  assumes "req_fields_ok req" "\<forall>h\<in>set (headers req). fst h \<noteq> []"
    and "sendreq req = Some m" "strict_prefix p m"
  shows "recvreq p = None"
proof -
  obtain a b c d where f: "m = a @ NUL # b @ NUL # c @ NUL # d @ NUL # pack_headers (headers req) @ [NUL]"
    "nul_free a" "nul_free b" "nul_free c" "nul_free d"
    "\<forall>h\<in>set (headers req). nul_free (fst h) \<and> nul_free (snd h)"
    using assms(1,3) by (auto simp: req_fields_ok_def sendreq_def sendreq2_def split: option.splits)
  have hs: "recv_headers q h = None" if "strict_prefix q (pack_headers (headers req) @ [NUL])" for q h
    using that assms(2) f(6) by (auto intro: recv_headers_truncated)
  show ?thesis
    unfolding recvreq_def
    by (rule decstr_cut [OF assms(4) [unfolded f(1)] f(2)], simp only: option.case,
        rule decstr_cut [OF _ f(3)], assumption, simp only: option.case,
        rule decstr_cut [OF _ f(4)], assumption, simp only: option.case,
        rule decstr_cut [OF _ f(5)], assumption, simp_all only: option.case hs)
qed

lemma recvreq_truncated_crashes_witness:
  "\<exists>m. sendreq sample_req = Some m \<and> recvreq (butlast m) = None"
proof -
  obtain m where m: "sendreq sample_req = Some m" "m \<noteq> []"
    by (auto simp: sample_req_def headappheader_def mkreq_def sendreq_def sendreq2_def)
  have "strict_prefix (butlast m) m"
    using m(2) by (auto simp: strict_prefix_def prefixeq_butlast) (metis append_butlast_last_id not_Cons_self2 self_append_conv)
  from recvreq_truncated_crashes [OF sample_req_ok _ m(1) this] m(1) show ?thesis
    by (auto simp: sample_req_def headappheader_def mkreq_def)
qed

text \<open>A client that sends a header line with an empty name hides from every further process
  the headers the server adds after parsing: the line is accepted, and \<open>recvreq\<close> takes the empty
  name for the end of the headers.\<close>

lemma empty_name_hides_headers:
  assumes "plain v" "length v < 65000" "nul_free method" "nul_free url" "nul_free ver"
    and "\<forall>h\<in>set added. nul_free (fst h) \<and> nul_free (snd h)"
  shows "\<exists>req m. parseheaders (mkreq method url ver) ('': '' @ v @ crlf @ crlf @ r) = (True, req, r) \<and>
    sendreq (req\<lparr>headers := headers req @ added\<rparr>) = Some m \<and>
    recvreq m = Some (mkreq method url ver)"
proof -
  have ok: "header_ok ([], v)" using assms(1) by (simp add: header_ok_def plain_def trim_def)
  have "nul_free v" using assms(1) by (simp add: plain_def)
  define req where "req = (mkreq method url ver)\<lparr>headers := [([], v)]\<rparr>"
  have "parseheaders (mkreq method url ver) ('': '' @ v @ crlf @ crlf @ r) = (True, req, r)"
    using parseheaders_text [of "[([], v)]" "mkreq method url ver" r] ok assms(2)
    by (simp add: parseheaders_def req_def crlf_def mkreq_def)
  moreover have "req_fields_ok (req\<lparr>headers := headers req @ added\<rparr>)"
    using assms(3-6) \<open>nul_free v\<close> by (auto simp: req_fields_ok_def req_def mkreq_def)
  from recvreq_sendreq_gen [OF this] obtain m where
    "sendreq (req\<lparr>headers := headers req @ added\<rparr>) = Some m" "recvreq m = Some (mkreq method url ver)"
    by (auto simp: req_def mkreq_def)
  ultimately show ?thesis by blast
qed

lemma empty_name_hides_headers_witness:
  "\<exists>req m. parseheaders (mkreq ''GET'' ''/'' ''HTTP/1.1'') ('': x'' @ crlf @ crlf) = (True, req, []) \<and>
    sendreq (req\<lparr>headers := headers req @ [(''X-Ash-Address'', ''10.0.0.1'')]\<rparr>) = Some m \<and>
    recvreq m = Some (mkreq ''GET'' ''/'' ''HTTP/1.1'')"
proof -
  have "plain ''x''" by code_simp
  from empty_name_hides_headers [OF this, of "''GET''" "''/''" "''HTTP/1.1''"
      "[(''X-Ash-Address'', ''10.0.0.1'')]" "[]"] show ?thesis by simp
qed

end
