(* ===== verification/Resp.thy ===== *)
theory Resp
  imports Req "HOL-Library.Monad_Syntax"
begin

text \<open>
  The response helpers of \<open>lib/resp.c\<close>: quoting for URLs and for HTML, the error page and the
  redirection, and the HTTP dates, with the calendar functions \<open>gmtime\<close> and \<open>timegm\<close> of the C
  library that they rest on.
\<close>

section \<open>Quoting\<close>

definition safechars :: "nat list" where
  "safechars = [
    0, 0, 0, 0, 0, 0, 0, 0, 0, 0, 0, 0, 0, 0, 0, 0,
    0, 0, 0, 0, 0, 0, 0, 0, 0, 0, 0, 0, 0, 0, 0, 0,
    0, 1, 0, 0, 0, 0, 0, 0, 1, 1, 1, 0, 0, 1, 1, 1,
    1, 1, 1, 1, 1, 1, 1, 1, 1, 1, 0, 0, 0, 0, 0, 0,
    0, 1, 1, 1, 1, 1, 1, 1, 1, 1, 1, 1, 1, 1, 1, 1,
    1, 1, 1, 1, 1, 1, 1, 1, 1, 1, 1, 0, 0, 0, 0, 1,
    0, 1, 1, 1, 1, 1, 1, 1, 1, 1, 1, 1, 1, 1, 1, 1,
    1, 1, 1, 1, 1, 1, 1, 1, 1, 1, 1, 0, 0, 0, 1, 0]"

definition url_safe :: "char \<Rightarrow> bool" where
  "url_safe c \<longleftrightarrow> ord c < 128 \<and> safechars ! nat (ord c) \<noteq> 0"

fun urlquote :: "cstring \<Rightarrow> cstring" where
  "urlquote [] = []"
| "urlquote (c # t) = (if url_safe c then [c] else CHR ''%'' # show_hex2 (ord c)) @ urlquote t"

fun htmlquote :: "cstring \<Rightarrow> cstring" where
  "htmlquote [] = []"
| "htmlquote (c # t) =
     (if c = CHR ''<'' then ''&lt;''
      else if c = CHR ''>'' then ''&gt;''
      else if c = CHR ''&'' then ''&amp;''
      else if c = CHR 0x22 then ''&quot;''
      else [c]) @ htmlquote t"

section \<open>Error pages and redirections\<close>

definition quot :: string where
  "quot = [CHR 0x22]"

text \<open>The page of \<open>simpleerror2v\<close> for the formatted text \<open>tmp\<close>, and all it writes.\<close>

definition error_page :: "cstring \<Rightarrow> cstring \<Rightarrow> string" where
  "error_page msg tmp =
     ''<?xml version='' @ quot @ ''1.0'' @ quot @ '' encoding='' @ quot @ ''US-ASCII'' @ quot @ ''?>'' @ crlf @
     ''<!DOCTYPE html PUBLIC '' @ quot @ ''-//W3C//DTD XHTML 1.0 Strict//EN'' @ quot @ '' '' @ quot @
       ''http://www.w3.org/TR/xhtml1/DTD/xhtml1-strict.dtd'' @ quot @ ''>'' @ crlf @
     ''<html xmlns='' @ quot @ ''http://www.w3.org/1999/xhtml'' @ quot @ '' lang='' @ quot @ ''en-US'' @ quot @
       '' xml:lang='' @ quot @ ''en-US'' @ quot @ ''>'' @ crlf @
     ''<head>'' @ crlf @
     ''<title>'' @ msg @ ''</title>'' @ crlf @
     ''</head>'' @ crlf @
     ''<body>'' @ crlf @
     ''<h1>'' @ msg @ ''</h1>'' @ crlf @
     ''<p>'' @ htmlquote tmp @ ''</p>'' @ crlf @
     ''</body>'' @ crlf @
     ''</html>'' @ crlf"

definition nl :: string where
  "nl = [chr 10]"

definition simpleerror2v :: "int \<Rightarrow> cstring \<Rightarrow> cstring \<Rightarrow> string" where
  "simpleerror2v code msg tmp =
     ''HTTP/1.1 '' @ show_int code @ '' '' @ msg @ nl @
     ''Content-Type: text/html'' @ nl @
     ''Content-Length: '' @ show_nat (length (error_page msg tmp)) @ nl @
     nl @ error_page msg tmp"

text \<open>
  The path of a relative redirection: the directory of the request's URL, the destination, and
  the query string of the request.
\<close>

definition relative_path :: "cstring \<Rightarrow> cstring \<Rightarrow> cstring" where
  "relative_path requrl dst =
    (let url = (case requrl of c # u \<Rightarrow> if c = CHR ''/'' then u else requrl | [] \<Rightarrow> []);
         (p, qs) = (case strchr url (CHR ''?'') of None \<Rightarrow> (url, []) | Some (a, b) \<Rightarrow> (a, b));
         dir = rev (dropWhile (\<lambda>c. c \<noteq> CHR ''/'') (rev p))
     in dir @ dst @ qs)"

text \<open>A destination with a colon before any slash is a whole URL.\<close>

definition has_scheme :: "cstring \<Rightarrow> bool" where
  "has_scheme dst = (case strchr dst (CHR '':'') of
      None \<Rightarrow> False
    | Some (a, _) \<Rightarrow> CHR ''/'' \<notin> set a)"

definition redir_target :: "hthead \<Rightarrow> cstring \<Rightarrow> cstring" where
  "redir_target req dst =
     (if has_scheme dst then dst
      else (case (getheader req ''X-Ash-Protocol'', getheader req ''Host'') of
          (Some proto, Some host) \<Rightarrow>
            proto @ ''://'' @ host @ ''/'' @
              (case dst of c # p \<Rightarrow> if c = CHR ''/'' then p else relative_path (the (hd_url req)) dst
               | [] \<Rightarrow> relative_path (the (hd_url req)) dst)
        | _ \<Rightarrow> dst))"

definition stdredir :: "hthead \<Rightarrow> int \<Rightarrow> cstring \<Rightarrow> string" where
  "stdredir req code dst =
     ''HTTP/1.1 '' @ show_int code @ '' Redirection'' @ nl @
     ''Content-Length: 0'' @ nl @
     ''Location: '' @ redir_target req dst @ nl @ nl"

section \<open>The calendar\<close>

record tm =
  tm_sec :: int
  tm_min :: int
  tm_hour :: int
  tm_mday :: int
  tm_mon :: nat
  tm_year :: int
  tm_wday :: nat

definition leap :: "int \<Rightarrow> bool" where
  "leap y \<longleftrightarrow> y mod 4 = 0 \<and> (y mod 100 \<noteq> 0 \<or> y mod 400 = 0)"

definition year_len :: "int \<Rightarrow> int" where
  "year_len y = (if leap y then 366 else 365)"

definition month_lens :: "int \<Rightarrow> int list" where
  "month_lens y = [31, if leap y then 29 else 28, 31, 30, 31, 30, 31, 31, 30, 31, 30, 31]"

text \<open>The part of a sequence of periods that a day falls in, and the day within it.\<close>

fun find_period :: "int list \<Rightarrow> int \<Rightarrow> nat \<times> int" where
  "find_period [] d = (0, d)"
| "find_period (l # ls) d =
     (if d < l then (0, d) else case find_period ls (d - l) of (n, e) \<Rightarrow> (Suc n, e))"

definition year_lens :: "int list" where
  "year_lens = map (\<lambda>i. year_len (1970 + int i)) [0..<400]"

text \<open>\<open>gmtime\<close> of the C library; 400 years are 146097 days.\<close>

definition gmtime :: "int \<Rightarrow> tm" where
  "gmtime t =
    (let days = t div 86400; s = t mod 86400; era = days div 146097;
         (yi, yd) = find_period year_lens (days mod 146097);
         y = 1970 + int yi + 400 * era;
         (mon, md) = find_period (month_lens y) yd
     in \<lparr>tm_sec = s mod 60, tm_min = s div 60 mod 60, tm_hour = s div 3600, tm_mday = md + 1,
         tm_mon = mon, tm_year = y - 1900, tm_wday = nat ((days + 4) mod 7)\<rparr>)"

text \<open>The days from the epoch to the first of January, and \<open>timegm\<close> for a month within the year.\<close>

definition days_before_year :: "int \<Rightarrow> int" where
  "days_before_year y = 365 * (y - 1970) + (y - 1969) div 4 - (y - 1901) div 100 + (y - 1601) div 400"

definition timegm :: "tm \<Rightarrow> int" where
  "timegm tm = (days_before_year (tm_year tm + 1900) +
      sum_list (take (tm_mon tm) (month_lens (tm_year tm + 1900))) + tm_mday tm - 1) * 86400 +
     tm_hour tm * 3600 + tm_min tm * 60 + tm_sec tm"

section \<open>HTTP dates\<close>

definition days_tab :: "cstring list" where
  "days_tab = [''Mon'', ''Tue'', ''Wed'', ''Thu'', ''Fri'', ''Sat'', ''Sun'']"

definition months_tab :: "cstring list" where
  "months_tab = [''Jan'', ''Feb'', ''Mar'', ''Apr'', ''May'', ''Jun'',
     ''Jul'', ''Aug'', ''Sep'', ''Oct'', ''Nov'', ''Dec'']"

text \<open>\<open>%02i\<close> of a number that is not negative.\<close>

definition show_02 :: "int \<Rightarrow> cstring" where
  "show_02 n = (if n < 10 then CHR ''0'' # show_nat (nat n) else show_nat (nat n))"

definition fmthttpdate :: "int \<Rightarrow> cstring" where
  "fmthttpdate time = (let tm = gmtime time in
     days_tab ! ((tm_wday tm + 6) mod 7) @ '', '' @ show_int (tm_mday tm) @ '' '' @
     months_tab ! tm_mon tm @ '' '' @ show_int (tm_year tm + 1900) @ '' '' @
     show_02 (tm_hour tm) @ '':'' @ show_02 (tm_min tm) @ '':'' @ show_02 (tm_sec tm) @ '' GMT'')"

definition isalpha :: "char \<Rightarrow> bool" where
  "isalpha c \<longleftrightarrow> isupper c \<or> islower c"

text \<open>
  The regular expression of \<open>parsehttpdate\<close>, which ignores case: each of its parts ends where the
  next can begin, so the match is found from left to right. \<open>re_many1 p\<close> is \<open>p+\<close>,
  \<open>re_count n p\<close> is \<open>p{n}\<close>.
\<close>

definition re_many1 :: "(char \<Rightarrow> bool) \<Rightarrow> cstring \<Rightarrow> (cstring \<times> cstring) option" where
  "re_many1 p s = (if takeWhile p s = [] then None else Some (takeWhile p s, dropWhile p s))"

definition re_count :: "nat \<Rightarrow> (char \<Rightarrow> bool) \<Rightarrow> cstring \<Rightarrow> (cstring \<times> cstring) option" where
  "re_count n p s =
     (if n \<le> length s \<and> (\<forall>c\<in>set (take n s). p c) then Some (take n s, drop n s) else None)"

definition re_char :: "char \<Rightarrow> cstring \<Rightarrow> cstring option" where
  "re_char c s = (case s of [] \<Rightarrow> None | x # t \<Rightarrow> if x = c then Some t else None)"

datatype zone = ZName cstring | ZOffset char cstring cstring

definition re_zone :: "cstring \<Rightarrow> zone option" where
  "re_zone s =
     (case s of [] \<Rightarrow> None | c # t \<Rightarrow>
       if c = CHR ''+'' \<or> c = CHR ''-'' then
         (if length t = 4 \<and> (\<forall>d\<in>set t. isdigit d) then Some (ZOffset c (take 2 t) (drop 2 t)) else None)
       else if (\<forall>d\<in>set s. isalpha d) then Some (ZName s) else None)"

text \<open>The groups 1 to 6 and the zone.\<close>

definition date_match ::
  "cstring \<Rightarrow> (cstring \<times> cstring \<times> cstring \<times> cstring \<times> cstring \<times> cstring \<times> zone) option" where
  "date_match s = do {
     (_, s) \<leftarrow> re_count 3 isalpha s;
     s \<leftarrow> re_char (CHR '','') s;
     (_, s) \<leftarrow> re_many1 (\<lambda>c. c = CHR '' '') s;
     (mday, s) \<leftarrow> re_many1 isdigit s;
     (_, s) \<leftarrow> re_many1 (\<lambda>c. c = CHR '' '') s;
     (mon, s) \<leftarrow> re_count 3 isalpha s;
     (_, s) \<leftarrow> re_many1 (\<lambda>c. c = CHR '' '') s;
     (year, s) \<leftarrow> re_many1 isdigit s;
     (_, s) \<leftarrow> re_many1 (\<lambda>c. c = CHR '' '') s;
     (hour, s) \<leftarrow> re_count 2 isdigit s;
     s \<leftarrow> re_char (CHR '':'') s;
     (mi, s) \<leftarrow> re_count 2 isdigit s;
     s \<leftarrow> re_char (CHR '':'') s;
     (se, s) \<leftarrow> re_count 2 isdigit s;
     (_, s) \<leftarrow> re_many1 (\<lambda>c. c = CHR '' '') s;
     z \<leftarrow> re_zone s;
     Some (mday, mon, year, hour, mi, se, z)
   }"

definition gtoi :: "cstring \<Rightarrow> int" where
  "gtoi g = foldl (\<lambda>n c. n * 10 + (ord c - 48)) 0 g"

definition gstrcmp :: "cstring \<Rightarrow> cstring \<Rightarrow> bool" where
  "gstrcmp g str \<longleftrightarrow> \<not> (length g = length str \<and> map tolower g = map tolower str)"

fun find_month :: "cstring list \<Rightarrow> nat \<Rightarrow> cstring \<Rightarrow> nat option" where
  "find_month [] i g = None"
| "find_month (m # ms) i g = (if \<not> gstrcmp g m then Some i else find_month ms (Suc i) g)"

definition zone_offset :: "zone \<Rightarrow> int option" where
  "zone_offset z = (case z of
      ZName g \<Rightarrow> if \<not> gstrcmp g ''GMT'' then Some 0 else None
    | ZOffset sg h m \<Rightarrow> (let tz = gtoi h * 3600 + gtoi m * 60 in Some (if sg = CHR ''-'' then - tz else tz)))"

definition parsehttpdate :: "cstring \<Rightarrow> int" where
  "parsehttpdate date = (case date_match date of
      None \<Rightarrow> 0
    | Some (mday, mon, year, hour, mi, se, z) \<Rightarrow>
        (case find_month months_tab 0 mon of
           None \<Rightarrow> 0
         | Some m \<Rightarrow> (case zone_offset z of
             None \<Rightarrow> 0
           | Some tz \<Rightarrow> timegm \<lparr>tm_sec = gtoi se, tm_min = gtoi mi, tm_hour = gtoi hour,
               tm_mday = gtoi mday, tm_mon = m, tm_year = gtoi year - 1900, tm_wday = 0\<rparr> - tz)))"

definition httpdefstatus :: "int \<Rightarrow> cstring" where
  "httpdefstatus code =
     (if code = 200 then ''OK''
      else if code = 201 then ''Created''
      else if code = 202 then ''Accepted''
      else if code = 204 then ''No Content''
      else if code = 300 then ''Multiple Choices''
      else if code = 301 then ''Moved Permanently''
      else if code = 302 then ''Found''
      else if code = 303 then ''See Other''
      else if code = 304 then ''Not Modified''
      else if code = 307 then ''Moved Temporarily''
      else if code = 400 then ''Bad Request''
      else if code = 401 then ''Unauthorized''
      else if code = 403 then ''Forbidden''
      else if code = 404 then ''Not Found''
      else if code = 500 then ''Internal Server Error''
      else if code = 501 then ''Not Implemented''
      else if code = 503 then ''Service Unavailable''
      else ''Unknown status'')"

section \<open>The calendar round trip\<close>

lemma find_period_split:
  "0 \<le> d \<Longrightarrow> d < sum_list ls \<Longrightarrow> find_period ls d = (n, e) \<Longrightarrow>
     n < length ls \<and> d = sum_list (take n ls) + e \<and> 0 \<le> e \<and> e < ls ! n"
proof (induction ls d arbitrary: n e rule: find_period.induct)
  case (2 l ls d)
  then show ?case by (auto split: if_splits prod.splits)
qed simp

lemma div_succ:
  assumes "0 < (m::int)"
  shows "(x + 1) div m = x div m + (if m dvd x + 1 then 1 else 0)"
proof -
  define q r where "q = (x + 1) div m" and "r = (x + 1) mod m"
  have x: "x = m * q + r - 1" and r: "0 \<le> r" "r < m"
    using assms by (simp_all add: q_def r_def algebra_simps)
  show ?thesis
  proof (cases "r = 0")
    case True
    then have "x = m * (q - 1) + (m - 1)" using x by (simp add: algebra_simps)
    then have "x div m = q - 1" using assms by (intro int_div_pos_eq [of x m "q - 1" "m - 1"]) auto
    with True show ?thesis by (simp add: q_def r_def dvd_eq_mod_eq_0)
  next
    case False
    then have "x = m * q + (r - 1)" using x by simp
    then have "x div m = q" using r False by (intro int_div_pos_eq [of x m q "r - 1"]) auto
    with False show ?thesis by (simp add: q_def r_def dvd_eq_mod_eq_0)
  qed
qed

lemma leap_sum:
  "(a \<Longrightarrow> b) \<Longrightarrow> (b \<Longrightarrow> c) \<Longrightarrow> (if c \<and> (\<not> b \<or> a) then 366 else 365) =
     (365::int) + (if c then 1 else 0) - (if b then 1 else 0) + (if a then 1 else 0)"
  by (cases a; cases b; cases c; simp)

lemma days_before_year_step: "days_before_year (y + 1) = days_before_year y + year_len y"
proof -
  have d: "4 dvd y - 1968 \<longleftrightarrow> 4 dvd y" "100 dvd y - 1900 \<longleftrightarrow> 100 dvd y" "400 dvd y - 1600 \<longleftrightarrow> 400 dvd y"
    by (intro dvd_diff_left_iff, simp)+
  have "(100::int) dvd 400" "(4::int) dvd 100" by simp_all
  then have e: "400 dvd y \<Longrightarrow> 100 dvd y" "100 dvd y \<Longrightarrow> 4 dvd y"
    by (blast intro: dvd_trans)+
  have a: "(y + 1 - 1969) div 4 = (y - 1969) div 4 + (if 4 dvd y then 1 else 0)"
    "(y + 1 - 1901) div 100 = (y - 1901) div 100 + (if 100 dvd y then 1 else 0)"
    "(y + 1 - 1601) div 400 = (y - 1601) div 400 + (if 400 dvd y then 1 else 0)"
    using div_succ [of 4 "y - 1969"] div_succ [of 100 "y - 1901"] div_succ [of 400 "y - 1601"] d by simp_all
  have sum: "a' = a + i \<Longrightarrow> b' = b + j \<Longrightarrow> c' = c + k \<Longrightarrow>
      365 * (y + 1 - 1970) + a' - b' + c' = 365 * (y - 1970) + a - b + c + (365 + i - j + k)"
    for a a' b b' c c' i j k :: int by simp
  have "year_len y = 365 + (if 4 dvd y then 1 else 0) - (if 100 dvd y then 1 else 0) + (if 400 dvd y then 1 else 0)"
    unfolding year_len_def leap_def mod_eq_0_iff_dvd by (rule leap_sum [OF e])
  then show ?thesis
    unfolding days_before_year_def by (simp only: sum [OF a])
qed

lemma era_shift:
  "(y + 400 * k) div 4 = y div 4 + 100 * (k::int)" "(y + 400 * k) div 100 = y div 100 + 4 * k"
  "(y + 400 * k) div 400 = y div 400 + k"
  "(y + 400 * k) mod 4 = y mod 4" "(y + 400 * k) mod 100 = y mod 100" "(y + 400 * k) mod 400 = y mod 400"
proof -
  have "y + 400 * k = y + (100 * k) * 4" "y + 400 * k = y + (4 * k) * 100" "y + 400 * k = y + k * 400"
    by simp_all
  then show "(y + 400 * k) div 4 = y div 4 + 100 * k" "(y + 400 * k) div 100 = y div 100 + 4 * k"
    "(y + 400 * k) div 400 = y div 400 + k" "(y + 400 * k) mod 4 = y mod 4"
    "(y + 400 * k) mod 100 = y mod 100" "(y + 400 * k) mod 400 = y mod 400"
    by (metis div_mult_self1 mod_mult_self1 zero_neq_numeral add.commute)+
qed

lemma days_before_year_era: "days_before_year (y + 400 * k) = days_before_year y + 146097 * k"
proof -
  have e: "y + 400 * k - c = (y - c) + 400 * k" for c by simp
  show ?thesis
    unfolding days_before_year_def e by (simp only: era_shift) simp
qed

lemma sum_year_lens:
  "n \<le> 400 \<Longrightarrow> sum_list (take n year_lens) = days_before_year (1970 + int n)"
proof (induction n)
  case 0
  show ?case by (simp add: days_before_year_def)
next
  case (Suc n)
  then have "take (Suc n) year_lens = take n year_lens @ [year_len (1970 + int n)]"
    by (simp add: year_lens_def take_Suc_conv_app_nth)
  with Suc show ?case using days_before_year_step [of "1970 + int n"] by (simp add: algebra_simps)
qed

lemma year_lens_total: "sum_list year_lens = 146097"
  using sum_year_lens [of 400] by (simp add: year_lens_def days_before_year_def)

lemma year_len_era: "year_len (y + 400 * k) = year_len y"
  by (simp only: year_len_def leap_def era_shift)

lemma clock_split: "(s::int) = s div 3600 * 3600 + s div 60 mod 60 * 60 + s mod 60"
proof -
  have "s div 3600 = s div 60 div 60" by (simp add: zdiv_zmult2_eq [symmetric])
  then show ?thesis
    using mult_div_mod_eq [of 60 "s div 60"] mult_div_mod_eq [of 60 s] by linarith
qed

lemma month_lens_total: "sum_list (month_lens y) = year_len y"
  by (simp add: month_lens_def year_len_def)

lemma gmtime_fields:
  assumes "tm = gmtime t"
  shows "timegm tm = t" "tm_mon tm < 12" "0 \<le> tm_mday tm" "0 \<le> tm_hour tm \<and> tm_hour tm < 24"
    "0 \<le> tm_min tm \<and> tm_min tm < 60" "0 \<le> tm_sec tm \<and> tm_sec tm < 60"
    "0 \<le> t \<Longrightarrow> 1970 \<le> tm_year tm + 1900"
proof -
  define days s where "days = t div 86400" and "s = t mod 86400"
  obtain yi yd where y: "find_period year_lens (days mod 146097) = (yi, yd)" by fastforce
  define yr where "yr = 1970 + int yi + 400 * (days div 146097)"
  obtain mon md where m: "find_period (month_lens yr) yd = (mon, md)" by fastforce
  have tm: "tm = \<lparr>tm_sec = s mod 60, tm_min = s div 60 mod 60, tm_hour = s div 3600, tm_mday = md + 1,
      tm_mon = mon, tm_year = yr - 1900, tm_wday = nat ((days + 4) mod 7)\<rparr>"
    using y m by (simp add: assms gmtime_def days_def s_def yr_def Let_def)
  have yi: "yi < 400" "days mod 146097 = sum_list (take yi year_lens) + yd" "0 \<le> yd" "yd < year_lens ! yi"
    using find_period_split [of "days mod 146097" year_lens yi yd] y
    by (simp_all add: year_lens_total) (simp add: year_lens_def)
  then have "yd < year_len yr"
    using year_len_era [of "1970 + int yi" "days div 146097"] by (simp add: year_lens_def yr_def algebra_simps)
  then have md: "mon < 12" "yd = sum_list (take mon (month_lens yr)) + md" "0 \<le> md"
    using find_period_split [OF yi(3) _ m] by (simp_all add: month_lens_total) (simp add: month_lens_def)
  have "days_before_year yr = sum_list (take yi year_lens) + 146097 * (days div 146097)"
    using days_before_year_era [of "1970 + int yi" "days div 146097"] sum_year_lens [of yi] yi(1)
    by (simp add: yr_def algebra_simps)
  then have days: "days = days_before_year yr + sum_list (take mon (month_lens yr)) + md"
    using yi(2) md(2) mult_div_mod_eq [of 146097 days] by linarith
  have s: "0 \<le> s" "s < 86400" by (simp_all add: s_def)
  have "t = days * 86400 + s" by (simp add: days_def s_def)
  then show "timegm tm = t" using clock_split [of s] by (simp add: timegm_def tm days)
  show "tm_mon tm < 12" "0 \<le> tm_mday tm" using md by (simp_all add: tm)
  show "0 \<le> tm_hour tm \<and> tm_hour tm < 24" "0 \<le> tm_min tm \<and> tm_min tm < 60"
    "0 \<le> tm_sec tm \<and> tm_sec tm < 60"
    using s by (auto simp: tm)
  assume "0 \<le> t"
  then have "0 \<le> days" by (simp add: days_def pos_imp_zdiv_nonneg_iff)
  then have "0 \<le> days div 146097" by (simp add: pos_imp_zdiv_nonneg_iff)
  then show "1970 \<le> tm_year tm + 1900" by (simp add: tm yr_def)
qed

section \<open>Reading a date back\<close>

lemma gtoi_scan: "\<forall>c\<in>set g. isdigit c \<Longrightarrow> foldl (\<lambda>n c. n * 10 + (ord c - 48)) n g = fst (scan_digits n g)"
  by (induction g arbitrary: n) auto

lemma gtoi_show_nat: "gtoi (show_nat n) = int n"
  using scan_show_nat [of n "[]"] gtoi_scan [of "show_nat n" 0] show_nat_digits by (simp add: gtoi_def)

lemma gtoi_zero: "gtoi (CHR ''0'' # g) = gtoi g"
  by (simp add: gtoi_def ord_def)

lemma gtoi_show_02: "0 \<le> n \<Longrightarrow> gtoi (show_02 n) = n"
  by (simp add: show_02_def gtoi_zero gtoi_show_nat)

lemma show_nat_short: "n < 10 \<Longrightarrow> length (show_nat n) = 1"
  by (simp add: show_nat.simps [of n])

lemma show_02_length:
  assumes "0 \<le> n" "n < 100"
  shows "length (show_02 n) = 2"
proof (cases "n < 10")
  case True
  with assms show ?thesis by (simp add: show_02_def show_nat_short)
next
  case False
  with assms have "length (show_nat (nat n div 10)) = 1" by (intro show_nat_short) linarith
  with False assms show ?thesis by (simp add: show_02_def show_nat.simps [of "nat n"])
qed

lemma show_02_digits: "c \<in> set (show_02 n) \<Longrightarrow> isdigit c"
  using show_nat_digits by (auto simp: show_02_def isdigit_def ord_def split: if_splits)

lemma re_digits: "re_many1 isdigit (show_nat n @ CHR '' '' # t) = Some (show_nat n, CHR '' '' # t)"
proof -
  have "\<forall>c\<in>set (show_nat n). isdigit c" "\<not> isdigit (CHR '' '')"
    using show_nat_digits by (auto simp: isdigit_def ord_def)
  then show ?thesis
    by (simp add: re_many1_def takeWhile_append2 dropWhile_append2)
qed

lemma re_blank: "c \<noteq> CHR '' '' \<Longrightarrow> re_many1 (\<lambda>c. c = CHR '' '') (CHR '' '' # c # t) = Some ('' '', c # t)"
  by (simp add: re_many1_def)

lemma re_blank_append:
  "s \<noteq> [] \<Longrightarrow> hd s \<noteq> CHR '' '' \<Longrightarrow>
     re_many1 (\<lambda>c. c = CHR '' '') (CHR '' '' # s @ t) = Some ('' '', s @ t)"
  using re_blank by (cases s) auto

lemma re_count_append: "length s = n \<Longrightarrow> \<forall>c\<in>set s. p c \<Longrightarrow> re_count n p (s @ t) = Some (s, t)"
  by (auto simp: re_count_def)

lemma re_char_Cons: "re_char c (c # t) = Some t"
  by (simp add: re_char_def)

lemma digits_hd: "s \<noteq> [] \<Longrightarrow> (\<And>c. c \<in> set s \<Longrightarrow> isdigit c) \<Longrightarrow> hd s \<noteq> CHR '' ''"
proof -
  assume s: "s \<noteq> []" "\<And>c. c \<in> set s \<Longrightarrow> isdigit c"
  have "\<not> isdigit (CHR '' '')" by code_simp
  with s(2) [OF hd_in_set [OF s(1)]] show ?thesis by metis
qed

lemma months_tab_ok:
  "m < 12 \<Longrightarrow> length (months_tab ! m) = 3 \<and> (\<forall>c\<in>set (months_tab ! m). isalpha c) \<and>
     hd (months_tab ! m) \<noteq> CHR '' '' \<and> find_month months_tab 0 (months_tab ! m) = Some m"
proof -
  have "\<forall>m\<in>set [0..<12]. length (months_tab ! m) = 3 \<and> (\<forall>c\<in>set (months_tab ! m). isalpha c) \<and>
     hd (months_tab ! m) \<noteq> CHR '' '' \<and> find_month months_tab 0 (months_tab ! m) = Some m" by code_simp
  then show "m < 12 \<Longrightarrow> ?thesis" by simp
qed

lemma days_tab_ok:
  "d < 7 \<Longrightarrow> length (days_tab ! d) = 3 \<and> (\<forall>c\<in>set (days_tab ! d). isalpha c)"
proof -
  have "\<forall>d\<in>set [0..<7]. length (days_tab ! d) = 3 \<and> (\<forall>c\<in>set (days_tab ! d). isalpha c)" by code_simp
  then show "d < 7 \<Longrightarrow> ?thesis" by simp
qed

lemma date_match_text:
  assumes "length wd = 3" "\<forall>c\<in>set wd. isalpha c"
    and "length mon = 3" "\<forall>c\<in>set mon. isalpha c" "hd mon \<noteq> CHR '' ''"
    and "0 \<le> h" "h < 100" "0 \<le> mi" "mi < 100" "0 \<le> se" "se < 100"
  shows "date_match (wd @ '', '' @ show_nat md @ '' '' @ mon @ '' '' @ show_nat y @ '' '' @
      show_02 h @ '':'' @ show_02 mi @ '':'' @ show_02 se @ '' GMT'') =
    Some (show_nat md, mon, show_nat y, show_02 h, show_02 mi, show_02 se, ZName ''GMT'')"
proof -
  have l: "length (show_02 h) = 2" "length (show_02 mi) = 2" "length (show_02 se) = 2"
    using assms by (simp_all add: show_02_length)
  have d: "\<forall>c\<in>set (show_02 h). isdigit c" "\<forall>c\<in>set (show_02 mi). isdigit c" "\<forall>c\<in>set (show_02 se). isdigit c"
    using show_02_digits by blast+
  have ne: "show_02 h \<noteq> []" "mon \<noteq> []" using l assms(3) by auto
  have hds: "hd (show_02 h) \<noteq> CHR '' ''" "hd (show_nat md) \<noteq> CHR '' ''" "hd (show_nat y) \<noteq> CHR '' ''"
    using digits_hd ne(1) d(1) show_nat_digits show_nat_nonempty by metis+
  have z: "re_zone ''GMT'' = Some (ZName ''GMT'')" by code_simp
  show ?thesis
    using assms ne hds l d z
    by (simp add: date_match_def re_count_append re_char_Cons re_digits re_blank_append re_blank)
qed

section \<open>Quoting undone\<close>

lemma hexcharU_digit: "d < 16 \<Longrightarrow> unquote_digit (hexcharU d) = Some (int d)"
  by (auto simp: hexcharU_def unquote_digit_def ord_chr_id)

lemma unquote_quote: "unquote_bytes (urlquote s) = Some s"
proof (induction s)
  case (Cons c s)
  have p: "\<not> url_safe (CHR ''%'')" by code_simp
  have "nat (ord c) div 16 < 16" using ord_less [of c] by linarith
  moreover have "int (nat (ord c) div 16) * 16 + int (nat (ord c) mod 16) = ord c"
    using ord_nonneg [of c] div_mult_mod_eq [of "nat (ord c)" 16] by (metis nat_0_le of_nat_add of_nat_mult of_nat_numeral)
  ultimately show ?case
    using Cons p by (simp add: show_hex2_def hexcharU_digit)
qed simp

lemma urlquote_safe: "c \<in> set (urlquote s) \<Longrightarrow> url_safe c \<or> c = CHR ''%'' \<or> isdigit c \<or> isupper c"
proof (induction s)
  case (Cons d s)
  have h: "n < 16 \<Longrightarrow> isdigit (hexcharU n) \<or> isupper (hexcharU n)" for n
    by (auto simp: hexcharU_def isdigit_def isupper_def ord_chr_id)
  have "nat (ord d) div 16 < 16" "nat (ord d) mod 16 < 16" using ord_less [of d] by linarith+
  then have "isdigit c \<or> isupper c" if "c \<in> set (show_hex2 (ord d))"
    using that h [of "nat (ord d) div 16"] h [of "nat (ord d) mod 16"] by (auto simp: show_hex2_def)
  with Cons show ?case by (auto split: if_splits)
qed simp

lemma past_prefix: "e @ x = a @ c # b \<Longrightarrow> c \<notin> set e \<Longrightarrow> \<exists>a2. x = a2 @ c # b"
proof (induction e arbitrary: a)
  case (Cons y e)
  then show ?case by (cases a) auto
qed auto

lemma htmlquote_Cons:
  "(\<exists>e\<in>{''lt;'', ''gt;'', ''amp;'', ''quot;''}. htmlquote (c # s) = CHR ''&'' # e @ htmlquote s) \<or>
     htmlquote (c # s) = c # htmlquote s \<and> c \<noteq> CHR ''&''"
  by simp

lemma htmlquote_entities:
  "htmlquote s = a @ CHR ''&'' # b \<Longrightarrow> \<exists>e r. e \<in> {''lt;'', ''gt;'', ''amp;'', ''quot;''} \<and> b = e @ r"
proof (induction s arbitrary: a)
  case (Cons c s)
  from htmlquote_Cons [of c s] consider e where "e \<in> {''lt;'', ''gt;'', ''amp;'', ''quot;''}"
      "htmlquote (c # s) = CHR ''&'' # e @ htmlquote s"
    | "htmlquote (c # s) = c # htmlquote s" "c \<noteq> CHR ''&''" by blast
  then show ?case
  proof cases
    case (1 e)
    show ?thesis
    proof (cases a)
      case Nil
      with 1(2) Cons.prems have "b = e @ htmlquote s" by simp
      with 1(1) show ?thesis by blast
    next
      case (Cons x a')
      with 1(2) Cons.prems have "e @ htmlquote s = a' @ CHR ''&'' # b" by simp
      moreover have "CHR ''&'' \<notin> set e" using 1(1) by auto
      ultimately obtain a2 where "htmlquote s = a2 @ CHR ''&'' # b"
        using past_prefix [of e "htmlquote s" a' "CHR ''&''" b] by auto
      then show ?thesis by (rule Cons.IH)
    qed
  next
    case 2
    with Cons.prems have "c # htmlquote s = a @ CHR ''&'' # b" by simp
    with 2(2) obtain a' where "htmlquote s = a' @ CHR ''&'' # b" by (cases a) auto
    then show ?thesis by (rule Cons.IH)
  qed
qed simp

lemma date_text_read: "0 \<le> t \<Longrightarrow> parsehttpdate (fmthttpdate t) = t"
proof -
  assume assms: "0 \<le> t"
  define tm where "tm = gmtime t"
  note f = gmtime_fields [OF tm_def]
  have wd: "(tm_wday tm + 6) mod 7 < 7" by simp
  have y: "show_int (tm_year tm + 1900) = show_nat (nat (tm_year tm + 1900))"
    "show_int (tm_mday tm) = show_nat (nat (tm_mday tm))"
    using f(3,7) assms by (simp_all add: show_int_def)
  have "date_match (fmthttpdate t) = Some (show_nat (nat (tm_mday tm)), months_tab ! tm_mon tm,
      show_nat (nat (tm_year tm + 1900)), show_02 (tm_hour tm), show_02 (tm_min tm), show_02 (tm_sec tm),
      ZName ''GMT'')"
    unfolding fmthttpdate_def Let_def tm_def [symmetric] y
    using f months_tab_ok [OF f(2)] days_tab_ok [OF wd] by (intro date_match_text) auto
  moreover have "zone_offset (ZName ''GMT'') = Some 0" by code_simp
  moreover have "timegm \<lparr>tm_sec = tm_sec tm, tm_min = tm_min tm, tm_hour = tm_hour tm, tm_mday = tm_mday tm,
      tm_mon = tm_mon tm, tm_year = tm_year tm, tm_wday = 0\<rparr> = t" using f(1) by (simp add: timegm_def)
  ultimately show ?thesis
    using f months_tab_ok [OF f(2)] assms
    by (simp add: parsehttpdate_def gtoi_show_nat gtoi_show_02)
qed

section \<open>Properties\<close>



text \<open>Quoting a string for a URL leaves only safe printable characters, and \<open>unquoteurl\<close> gives
  the string back, for every string.\<close>

lemma urlquote_unquoteurl:
  assumes "nul_free s"
  shows "unquoteurl (urlquote s) = Some s \<and>
    (\<forall>c\<in>set (urlquote s). url_safe c \<or> c = CHR ''%'' \<or> isdigit c \<or> isupper c)"
  using assms urlquote_safe by (simp_all add: unquoteurl_def unquote_quote)

lemma urlquote_unquoteurl_witness: "unquoteurl (urlquote ''a b%'') = Some ''a b%''"
  using urlquote_unquoteurl [of "''a b%''"] by simp

text \<open>Text quoted for HTML holds no markup: no angle brackets or double quotes are left, and
  every ampersand that is left starts one of the four entities.\<close>

lemma htmlquote_no_markup:
  assumes "htmlquote s = a @ c # b"
  shows "c \<noteq> CHR ''<'' \<and> c \<noteq> CHR ''>'' \<and> c \<noteq> CHR 0x22 \<and>
    (c = CHR ''&'' \<longrightarrow> (\<exists>e r. e \<in> {''lt;'', ''gt;'', ''amp;'', ''quot;''} \<and> b = e @ r))"
proof -
  have "CHR ''<'' \<notin> set (htmlquote s) \<and> CHR ''>'' \<notin> set (htmlquote s) \<and> CHR 0x22 \<notin> set (htmlquote s)"
    by (induction s) auto
  with assms htmlquote_entities [of s a b] show ?thesis by auto
qed

lemma htmlquote_no_markup_witness:
  "\<exists>e r. e \<in> {''lt;'', ''gt;'', ''amp;'', ''quot;''} \<and> ''lt;b'' = e @ r"
  using htmlquote_no_markup [of "''<b''" "[]" "CHR ''&''" "''lt;b''"] by simp

end
