(* ===== verification/Passdata.thy ===== *)
theory Passdata
  imports Resp
begin

text \<open>
  The loops of \<open>src/htparser.c\<close> that pass a message body between two buffered streams: by length
  or to the end (\<open>passdata\<close>), out of and into the chunked transfer coding (\<open>recvchunks\<close>,
  \<open>passchunks\<close>), and both ways at once (\<open>passduplex\<close>). The interface \<open>duct\<close> is a pair of channels
  of which the first has finitely many bytes left; every loop ends on it and loses nothing.
\<close>

section \<open>Passing data\<close>

text \<open>
  The part of the loops that moves \<open>n\<close> bytes at most from the read buffer of \<open>b\<close> to the write side
  of \<open>d\<close>: \<open>Inl\<close> is the return of an error.
\<close>

definition pass_some :: "'q bufioops \<Rightarrow> nat \<Rightarrow> 'p bufio \<Rightarrow> 'q bufio \<Rightarrow>
    ('p bufio \<times> 'q bufio + nat \<times> 'p bufio \<times> 'q bufio) option" where
  "pass_some oo n b d =
     (if biordata b > 0 then
        (case biowritesome oo d (take n (unread b)) of
           None \<Rightarrow> None
         | Some (r, d1) \<Rightarrow>
             if r < 0 then Some (Inl (b, d1))
             else Some (Inr (nat r, b\<lparr>rh := rh b + nat r\<rparr>, d1)))
      else Some (Inr (0, b, d)))"

partial_function (option) passdata_loop ::
  "'p bufioops \<Rightarrow> 'q bufioops \<Rightarrow> int \<Rightarrow> int \<Rightarrow> 'p bufio \<Rightarrow> 'q bufio \<Rightarrow> (int \<times> 'p bufio \<times> 'q bufio) option" where
  "passdata_loop oi oo mx tot b d =
     (if bioeof b \<or> \<not> (mx < 0 \<or> tot < mx) then Some (tot, b, d)
      else (case pass_some oo (if mx \<ge> 0 then min (nat (mx - tot)) (biordata b) else biordata b) b d of
          None \<Rightarrow> None
        | Some (Inl (b1, d1)) \<Rightarrow> Some (- 1, b1, d1)
        | Some (Inr (r, b1, d1)) \<Rightarrow>
            if biorspace b1 > 0 \<and> (mx < 0 \<or> int (biordata b1) < mx - (tot + int r)) then
              (case biofillsome oi b1 of (q, b2) \<Rightarrow>
                 if q < 0 then Some (- 1, b2, d1) else passdata_loop oi oo mx (tot + int r) b2 d1)
            else passdata_loop oi oo mx (tot + int r) b1 d1))"

definition passdata :: "'p bufioops \<Rightarrow> 'q bufioops \<Rightarrow> 'p bufio \<Rightarrow> 'q bufio \<Rightarrow> int \<Rightarrow>
    (int \<times> 'p bufio \<times> 'q bufio) option" where
  "passdata oi oo b d mx = passdata_loop oi oo mx 0 b d"

text \<open>
  The line with the length of a chunk. \<open>chlen\<close> is an \<open>ssize_t\<close>, whose shift loses the high bits;
  the result \<open>Inl\<close> is the return of -1.
\<close>

definition chunk_digit :: "int \<Rightarrow> int option" where
  "chunk_digit c =
     (if 48 \<le> c \<and> c \<le> 57 then Some (c - 48)
      else if 65 \<le> c \<and> c \<le> 70 then Some (c + 10 - 65)
      else if 97 \<le> c \<and> c \<le> 102 then Some (c + 10 - 97)
      else None)"

partial_function (option) chunk_line ::
  "('s \<Rightarrow> int \<times> 's) \<Rightarrow> 64 word \<Rightarrow> bool \<Rightarrow> 's \<Rightarrow> ('s + 64 word \<times> 's) option" where
  "chunk_line getc chlen r s = (case getc s of (c, s') \<Rightarrow>
     if c = 10 then Some (if \<not> r then Inl s' else Inr (chlen, s'))
     else if c = 13 then chunk_line getc chlen r s'
     else (case chunk_digit c of
         Some d \<Rightarrow> chunk_line getc (push_bit 4 chlen + word_of_int d) True s'
       | None \<Rightarrow> Some (Inl s')))"

text \<open>The data of one chunk; \<open>Inl\<close> is the return of -1.\<close>

partial_function (option) chunk_data ::
  "'p bufioops \<Rightarrow> 'q bufioops \<Rightarrow> int \<Rightarrow> 'p bufio \<Rightarrow> 'q bufio \<Rightarrow>
    ('p bufio \<times> 'q bufio + 'p bufio \<times> 'q bufio) option" where
  "chunk_data oi oo chlen b d =
     (if \<not> chlen > 0 then Some (Inr (b, d))
      else (case pass_some oo (min (biordata b) (nat chlen)) b d of
          None \<Rightarrow> None
        | Some (Inl (b1, d1)) \<Rightarrow> Some (Inl (b1, d1))
        | Some (Inr (r, b1, d1)) \<Rightarrow>
            if biorspace b1 > 0 \<and> int (biordata b1) < chlen - int r then
              (case biofillsome oi b1 of (q, b2) \<Rightarrow>
                 if q \<le> 0 then Some (Inl (b2, d1)) else chunk_data oi oo (chlen - int r) b2 d1)
            else chunk_data oi oo (chlen - int r) b1 d1))"

text \<open>\<open>(biogetc(in) != 13) || (biogetc(in) != 10)\<close>\<close>

definition not_crlf :: "('s \<Rightarrow> int \<times> 's) \<Rightarrow> 's \<Rightarrow> bool \<times> 's" where
  "not_crlf getc s = (case getc s of (c, s1) \<Rightarrow>
     if c \<noteq> 13 then (True, s1) else (case getc s1 of (c2, s2) \<Rightarrow> (c2 \<noteq> 10, s2)))"

partial_function (option) recvchunks ::
  "'p bufioops \<Rightarrow> 'q bufioops \<Rightarrow> 'p bufio \<Rightarrow> 'q bufio \<Rightarrow> (int \<times> 'p bufio \<times> 'q bufio) option" where
  "recvchunks oi oo b d = (case chunk_line (biogetc oi) 0 False b of
      None \<Rightarrow> None
    | Some (Inl b1) \<Rightarrow> Some (- 1, b1, d)
    | Some (Inr (chlen, b1)) \<Rightarrow>
        if chlen = 0 then
          (case not_crlf (biogetc oi) b1 of (bad, b2) \<Rightarrow> Some (if bad then - 1 else 0, b2, d))
        else (case chunk_data oi oo (sint chlen) b1 d of
            None \<Rightarrow> None
          | Some (Inl (b2, d2)) \<Rightarrow> Some (- 1, b2, d2)
          | Some (Inr (b2, d2)) \<Rightarrow> (case not_crlf (biogetc oi) b2 of (bad, b3) \<Rightarrow>
              if bad then Some (- 1, b3, d2) else recvchunks oi oo b3 d2)))"

partial_function (option) passchunks ::
  "'p bufioops \<Rightarrow> 'q bufioops \<Rightarrow> 'p bufio \<Rightarrow> 'q bufio \<Rightarrow> (int \<times> 'p bufio \<times> 'q bufio) option" where
  "passchunks oi oo b d =
     (if bioeof b then
        (case bioprintf oo d 5 (''0'' @ crlf @ crlf) of None \<Rightarrow> None | Some (_, d1) \<Rightarrow> Some (0, b, d1))
      else if biordata b > 0 then
        (case bioprintf oo d 5 (show_hex (biordata b) @ crlf) of None \<Rightarrow> None | Some (_, d1) \<Rightarrow>
         (case biowrite oo d1 (unread b) of None \<Rightarrow> None | Some (r, d2) \<Rightarrow>
           if r \<noteq> int (biordata b) then Some (- 1, b, d2)
           else (case bioprintf oo d2 2 crlf of None \<Rightarrow> None | Some (_, d3) \<Rightarrow>
            (case bioflush oo d3 of None \<Rightarrow> None | Some (f, d4) \<Rightarrow>
              let b1 = b\<lparr>rh := rh b + biordata b\<rparr> in
              if f < 0 then Some (- 1, b1, d4)
              else if biorspace b1 > 0 then
                (case biofillsome oi b1 of (q, b2) \<Rightarrow>
                   if q < 0 then Some (- 1, b2, d4) else passchunks oi oo b2 d4)
              else passchunks oi oo b1 d4))))
      else if biorspace b > 0 then
        (case biofillsome oi b of (q, b2) \<Rightarrow>
           if q < 0 then Some (- 1, b2, d) else passchunks oi oo b2 d)
      else passchunks oi oo b d)"

declare passdata_loop.simps [simp del, code] chunk_line.simps [simp del, code]
  chunk_data.simps [simp del, code] recvchunks.simps [simp del, code] passchunks.simps [simp del, code]

text \<open>
  Copying both ways between two streams. An event is what \<open>mblock\<close> returns: the stream it selected
  and whether it is readable and writable; the end of the events is the timeout.
\<close>

datatype side = SideA | SideB | SideOther

fun passduplex :: "'p bufioops \<Rightarrow> 'q bufioops \<Rightarrow> (side \<times> bool \<times> bool) list \<Rightarrow> 'p bufio \<Rightarrow> 'q bufio \<Rightarrow>
    ('p bufio \<times> 'q bufio) option" where
  "passduplex oa ob evs a b =
     (if bioeof a \<or> bioeof b then Some (a, b)
      else (case biocopybuf b a of (_, b1, a1) \<Rightarrow> (case biocopybuf a1 b1 of (_, a2, b2) \<Rightarrow>
        (case evs of
           [] \<Rightarrow> Some (a2, b2)
         | (sd, rd, wr) # evs' \<Rightarrow>
             if sd = SideA then
               (case (if rd then biofillsome oa a2 else (0, a2)) of (q, a3) \<Rightarrow>
                 if q < 0 then Some (a3, b2)
                 else (case (if wr then bioflushsome oa a3 else Some (0, a3)) of
                     None \<Rightarrow> None
                   | Some (f, a4) \<Rightarrow> if f < 0 then Some (a4, b2) else passduplex oa ob evs' a4 b2))
             else if sd = SideB then
               (case (if rd then biofillsome ob b2 else (0, b2)) of (q, b3) \<Rightarrow>
                 if q < 0 then Some (a2, b3)
                 else (case (if wr then bioflushsome ob b3 else Some (0, b3)) of
                     None \<Rightarrow> None
                   | Some (f, b4) \<Rightarrow> if f < 0 then Some (a2, b4) else passduplex oa ob evs' a2 b4))
             else Some (a2, b2)))))"

declare passduplex.simps [simp del]

section \<open>The chunked coding\<close>

text \<open>
  What the coding of a body is: lines with the lengths of the pieces, as \<open>recvchunks\<close> reads them,
  and the pieces, up to the piece of length 0.
\<close>

definition chunk_hdr :: "string \<Rightarrow> 64 word \<Rightarrow> bool" where
  "chunk_hdr h n \<longleftrightarrow> (\<forall>t. chunk_line fgetc 0 False (h @ t) = Some (Inr (n, t)))"

inductive chunked :: "string \<Rightarrow> string \<Rightarrow> bool" where
  chunked_last: "chunk_hdr h 0 \<Longrightarrow> chunked (h @ crlf) []"
| chunked_piece: "chunk_hdr h n \<Longrightarrow> n \<noteq> 0 \<Longrightarrow> length xs = nat (sint n) \<Longrightarrow> chunked e ys \<Longrightarrow>
    chunked (h @ xs @ crlf @ e) (xs @ ys)"

inductive_cases chunked_emptyE: "chunked [] ys"

lemma hexchar_digit: "d < 16 \<Longrightarrow> chunk_digit (ord (hexchar d)) = Some (int d) \<and>
    ord (hexchar d) \<noteq> 10 \<and> ord (hexchar d) \<noteq> 13"
  by (auto simp: hexchar_def chunk_digit_def ord_chr_id)

lemma chunk_line_digit:
  "d < 16 \<Longrightarrow> chunk_line fgetc v r (hexchar d # t) = chunk_line fgetc (push_bit 4 v + of_nat d) True t"
  using hexchar_digit [of d] by (subst chunk_line.simps) simp

lemma chunk_line_hex: "chunk_line fgetc 0 r (show_hex n @ t) = chunk_line fgetc (of_nat n) True t"
proof (induction n arbitrary: t rule: show_hex.induct)
  case (1 n)
  show ?case
  proof (cases "n < 16")
    case True
    then show ?thesis by (simp add: show_hex.simps [of n] chunk_line_digit)
  next
    case False
    have "push_bit 4 (of_nat (n div 16)) + of_nat (n mod 16) = (of_nat (16 * (n div 16) + n mod 16) :: 64 word)"
      by (simp only: push_bit_eq_mult of_nat_add of_nat_mult) simp
    then have w: "push_bit 4 (of_nat (n div 16)) + of_nat (n mod 16) = (of_nat n :: 64 word)"
      by (simp only: mult_div_mod_eq)
    have "chunk_line fgetc 0 r (show_hex n @ t) =
        chunk_line fgetc 0 r (show_hex (n div 16) @ hexchar (n mod 16) # t)"
      using False by (simp add: show_hex.simps [of n])
    also have "\<dots> = chunk_line fgetc (of_nat (n div 16)) True (hexchar (n mod 16) # t)"
      by (rule 1 [OF False])
    also have "\<dots> = chunk_line fgetc (of_nat n) True t"
      using chunk_line_digit [of "n mod 16" "of_nat (n div 16)"] w by simp
    finally show ?thesis .
  qed
qed

lemma chunk_line_end: "chunk_line fgetc v True (crlf @ t) = Some (Inr (v, t))"
proof -
  have "chunk_line fgetc v True (crlf @ t) = chunk_line fgetc v True (chr 10 # t)"
    by (subst chunk_line.simps) (simp add: crlf_def ord_simps)
  also have "\<dots> = Some (Inr (v, t))" by (subst chunk_line.simps) (simp add: ord_simps)
  finally show ?thesis .
qed

lemma chunk_hdr_hex: "chunk_hdr (show_hex n @ crlf) (of_nat n)"
  by (simp add: chunk_hdr_def chunk_line_hex chunk_line_end)

lemma chunk_hdr_zero: "chunk_hdr (''0'' @ crlf) 0"
proof -
  have "hexchar 0 = CHR ''0''" by code_simp
  with chunk_hdr_hex [of 0] show ?thesis by (simp add: show_hex.simps [of 0])
qed

lemma chunked_end: "chunked (''0'' @ crlf @ crlf) []"
  using chunked_last [OF chunk_hdr_zero] by simp

lemma chunked_hex:
  assumes "0 < length xs" "length xs < 2 ^ 63" "chunked e ys"
  shows "chunked (show_hex (length xs) @ crlf @ xs @ crlf @ e) (xs @ ys)"
proof -
  have "sint (of_nat (length xs) :: 64 word) = int (length xs)"
    using assms(2) by (simp add: signed_of_nat signed_take_bit_int_eq_self)
  moreover have "(of_nat (length xs) :: 64 word) \<noteq> 0"
    using assms(1,2) by (metis calculation of_nat_0_less_iff less_irrefl sint_0)
  ultimately show ?thesis
    using chunked_piece [OF chunk_hdr_hex [of "length xs"] _ _ assms(3), of xs] by simp
qed

section \<open>Two channels\<close>

text \<open>
  A channel to read from that has at most \<open>left\<close> bytes to deliver, and one to write to.
\<close>

locale duct =
  src: channel oi goti senti + dst: moving_channel oo goto sento
  for oi :: "'p bufioops" and goti senti and oo :: "'q bufioops" and goto sento +
  fixes left :: "'p \<Rightarrow> nat"
  assumes left_read: "op_read oi = Some f \<Longrightarrow> f p n = (res, p') \<Longrightarrow>
      left p' + (case res of Inl e \<Rightarrow> 0 | Inr bs \<Rightarrow> length bs) \<le> left p"
    and has_write: "op_write oo \<noteq> None"
begin

text \<open>The bytes a reader can still get; taking one off leaves fewer.\<close>

definition remaining :: "'p bufio \<Rightarrow> nat" where
  "remaining b = left (pdata b) + biordata b"

lemma fill_remaining:
  assumes "bio_ok b" "biofill oi b = (r, b')"
  shows "remaining b' \<le> remaining b"
proof -
  define b1 where "b1 = bio_room b"
  have b1: "pdata b1 = pdata b" "biordata b1 = biordata b" by (simp_all add: b1_def)
  have le: "rh b1 \<le> length (rbuf b1)" using room_ok [OF assms(1)] by (simp add: b1_def)
  show ?thesis
  proof (cases "op_read oi = None \<or> bio_eof b")
    case True
    with assms(2) show ?thesis by (auto simp: biofill_def remaining_def biordata_def split: option.splits)
  next
    case False
    then obtain f where f: "op_read oi = Some f" "\<not> bio_eof b" by auto
    obtain res p where res: "f (pdata b1) (rsize b1 - length (rbuf b1)) = (res, p)" by fastforce
    note left = left_read [OF f(1) res, unfolded b1(1)]
    show ?thesis
      using assms(2) f res left b1 le
      by (cases res) (auto simp: biofill_def b1_def [symmetric] Let_def remaining_def biordata_def split: if_splits)
  qed
qed

lemma getc_remaining:
  assumes "bio_ok b" "biogetc oi b = (c, b')"
  shows "remaining b' \<le> remaining b" "c \<noteq> EOF \<Longrightarrow> remaining b' < remaining b"
proof -
  have "remaining b' \<le> remaining b \<and> (c \<noteq> EOF \<longrightarrow> remaining b' < remaining b)"
  proof (cases "biordata b = 0")
    case False
    with assms(2) show ?thesis by (auto simp: biogetc_unfold remaining_def biordata_def)
  next
    case True
    obtain r b1 where r: "biofill oi b = (r, b1)" by fastforce
    note le = fill_remaining [OF assms(1) r]
    show ?thesis
    proof (cases "r \<le> 0")
      case True
      with \<open>biordata b = 0\<close> assms(2) r le show ?thesis by (auto simp: biogetc_unfold)
    next
      case False
      then have "0 < biordata b1" using biofill_progress [OF r] by simp
      moreover have "b' = b1\<lparr>rh := rh b1 + 1\<rparr>" using False True assms(2) r by (simp add: biogetc_unfold)
      ultimately show ?thesis using le by (auto simp: remaining_def biordata_def)
    qed
  qed
  then show "remaining b' \<le> remaining b" "c \<noteq> EOF \<Longrightarrow> remaining b' < remaining b" by simp_all
qed

text \<open>The bytes \<open>xs\<close> have gone from the read side of \<open>b\<close> to the write side of \<open>d\<close>.\<close>

definition moved :: "'p bufio \<Rightarrow> 'q bufio \<Rightarrow> string \<Rightarrow> 'p bufio \<Rightarrow> 'q bufio \<Rightarrow> bool" where
  "moved b d xs b' d' \<longleftrightarrow> src.serves b xs [] b' \<and> dst.serves d [] xs d' \<and>
     remaining b' + length xs \<le> remaining b"

lemma moved_refl: "bio_ok b \<Longrightarrow> bio_ok d \<Longrightarrow> moved b d [] b d"
  by (simp add: moved_def src.serves_refl dst.serves_refl)

lemma moved_join: "moved b d xs b1 d1 \<Longrightarrow> moved b1 d1 ys b2 d2 \<Longrightarrow> moved b d (xs @ ys) b2 d2"
  using src.serves_join [of b xs "[]" b1 ys "[]" b2] dst.serves_join [of d "[]" xs d1 "[]" ys d2]
  by (simp add: moved_def)

lemma moved_ok: "moved b d xs b' d' \<Longrightarrow> bio_ok b' \<and> bio_ok d'"
  by (simp add: moved_def src.serves_def dst.serves_def)

lemma moved_src:
  "moved b d xs b1 d1 \<Longrightarrow> src.serves b1 [] [] b2 \<Longrightarrow> remaining b2 \<le> remaining b1 \<Longrightarrow> moved b d xs b2 d1"
  using src.serves_join [of b xs "[]" b1 "[]" "[]" b2] by (simp add: moved_def)

definition owed :: "'p bufio \<Rightarrow> nat" where
  "owed b = 3 * left (pdata b) + 2 * biordata b + (if bio_eof b then 0 else 1)"

lemma fill_owed:
  assumes "bio_ok b" "biofillsome oi b = (q, b')"
  shows "owed b' \<le> owed b \<and> (bio_eof b \<or> q < 0 \<or> owed b' < owed b) \<and> (q > 0 \<longrightarrow> owed b' < owed b)"
proof -
  define b1 where "b1 = bio_room b"
  have b1: "pdata b1 = pdata b" "biordata b1 = biordata b" "bio_eof b1 = bio_eof b"
    by (simp_all add: b1_def)
  have le: "rh b1 \<le> length (rbuf b1)" using room_ok [OF assms(1)] by (simp add: b1_def)
  show ?thesis
  proof (cases "op_read oi")
    case None
    with assms(2) show ?thesis by (auto simp: biofillsome_def biofill_def owed_def biordata_def)
  next
    case (Some f)
    show ?thesis
    proof (cases "bio_eof b")
      case True
      with assms(2) Some show ?thesis by (auto simp: biofillsome_def biofill_def)
    next
      case False
      obtain res p where f: "f (pdata b1) (rsize b1 - length (rbuf b1)) = (res, p)" by fastforce
      note left = left_read [OF Some f, unfolded b1(1)]
      show ?thesis
      proof (cases res)
        case (Inl e)
        then have "b' = b1\<lparr>bio_err := e, pdata := p\<rparr>" "q = - 1"
          using assms(2) Some False f by (auto simp: biofillsome_def biofill_def b1_def Let_def)
        with left Inl False b1 show ?thesis by (auto simp: owed_def biordata_def)
      next
        case (Inr bs)
        show ?thesis
        proof (cases "bs = []")
          case True
          then have "b' = b1\<lparr>bio_eof := True, pdata := p\<rparr>" "q = 0"
            using assms(2) Some False f Inr by (auto simp: biofillsome_def biofill_def b1_def Let_def)
          with left Inr True False b1 show ?thesis by (auto simp: owed_def biordata_def)
        next
          case nonempty: False
          then have b': "b' = b1\<lparr>rbuf := rbuf b1 @ bs, pdata := p\<rparr>"
            using assms(2) Some False f Inr by (auto simp: biofillsome_def biofill_def b1_def Let_def)
          have "biordata b' = biordata b + length bs" using b' le b1(2) by (simp add: biordata_def)
          moreover have "0 < length bs" using nonempty by simp
          moreover have "bio_eof b' = bio_eof b" "pdata b' = p" using b' b1(3) by simp_all
          ultimately show ?thesis using left Inr False by (cases bs) (auto simp: owed_def)
        qed
      qed
    qed
  qed
qed

lemma fill_serves: "biofillsome oi b = (q, b') \<Longrightarrow> bio_ok b \<Longrightarrow> src.serves b [] [] b'"
  by (rule src.fillsome_serves)

text \<open>One move: the bytes, the count, and the progress of a move that is not empty.\<close>

lemma pass_some_law:
  assumes "bio_ok b" "bio_ok d" "n \<le> biordata b"
  shows "\<exists>res. pass_some oo n b d = Some res \<and> (case res of
      Inl (b1, d1) \<Rightarrow> moved b d [] b1 d1
    | Inr (r, b1, d1) \<Rightarrow> (\<exists>xs. moved b d xs b1 d1 \<and> length xs = r) \<and> r \<le> n \<and>
        biordata b1 = biordata b - r \<and> owed b1 + biowdata d1 \<le> owed b + biowdata d \<and>
        (0 < n \<longrightarrow> owed b1 + biowdata d1 < owed b + biowdata d))"
proof (cases "biordata b > 0")
  case False
  with assms show ?thesis by (auto simp: pass_some_def intro: moved_refl)
next
  case True
  let ?xs = "take n (unread b)"
  obtain r d1 where d1: "biowritesome oo d ?xs = Some (r, d1)"
    and prog: "r \<ge> 0 \<longrightarrow> biowdata d1 \<le> biowdata d + nat r \<and> (r = 0 \<and> ?xs \<noteq> [] \<longrightarrow> biowdata d1 < biowdata d)"
    using dst.biowritesome_progress [OF assms(2) has_write, of ?xs] by blast
  have w: "dst.wrote d ?xs r d1" by (rule dst.biowritesome_law [OF d1 assms(2)])
  show ?thesis
  proof (cases "r < 0")
    case neg: True
    then have "dst.serves d [] [] d1" using dst.wrote_serves [OF w] by simp
    with True neg d1 assms(1) show ?thesis
      by (simp add: pass_some_def moved_def src.serves_refl)
  next
    case False
    define ys where "ys = take (nat r) (unread b)"
    have rn: "nat r \<le> n" using w False assms(3) by (auto simp: dst.wrote_def)
    then have "take (nat r) ?xs = ys" by (simp add: ys_def min_def)
    then have d: "dst.serves d [] ys d1" using dst.wrote_serves [OF w] by simp
    define b1 where "b1 = b\<lparr>rh := rh b + nat r\<rparr>"
    have "unread b = ys @ unread b1"
      by (simp add: b1_def ys_def unread_def) (metis add.commute append_take_drop_id drop_drop)
    moreover have "bio_ok b1" using assms rn by (auto simp: b1_def bio_ok_def biordata_def)
    ultimately have s: "src.serves b ys [] b1"
      by (simp add: src.serves_def src.outgoing_def unsent_def b1_def)
    have l: "length ys = nat r" using rn assms(3) by (simp add: ys_def)
    have bd: "biordata b1 = biordata b - nat r" by (simp add: b1_def biordata_def)
    then have "owed b1 + 2 * nat r = owed b"
      using rn assms(3) by (simp add: owed_def b1_def)
    moreover have "0 < n \<Longrightarrow> ?xs \<noteq> []" using True by (metis length_unread length_0_conv less_irrefl take_eq_Nil)
    ultimately have o: "owed b1 + biowdata d1 \<le> owed b + biowdata d"
      "0 < n \<Longrightarrow> owed b1 + biowdata d1 < owed b + biowdata d"
      using prog False by (cases "r = 0"; force)+
    have "remaining b1 + length ys \<le> remaining b" using bd l rn assms(3) by (simp add: remaining_def b1_def)
    moreover have "pass_some oo n b d = Some (Inr (nat r, b1, d1))"
      using True False d1 by (simp add: pass_some_def b1_def)
    ultimately show ?thesis using s d l rn bd o by (auto simp: moved_def)
  qed
qed

lemma owed_step:
  assumes "bio_ok b" "biofillsome oi b = (q, b2)" "\<not> q < 0" "\<not> bio_eof b"
  shows "owed b2 < owed b"
  using fill_owed [OF assms(1,2)] assms(3,4) by auto

lemma passdata_loop_law:
  "bio_ok b \<Longrightarrow> bio_ok d \<Longrightarrow> 0 \<le> tot \<Longrightarrow> mx < 0 \<or> tot \<le> mx \<Longrightarrow>
     \<exists>r b' d' xs. passdata_loop oi oo mx tot b d = Some (r, b', d') \<and> moved b d xs b' d' \<and>
       (0 \<le> mx \<longrightarrow> tot + int (length xs) \<le> mx) \<and>
       (r = tot + int (length xs) \<and> (bioeof b' \<or> 0 \<le> mx \<and> r = mx) \<or> r = - 1)"
proof (induction "owed b + biowdata d" arbitrary: b d tot rule: less_induct)
  case less
  note unf = passdata_loop.simps [of oi oo mx tot b d]
  show ?case
  proof (cases "bioeof b \<or> \<not> (mx < 0 \<or> tot < mx)")
    case True
    with less.prems show ?thesis
      by (intro exI [of _ tot] exI [of _ b] exI [of _ d] exI [of _ "[]"])
         (auto simp: unf moved_refl)
  next
    case False
    define n where "n = (if mx \<ge> 0 then min (nat (mx - tot)) (biordata b) else biordata b)"
    have n: "n \<le> biordata b" "0 \<le> mx \<Longrightarrow> tot + int n \<le> mx" "0 < biordata b \<Longrightarrow> 0 < n"
      using False by (auto simp: n_def)
    from pass_some_law [OF less.prems(1,2) n(1)] obtain res where
      res: "pass_some oo n b d = Some res" and law: "case res of
        Inl (b1, d1) \<Rightarrow> moved b d [] b1 d1
      | Inr (r, b1, d1) \<Rightarrow> (\<exists>xs. moved b d xs b1 d1 \<and> length xs = r) \<and> r \<le> n \<and>
          biordata b1 = biordata b - r \<and> owed b1 + biowdata d1 \<le> owed b + biowdata d \<and>
          (0 < n \<longrightarrow> owed b1 + biowdata d1 < owed b + biowdata d)" by blast
    show ?thesis
    proof (cases res)
      case (Inl bd)
      obtain b1 d1 where bd: "bd = (b1, d1)" by fastforce
      have "passdata_loop oi oo mx tot b d = Some (- 1, b1, d1)"
        using False res Inl bd by (simp add: unf n_def)
      with law Inl bd less.prems(4) show ?thesis by fastforce
    next
      case (Inr rbd)
      obtain r b1 d1 where rbd: "rbd = (r, b1, d1)" by (cases rbd)
      obtain xs where xs: "moved b d xs b1 d1" "length xs = r" "r \<le> n"
        "biordata b1 = biordata b - r" "owed b1 + biowdata d1 \<le> owed b + biowdata d"
        "0 < n \<longrightarrow> owed b1 + biowdata d1 < owed b + biowdata d" using law Inr rbd by auto
      have ok1: "bio_ok b1" "bio_ok d1" using moved_ok [OF xs(1)] by simp_all
      have tot: "0 \<le> tot + int r" "mx < 0 \<or> tot + int r \<le> mx"
        using less.prems(3,4) n(2) xs(3) by auto
      let ?fill = "biorspace b1 > 0 \<and> (mx < 0 \<or> int (biordata b1) < mx - (tot + int r))"
      have step: "passdata_loop oi oo mx tot b d =
          (if ?fill then (case biofillsome oi b1 of (q, b2) \<Rightarrow>
             if q < 0 then Some (- 1, b2, d1) else passdata_loop oi oo mx (tot + int r) b2 d1)
           else passdata_loop oi oo mx (tot + int r) b1 d1)"
        using False res Inr rbd by (simp add: unf n_def)
      have idle: "?fill \<and> \<not> bio_eof b1" if "n = 0"
      proof -
        have "r = 0" "biordata b = 0" using that xs(3) n(3) by auto
        moreover have "b1 = b" using res Inr rbd \<open>biordata b = 0\<close> by (simp add: pass_some_def)
        moreover have "0 < bufhint b" "rh b \<le> length (rbuf b)" using less.prems(1) by (simp_all add: bio_ok_def)
        ultimately show ?thesis
          using False by (auto simp: biorspace_def bioeof_def biordata_def)
      qed
      obtain q b2 where q: "biofillsome oi b1 = (q, b2)" by fastforce
      note fo = fill_owed [OF ok1(1) q]
      define c where "c = (if ?fill then b2 else b1)"
      have sc: "src.serves b1 [] [] c"
        using fill_serves [OF q ok1(1)] ok1(1) by (simp add: c_def src.serves_refl)
      have "remaining c \<le> remaining b1"
        using fill_remaining [OF ok1(1) q [unfolded biofillsome_def]] by (simp add: c_def)
      then have mc: "moved b d xs c d1" by (rule moved_src [OF xs(1) sc])
      show ?thesis
      proof (cases "?fill \<and> q < 0")
        case True
        then have "passdata_loop oi oo mx tot b d = Some (- 1, b2, d1)" using q by (simp add: step)
        moreover have "moved b d xs b2 d1" using mc True by (simp add: c_def)
        moreover have "0 \<le> mx \<longrightarrow> tot + int (length xs) \<le> mx" using tot(2) xs(2) by auto
        ultimately show ?thesis by blast
      next
        case go: False
        have eq: "passdata_loop oi oo mx tot b d = passdata_loop oi oo mx (tot + int r) c d1"
          using go q by (auto simp: step c_def)
        have "owed c + biowdata d1 < owed b + biowdata d"
        proof (cases "n = 0")
          case True
          with idle fo go xs(5) show ?thesis by (auto simp: c_def)
        next
          case False
          with xs(6) fo show ?thesis by (auto simp: c_def)
        qed
        from less.hyps [OF this _ ok1(2) tot] moved_ok [OF mc] obtain s b' d' ys where
          IH: "passdata_loop oi oo mx (tot + int r) c d1 = Some (s, b', d')" "moved c d1 ys b' d'"
            "0 \<le> mx \<longrightarrow> tot + int r + int (length ys) \<le> mx"
            "s = tot + int r + int (length ys) \<and> (bioeof b' \<or> 0 \<le> mx \<and> s = mx) \<or> s = - 1" by blast
        have "moved b d (xs @ ys) b' d'" by (rule moved_join [OF mc IH(2)])
        with eq IH xs(2) show ?thesis
          by (intro exI [of _ s] exI [of _ b'] exI [of _ d'] exI [of _ "xs @ ys"]) (simp add: algebra_simps)
      qed
    qed
  qed
qed

lemma chunk_data_law:
  "bio_ok b \<Longrightarrow> bio_ok d \<Longrightarrow> \<exists>res. chunk_data oi oo chlen b d = Some res \<and> (case res of
      Inl (b', d') \<Rightarrow> \<exists>xs. moved b d xs b' d'
    | Inr (b', d') \<Rightarrow> \<exists>xs. moved b d xs b' d' \<and> length xs = nat chlen)"
proof (induction "owed b + biowdata d" arbitrary: b d chlen rule: less_induct)
  case less
  note unf = chunk_data.simps [of oi oo chlen b d]
  show ?case
  proof (cases "chlen > 0")
    case False
    with less.prems show ?thesis by (auto simp: unf intro!: exI [of _ "[]"] moved_refl)
  next
    case True
    define n where "n = min (biordata b) (nat chlen)"
    have n: "n \<le> biordata b" "int n \<le> chlen" "0 < biordata b \<Longrightarrow> 0 < n" using True by (auto simp: n_def)
    from pass_some_law [OF less.prems n(1)] obtain res where
      res: "pass_some oo n b d = Some res" and law: "case res of
        Inl (b1, d1) \<Rightarrow> moved b d [] b1 d1
      | Inr (r, b1, d1) \<Rightarrow> (\<exists>xs. moved b d xs b1 d1 \<and> length xs = r) \<and> r \<le> n \<and>
          biordata b1 = biordata b - r \<and> owed b1 + biowdata d1 \<le> owed b + biowdata d \<and>
          (0 < n \<longrightarrow> owed b1 + biowdata d1 < owed b + biowdata d)" by blast
    show ?thesis
    proof (cases res)
      case (Inl bd)
      with law res True show ?thesis by (auto simp: unf n_def)
    next
      case (Inr rbd)
      obtain r b1 d1 where rbd: "rbd = (r, b1, d1)" by (cases rbd)
      obtain xs where xs: "moved b d xs b1 d1" "length xs = r" "r \<le> n"
        "biordata b1 = biordata b - r" "owed b1 + biowdata d1 \<le> owed b + biowdata d"
        "0 < n \<longrightarrow> owed b1 + biowdata d1 < owed b + biowdata d" using law Inr rbd by auto
      have ok1: "bio_ok b1" "bio_ok d1" using moved_ok [OF xs(1)] by simp_all
      let ?fill = "biorspace b1 > 0 \<and> int (biordata b1) < chlen - int r"
      have step: "chunk_data oi oo chlen b d =
          (if ?fill then (case biofillsome oi b1 of (q, b2) \<Rightarrow>
             if q \<le> 0 then Some (Inl (b2, d1)) else chunk_data oi oo (chlen - int r) b2 d1)
           else chunk_data oi oo (chlen - int r) b1 d1)"
        using True res Inr rbd by (simp add: unf n_def)
      have idle: "?fill" if "n = 0"
      proof -
        have "r = 0" "biordata b = 0" using that xs(3) n(3) by auto
        moreover have "b1 = b" using res Inr rbd \<open>biordata b = 0\<close> by (simp add: pass_some_def)
        moreover have "0 < bufhint b" using less.prems(1) by (simp add: bio_ok_def)
        ultimately show ?thesis using True by (auto simp: biorspace_def)
      qed
      obtain q b2 where q: "biofillsome oi b1 = (q, b2)" by fastforce
      note fo = fill_owed [OF ok1(1) q]
      define c where "c = (if ?fill then b2 else b1)"
      have sc: "src.serves b1 [] [] c"
        using fill_serves [OF q ok1(1)] ok1(1) by (simp add: c_def src.serves_refl)
      have "remaining c \<le> remaining b1"
        using fill_remaining [OF ok1(1) q [unfolded biofillsome_def]] by (simp add: c_def)
      then have mc: "moved b d xs c d1" by (rule moved_src [OF xs(1) sc])
      show ?thesis
      proof (cases "?fill \<and> q \<le> 0")
        case True
        then have "chunk_data oi oo chlen b d = Some (Inl (b2, d1))" using q by (simp add: step)
        moreover have "moved b d xs b2 d1" using mc True by (simp add: c_def)
        ultimately show ?thesis by auto
      next
        case go: False
        have eq: "chunk_data oi oo chlen b d = chunk_data oi oo (chlen - int r) c d1"
          using go q by (auto simp: step c_def)
        have lt: "owed c + biowdata d1 < owed b + biowdata d"
        proof (cases "n = 0")
          case True
          with idle fo go xs(5) show ?thesis by (auto simp: c_def)
        next
          case False
          with xs(6) fo show ?thesis by (auto simp: c_def)
        qed
        from less.hyps [OF lt _ ok1(2), of "chlen - int r"] moved_ok [OF mc] obtain res2 where
          r2: "chunk_data oi oo (chlen - int r) c d1 = Some res2" and l2: "case res2 of
              Inl (b', d') \<Rightarrow> \<exists>xs. moved c d1 xs b' d'
            | Inr (b', d') \<Rightarrow> \<exists>xs. moved c d1 xs b' d' \<and> length xs = nat (chlen - int r)" by blast
        show ?thesis
        proof (cases res2)
          case Inl
          with eq r2 l2 moved_join [OF mc] show ?thesis by (auto split: prod.splits)
        next
          case (Inr bd2)
          obtain b' d' where bd2: "bd2 = (b', d')" by fastforce
          obtain ys where ys: "moved c d1 ys b' d'" "length ys = nat (chlen - int r)"
            using l2 Inr bd2 by auto
          have "length (xs @ ys) = nat chlen"
            using xs(2,3) ys(2) n(2) by (simp add: nat_diff_distrib')
          with eq r2 Inr bd2 moved_join [OF mc ys(1)] show ?thesis by fastforce
        qed
      qed
    qed
  qed
qed

text \<open>The line of a chunk as the list reader sees it: the bytes \<open>h\<close> that make it up.\<close>

lemma chunk_line_law:
  "bio_ok b \<Longrightarrow> \<exists>res. chunk_line (biogetc oi) v r b = Some res \<and> (case res of
      Inl b' \<Rightarrow> \<exists>h. src.serves b h [] b'
    | Inr (v', b') \<Rightarrow> remaining b' < remaining b \<and>
       (\<exists>h. src.serves b h [] b' \<and> (\<forall>t. chunk_line fgetc v r (h @ t) = Some (Inr (v', t)))))"
proof (induction "remaining b" arbitrary: b v r rule: less_induct)
  case less
  obtain c b1 where c: "biogetc oi b = (c, b1)" by fastforce
  show ?case
  proof (cases "c = EOF")
    case True
    then have "chunk_line (biogetc oi) v r b = Some (Inl b1)"
      using c by (subst chunk_line.simps) (simp add: chunk_digit_def)
    with src.getc_end_serves [OF c [unfolded True] less.prems] show ?thesis by auto
  next
    case False
    then obtain x where x: "c = ord x" "src.serves b [x] [] b1"
      using src.biogetc_law [OF less.prems c] src.getc_serves [OF _ less.prems] c by fastforce
    have lt: "remaining b1 < remaining b" by (rule getc_remaining(2) [OF less.prems c False])
    have ok: "bio_ok b1" using x(2) by (simp add: src.serves_def)
    have fx: "fgetc ((x # h) @ t) = (c, h @ t)" for h t by (simp add: x(1))
    have go: ?thesis if "\<And>t. chunk_line fgetc v r (x # t) = chunk_line fgetc v2 r2 t"
      "chunk_line (biogetc oi) v r b = chunk_line (biogetc oi) v2 r2 b1" for v2 r2
    proof -
      from less.hyps [OF lt ok, of v2 r2] obtain res where
        res: "chunk_line (biogetc oi) v2 r2 b1 = Some res" "case res of
          Inl b' \<Rightarrow> \<exists>h. src.serves b1 h [] b'
        | Inr (v', b') \<Rightarrow> remaining b' < remaining b1 \<and>
           (\<exists>h. src.serves b1 h [] b' \<and> (\<forall>t. chunk_line fgetc v2 r2 (h @ t) = Some (Inr (v', t))))" by blast
      have join: "src.serves b1 h [] b' \<Longrightarrow> src.serves b (x # h) [] b'" for h b'
        using src.serves_join [OF x(2)] by force
      show ?thesis
      proof (cases res)
        case (Inl b')
        with res join that(2) show ?thesis by auto
      next
        case (Inr vb)
        obtain v' b' where vb: "vb = (v', b')" by fastforce
        obtain h where h: "remaining b' < remaining b1" "src.serves b1 h [] b'"
          "\<forall>t. chunk_line fgetc v2 r2 (h @ t) = Some (Inr (v', t))" using res(2) Inr vb by auto
        have "\<forall>t. chunk_line fgetc v r ((x # h) @ t) = Some (Inr (v', t))"
          using h(3) that(1) by simp
        with h(1,2) join lt res(1) Inr vb that(2) show ?thesis by fastforce
      qed
    qed
    consider "c = 10" | "c = 13" | d where "c \<noteq> 10" "c \<noteq> 13" "chunk_digit c = Some d"
      | "c \<noteq> 10" "c \<noteq> 13" "chunk_digit c = None" by (cases "chunk_digit c") auto
    then show ?thesis
    proof cases
      case 1
      then have e: "chunk_line (biogetc oi) v r b = Some (if \<not> r then Inl b1 else Inr (v, b1))"
        "\<And>t. chunk_line fgetc v r (x # t) = Some (if \<not> r then Inl t else Inr (v, t))"
        using c x(1) by (simp_all add: chunk_line.simps [of _ v r])
      show ?thesis
        using e x(2) lt by (cases r) (auto intro!: exI [of _ "[x]"])
    next
      case 2
      with c x(1) show ?thesis
        by (intro go [of v r]) (simp_all add: chunk_line.simps [of _ v r "x # _"] chunk_line.simps [of _ v r b])
    next
      case (3 d)
      with c x(1) show ?thesis
        by (intro go [of "push_bit 4 v + word_of_int d" True]) (simp_all add: chunk_line.simps [of _ v r])
    next
      case 4
      then have "chunk_line (biogetc oi) v r b = Some (Inl b1)"
        using c by (simp add: chunk_line.simps [of _ v r])
      with x(2) show ?thesis by auto
    qed
  qed
qed

lemma not_crlf_law:
  assumes "bio_ok b" "not_crlf (biogetc oi) b = (bad, b')"
  shows "remaining b' \<le> remaining b \<and> (\<exists>h. src.serves b h [] b' \<and> (\<not> bad \<longrightarrow> h = crlf))"
proof -
  have getc: "\<exists>h. src.serves b h [] b1 \<and> (\<forall>x. c = ord x \<longrightarrow> h = [x])"
    if ok: "bio_ok b" and g: "biogetc oi b = (c, b1)" for b b1 c
  proof (cases "c = EOF")
    case True
    with ok g src.getc_end_serves [of b b1] show ?thesis by (auto simp: ord_neq_EOF [symmetric])
  next
    case False
    then obtain x where "c = ord x" using src.biogetc_law [OF ok g] by auto
    with ok g src.getc_serves [of b x b1] show ?thesis by auto
  qed
  obtain c b1 where c: "biogetc oi b = (c, b1)" by fastforce
  obtain h where h: "src.serves b h [] b1" "\<forall>x. c = ord x \<longrightarrow> h = [x]" using getc [OF assms(1) c] by blast
  have r1: "remaining b1 \<le> remaining b" by (rule getc_remaining(1) [OF assms(1) c])
  have ok: "bio_ok b1" using h(1) by (simp add: src.serves_def)
  obtain c2 b2 where c2: "biogetc oi b1 = (c2, b2)" by fastforce
  obtain h2 where h2: "src.serves b1 h2 [] b2" "\<forall>x. c2 = ord x \<longrightarrow> h2 = [x]" using getc [OF ok c2] by blast
  have r2: "remaining b2 \<le> remaining b1" by (rule getc_remaining(1) [OF ok c2])
  show ?thesis
  proof (cases "c = 13")
    case False
    with assms(2) c h(1) r1 show ?thesis by (auto simp: not_crlf_def)
  next
    case True
    then have b': "b' = b2" "bad \<longleftrightarrow> c2 \<noteq> 10" using assms(2) c c2 by (auto simp: not_crlf_def)
    have "h = [chr 13]" using h(2) True ord_simps(3) by metis
    moreover have "\<not> bad \<Longrightarrow> h2 = [chr 10]" using h2(2) b'(2) ord_simps(4) by metis
    moreover have "src.serves b (h @ h2) [] b2" using src.serves_join [OF h(1) h2(1)] by simp
    ultimately show ?thesis using r1 r2 b'(1) by (auto simp: crlf_def)
  qed
qed

text \<open>
  \<open>recvchunks\<close> returns; what it wrote came out of what it took, and when it returns 0 it took exactly
  a coding of what it wrote.
\<close>

lemma src_join: "src.serves b h [] c \<Longrightarrow> src.serves c h' [] e \<Longrightarrow> src.serves b (h @ h') [] e"
  using src.serves_join [of b h "[]" c h' "[]" e] by simp

lemma dst_join: "dst.serves d [] xs c \<Longrightarrow> dst.serves c [] ys e \<Longrightarrow> dst.serves d [] (xs @ ys) e"
  using dst.serves_join [of d "[]" xs c "[]" ys e] by simp

lemma recvchunks_law:
  "bio_ok b \<Longrightarrow> bio_ok d \<Longrightarrow> \<exists>r b' d' e ys. recvchunks oi oo b d = Some (r, b', d') \<and>
     src.serves b e [] b' \<and> dst.serves d [] ys d' \<and> (r = 0 \<and> chunked e ys \<or> r = - 1)"
proof (induction "remaining b" arbitrary: b d rule: less_induct)
  case less
  note unf = recvchunks.simps [of oi oo b d]
  have dr: "dst.serves d [] [] d" by (rule dst.serves_refl [OF less.prems(2)])
  from chunk_line_law [OF less.prems(1), of 0 False] obtain res where
    res: "chunk_line (biogetc oi) 0 False b = Some res" and law: "case res of
      Inl b' \<Rightarrow> \<exists>h. src.serves b h [] b'
    | Inr (v', b') \<Rightarrow> remaining b' < remaining b \<and>
       (\<exists>h. src.serves b h [] b' \<and> (\<forall>t. chunk_line fgetc 0 False (h @ t) = Some (Inr (v', t))))" by blast
  show ?case
  proof (cases res)
    case (Inl b1)
    with res law dr show ?thesis by (auto simp: unf)
  next
    case (Inr vb)
    obtain v b1 where vb: "vb = (v, b1)" by fastforce
    obtain h where h: "remaining b1 < remaining b" "src.serves b h [] b1" "chunk_hdr h v"
      using law Inr vb by (auto simp: chunk_hdr_def)
    have ok1: "bio_ok b1" using h(2) by (simp add: src.serves_def)
    show ?thesis
    proof (cases "v = 0")
      case True
      obtain bad b2 where nc: "not_crlf (biogetc oi) b1 = (bad, b2)" by fastforce
      from not_crlf_law [OF ok1 nc] obtain h2 where h2: "src.serves b1 h2 [] b2" "\<not> bad \<longrightarrow> h2 = crlf" by blast
      have "recvchunks oi oo b d = Some (if bad then - 1 else 0, b2, d)"
        using res Inr vb True nc by (simp add: unf)
      moreover have "\<not> bad \<Longrightarrow> chunked (h @ h2) []" using chunked_last h(3) h2(2) True by simp
      ultimately show ?thesis using src_join [OF h(2) h2(1)] dr by (cases bad) auto
    next
      case False
      from chunk_data_law [OF ok1 less.prems(2), of "sint v"] obtain res2 where
        res2: "chunk_data oi oo (sint v) b1 d = Some res2" and law2: "case res2 of
          Inl (b', d') \<Rightarrow> \<exists>xs. moved b1 d xs b' d'
        | Inr (b', d') \<Rightarrow> \<exists>xs. moved b1 d xs b' d' \<and> length xs = nat (sint v)" by blast
      show ?thesis
      proof (cases res2)
        case (Inl bd)
        obtain b2 d2 xs where bd: "bd = (b2, d2)" "moved b1 d xs b2 d2" using law2 Inl by (cases bd) auto
        have "recvchunks oi oo b d = Some (- 1, b2, d2)"
          using res Inr vb False res2 Inl bd(1) by (simp add: unf)
        moreover have "src.serves b (h @ xs) [] b2" "dst.serves d [] xs d2"
          using bd(2) src_join [OF h(2)] by (auto simp: moved_def)
        ultimately show ?thesis by blast
      next
        case Inr2: (Inr bd)
        obtain b2 d2 xs where bd: "bd = (b2, d2)" "moved b1 d xs b2 d2" "length xs = nat (sint v)"
          using law2 Inr2 by (cases bd) auto
        have m: "src.serves b1 xs [] b2" "dst.serves d [] xs d2" "remaining b2 \<le> remaining b1"
          "bio_ok b2" "bio_ok d2" using bd(2) moved_ok [OF bd(2)] by (auto simp: moved_def)
        obtain bad b3 where nc: "not_crlf (biogetc oi) b2 = (bad, b3)" by fastforce
        from not_crlf_law [OF m(4) nc] obtain h2 where
          h2: "remaining b3 \<le> remaining b2" "src.serves b2 h2 [] b3" "\<not> bad \<longrightarrow> h2 = crlf" by blast
        have s3: "src.serves b (h @ xs @ h2) [] b3"
          using src_join [OF h(2) src_join [OF m(1) h2(2)]] by simp
        show ?thesis
        proof (cases bad)
          case True
          then have "recvchunks oi oo b d = Some (- 1, b3, d2)"
            using res Inr vb False res2 Inr2 bd(1) nc by (simp add: unf)
          with s3 m(2) show ?thesis by blast
        next
          case good: False
          then have eq: "recvchunks oi oo b d = recvchunks oi oo b3 d2"
            using res Inr vb False res2 Inr2 bd(1) nc by (simp add: unf)
          have "bio_ok b3" using h2(2) by (simp add: src.serves_def)
          from less.hyps [OF _ this m(5)] h(1) m(3) h2(1) obtain r b' d' e ys where
            IH: "recvchunks oi oo b3 d2 = Some (r, b', d')" "src.serves b3 e [] b'"
              "dst.serves d2 [] ys d'" "r = 0 \<and> chunked e ys \<or> r = - 1" by auto
          have "chunked e ys \<Longrightarrow> chunked (h @ xs @ crlf @ e) (xs @ ys)"
            using chunked_piece [OF h(3) False bd(3)] by simp
          moreover have "src.serves b (h @ xs @ crlf @ e) [] b'"
            using src_join [OF s3 IH(2)] h2(3) good by simp
          moreover have "dst.serves d [] (xs @ ys) d'" by (rule dst_join [OF m(2) IH(3)])
          ultimately show ?thesis using eq IH(1,4)
            by (intro exI [of _ r] exI [of _ b'] exI [of _ d'] exI [of _ "h @ xs @ crlf @ e"]
                exI [of _ "xs @ ys"]) auto
        qed
      qed
    qed
  qed
qed

end

locale firm_duct = duct + out: firm_channel oo goto sento fine for fine
begin

lemma passchunks_law:
  "bio_ok b \<Longrightarrow> bio_ok d \<Longrightarrow> fine (pdata d) \<Longrightarrow> remaining b < 2 ^ 63 \<Longrightarrow>
     \<exists>r b' d' xs enc. passchunks oi oo b d = Some (r, b', d') \<and> src.serves b xs [] b' \<and>
       dst.serves d [] enc d' \<and> (r = 0 \<and> chunked enc xs \<and> bioeof b' \<or> r = - 1)"
proof (induction "owed b" arbitrary: b d rule: less_induct)
  case less
  note unf = passchunks.simps [of oi oo b d]
  show ?case
  proof (cases "bioeof b")
    case True
    obtain r d1 where d1: "bioprintf oo d 5 (''0'' @ crlf @ crlf) = Some (r, d1)"
      using dst.bioprintf_returns [OF less.prems(2)] by blast
    have "r = 0" using out.bioprintf_fine [OF less.prems(2,3) d1] by simp
    then have "dst.serves d [] (''0'' @ crlf @ crlf) d1"
      using dst.printf_serves [OF d1 less.prems(2)] by simp
    with True d1 chunked_end src.serves_refl [OF less.prems(1)] show ?thesis by (auto simp: unf)
  next
    case False
    show ?thesis
    proof (cases "biordata b > 0")
      case True
      define xs where "xs = unread b"
      have lx: "length xs = biordata b" by (simp add: xs_def)
      obtain r1 d1 where d1: "bioprintf oo d 5 (show_hex (biordata b) @ crlf) = Some (r1, d1)"
        using dst.bioprintf_returns [OF less.prems(2)] by blast
      have 1: "dst.serves d [] (show_hex (length xs) @ crlf) d1" "fine (pdata d1)" "bio_ok d1"
        using out.bioprintf_fine [OF less.prems(2,3) d1] dst.printf_serves [OF d1 less.prems(2)] lx
        by (auto simp: dst.serves_def)
      obtain r2 d2 where d2: "biowrite oo d1 xs = Some (r2, d2)"
        using dst.biowrite_returns [OF 1(3) has_write] by blast
      have 2: "r2 = int (length xs)" "fine (pdata d2)" "dst.serves d1 [] xs d2" "bio_ok d2"
        using out.biowrite_fine [OF 1(2,3) d2] dst.write_serves(1) [OF d2 1(3)] by (auto simp: dst.serves_def)
      obtain r3 d3 where d3: "bioprintf oo d2 2 crlf = Some (r3, d3)"
        using dst.bioprintf_returns [OF 2(4)] by blast
      have 3: "dst.serves d2 [] crlf d3" "fine (pdata d3)" "bio_ok d3"
        using out.bioprintf_fine [OF 2(4,2) d3] dst.printf_serves [OF d3 2(4)] by (auto simp: dst.serves_def)
      obtain r4 d4 where d4: "bioflush oo d3 = Some (r4, d4)"
        using dst.bioflush_returns [OF has_write, of d3] by auto
      have 4: "r4 = 0" "fine (pdata d4)" "dst.serves d3 [] [] d4" "bio_ok d4"
        using out.bioflush_fine [OF 3(2) d4] dst.flush_serves(1) [OF d4 3(3)] by (auto simp: dst.serves_def)
      have enc: "dst.serves d [] (show_hex (length xs) @ crlf @ xs @ crlf) d4"
        using dst_join [OF 1(1) dst_join [OF 2(3) dst_join [OF 3(1) 4(3)]]] by simp
      define b1 where "b1 = b\<lparr>rh := rh b + biordata b\<rparr>"
      have b1: "src.serves b xs [] b1" "bio_ok b1" "owed b1 < owed b" "remaining b1 \<le> remaining b"
        using less.prems(1) True
        by (auto simp: b1_def xs_def src.serves_def src.outgoing_def unsent_def unread_def bio_ok_def
            biordata_def owed_def remaining_def)
      obtain q b2 where q: "biofillsome oi b1 = (q, b2)" by fastforce
      define c where "c = (if biorspace b1 > 0 then b2 else b1)"
      have c: "src.serves b1 [] [] c" "owed c \<le> owed b1" "remaining c \<le> remaining b1"
        using fill_serves [OF q b1(2)] src.serves_refl [OF b1(2)] fill_owed [OF b1(2) q]
          fill_remaining [OF b1(2) q [unfolded biofillsome_def]] by (auto simp: c_def)
      have sc: "src.serves b xs [] c" using src_join [OF b1(1) c(1)] by simp
      show ?thesis
      proof (cases "biorspace b1 > 0 \<and> q < 0")
        case err: True
        then have "passchunks oi oo b d = Some (- 1, b2, d4)"
          using False True d1 d2 d3 d4 2(1) 4(1) q lx by (simp add: unf b1_def xs_def Let_def)
        with sc enc err show ?thesis by (auto simp: c_def)
      next
        case go: False
        have eq: "passchunks oi oo b d = passchunks oi oo c d4"
          using go False True d1 d2 d3 d4 2(1) 4(1) q lx by (auto simp: unf b1_def xs_def Let_def c_def)
        have "bio_ok c" using c(1) by (simp add: src.serves_def)
        from less.hyps [OF _ this 4(4,2)] b1(3,4) c(2,3) less.prems(4) obtain r b' d' ys e where
          IH: "passchunks oi oo c d4 = Some (r, b', d')" "src.serves c ys [] b'"
            "dst.serves d4 [] e d'" "r = 0 \<and> chunked e ys \<and> bioeof b' \<or> r = - 1" by auto
        have "length xs < 2 ^ 63" using less.prems(4) lx by (simp add: remaining_def)
        then have "chunked e ys \<Longrightarrow> chunked (show_hex (length xs) @ crlf @ xs @ crlf @ e) (xs @ ys)"
          using True lx by (intro chunked_hex) auto
        moreover have "dst.serves d [] (show_hex (length xs) @ crlf @ xs @ crlf @ e) d'"
          using dst_join [OF enc IH(3)] by simp
        ultimately show ?thesis
          using eq IH src_join [OF sc IH(2)]
          by (intro exI [of _ r] exI [of _ b'] exI [of _ d'] exI [of _ "xs @ ys"]
              exI [of _ "show_hex (length xs) @ crlf @ xs @ crlf @ e"]) auto
      qed
    next
      case nodata: False
      have ne: "\<not> bio_eof b" using False nodata by (auto simp: bioeof_def biordata_def)
      have rs: "biorspace b > 0" using nodata less.prems(1) by (simp add: biorspace_def bio_ok_def)
      obtain q b2 where q: "biofillsome oi b = (q, b2)" by fastforce
      have s2: "src.serves b [] [] b2" by (rule fill_serves [OF q less.prems(1)])
      show ?thesis
      proof (cases "q < 0")
        case True
        with False nodata rs q s2 dst.serves_refl [OF less.prems(2)] show ?thesis by (auto simp: unf)
      next
        case go: False
        have eq: "passchunks oi oo b d = passchunks oi oo b2 d"
          using False nodata rs q go by (simp add: unf)
        have "remaining b2 < 2 ^ 63"
          using fill_remaining [OF less.prems(1) q [unfolded biofillsome_def]] less.prems(4) by simp
        moreover have "bio_ok b2" using s2 by (simp add: src.serves_def)
        ultimately show ?thesis
          using less.hyps [OF owed_step [OF less.prems(1) q go ne] _ less.prems(2,3)] eq src_join [OF s2]
          by fastforce
      qed
    qed
  qed
qed

end

section \<open>Sockets on both sides\<close>

interpretation sockets: firm_duct mtops received sent_bytes mtops received sent_bytes
  "\<lambda>d. length (coming (rscript d))" "\<lambda>d. taking (wscript d)"
proof
  fix f and p :: stdiofd and n res p'
  assume "op_read mtops = Some f" "f p n = (res, p')"
  then show "length (coming (rscript p')) + (case res of Inl e \<Rightarrow> 0 | Inr bs \<Rightarrow> length bs)
      \<le> length (coming (rscript p))"
    using mtread_coming [of "rscript p" p n res p'] by (auto simp: mtops_def mtread_def)
qed (simp add: mtops_def)

text \<open>
  \<open>took b xs b'\<close>: of what the connection under \<open>b\<close> delivered and what was buffered, exactly \<open>xs\<close>
  has been taken, from the front; \<open>gave d xs d'\<close>: exactly \<open>xs\<close> has been queued or sent behind what
  was there.
\<close>

definition took :: "stdiofd bufio \<Rightarrow> string \<Rightarrow> stdiofd bufio \<Rightarrow> bool" where
  "took b xs b' \<longleftrightarrow> bio_ok b' \<and> (\<exists>bs. received (pdata b') = received (pdata b) @ bs \<and>
     unread b @ bs = xs @ unread b')"

definition gave :: "stdiofd bufio \<Rightarrow> string \<Rightarrow> stdiofd bufio \<Rightarrow> bool" where
  "gave d xs d' \<longleftrightarrow> bio_ok d' \<and>
     sent_bytes (pdata d') @ unsent d' = sent_bytes (pdata d) @ unsent d @ xs"

lemma serves_took: "mt.serves b xs ys b' \<Longrightarrow> took b xs b'"
  by (auto simp: took_def mt.serves_def)

lemma serves_gave: "mt.serves d xs ys d' \<Longrightarrow> gave d ys d'"
  by (auto simp: gave_def mt.serves_def mt.outgoing_def)

section \<open>Properties\<close>

text \<open>\<open>passdata\<close> always returns. It moves a prefix of the data in order and without loss, at most
  the number of bytes asked for, and the count it returns is the number of bytes moved: that number
  is the one asked for unless the sender closed the stream first, or an error is reported.\<close>

lemma passdata_moves:
  assumes "bio_ok b" "bio_ok d"
  shows "\<exists>r b' d' xs. passdata mtops mtops b d mx = Some (r, b', d') \<and> took b xs b' \<and> gave d xs d' \<and>
    (0 \<le> mx \<longrightarrow> int (length xs) \<le> mx) \<and>
    (r = int (length xs) \<and> (bioeof b' \<or> r = mx) \<or> r = - 1)"
proof -
  have "mx < 0 \<or> 0 \<le> mx" by linarith
  from sockets.passdata_loop_law [OF assms order_refl this] show ?thesis
    unfolding passdata_def sockets.moved_def by (fastforce intro: serves_took serves_gave)
qed

lemma passdata_moves_witness:
  "\<exists>r b' d'. passdata mtops mtops (bioopen (the_fd [RdData ''abc'' []] [])) (bioopen (the_fd [] [])) 2 =
     Some (r, b', d')"
  using passdata_moves [OF bio_ok_open bio_ok_open, of "the_fd [RdData ''abc'' []] []" "the_fd [] []" 2]
  by blast





text \<open>A chunk whose length is a multiple of \<open>2 ^ 64\<close> is read as the chunk of length 0 that ends
  the body: the shifts that compute the length lose its high digits without an error.\<close>

lemma chunk_length_wraps:
  "chunk_line fgetc 0 False (show_hex (2 ^ 64 * k) @ crlf @ t) = Some (Inr (0, t))"
proof -
  have "(of_nat (2 ^ 64 * k) :: 64 word) = 0"
    unfolding word_of_nat_eq_0_iff by (rule dvd_trans [OF _ dvd_triv_left]) simp
  then show ?thesis by (simp only: chunk_line_hex chunk_line_end)
qed

end
