(* ===== verification/Htparser.thy ===== *)
theory Htparser
  imports Passdata
begin

text \<open>
  The front end of \<open>src/htparser.c\<close>: reading a request off a client connection, cleaning it,
  passing it and its body to the root handler, and passing the response back with the framing the
  protocol version asks for. The client stream is a buffered stream over any channel (plain TCP or
  TLS); the socket to the handler is one of \<open>Mtio\<close>.
\<close>

section \<open>Requests\<close>

definition is_xash :: "cstring \<Rightarrow> bool" where
  "is_xash name \<longleftrightarrow> strncaseeq name ''x-ash-'' 6"

fun trimx_headers :: "(cstring \<times> cstring) list \<Rightarrow> (cstring \<times> cstring) list" where
  "trimx_headers [] = []"
| "trimx_headers ((n, v) # hs) = (if is_xash n then trimx_headers hs else (n, v) # trimx_headers hs)"

definition trimx :: "hthead \<Rightarrow> hthead" where
  "trimx req = req\<lparr>headers := trimx_headers (headers req)\<rparr>"

partial_function (option) req_method ::
  "('s \<Rightarrow> int \<times> 's) \<Rightarrow> string \<Rightarrow> 's \<Rightarrow> ('s + string \<times> 's) option" where
  "req_method getc method s = (case getc s of (c, s') \<Rightarrow>
     if c = 32 then Some (Inr (method, s'))
     else if c = EOF \<or> c < 32 \<or> c \<ge> 128 then Some (Inl s')
     else if length method + 1 \<ge> 128 then Some (Inl s')
     else req_method getc (method @ [chr c]) s')"

partial_function (option) req_url ::
  "('s \<Rightarrow> int \<times> 's) \<Rightarrow> string \<Rightarrow> 's \<Rightarrow> ('s + string \<times> 's) option" where
  "req_url getc url s = (case getc s of (c, s') \<Rightarrow>
     if c = 32 then Some (Inr (url, s'))
     else if c = EOF \<or> c < 32 then Some (Inl s')
     else if length url + 1 \<ge> 65536 then Some (Inl s')
     else req_url getc (url @ [chr c]) s')"

partial_function (option) req_ver ::
  "('s \<Rightarrow> int \<times> 's) \<Rightarrow> string \<Rightarrow> 's \<Rightarrow> ('s + string \<times> 's) option" where
  "req_ver getc ver s = (case getc s of (c, s') \<Rightarrow>
     if c = 10 then Some (Inr (ver, s'))
     else if c = 13 then req_ver getc ver s'
     else if c = EOF \<or> c < 32 \<or> c \<ge> 128 then Some (Inl s')
     else if length ver + 1 \<ge> 128 then Some (Inl s')
     else req_ver getc (ver @ [chr c]) s')"

definition parsereq :: "('s \<Rightarrow> int \<times> 's) \<Rightarrow> 's \<Rightarrow> (hthead option \<times> 's) option" where
  "parsereq getc s = (case req_method getc [] s of
      None \<Rightarrow> None
    | Some (Inl s1) \<Rightarrow> Some (None, s1)
    | Some (Inr (method, s1)) \<Rightarrow> (case req_url getc [] s1 of
        None \<Rightarrow> None
      | Some (Inl s2) \<Rightarrow> Some (None, s2)
      | Some (Inr (url, s2)) \<Rightarrow> (case req_ver getc [] s2 of
          None \<Rightarrow> None
        | Some (Inl s3) \<Rightarrow> Some (None, s3)
        | Some (Inr (ver, s3)) \<Rightarrow>
            (case parse_headers getc (mkreq (cstr method) (cstr url) (cstr ver)) s3 of
               (ok, req, s4) \<Rightarrow> Some (if ok then Some (trimx req) else None, s4)))))"

definition hasheader :: "hthead \<Rightarrow> cstring \<Rightarrow> cstring \<Rightarrow> bool" where
  "hasheader head name val = (case getheader head name of None \<Rightarrow> False | Some v \<Rightarrow> strcaseeq v val)"

text \<open>\<open>*p = 0\<close> at the first question mark.\<close>

definition cut_query :: "cstring \<Rightarrow> cstring" where
  "cut_query s = (case strchr s (CHR ''?'') of None \<Rightarrow> s | Some (a, _) \<Rightarrow> a)"

text \<open>
  \<open>canonreq\<close>; the result says whether the URL is one the server takes. The branch for a whole URL
  adds the host header before it replaces the URL.
\<close>

definition canonreq :: "hthead \<Rightarrow> bool \<times> hthead" where
  "canonreq req =
    (let url = the (hd_url req) in
     if take 1 url = ''/'' then (True, replrest req (cut_query (tl url)))
     else (case strstr url ''://'' of
         None \<Rightarrow> (False, req)
       | Some (scheme, p) \<Rightarrow>
           if length scheme = 4 \<and> strncaseeq url ''http'' 4 \<or> length scheme = 5 \<and> strncaseeq url ''https'' 5 then
             (if getheader req ''host'' \<noteq> None then (False, req)
              else let p3 = drop 3 p;
                       (host, path) = (case strchr p3 (CHR ''/'') of None \<Rightarrow> (p3, ''/'') | Some (h, u) \<Rightarrow> (h, u));
                       req' = (headappheader req ''Host'' host)\<lparr>hd_url := Some path\<rparr>
                   in (True, replrest req' (cut_query (tl path))))
           else (False, req)))"

definition http10keep :: "hthead \<Rightarrow> hthead \<Rightarrow> bool \<times> hthead" where
  "http10keep req resp =
    (let fc = hasheader resp ''connection'' ''close'';
         resp' = headrmheader resp ''connection'' in
     if \<not> fc \<and> hasheader req ''connection'' ''keep-alive''
     then (True, headappheader resp' ''Connection'' ''Keep-Alive'')
     else (False, resp'))"

text \<open>
  The counter of \<open>connid\<close>: letters with the least significant first, and a new letter when all
  roll over.
\<close>

fun connid_next :: "cstring \<Rightarrow> cstring" where
  "connid_next [] = ''A''"
| "connid_next (c # cur) =
     (if schar (chr (ord c + 1)) > 90 then CHR ''A'' # connid_next cur else chr (ord c + 1) # cur)"

definition connid :: "cstring \<Rightarrow> cstring \<times> cstring" where
  "connid cur = (connid_next cur, connid_next cur)"

declare req_method.simps [simp del, code] req_url.simps [simp del, code] req_ver.simps [simp del, code]

section \<open>Serving a connection\<close>

text \<open>
  What the world does in one round of \<open>serve\<close>: whether the root handler is there and takes the
  request within the timeout (\<open>ex_plex\<close>: \<open>plex\<close>, \<open>block\<close>, \<open>socketpair\<close> and \<open>sendreq\<close> succeed), the socket
  to the handler, and for a switched connection the second descriptor with its events.
\<close>

record exchange =
  ex_plex :: bool
  ex_out :: stdiofd
  ex_dup :: stdiofd
  ex_events :: "(side \<times> bool \<times> bool) list"

text \<open>How a round ends: the loop is left, or goes on.\<close>

datatype 'b verdict = Leave 'b | Again 'b

text \<open>
  \<open>writerespb\<close> and the blank line; their results are ignored.
\<close>

definition send_head :: "'p bufioops \<Rightarrow> hthead \<Rightarrow> 'p bufio \<Rightarrow> 'p bufio option" where
  "send_head oi resp b = (case writerespb oi resp b of
      None \<Rightarrow> None
    | Some (_, b1) \<Rightarrow> map_option snd (bioprintf oi b1 2 crlf))"

text \<open>
  The body of the request: the result \<open>Inl\<close> leaves the loop, \<open>Inr\<close> carries the request as the code
  goes on with it.
\<close>

definition pass_body :: "'p bufioops \<Rightarrow> hthead \<Rightarrow> 'p bufio \<Rightarrow> stdiofd bufio \<Rightarrow>
    ('p bufio \<times> stdiofd bufio + hthead \<times> 'p bufio \<times> stdiofd bufio) option" where
  "pass_body oi req b d =
     (if getheader req ''content-type'' = None then Some (Inr (req, b, d))
      else (case getheader req ''content-length'' of
          Some len \<Rightarrow>
            (let dlen = atoo len in
             if dlen > 0 then
               (case passdata oi mtops b d dlen of
                  None \<Rightarrow> None
                | Some (r, b1, d1) \<Rightarrow> Some (if r \<noteq> dlen then Inl (b1, d1) else Inr (req, b1, d1)))
             else Some (Inr (req, b, d)))
        | None \<Rightarrow>
            (if hasheader req ''transfer-encoding'' ''chunked'' then
               (case recvchunks oi mtops b d of
                  None \<Rightarrow> None
                | Some (r, b1, d1) \<Rightarrow> Some (if r \<noteq> 0 then Inl (b1, d1) else Inr (req, b1, d1)))
             else Some (Inr (headrmheader req ''content-type'', b, d)))))"

text \<open>The response to an HTTP/1.0 client.\<close>

definition reply10 :: "'p bufioops \<Rightarrow> hthead \<Rightarrow> hthead \<Rightarrow> 'p bufio \<Rightarrow> stdiofd bufio \<Rightarrow>
    'p bufio verdict option" where
  "reply10 oi req resp b out =
     (if strcaseeq (the (hd_method req)) ''head'' then
        (case http10keep req resp of (keep, resp') \<Rightarrow>
          map_option (if keep then Again else Leave) (send_head oi resp' b))
      else (case getheader resp ''content-length'' of
          Some len \<Rightarrow>
            (case http10keep req resp of (keep, resp') \<Rightarrow>
              (case send_head oi resp' b of None \<Rightarrow> None | Some b1 \<Rightarrow>
                (case passdata mtops oi out b1 (atoo len) of
                   None \<Rightarrow> None
                 | Some (r, _, b2) \<Rightarrow> Some (if r \<noteq> atoo len \<or> \<not> keep then Leave b2 else Again b2))))
        | None \<Rightarrow>
            (case send_head oi (headrmheader resp ''connection'') b of None \<Rightarrow> None | Some b1 \<Rightarrow>
              (case passdata mtops oi out b1 (- 1) of
                 None \<Rightarrow> None
               | Some (_, _, b2) \<Rightarrow> Some (Leave b2)))))"

text \<open>
  The response to an HTTP/1.1 client. The response whose headers are asked for \<open>close\<close> at the end
  is the one that was sent.
\<close>

definition closing :: "hthead \<Rightarrow> hthead \<Rightarrow> 'b \<Rightarrow> 'b verdict" where
  "closing req resp b =
     (if hasheader req ''connection'' ''close'' \<or> hasheader resp ''connection'' ''close''
      then Leave b else Again b)"

definition reply11 :: "'p bufioops \<Rightarrow> hthead \<Rightarrow> hthead \<Rightarrow> 'p bufio \<Rightarrow> stdiofd bufio \<Rightarrow>
    'p bufio verdict option" where
  "reply11 oi req resp b out =
     (if strcaseeq (the (hd_method req)) ''head'' then map_option (closing req resp) (send_head oi resp b)
      else (case getheader resp ''content-length'' of
          Some len \<Rightarrow>
            (case send_head oi resp b of None \<Rightarrow> None | Some b1 \<Rightarrow>
              (case passdata mtops oi out b1 (atoo len) of
                 None \<Rightarrow> None
               | Some (r, _, b2) \<Rightarrow> Some (if r \<noteq> atoo len then Leave b2 else closing req resp b2)))
        | None \<Rightarrow>
            (if getheader resp ''transfer-encoding'' = None then
               (let resp' = headappheader resp ''Transfer-Encoding'' ''chunked'' in
                (case send_head oi resp' b of None \<Rightarrow> None | Some b1 \<Rightarrow>
                  (case passchunks mtops oi out b1 of
                     None \<Rightarrow> None
                   | Some (r, _, b2) \<Rightarrow> Some (if r \<noteq> 0 then Leave b2 else closing req resp' b2))))
             else (case send_head oi resp b of None \<Rightarrow> None | Some b1 \<Rightarrow>
                (case passdata mtops oi out b1 (- 1) of
                   None \<Rightarrow> None
                 | Some (_, _, b2) \<Rightarrow> Some (Leave b2))))))"

text \<open>
  One round of the loop of \<open>serve\<close>. Beside how the round ends it returns the message sent to the
  root handler, if the round got that far. \<open>initreq\<close> is the connection's own hook (\<open>None\<close> for a
  failure); \<open>version\<close> is the package version.
\<close>

definition fix_resp :: "cstring \<Rightarrow> hthead \<Rightarrow> hthead \<Rightarrow> hthead" where
  "fix_resp version req resp =
    (let r = resp\<lparr>hd_ver := hd_ver req\<rparr> in
     if getheader r ''server'' = None then headappheader r ''Server'' (''ashd/'' @ version) else r)"

definition reply :: "'p bufioops \<Rightarrow> exchange \<Rightarrow> hthead \<Rightarrow> hthead \<Rightarrow> 'p bufio \<Rightarrow> stdiofd bufio \<Rightarrow>
    'p bufio verdict option" where
  "reply oi ex req resp0 b out =
    (let duplex = hasheader resp0 ''x-ash-switch'' ''duplex''; resp = trimx resp0 in
     if duplex then
       (if rights (pdata out) < 0 then Some (Leave b)
        else (case send_head oi resp b of None \<Rightarrow> None | Some b1 \<Rightarrow>
          (case passduplex oi mtops (ex_events ex) b1 (bioopen (ex_dup ex)) of
             None \<Rightarrow> None
           | Some (b2, d) \<Rightarrow> (case bioclose mtops d of None \<Rightarrow> None | Some _ \<Rightarrow> Some (Leave b2)))))
     else if strcaseeq (the (hd_ver req)) ''HTTP/1.0'' then reply10 oi req resp b out
     else if strcaseeq (the (hd_ver req)) ''HTTP/1.1'' then reply11 oi req resp b out
     else Some (Leave b))"

definition serve_req :: "'p bufioops \<Rightarrow> (hthead \<Rightarrow> hthead option) \<Rightarrow> cstring \<Rightarrow> cstring \<Rightarrow> exchange \<Rightarrow>
    hthead \<Rightarrow> 'p bufio \<Rightarrow> (hthead option \<times> 'p bufio verdict) option" where
  "serve_req oi initreq version ident ex req0 b =
     (case canonreq req0 of (ok, req1) \<Rightarrow>
      if \<not> ok then Some (None, Leave b)
      else (case initreq (headappheader req1 ''X-Ash-Connection-ID'' ident) of
          None \<Rightarrow> Some (None, Leave b)
        | Some req \<Rightarrow>
            if \<not> ex_plex ex then Some (None, Leave b)
            else (case pass_body oi req b (bioopen (ex_out ex)) of
                None \<Rightarrow> None
              | Some (Inl (b1, _)) \<Rightarrow> Some (Some req, Leave b1)
              | Some (Inr (req', b1, d1)) \<Rightarrow> (case bioflush mtops d1 of
                  None \<Rightarrow> None
                | Some (f, d2) \<Rightarrow>
                    if f \<noteq> 0 then Some (Some req, Leave b1)
                    else (case parseresponseb mtops d2 of
                        None \<Rightarrow> None
                      | Some (None, _) \<Rightarrow> Some (Some req, Leave b1)
                      | Some (Some resp, d3) \<Rightarrow>
                          map_option (Pair (Some req)) (reply oi ex req' (fix_resp version req' resp) b1 d3))))))"

definition serve_round :: "'p bufioops \<Rightarrow> (hthead \<Rightarrow> hthead option) \<Rightarrow> cstring \<Rightarrow> cstring \<Rightarrow> exchange \<Rightarrow>
    'p bufio \<Rightarrow> (hthead option \<times> 'p bufio verdict) option" where
  "serve_round oi initreq version ident ex b = (case bioflush oi b of
      None \<Rightarrow> None
    | Some (_, b0) \<Rightarrow> (case parsereq (biogetc oi) b0 of
        None \<Rightarrow> None
      | Some (None, b1) \<Rightarrow> Some (None, Leave b1)
      | Some (Some req, b1) \<Rightarrow> serve_req oi initreq version ident ex req b1))"

text \<open>
  The loop of \<open>serve\<close> over the rounds the world has for it (the root handler is gone when they run
  out), and the whole of it: the requests passed on, and the closed connection.
\<close>

fun serve_loop :: "'p bufioops \<Rightarrow> (hthead \<Rightarrow> hthead option) \<Rightarrow> cstring \<Rightarrow> cstring \<Rightarrow> exchange list \<Rightarrow>
    'p bufio \<Rightarrow> (hthead list \<times> 'p bufio) option" where
  "serve_loop oi initreq version ident [] b = Some ([], b)"
| "serve_loop oi initreq version ident (ex # exs) b =
     (case serve_round oi initreq version ident ex b of
        None \<Rightarrow> None
      | Some (sent, Leave b1) \<Rightarrow> Some (case sent of None \<Rightarrow> [] | Some req \<Rightarrow> [req], b1)
      | Some (sent, Again b1) \<Rightarrow>
          map_option (\<lambda>(reqs, b2). ((case sent of None \<Rightarrow> [] | Some req \<Rightarrow> [req]) @ reqs, b2))
            (serve_loop oi initreq version ident exs b1))"

definition serve :: "'p bufioops \<Rightarrow> (hthead \<Rightarrow> hthead option) \<Rightarrow> cstring \<Rightarrow> cstring \<Rightarrow> exchange list \<Rightarrow>
    'p bufio \<Rightarrow> (hthead list \<times> cstring \<times> int \<times> 'p) option" where
  "serve oi initreq version cur exs b =
     (case connid cur of (ident, cur') \<Rightarrow>
      (case serve_loop oi initreq version ident exs b of
         None \<Rightarrow> None
       | Some (reqs, b1) \<Rightarrow> (case bioclose oi b1 of
           None \<Rightarrow> None
         | Some (r, p) \<Rightarrow> Some (reqs, cur', r, p))))"

section \<open>Port specifications\<close>

text \<open>
  \<open>addport\<close>: the name of the handler, and its parameters with their values, empty where there is no
  equals sign; \<open>None\<close> is the usage error.
\<close>

function port_pars :: "cstring \<Rightarrow> (cstring \<times> cstring) list option" where
  "port_pars p =
     (case (case strchr p (CHR '','') of None \<Rightarrow> (p, None) | Some (a, n) \<Rightarrow> (a, Some (tl n))) of (q, n) \<Rightarrow>
      (case (case strchr q (CHR ''='') of None \<Rightarrow> (q, []) | Some (a, v) \<Rightarrow> (a, tl v)) of (par, val) \<Rightarrow>
        if par = [] then None
        else (case n of
            None \<Rightarrow> Some [(par, val)]
          | Some p' \<Rightarrow> map_option ((#) (par, val)) (port_pars p'))))"
  by pat_completeness auto
termination
  by (relation "measure length") (auto dest!: strchr_SomeD split: option.splits prod.splits)

definition addport :: "cstring \<Rightarrow> (cstring \<times> (cstring \<times> cstring) list) option" where
  "addport spec = (case strchr spec (CHR '':'') of
      None \<Rightarrow> Some (spec, [])
    | Some (nm, p) \<Rightarrow> map_option (Pair nm) (port_pars (tl p)))"

declare port_pars.simps [simp del]

section \<open>The connection hook of plain TCP\<close>

text \<open>
  What \<open>initreq\<close> of \<open>src/plaintcp.c\<close> knows of a connection: the addresses as \<open>formathaddress\<close>
  prints them, the port of an internet address, the server address if \<open>getsockname\<close> succeeds.
\<close>

record tcpconn =
  tc_address :: cstring
  tc_port :: "int option"
  tc_server :: "cstring option"
  tc_sport :: int

definition plain_headers :: "tcpconn \<Rightarrow> (cstring \<times> cstring) list" where
  "plain_headers tcp =
     [(''X-Ash-Address'', tc_address tcp)] @
     (case tc_port tcp of None \<Rightarrow> [] | Some p \<Rightarrow> [(''X-Ash-Port'', show_int p)]) @
     (case tc_server tcp of None \<Rightarrow> [] | Some a \<Rightarrow> [(''X-Ash-Server-Address'', a)]) @
     [(''X-Ash-Server-Port'', show_int (tc_sport tcp)), (''X-Ash-Protocol'', ''http'')]"

definition plain_initreq :: "tcpconn \<Rightarrow> hthead \<Rightarrow> hthead option" where
  "plain_initreq tcp req = Some (req\<lparr>headers := headers req @ plain_headers tcp\<rparr>)"

section \<open>What is sent to the handler\<close>

definition xash :: "hthead \<Rightarrow> (cstring \<times> cstring) list" where
  "xash req = filter (is_xash \<circ> fst) (headers req)"

lemma trimx_filter: "trimx_headers hs = filter (\<lambda>h. \<not> is_xash (fst h)) hs"
  by (induction hs rule: trimx_headers.induct) auto

lemma xash_trimx [simp]: "xash (trimx req) = []"
  by (simp add: xash_def trimx_def trimx_filter)

lemma is_xash_names:
  "is_xash ''X-Ash-Connection-ID''" "is_xash ''X-Ash-Address''" "is_xash ''X-Ash-Port''"
  "is_xash ''X-Ash-Server-Address''" "is_xash ''X-Ash-Server-Port''" "is_xash ''X-Ash-Protocol''"
  "\<not> is_xash ''Host''"
  by code_simp+

lemma xash_canonreq: "canonreq req = (ok, req') \<Longrightarrow> xash req' = xash req"
  by (auto simp: canonreq_def Let_def xash_def replrest_def headappheader_def is_xash_names
      split: if_splits option.splits prod.splits)

lemma xash_parsereq: "parsereq getc s = Some (Some req, s') \<Longrightarrow> xash req = []"
  by (auto simp: parsereq_def split: option.splits sum.splits prod.splits if_splits)

lemma xash_plain: "filter (is_xash \<circ> fst) (plain_headers tcp) = plain_headers tcp"
  by (auto simp: plain_headers_def is_xash_names split: option.splits)

lemma serve_round_xash:
  assumes "serve_round oi (plain_initreq tcp) version ident ex b = Some (Some req, v)"
  shows "xash req = (''X-Ash-Connection-ID'', ident) # plain_headers tcp"
proof -
  obtain r0 b0 req0 b1 where p: "bioflush oi b = Some (r0, b0)"
    "parsereq (biogetc oi) b0 = Some (Some req0, b1)"
    "serve_req oi (plain_initreq tcp) version ident ex req0 b1 = Some (Some req, v)"
    using assms by (auto simp: serve_round_def split: option.splits prod.splits)
  obtain ok req1 where c: "canonreq req0 = (ok, req1)" by fastforce
  define rq where "rq = (headappheader req1 ''X-Ash-Connection-ID'' ident)
    \<lparr>headers := headers (headappheader req1 ''X-Ash-Connection-ID'' ident) @ plain_headers tcp\<rparr>"
  have "req = rq"
    using p(3) c by (auto simp: serve_req_def plain_initreq_def rq_def
        split: if_splits option.splits sum.splits prod.splits)
  moreover have "xash req1 = []" using xash_canonreq [OF c] xash_parsereq [OF p(2)] by simp
  ultimately show ?thesis
    using xash_plain [of tcp] by (simp add: xash_def rq_def headappheader_def is_xash_names)
qed

lemma serve_loop_xash:
  "serve_loop oi (plain_initreq tcp) version ident exs b = Some (reqs, b') \<Longrightarrow> req \<in> set reqs \<Longrightarrow>
     xash req = (''X-Ash-Connection-ID'', ident) # plain_headers tcp"
proof (induction exs arbitrary: b reqs)
  case (Cons ex exs)
  obtain sent v where r: "serve_round oi (plain_initreq tcp) version ident ex b = Some (sent, v)"
    using Cons.prems(1) by (auto split: option.splits)
  have first: "sent = Some req \<Longrightarrow> ?case" using serve_round_xash r by blast
  show ?case
  proof (cases v)
    case (Leave b1)
    with Cons.prems r first show ?thesis by (auto split: option.splits)
  next
    case (Again b1)
    with Cons.prems r obtain rs where rs: "serve_loop oi (plain_initreq tcp) version ident exs b1 = Some (rs, b')"
      "reqs = (case sent of None \<Rightarrow> [] | Some req \<Rightarrow> [req]) @ rs" by auto
    with Cons.prems(2) Cons.IH [OF rs(1)] first show ?thesis by (auto split: option.splits)
  qed
qed simp

section \<open>Connection identifiers\<close>

text \<open>The number a counter of letters stands for.\<close>

fun id_value :: "cstring \<Rightarrow> int" where
  "id_value [] = 0"
| "id_value (c # cs) = (ord c - 64) + 26 * id_value cs"

definition id_letters :: "cstring \<Rightarrow> bool" where
  "id_letters cs \<longleftrightarrow> (\<forall>c\<in>set cs. 65 \<le> ord c \<and> ord c \<le> 90)"

lemma connid_next_value:
  "id_letters cs \<Longrightarrow> id_letters (connid_next cs) \<and> id_value (connid_next cs) = id_value cs + 1"
proof (induction cs)
  case Nil
  show ?case by (simp add: id_letters_def ord_def)
next
  case (Cons c cs)
  have o: "ord (chr (ord c + 1)) = ord c + 1" using Cons.prems by (simp add: id_letters_def)
  have a: "ord (CHR ''A'') = 65" by (simp add: ord_def)
  have tl: "id_letters cs" using Cons.prems by (simp add: id_letters_def)
  have c: "65 \<le> ord c" "ord c \<le> 90" using Cons.prems by (auto simp: id_letters_def)
  show ?case
  proof (cases "ord c = 90")
    case True
    then have "connid_next (c # cs) = CHR ''A'' # connid_next cs" using o by (simp add: schar_def)
    with Cons.IH [OF tl] True a show ?thesis by (simp add: id_letters_def)
  next
    case False
    then have "connid_next (c # cs) = chr (ord c + 1) # cs" using o c by (simp add: schar_def)
    with tl o c False show ?thesis by (simp add: id_letters_def)
  qed
qed

lemma connid_iter: "id_letters ((connid_next ^^ n) []) \<and> id_value ((connid_next ^^ n) []) = int n"
proof (induction n)
  case 0
  show ?case by (simp add: id_letters_def)
next
  case (Suc n)
  with connid_next_value show ?case by simp
qed

section \<open>Properties\<close>


text \<open>A client, a handler and an address, for the examples.\<close>

definition the_client :: "string \<Rightarrow> stdiofd bufio" where
  "the_client xs = bioopen (the_fd [RdData xs []] [])"

definition the_exchange :: exchange where
  "the_exchange = \<lparr>ex_plex = True,
     ex_out = the_fd [RdData (''HTTP/1.1 200 OK'' @ crlf @ ''Content-Length: 2'' @ crlf @ crlf @ ''hi'') []] [],
     ex_dup = the_fd [] [], ex_events = []\<rparr>"

definition the_tcp :: tcpconn where
  "the_tcp = \<lparr>tc_address = ''10.0.0.1'', tc_port = Some 4711, tc_server = None, tc_sport = 80\<rparr>"

definition forger :: string where
  "forger = ''GET /x HTTP/1.1'' @ crlf @ ''x-ASH-address: 6.6.6.6'' @ crlf @ crlf"


text \<open>The body of a request that has a \<open>Content-Length\<close> but no \<open>Content-Type\<close> is not read: on a
  connection that stays open, its bytes are taken for the next request, and a request the client
  never made as such reaches the handler.\<close>

lemma unread_body_becomes_request:
  "map_option (\<lambda>(reqs, b). map (\<lambda>req. (hd_method req, hd_url req)) reqs)
     (serve_loop mtops (plain_initreq the_tcp) ''0.13'' ''A'' [the_exchange, the_exchange]
       (the_client (''POST /a HTTP/1.1'' @ crlf @ ''Content-Length: 19'' @ crlf @ crlf @
          ''GET /b HTTP/1.1'' @ crlf @ crlf))) =
   Some [(Some ''POST'', Some ''/a''), (Some ''GET'', Some ''/b'')]"
  by code_simp

text \<open>The identifiers that \<open>connid\<close> gives to successive connections are all different.\<close>

lemma connid_unique:
  assumes "(connid_next ^^ Suc m) [] = (connid_next ^^ Suc n) []"
  shows "m = n"
  using assms connid_iter [of "Suc m"] connid_iter [of "Suc n"] by simp

lemma connid_unique_witness: "(connid_next ^^ Suc 2) [] = (connid_next ^^ Suc 2) [] \<and> (2::nat) = 2"
  using connid_unique [of 2 2] by simp

end
