(* ===== verification/Conf.thy ===== *)
theory Conf
  imports Utils
begin

text \<open>
  The configuration files of \<open>lib/cf.c\<close>: the parser coroutine \<open>parsefile\<close>, which turns the lines
  of a file into directives with \<open>start\<close> and \<open>end\<close> around indented blocks, and its reader
  \<open>getcfline\<close>. The coroutine is a machine: its frames are the activations of \<open>parsefile\<close>, one
  per open file, each suspended at a program counter; a step runs to the next of these points, and
  \<open>res\<close> is set where the code yields. The children declared in a file and their handling are in
  \<open>Children\<close>.
\<close>

section \<open>Lines\<close>

text \<open>\<open>fgets\<close> with room for \<open>n\<close> bytes beside the terminating NUL.\<close>

fun fgets :: "nat \<Rightarrow> string \<Rightarrow> string \<times> string" where
  "fgets n [] = ([], [])"
| "fgets n (c # s) =
     (if n = 0 then ([], c # s)
      else if c = chr 10 then ([c], s)
      else (case fgets (n - 1) s of (l, r) \<Rightarrow> (c # l, r)))"

definition rtrim :: "cstring \<Rightarrow> cstring" where
  "rtrim s = rev (dropWhile isspace (rev s))"

fun indent :: "nat \<Rightarrow> cstring \<Rightarrow> nat \<times> cstring" where
  "indent ind [] = (ind, [])"
| "indent ind (c # p) =
     (if c = CHR '' '' then indent (ind + 1) p
      else if c = chr 9 then indent (ind - ind mod 8 + 8) p
      else (ind, c # p))"

section \<open>State\<close>

text \<open>
  Where an activation of \<open>parsefile\<close> stands. \<open>line\<close>, \<open>ind\<close> and \<open>eof\<close> are its local variables;
  \<open>Including\<close> is inside \<open>doinclude\<close>, with the files still to open, the words still to expand and
  \<open>fbk\<close>.
\<close>

datatype pc =
    Fetch
  | Reindent cstring nat bool
  | Expected cstring nat bool
  | Dedent cstring nat bool
  | Directive cstring bool
  | Including "cstring list" "cstring list" cstring

text \<open>\<open>fr_indst\<close> is \<open>indst[indl], ..., indst[0]\<close>.\<close>

record frame =
  fr_in :: string
  fr_indst :: "nat list"
  fr_pc :: pc

record cfstate =
  pf :: "frame list"
  expstart :: bool
  res :: "cstring list option"
  argv :: "cstring list"
  lno :: nat
  cf_file :: cstring

text \<open>The two ways in which the parser leaves its buffers.\<close>

datatype cf_err = IndentOverflow | LineOverrun

text \<open>The file system: the files a pattern matches, and the contents of those that can be read.\<close>

record filesys =
  fs_glob :: "cstring \<Rightarrow> cstring list"
  fs_open :: "cstring \<Rightarrow> string option"

definition INDST_SIZE :: nat where
  "INDST_SIZE = 80"

section \<open>The parser\<close>

text \<open>\<open>dirname\<close> of the C library.\<close>

definition rstrip_slash :: "cstring \<Rightarrow> cstring" where
  "rstrip_slash s = rev (dropWhile (\<lambda>c. c = CHR ''/'') (rev s))"

definition dirname :: "cstring \<Rightarrow> cstring" where
  "dirname p =
    (let q = rstrip_slash p in
     if p = [] then ''.''
     else if q = [] then ''/''
     else (case strrchr q (CHR ''/'') of
         None \<Rightarrow> ''.''
       | Some (d, _) \<Rightarrow> (if rstrip_slash d = [] then ''/'' else rstrip_slash d)))"

definition include_spec :: "cstring \<Rightarrow> cstring \<Rightarrow> cstring" where
  "include_spec fbk spec = (if take 1 spec = ''/'' then spec else dirname fbk @ ''/'' @ spec)"

definition new_frame :: "string \<Rightarrow> frame" where
  "new_frame inp = \<lparr>fr_in = inp, fr_indst = [0], fr_pc = Fetch\<rparr>"

definition goto :: "cfstate \<Rightarrow> frame \<Rightarrow> frame list \<Rightarrow> pc \<Rightarrow> cfstate" where
  "goto s f fs p = s\<lparr>pf := f\<lparr>fr_pc := p\<rparr> # fs\<rparr>"

text \<open>\<open>s->res = tokenize(w); yield()\<close>\<close>

definition emit :: "cstring list \<Rightarrow> cfstate \<Rightarrow> cfstate" where
  "emit w s = s\<lparr>res := Some w\<rparr>"

text \<open>From the top of the loop to the label \<open>reindent\<close>.\<close>

definition fetch_step :: "cfstate \<Rightarrow> frame \<Rightarrow> frame list \<Rightarrow> cfstate" where
  "fetch_step s f fs =
    (let s1 = s\<lparr>lno := lno s + 1\<rparr> in
     if fr_in f = [] then goto s1 f fs (Reindent [] 0 True)
     else (case fgets 1023 (fr_in f) of (l, rest) \<Rightarrow>
       let line = rtrim (cstr l); f1 = f\<lparr>fr_in := rest\<rparr> in
       (case indent 0 line of (ind, p) \<Rightarrow>
         if p = [] \<or> take 1 p = ''#'' then goto s1 f1 fs Fetch
         else goto s1 f1 fs (Reindent line ind False))))"

text \<open>From \<open>reindent\<close> to the first \<open>yield\<close>, or to the end of the branch.\<close>

definition reindent_step :: "cfstate \<Rightarrow> frame \<Rightarrow> frame list \<Rightarrow> cstring \<Rightarrow> nat \<Rightarrow> bool \<Rightarrow> cf_err + cfstate" where
  "reindent_step s f fs line ind eof =
     (if ind > hd (fr_indst f) then
        (if length (fr_indst f) \<ge> INDST_SIZE then Inl IndentOverflow
         else let f1 = f\<lparr>fr_indst := ind # fr_indst f\<rparr> in
           if \<not> expstart s then Inr (emit [''start''] (goto s f1 fs (Directive line eof)))
           else Inr (goto (s\<lparr>expstart := False\<rparr>) f1 fs (Directive line eof)))
      else if expstart s then Inr (emit [''end''] (goto s f fs (Expected line ind eof)))
      else Inr (goto s f fs (Dedent line ind eof)))"

definition dedent_step :: "cfstate \<Rightarrow> frame \<Rightarrow> frame list \<Rightarrow> cstring \<Rightarrow> nat \<Rightarrow> bool \<Rightarrow> cfstate" where
  "dedent_step s f fs line ind eof =
     (if ind < hd (fr_indst f)
      then emit [''end''] (goto s (f\<lparr>fr_indst := tl (fr_indst f)\<rparr>) fs (Dedent line ind eof))
      else if ind > hd (fr_indst f) then goto s f fs (Reindent line ind eof)
      else goto s f fs (Directive line eof))"

definition directive_step :: "cfstate \<Rightarrow> frame \<Rightarrow> frame list \<Rightarrow> cstring \<Rightarrow> bool \<Rightarrow> cf_err + cfstate" where
  "directive_step s f fs line eof =
     (if eof then Inr (s\<lparr>pf := fs\<rparr>)
      else (case tokenize line of
          None \<Rightarrow> Inl LineOverrun
        | Some [] \<Rightarrow> Inr (goto s f fs Fetch)
        | Some (w # ws) \<Rightarrow>
            if length (fr_indst f) = 1 \<and> w = ''include'' then Inr (goto s f fs (Including [] ws (cf_file s)))
            else if w = ''start'' \<or> w = ''end'' \<or> w = ''eof'' then Inr (goto s f fs Fetch)
            else Inr (emit (w # ws) (goto s f fs Fetch))))"

text \<open>
  The loops of the \<open>include\<close> directive and of \<open>doinclude\<close>. The file name is restored after each
  word; the line number is not.
\<close>

definition include_step :: "filesys \<Rightarrow> cfstate \<Rightarrow> frame \<Rightarrow> frame list \<Rightarrow> cstring list \<Rightarrow> cstring list \<Rightarrow>
    cstring \<Rightarrow> cfstate" where
  "include_step fsys s f fs paths ws fbk =
     (case paths of
        p # ps \<Rightarrow> (case fs_open fsys p of
            None \<Rightarrow> goto s f fs (Including ps ws fbk)
          | Some inp \<Rightarrow> s\<lparr>cf_file := p, lno := 0, pf := new_frame inp # f\<lparr>fr_pc := Including ps ws fbk\<rparr> # fs\<rparr>)
      | [] \<Rightarrow> (let s1 = s\<lparr>cf_file := fbk\<rparr> in (case ws of
            [] \<Rightarrow> goto s1 f fs Fetch
          | w # ws' \<Rightarrow> goto s1 f fs (Including (fs_glob fsys (include_spec fbk w)) ws' fbk))))"

definition cf_step :: "filesys \<Rightarrow> cfstate \<Rightarrow> cf_err + cfstate" where
  "cf_step fsys s = (case pf s of
      [] \<Rightarrow> Inr (emit [''eof''] s)
    | f # fs \<Rightarrow> (case fr_pc f of
        Fetch \<Rightarrow> Inr (fetch_step s f fs)
      | Reindent line ind eof \<Rightarrow> reindent_step s f fs line ind eof
      | Expected line ind eof \<Rightarrow> Inr (goto (s\<lparr>expstart := False\<rparr>) f fs (Dedent line ind eof))
      | Dedent line ind eof \<Rightarrow> Inr (dedent_step s f fs line ind eof)
      | Directive line eof \<Rightarrow> directive_step s f fs line eof
      | Including paths ws fbk \<Rightarrow> Inr (include_step fsys s f fs paths ws fbk)))"

text \<open>The coroutine runs until it yields; \<open>None\<close> is a run that never does.\<close>

partial_function (option) cf_run :: "filesys \<Rightarrow> cfstate \<Rightarrow> (cf_err + cfstate) option" where
  "cf_run fsys s =
     (if res s \<noteq> None then Some (Inr s)
      else (case cf_step fsys s of
          Inl e \<Rightarrow> Some (Inl e)
        | Inr s' \<Rightarrow> cf_run fsys s'))"

declare cf_run.simps [code]

text \<open>Events and what they return: \<open>argv\<close>, whose length is \<open>argc\<close>.\<close>

definition getcfline :: "filesys \<Rightarrow> cfstate \<Rightarrow> (cf_err + cfstate) option" where
  "getcfline fsys s = (case cf_run fsys s of
      None \<Rightarrow> None
    | Some (Inl e) \<Rightarrow> Some (Inl e)
    | Some (Inr s1) \<Rightarrow> Some (Inr (s1\<lparr>argv := the (res s1), res := None\<rparr>)))"

definition mkcfparser :: "filesys \<Rightarrow> string \<Rightarrow> cstring \<Rightarrow> (cf_err + cfstate) option" where
  "mkcfparser fsys inp name = cf_run fsys
     \<lparr>pf = [new_frame inp], expstart = False, res = None, argv = [], lno = 0, cf_file = name\<rparr>"

partial_function (option) skipcfblock :: "filesys \<Rightarrow> cfstate \<Rightarrow> (cf_err + cfstate) option" where
  "skipcfblock fsys s = (case getcfline fsys s of
      None \<Rightarrow> None
    | Some (Inl e) \<Rightarrow> Some (Inl e)
    | Some (Inr s1) \<Rightarrow>
        if argv s1 ! 0 = ''end'' \<or> argv s1 ! 0 = ''eof'' then Some (Inr s1) else skipcfblock fsys s1)"

declare skipcfblock.simps [code]

text \<open>
  \<open>findstdconf\<close>: the first readable candidate, below the home directory, then next to the
  directories of the search path. \<open>strtok\<close> skips empty elements.
\<close>

fun split_on :: "char \<Rightarrow> cstring \<Rightarrow> cstring list" where
  "split_on d [] = [[]]"
| "split_on d (c # s) =
     (if c = d then [] # split_on d s
      else (case split_on d s of w # ws \<Rightarrow> (c # w) # ws | [] \<Rightarrow> [[c]]))"

definition findstdconf :: "(cstring \<Rightarrow> cstring option) \<Rightarrow> (cstring \<Rightarrow> bool) \<Rightarrow> cstring \<Rightarrow> cstring option" where
  "findstdconf getenv readable name =
    (let below_home = (case getenv ''HOME'' of None \<Rightarrow> [] | Some home \<Rightarrow> [home @ ''/.ashd/etc/'' @ name]);
         on_path = (case getenv ''PATH'' of None \<Rightarrow> []
           | Some path \<Rightarrow> List.map_filter
               (\<lambda>p. map_option (\<lambda>(d, _). d @ ''/etc/'' @ name) (strrchr p (CHR ''/'')))
               (filter (\<lambda>p. p \<noteq> []) (split_on (CHR '':'') path)))
     in find readable (below_home @ on_path))"

section \<open>Blocks\<close>

text \<open>
  The blocks a reader has been promised the end of: one for each level of indentation, and one
  when \<open>expstart\<close> says that a block is to come, unless its \<open>end\<close> has just been given because it
  is empty.
\<close>

definition expecting :: "cfstate \<Rightarrow> bool" where
  "expecting s \<longleftrightarrow> expstart s \<and> (case pf s of [] \<Rightarrow> True
     | f # fs \<Rightarrow> (case fr_pc f of Expected line ind eof \<Rightarrow> False | _ \<Rightarrow> True))"

definition open_blocks :: "cfstate \<Rightarrow> nat" where
  "open_blocks s = (\<Sum>f\<leftarrow>pf s. length (fr_indst f) - 1) + (if expecting s then 1 else 0)"

text \<open>The indentations are strictly nested, from 0, and within their array.\<close>

definition indst_ok :: "nat list \<Rightarrow> bool" where
  "indst_ok ks \<longleftrightarrow> ks \<noteq> [] \<and> last ks = 0 \<and> sorted_wrt (>) ks \<and> length ks \<le> INDST_SIZE"

definition top_ok :: "bool \<Rightarrow> frame \<Rightarrow> bool" where
  "top_ok ex f \<longleftrightarrow> indst_ok (fr_indst f) \<and> (case fr_pc f of
      Fetch \<Rightarrow> True
    | Reindent line ind eof \<Rightarrow> eof \<longrightarrow> ind = 0
    | Expected line ind eof \<Rightarrow> ex \<and> (eof \<longrightarrow> ind = 0)
    | Dedent line ind eof \<Rightarrow> \<not> ex \<and> (eof \<longrightarrow> ind = 0)
    | Directive line eof \<Rightarrow> \<not> ex \<and> (eof \<longrightarrow> fr_indst f = [0])
    | Including paths ws fbk \<Rightarrow> \<not> ex \<and> fr_indst f = [0])"

definition waiting :: "frame \<Rightarrow> bool" where
  "waiting f \<longleftrightarrow> fr_indst f = [0] \<and> (case fr_pc f of Including paths ws fbk \<Rightarrow> True | _ \<Rightarrow> False)"

definition cf_ok :: "cfstate \<Rightarrow> bool" where
  "cf_ok s \<longleftrightarrow> (case pf s of [] \<Rightarrow> \<not> expstart s
     | f # fs \<Rightarrow> top_ok (expstart s) f \<and> (\<forall>g\<in>set fs. waiting g))"

text \<open>What one event adds to and takes from the open blocks.\<close>

definition starts :: "cstring list \<Rightarrow> nat" where
  "starts w = (if w = [''start''] then 1 else 0)"

definition ends :: "cstring list \<Rightarrow> nat" where
  "ends w = (if w = [''end''] then 1 else 0)"

definition special :: "cstring list \<Rightarrow> bool" where
  "special w \<longleftrightarrow> w = [] \<or> hd w = ''start'' \<or> hd w = ''end'' \<or> hd w = ''eof''"

text \<open>The place of the parser after an event.\<close>

definition after_event :: "cfstate \<Rightarrow> cstring list \<Rightarrow> bool" where
  "after_event s w \<longleftrightarrow> w \<noteq> [] \<and> (hd w = ''eof'' \<longleftrightarrow> pf s = []) \<and>
     (special w \<longrightarrow> w = [''start''] \<or> w = [''end''] \<or> w = [''eof'']) \<and>
     (\<not> special w \<longrightarrow> (\<exists>f fs. pf s = f # fs \<and> fr_pc f = Fetch))"

lemma indst_ok_base: "indst_ok [0]"
  by (simp add: indst_ok_def INDST_SIZE_def)

lemma indst_ok_push: "indst_ok ks \<Longrightarrow> hd ks < k \<Longrightarrow> length ks < INDST_SIZE \<Longrightarrow> indst_ok (k # ks)"
  by (cases ks) (auto simp: indst_ok_def)

lemma indst_ok_pop: "indst_ok ks \<Longrightarrow> 0 < hd ks \<Longrightarrow> indst_ok (tl ks) \<and> length ks - 1 = Suc (length (tl ks) - 1)"
  by (cases ks) (auto simp: indst_ok_def neq_Nil_conv split: if_splits)

lemma indst_ok_zero: "indst_ok ks \<Longrightarrow> hd ks = 0 \<Longrightarrow> ks = [0]"
  by (cases ks) (auto simp: indst_ok_def split: if_splits)

lemma waiting_owes [simp]: "\<forall>g\<in>set fs. waiting g \<Longrightarrow> (\<Sum>f\<leftarrow>fs. length (fr_indst f) - 1) = 0"
  by (induction fs) (auto simp: waiting_def)

lemma waiting_top: "waiting f \<Longrightarrow> top_ok False f \<and> (\<forall>line ind eof. fr_pc f \<noteq> Expected line ind eof)"
  by (auto simp: waiting_def top_ok_def indst_ok_base split: pc.splits)

lemmas step_defs = goto_def emit_def open_blocks_def expecting_def cf_ok_def top_ok_def after_event_def
  starts_def ends_def special_def

text \<open>The effect of a step that goes from \<open>s\<close> to \<open>t\<close>.\<close>

definition step_law :: "cfstate \<Rightarrow> cfstate \<Rightarrow> bool" where
  "step_law s t \<longleftrightarrow> cf_ok t \<and> (case res t of
      None \<Rightarrow> open_blocks t = open_blocks s
    | Some w \<Rightarrow> open_blocks t + ends w = open_blocks s + starts w \<and> after_event t w)"

lemma fetch_step_law:
  assumes "cf_ok s" "res s = None" "pf s = f # fs" "fr_pc f = Fetch"
  shows "step_law s (fetch_step s f fs)"
  using assms by (auto simp: step_law_def fetch_step_def Let_def step_defs split: prod.splits)

lemma reindent_step_law:
  assumes "cf_ok s" "res s = None" "pf s = f # fs" "fr_pc f = Reindent line ind eof"
    "reindent_step s f fs line ind eof = Inr t"
  shows "step_law s t"
  using assms indst_ok_push [of "fr_indst f" ind]
  by (auto simp: step_law_def reindent_step_def Let_def step_defs indst_ok_def split: if_splits)

lemma dedent_step_law:
  assumes "cf_ok s" "res s = None" "pf s = f # fs" "fr_pc f = Dedent line ind eof"
  shows "step_law s (dedent_step s f fs line ind eof)"
  using assms indst_ok_pop [of "fr_indst f"] indst_ok_zero [of "fr_indst f"]
  by (auto simp: step_law_def dedent_step_def step_defs)

lemma directive_step_law:
  assumes "cf_ok s" "res s = None" "pf s = f # fs" "fr_pc f = Directive line eof"
    "directive_step s f fs line eof = Inr t"
  shows "step_law s t"
proof (cases eof)
  case True
  with assms show ?thesis
    using waiting_top by (cases fs)
      (auto simp: step_law_def directive_step_def open_blocks_def expecting_def cf_ok_def
        top_ok_def [of "expstart s"] starts_def ends_def)
next
  case False
  have f: "indst_ok (fr_indst f)" "\<not> expstart s" "\<forall>g\<in>set fs. waiting g"
    using assms by (auto simp: cf_ok_def top_ok_def)
  have one: "length (fr_indst f) = 1 \<Longrightarrow> fr_indst f = [0]"
    using f(1) by (cases "fr_indst f") (auto simp: indst_ok_def)
  have stay: "step_law s (goto s f fs Fetch)"
    "length (fr_indst f) = 1 \<Longrightarrow> step_law s (goto s f fs (Including [] ws (cf_file s)))" for ws
    using f one assms(2,3) by (simp_all add: step_law_def step_defs)
  have event: "\<not> special ws \<Longrightarrow> step_law s (emit ws (goto s f fs Fetch))" for ws
    using f assms(3) by (auto simp: step_law_def step_defs)
  obtain ws where ws: "tokenize line = Some ws"
    using False assms(5) by (cases "tokenize line") (auto simp: directive_step_def)
  show ?thesis
  proof (cases ws)
    case Nil
    with False assms(5) ws stay(1) show ?thesis by (simp add: directive_step_def)
  next
    case (Cons v vs)
    have "directive_step s f fs line eof = Inr (
        if length (fr_indst f) = 1 \<and> v = ''include'' then goto s f fs (Including [] vs (cf_file s))
        else if v = ''start'' \<or> v = ''end'' \<or> v = ''eof'' then goto s f fs Fetch
        else emit (v # vs) (goto s f fs Fetch))"
      using False ws Cons by (simp add: directive_step_def)
    then have t: "t = (if length (fr_indst f) = 1 \<and> v = ''include'' then goto s f fs (Including [] vs (cf_file s))
        else if v = ''start'' \<or> v = ''end'' \<or> v = ''eof'' then goto s f fs Fetch
        else emit (v # vs) (goto s f fs Fetch))"
      using assms(5) by simp
    show ?thesis
      unfolding t using stay event [of "v # vs"] by (simp add: special_def)
  qed
qed

lemma include_step_law:
  assumes "cf_ok s" "res s = None" "pf s = f # fs" "fr_pc f = Including paths ws fbk"
  shows "step_law s (include_step fsys s f fs paths ws fbk)"
proof -
  have f: "fr_indst f = [0]" "\<not> expstart s" "\<forall>g\<in>set fs. waiting g"
    using assms by (auto simp: cf_ok_def top_ok_def)
  have stay: "step_law s (goto (s\<lparr>cf_file := n\<rparr>) f fs p)"
    if "p = Fetch \<or> (\<exists>ps ws. p = Including ps ws fbk)" for n p
    using that f assms(2,3) by (auto simp: step_law_def step_defs indst_ok_base)
  show ?thesis
  proof (cases paths)
    case Nil
    with stay show ?thesis by (auto simp: include_step_def Let_def split: list.splits)
  next
    case (Cons p ps)
    show ?thesis
    proof (cases "fs_open fsys p")
      case None
      with Cons stay [of _ "cf_file s"] show ?thesis by (auto simp: include_step_def)
    next
      case (Some inp)
      define g where "g = f\<lparr>fr_pc := Including ps ws fbk\<rparr>"
      have "waiting g" using f(1) by (simp add: g_def waiting_def)
      then show ?thesis
        using Cons Some f assms(2,3)
        by (simp add: include_step_def g_def [symmetric] step_law_def open_blocks_def expecting_def
            cf_ok_def top_ok_def new_frame_def indst_ok_base) (simp add: waiting_def)
    qed
  qed
qed

lemma cf_step_law:
  assumes "cf_ok s" "res s = None" "cf_step fsys s = Inr t"
  shows "step_law s t"
proof (cases "pf s")
  case Nil
  with assms show ?thesis by (auto simp: cf_step_def step_law_def step_defs)
next
  case (Cons f fs)
  note pos = assms(1,2) Cons
  show ?thesis
  proof (cases "fr_pc f")
    case Fetch
    with fetch_step_law [OF pos] assms(3) Cons show ?thesis by (auto simp: cf_step_def)
  next
    case (Expected line ind eof)
    with pos assms(3) show ?thesis by (auto simp: cf_step_def step_law_def step_defs)
  next
    case (Dedent line ind eof)
    with dedent_step_law [OF pos] assms(3) Cons show ?thesis by (auto simp: cf_step_def)
  next
    case (Including paths ws fbk)
    with include_step_law [OF pos] assms(3) Cons show ?thesis by (auto simp: cf_step_def)
  qed (use assms(3) Cons reindent_step_law [OF pos] directive_step_law [OF pos] in \<open>auto simp: cf_step_def\<close>)
qed

lemma step_law_trans: "step_law s s' \<Longrightarrow> res s' = None \<Longrightarrow> step_law s' t \<Longrightarrow> step_law s t"
  by (cases "res t") (auto simp: step_law_def)

lemma cf_run_law:
  assumes "cf_run fsys s = Some (Inr t)" "cf_ok s"
  shows "if res s = None then step_law s t \<and> res t \<noteq> None else t = s"
proof -
  define P where "P = (\<lambda>(fsys::filesys) s (r :: cf_err + cfstate). \<forall>t. r = Inr t \<longrightarrow> cf_ok s \<longrightarrow>
    (if res s = None then step_law s t \<and> res t \<noteq> None else t = s))"
  have "P fsys s (Inr t)"
  proof (rule cf_run.raw_induct [where P = P, OF _ assms(1)])
    fix run :: "filesys \<Rightarrow> cfstate \<Rightarrow> (cf_err + cfstate) option"
    fix fsys s r
    assume IH: "\<And>fsys s r. run fsys s = Some r \<Longrightarrow> P fsys s r"
      and r: "(if res s \<noteq> None then Some (Inr s)
        else case cf_step fsys s of Inl e \<Rightarrow> Some (Inl e) | Inr s' \<Rightarrow> run fsys s') = Some r"
    show "P fsys s r"
      unfolding P_def
    proof (intro allI impI)
      fix t assume t: "r = Inr t" "cf_ok s"
      show "if res s = None then step_law s t \<and> res t \<noteq> None else t = s"
      proof (cases "res s = None")
        case False
        with r t show ?thesis by auto
      next
        case True
        with r t obtain s' where s': "cf_step fsys s = Inr s'" "run fsys s' = Some (Inr t)"
          by (auto split: sum.splits)
        have law: "step_law s s'" by (rule cf_step_law [OF t(2) True s'(1)])
        then have "if res s' = None then step_law s' t \<and> res t \<noteq> None else t = s'"
          using IH [OF s'(2)] by (auto simp: P_def step_law_def)
        then show ?thesis using True law step_law_trans [OF law] by (auto split: if_splits)
      qed
    qed
  qed
  then show ?thesis using assms(2) by (simp add: P_def)
qed

lemma after_event_argv [simp]: "after_event (s\<lparr>argv := a, res := r\<rparr>) w = after_event s w"
  by (simp add: after_event_def)

lemma open_blocks_argv [simp]: "open_blocks (s\<lparr>argv := a, res := r\<rparr>) = open_blocks s"
  by (simp add: open_blocks_def expecting_def)

lemma cf_ok_argv [simp]: "cf_ok (s\<lparr>argv := a, res := r\<rparr>) = cf_ok s"
  by (cases "pf s") (simp_all add: cf_ok_def)

lemma getcfline_law:
  assumes "getcfline fsys s = Some (Inr t)" "cf_ok s" "res s = None"
  shows "cf_ok t \<and> res t = None \<and> open_blocks t + ends (argv t) = open_blocks s + starts (argv t) \<and>
    after_event t (argv t)"
proof -
  obtain u where u: "cf_run fsys s = Some (Inr u)" "t = u\<lparr>argv := the (res u), res := None\<rparr>"
    using assms(1) by (auto simp: getcfline_def split: option.splits sum.splits)
  then obtain w where "res u = Some w" "step_law s u" using cf_run_law [OF u(1) assms(2)] assms(3) by auto
  with u(2) show ?thesis by (auto simp: step_law_def)
qed

text \<open>
  The reader of a file: the events it has seen, and how often it has announced with \<open>expstart\<close> that
  a directive opens a block.
\<close>

inductive cf_reads :: "filesys \<Rightarrow> string \<Rightarrow> cstring \<Rightarrow> cstring list list \<Rightarrow> nat \<Rightarrow> cfstate \<Rightarrow> bool"
  for fsys inp name where
  reads_start: "mkcfparser fsys inp name = Some (Inr s) \<Longrightarrow> cf_reads fsys inp name [] 0 s"
| reads_line: "cf_reads fsys inp name evs k s \<Longrightarrow> getcfline fsys s = Some (Inr t) \<Longrightarrow>
    cf_reads fsys inp name (evs @ [argv t]) k t"
| reads_expect: "cf_reads fsys inp name evs k s \<Longrightarrow> evs \<noteq> [] \<Longrightarrow> \<not> special (argv s) \<Longrightarrow> \<not> expstart s \<Longrightarrow>
    cf_reads fsys inp name evs (k + 1) (s\<lparr>expstart := True\<rparr>)"

definition reads_inv :: "cstring list list \<Rightarrow> nat \<Rightarrow> cfstate \<Rightarrow> bool" where
  "reads_inv evs k s \<longleftrightarrow> cf_ok s \<and>
     (case res s of
        None \<Rightarrow> open_blocks s + count_list evs [''end''] = count_list evs [''start''] + k
      | Some w \<Rightarrow> evs = [] \<and> k = 0 \<and> open_blocks s + ends w = starts w \<and> after_event s w) \<and>
     (evs \<noteq> [] \<longrightarrow> argv s = last evs \<and> res s = None \<and> after_event s (argv s))"

lemma reads_inv_expect:
  assumes "reads_inv evs k s" "evs \<noteq> []" "\<not> special (argv s)" "\<not> expstart s"
  shows "reads_inv evs (k + 1) (s\<lparr>expstart := True\<rparr>)"
proof -
  obtain f fs where f: "pf s = f # fs" "fr_pc f = Fetch"
    using assms by (auto simp: reads_inv_def after_event_def)
  then have "open_blocks (s\<lparr>expstart := True\<rparr>) = open_blocks s + 1" "cf_ok (s\<lparr>expstart := True\<rparr>)"
    using assms by (auto simp: open_blocks_def expecting_def reads_inv_def cf_ok_def top_ok_def)
  with assms f show ?thesis by (auto simp: reads_inv_def after_event_def)
qed

lemma cf_reads_inv: "cf_reads fsys inp name evs k s \<Longrightarrow> reads_inv evs k s"
proof (induction rule: cf_reads.induct)
  case (reads_start s)
  define s0 where "s0 = \<lparr>pf = [new_frame inp], expstart = False, res = None, argv = [], lno = 0, cf_file = name\<rparr>"
  have "cf_ok s0" "open_blocks s0 = 0" "res s0 = None"
    by (simp_all add: s0_def cf_ok_def top_ok_def new_frame_def indst_ok_base open_blocks_def expecting_def)
  with cf_run_law [of fsys s0 s] reads_start show ?case
    by (auto simp: mkcfparser_def s0_def [symmetric] step_law_def reads_inv_def)
next
  case (reads_line evs k s t)
  show ?case
  proof (cases "res s")
    case None
    with getcfline_law [OF reads_line(2)] reads_line(3) show ?thesis
      by (auto simp: reads_inv_def starts_def ends_def split: if_splits)
  next
    case (Some w)
    then have "t = s\<lparr>argv := w, res := None\<rparr>"
      using reads_line(2) by (simp add: getcfline_def cf_run.simps [of fsys s])
    with Some reads_line(3) show ?thesis
      by (auto simp: reads_inv_def starts_def ends_def split: if_splits)
  qed
next
  case (reads_expect evs k s)
  then show ?case by (intro reads_inv_expect)
qed

section \<open>Reading ends\<close>

text \<open>
  Without files to include, every run of the coroutine reaches an event: the unread input gets
  shorter, and within a line the coroutine moves forward.
\<close>

definition simple :: "cfstate \<Rightarrow> bool" where
  "simple s \<longleftrightarrow> pf s = [] \<or> (\<exists>f. pf s = [f] \<and> (case fr_pc f of Including ps ws fbk \<Rightarrow> ps = [] | _ \<Rightarrow> True))"

definition unread_lines :: "cfstate \<Rightarrow> nat" where
  "unread_lines s = (case pf s of [] \<Rightarrow> 0
     | f # fs \<Rightarrow> (let n = 3 * length (fr_in f) in case fr_pc f of
         Fetch \<Rightarrow> n + 2
       | Including ps ws fbk \<Rightarrow> n + 3
       | Reindent line ind eof \<Rightarrow> if eof then 1 else n + 4
       | Expected line ind eof \<Rightarrow> if eof then 1 else n + 4
       | Dedent line ind eof \<Rightarrow> if eof then 1 else n + 4
       | Directive line eof \<Rightarrow> if eof then 1 else n + 4))"

definition line_left :: "cfstate \<Rightarrow> nat" where
  "line_left s = (case pf s of [] \<Rightarrow> 0
     | f # fs \<Rightarrow> (case fr_pc f of
         Reindent line ind eof \<Rightarrow> if hd (fr_indst f) < ind then 1 else length (fr_indst f) + 4
       | Expected line ind eof \<Rightarrow> length (fr_indst f) + 3
       | Dedent line ind eof \<Rightarrow> length (fr_indst f) + 2
       | Including ps ws fbk \<Rightarrow> length ws
       | _ \<Rightarrow> 0))"

lemma fgets_shorter: "0 < n \<Longrightarrow> s \<noteq> [] \<Longrightarrow> fgets n s = (l, r) \<Longrightarrow> length r < length s"
proof -
  have le: "fgets n s = (l, r) \<Longrightarrow> length r \<le> length s" for n s l r
    by (induction n s arbitrary: l r rule: fgets.induct) (fastforce split: if_splits prod.splits)+
  show "0 < n \<Longrightarrow> s \<noteq> [] \<Longrightarrow> fgets n s = (l, r) \<Longrightarrow> length r < length s"
    using le by (cases s) (auto split: if_splits prod.splits simp: le_imp_less_Suc)
qed

definition nearer :: "(cfstate \<times> cfstate) set" where
  "nearer = measures [unread_lines, line_left]"

lemma wf_nearer: "wf nearer"
  by (simp add: nearer_def)

lemma simple_goto [simp]: "simple (goto s f [] p) \<longleftrightarrow> (case p of Including ps ws fbk \<Rightarrow> ps = [] | _ \<Rightarrow> True)"
  by (auto simp: simple_def goto_def split: pc.splits)

lemma simple_emit [simp]: "simple (emit w s) = simple s" "res (emit w s) = Some w"
  by (simp_all add: simple_def emit_def)

lemmas measure_defs = nearer_def unread_lines_def line_left_def goto_def Let_def

lemma simple_fetch:
  assumes "pf s = [f]" "fr_pc f = Fetch"
  shows "simple (fetch_step s f []) \<and> (fetch_step s f [], s) \<in> nearer"
proof (cases "fr_in f = []")
  case True
  with assms show ?thesis by (simp add: fetch_step_def measure_defs simple_def)
next
  case False
  obtain l rest where l: "fgets 1023 (fr_in f) = (l, rest)" by fastforce
  from fgets_shorter [OF _ False l] have "length rest < length (fr_in f)" by simp
  with assms False l show ?thesis
    by (auto simp: fetch_step_def measure_defs simple_def split: prod.splits)
qed

lemma simple_directive:
  assumes "pf s = [f]" "fr_pc f = Directive line eof" "directive_step s f [] line eof = Inr t" "res s = None"
  shows "simple t \<and> (res t = None \<longrightarrow> (t, s) \<in> nearer)"
proof (cases eof)
  case True
  with assms show ?thesis by (auto simp: directive_step_def measure_defs simple_def)
next
  case False
  have near: "(goto s f [] Fetch, s) \<in> nearer" "(goto s f [] (Including [] ws n), s) \<in> nearer" for ws n
    using assms(1,2) False by (simp_all add: measure_defs)
  obtain ws where ws: "tokenize line = Some ws"
    using False assms(3) by (cases "tokenize line") (auto simp: directive_step_def)
  show ?thesis
  proof (cases ws)
    case Nil
    with False assms(3) ws near(1) show ?thesis by (auto simp: directive_step_def)
  next
    case (Cons v vs)
    with False assms(3) ws near show ?thesis by (auto simp: directive_step_def split: if_splits)
  qed
qed

lemma simple_include:
  assumes "pf s = [f]" "fr_pc f = Including [] ws fbk" "\<And>p. fs_glob fsys p = []"
  shows "simple (include_step fsys s f [] [] ws fbk) \<and> (include_step fsys s f [] [] ws fbk, s) \<in> nearer"
  using assms by (cases ws) (simp_all add: include_step_def measure_defs simple_def)

lemma simple_step:
  assumes "\<And>p. fs_glob fsys p = []" "simple s" "res s = None" "cf_step fsys s = Inr t"
  shows "simple t \<and> (res t = None \<longrightarrow> (t, s) \<in> nearer)"
proof (cases "pf s")
  case Nil
  with assms show ?thesis by (auto simp: cf_step_def simple_def emit_def)
next
  case (Cons f fs)
  with assms(2) have f: "pf s = [f]" "fs = []" by (auto simp: simple_def)
  show ?thesis
  proof (cases "fr_pc f")
    case Fetch
    with simple_fetch [OF f(1)] assms(4) f show ?thesis by (auto simp: cf_step_def)
  next
    case (Reindent line ind eof)
    then have "reindent_step s f [] line ind eof = Inr t" using assms(4) f by (simp add: cf_step_def)
    with Reindent f show ?thesis
      by (auto simp: reindent_step_def measure_defs simple_def emit_def split: if_splits)
  next
    case (Expected line ind eof)
    with assms(4) f show ?thesis by (auto simp: cf_step_def measure_defs simple_def)
  next
    case (Dedent line ind eof)
    with assms(4) f show ?thesis
      by (auto simp: cf_step_def dedent_step_def measure_defs simple_def emit_def split: if_splits)
  next
    case (Directive line eof)
    with simple_directive [OF f(1)] assms(3,4) f show ?thesis by (simp add: cf_step_def)
  next
    case (Including ps ws fbk)
    moreover from this have "ps = []" using assms(2) f(1) by (simp add: simple_def)
    ultimately show ?thesis using simple_include [OF f(1) _ assms(1)] assms(4) f by (auto simp: cf_step_def)
  qed
qed

lemma cf_run_returns:
  assumes "\<And>p. fs_glob fsys p = []" "simple s"
  shows "\<exists>r. cf_run fsys s = Some r \<and> (\<forall>t. r = Inr t \<longrightarrow> simple t)"
  using wf_nearer assms(2)
proof (induction s rule: wf_induct_rule)
  case (less s)
  show ?case
  proof (cases "res s = None")
    case False
    with less.prems show ?thesis by (auto simp: cf_run.simps [of fsys s])
  next
    case none: True
    show ?thesis
    proof (cases "cf_step fsys s")
      case (Inl e)
      with none show ?thesis by (simp add: cf_run.simps [of fsys s])
    next
      case (Inr t)
      note t = simple_step [OF assms(1) less.prems none Inr]
      have "\<exists>r. cf_run fsys t = Some r \<and> (\<forall>u. r = Inr u \<longrightarrow> simple u)"
      proof (cases "res t = None")
        case True
        with t less.IH show ?thesis by blast
      next
        case False
        with t show ?thesis by (auto simp: cf_run.simps [of fsys t])
      qed
      with none Inr show ?thesis by (simp add: cf_run.simps [of fsys s])
    qed
  qed
qed

lemma cf_reads_simple:
  assumes "\<And>p. fs_glob fsys p = []"
  shows "cf_reads fsys inp name evs k s \<Longrightarrow> simple s"
proof (induction rule: cf_reads.induct)
  case (reads_start s)
  have "simple \<lparr>pf = [new_frame inp], expstart = False, res = None, argv = [], lno = 0, cf_file = name\<rparr>"
    by (simp add: simple_def new_frame_def)
  with cf_run_returns [OF assms this] reads_start show ?case by (auto simp: mkcfparser_def)
next
  case (reads_line evs k s t)
  with cf_run_returns [OF assms, of s] show ?case
    by (auto simp: getcfline_def simple_def split: option.splits sum.splits)
qed (simp add: simple_def)

section \<open>Deep nesting\<close>

text \<open>Lines of one word, each indented by one blank more than the line before.\<close>

definition deep_line :: "nat \<Rightarrow> string" where
  "deep_line k = replicate k (CHR '' '') @ ''x''"

definition nested :: "nat \<Rightarrow> nat \<Rightarrow> string" where
  "nested i n = concat (map (\<lambda>k. deep_line k @ [chr 10]) [i..<n])"

lemma nested_step: "i < n \<Longrightarrow> nested i n = deep_line i @ chr 10 # nested (Suc i) n"
  by (simp add: nested_def upt_conv_Cons)

lemma newline_chars: "CHR '' '' \<noteq> chr 10" "CHR ''x'' \<noteq> chr 10" "chr 10 \<noteq> NUL" "isspace (CHR '' '')"
  "isspace (chr 10)" "\<not> isspace (CHR ''x'')" "CHR ''x'' \<noteq> chr 9" "CHR '' '' \<noteq> chr 9"
  by code_simp+

lemma fgets_line: "length l < n \<Longrightarrow> chr 10 \<notin> set l \<Longrightarrow> fgets n (l @ chr 10 # t) = (l @ [chr 10], t)"
  by (induction l arbitrary: n) auto

lemma rtrim_deep: "rtrim (cstr (deep_line k @ [chr 10])) = deep_line k"
proof -
  have "nul_free (deep_line k @ [chr 10])" using newline_chars(3) by (auto simp: deep_line_def nul_free_def)
  then show ?thesis by (simp add: rtrim_def deep_line_def newline_chars)
qed

lemma indent_deep: "indent i (deep_line k) = (i + k, ''x'')"
  by (induction k arbitrary: i) (auto simp: deep_line_def newline_chars)

lemma tokenize_deep: "tokenize (deep_line k) = Some [''x'']"
proof (induction k)
  case 0
  show ?case by code_simp
next
  case (Suc k)
  then show ?case by (simp add: deep_line_def tokenize_skip newline_chars)
qed

text \<open>The parser after line \<open>k - 1\<close> of such a file.\<close>

definition deep_state :: "nat \<Rightarrow> string \<Rightarrow> cfstate \<Rightarrow> bool" where
  "deep_state k inp s \<longleftrightarrow> (\<exists>f. pf s = [f] \<and> fr_in f = inp \<and> fr_pc f = Fetch \<and> length (fr_indst f) = k \<and>
     hd (fr_indst f) = k - 1 \<and> fr_indst f \<noteq> []) \<and> \<not> expstart s \<and> res s = None"

lemma deep_fetch:
  assumes "deep_state k (nested k n) s" "k < n" "k < 1000"
  shows "\<exists>t f. cf_step fsys s = Inr t \<and> pf t = [f] \<and> fr_in f = nested (Suc k) n \<and>
    fr_pc f = Reindent (deep_line k) k False \<and> length (fr_indst f) = k \<and> hd (fr_indst f) = k - 1 \<and>
    fr_indst f \<noteq> [] \<and> \<not> expstart t \<and> res t = None"
proof -
  obtain f where f: "pf s = [f]" "fr_in f = nested k n" "fr_pc f = Fetch" "length (fr_indst f) = k"
    "hd (fr_indst f) = k - 1" "fr_indst f \<noteq> []" "\<not> expstart s" "res s = None"
    using assms(1) by (auto simp: deep_state_def)
  have l: "fgets 1023 (nested k n) = (deep_line k @ [chr 10], nested (Suc k) n)"
    unfolding nested_step [OF assms(2)]
    by (rule fgets_line) (use assms(3) newline_chars in \<open>auto simp: deep_line_def\<close>)
  have "nested k n \<noteq> []" using nested_step [OF assms(2)] by simp
  with f l show ?thesis
    using indent_deep [of 0 k]
    by (auto simp: cf_step_def fetch_step_def rtrim_deep goto_def Let_def)
qed

lemma cf_run_step: "res s = None \<Longrightarrow> cf_step fsys s = Inr t \<Longrightarrow> cf_run fsys s = cf_run fsys t"
  by (simp add: cf_run.simps [of fsys s])

lemma cf_run_emit [simp]: "cf_run fsys (emit w s) = Some (Inr (emit w s))"
  by (simp add: cf_run.simps [of fsys "emit w s"])

lemma deep_reads:
  assumes "deep_state k (nested k n) s" "k < n" "k < INDST_SIZE"
  shows "\<exists>s1 s2. getcfline fsys s = Some (Inr s1) \<and> getcfline fsys s1 = Some (Inr s2) \<and>
    deep_state (Suc k) (nested (Suc k) n) s2"
proof -
  have k: "k < 1000" using assms(3) by (simp add: INDST_SIZE_def)
  obtain t f where t: "cf_step fsys s = Inr t" "pf t = [f]" "fr_in f = nested (Suc k) n"
    "fr_pc f = Reindent (deep_line k) k False" "length (fr_indst f) = k" "hd (fr_indst f) = k - 1"
    "fr_indst f \<noteq> []" "\<not> expstart t" "res t = None"
    using deep_fetch [OF assms(1,2) k, of fsys] by blast
  have k1: "k - 1 < k" using t(5,7) by (cases k) auto
  define g where "g = f\<lparr>fr_indst := k # fr_indst f, fr_pc := Directive (deep_line k) False\<rparr>"
  define t1 where "t1 = emit [''start''] (t\<lparr>pf := [g]\<rparr>)"
  have "cf_step fsys t = Inr t1"
    using t k1 assms(3) by (simp add: cf_step_def reindent_step_def goto_def t1_def g_def)
  moreover have "res s = None" using assms(1) by (simp add: deep_state_def)
  ultimately have "cf_run fsys s = Some (Inr t1)"
    using cf_run_step [OF _ t(1)] cf_run_step [OF t(9), of fsys t1]
    by (simp add: t1_def)
  then have s1: "getcfline fsys s = Some (Inr (t1\<lparr>argv := [''start''], res := None\<rparr>))"
    by (simp add: getcfline_def t1_def)
  define u where "u = t1\<lparr>argv := [''start''], res := None\<rparr>"
  define u1 where "u1 = emit [''x''] (goto u g [] Fetch)"
  have "cf_step fsys u = Inr u1"
    using t k1
    by (simp add: cf_step_def directive_step_def u_def t1_def g_def tokenize_deep u1_def goto_def emit_def)
  then have "cf_run fsys u = Some (Inr u1)"
    using cf_run_step [of u fsys u1] by (simp add: u1_def u_def)
  then have "getcfline fsys u = Some (Inr (u1\<lparr>argv := [''x''], res := None\<rparr>))"
    by (simp add: getcfline_def u1_def)
  moreover have "deep_state (Suc k) (nested (Suc k) n) (u1\<lparr>argv := [''x''], res := None\<rparr>)"
    using t by (simp add: deep_state_def u1_def u_def t1_def g_def goto_def emit_def)
  ultimately show ?thesis using s1 u_def by blast
qed

lemma deep_overflows:
  assumes "deep_state INDST_SIZE (nested INDST_SIZE n) s" "INDST_SIZE < n"
  shows "getcfline fsys s = Some (Inl IndentOverflow)"
proof -
  obtain t f where t: "cf_step fsys s = Inr t" "pf t = [f]"
    "fr_pc f = Reindent (deep_line INDST_SIZE) INDST_SIZE False" "length (fr_indst f) = INDST_SIZE"
    "hd (fr_indst f) = INDST_SIZE - 1" "res t = None"
    using deep_fetch [OF assms, of fsys] by (auto simp: INDST_SIZE_def)
  have "cf_step fsys t = Inl IndentOverflow"
    using t by (simp add: cf_step_def reindent_step_def INDST_SIZE_def)
  then have "cf_run fsys t = Some (Inl IndentOverflow)" using t by (simp add: cf_run.simps [of fsys t])
  moreover have "cf_run fsys s = cf_run fsys t"
    using cf_run_step [OF _ t(1)] assms(1) by (simp add: deep_state_def)
  ultimately show ?thesis by (simp add: getcfline_def)
qed

lemma deep_first:
  assumes "0 < n"
  shows "\<exists>s. cf_reads fsys (nested 0 n) name [[''x'']] 0 s \<and> deep_state 1 (nested 1 n) s"
proof -
  define s0 where "s0 = \<lparr>pf = [new_frame (nested 0 n)], expstart = False, res = None, argv = [], lno = 0, cf_file = name\<rparr>"
  have l: "fgets 1023 (nested 0 n) = (''x'' @ [chr 10], nested 1 n)"
    using fgets_line [of "''x''" 1023 "nested 1 n"] nested_step [OF assms]
    by (simp add: deep_line_def newline_chars)
  define f where "f = new_frame (nested 1 n)"
  have x: "rtrim (cstr (''x'' @ [chr 10])) = ''x''" "indent 0 ''x'' = (0, ''x'')" "tokenize ''x'' = Some [''x'']"
    using rtrim_deep [of 0] indent_deep [of 0 0] tokenize_deep [of 0] by (simp_all add: deep_line_def)
  define s1 where "s1 = s0\<lparr>lno := 1, pf := [f\<lparr>fr_pc := Reindent ''x'' 0 False\<rparr>]\<rparr>"
  define s2 where "s2 = s1\<lparr>pf := [f\<lparr>fr_pc := Dedent ''x'' 0 False\<rparr>]\<rparr>"
  define s3 where "s3 = s1\<lparr>pf := [f\<lparr>fr_pc := Directive ''x'' False\<rparr>]\<rparr>"
  define s4 where "s4 = emit [''x''] (s1\<lparr>pf := [f]\<rparr>)"
  have ne: "nested 0 n \<noteq> []" using nested_step [OF assms] by simp
  have "cf_step fsys s0 = Inr s1"
    using l x ne by (simp add: cf_step_def fetch_step_def s0_def s1_def f_def new_frame_def goto_def Let_def)
  moreover have "cf_step fsys s1 = Inr s2"
    by (simp add: cf_step_def reindent_step_def s1_def s2_def s0_def f_def new_frame_def goto_def)
  moreover have "cf_step fsys s2 = Inr s3"
    by (simp add: cf_step_def dedent_step_def s1_def s2_def s3_def s0_def f_def new_frame_def goto_def)
  moreover have "cf_step fsys s3 = Inr s4"
    using x by (simp add: cf_step_def directive_step_def s1_def s3_def s4_def s0_def f_def new_frame_def goto_def)
  moreover have "res s0 = None" "res s1 = None" "res s2 = None" "res s3 = None"
    by (simp_all add: s0_def s1_def s2_def s3_def)
  ultimately have "cf_run fsys s0 = cf_run fsys s4"
    using cf_run_step [of s0 fsys s1] cf_run_step [of s1 fsys s2] cf_run_step [of s2 fsys s3]
      cf_run_step [of s3 fsys s4] by simp
  then have "mkcfparser fsys (nested 0 n) name = Some (Inr s4)"
    by (simp add: mkcfparser_def s0_def [symmetric] s4_def)
  then have start: "cf_reads fsys (nested 0 n) name [] 0 s4" by (rule reads_start)
  have "getcfline fsys s4 = Some (Inr (s4\<lparr>argv := [''x''], res := None\<rparr>))"
    by (simp add: getcfline_def s4_def)
  from reads_line [OF start this] show ?thesis
    by (auto simp: deep_state_def s4_def s1_def s0_def f_def new_frame_def emit_def)
qed

lemma deep_reach:
  assumes "INDST_SIZE < n" "1 \<le> k" "k \<le> INDST_SIZE"
  shows "\<exists>evs s. cf_reads fsys (nested 0 n) name evs 0 s \<and> deep_state k (nested k n) s"
  using assms(2,3)
proof (induction k rule: dec_induct)
  case base
  have "0 < n" using assms(1) by simp
  with deep_first show ?case by blast
next
  case (step k)
  then obtain evs s where s: "cf_reads fsys (nested 0 n) name evs 0 s" "deep_state k (nested k n) s" by auto
  have "k < n" "k < INDST_SIZE" using step assms(1) by auto
  from deep_reads [OF s(2) this, of fsys] obtain s1 s2 where
    "getcfline fsys s = Some (Inr s1)" "getcfline fsys s1 = Some (Inr s2)"
    "deep_state (Suc k) (nested (Suc k) n) s2" by blast
  with s(1) show ?case by (blast intro: reads_line)
qed

section \<open>Properties\<close>

text \<open>C23. Whatever a configuration file and the files it includes look like, the blocks a reader sees
  are well nested: it never sees more \<open>end\<close>s than it has seen \<open>start\<close>s and has announced blocks
  itself, and at the end of the file every one of these blocks has been ended exactly once.\<close>

theorem blocks_balanced:
  assumes "cf_reads fsys inp name evs k s" "evs \<noteq> []"
  shows "count_list evs [''end''] \<le> count_list evs [''start''] + k \<and>
    (last evs = [''eof''] \<longrightarrow> count_list evs [''end''] = count_list evs [''start''] + k)"
proof -
  have inv: "reads_inv evs k s" by (rule cf_reads_inv [OF assms(1)])
  then have eq: "open_blocks s + count_list evs [''end''] = count_list evs [''start''] + k"
    using assms(2) by (auto simp: reads_inv_def)
  have "open_blocks s = 0" if "last evs = [''eof'']"
  proof -
    have "pf s = []" "cf_ok s" using inv assms(2) that by (auto simp: reads_inv_def after_event_def)
    then show ?thesis by (simp add: open_blocks_def expecting_def cf_ok_def)
  qed
  with eq show ?thesis by auto
qed

lemma blocks_balanced_witness: "\<forall>fsys. \<exists>evs s. cf_reads fsys (nested 0 9) ''c'' evs 0 s \<and> evs \<noteq> [] \<and>
    count_list evs [''end''] \<le> count_list evs [''start'']"
proof
  fix fsys
  have "0 < (9::nat)" by simp
  from deep_first [OF this] obtain s where s: "cf_reads fsys (nested 0 9) ''c'' [[''x'']] 0 s" by blast
  show "\<exists>evs s. cf_reads fsys (nested 0 9) ''c'' evs 0 s \<and> evs \<noteq> [] \<and>
    count_list evs [''end''] \<le> count_list evs [''start'']"
    by (rule exI [of _ "[[''x'']]"], rule exI [of _ s]) (use s blocks_balanced [OF s] in simp)
qed

text \<open>C24. Reading a configuration file that includes no other never hangs: after any sequence of
  calls the next \<open>getcfline\<close> returns a directive or stops at one of the two overruns.\<close>

theorem getcfline_returns:
  assumes "\<And>p. fs_glob fsys p = []" "cf_reads fsys inp name evs k s"
  shows "getcfline fsys s \<noteq> None"
  using cf_run_returns [OF assms(1) cf_reads_simple [OF assms]]
  by (auto simp: getcfline_def split: sum.splits)

lemma getcfline_returns_witness:
  "\<exists>s. cf_reads \<lparr>fs_glob = \<lambda>p. [], fs_open = \<lambda>p. None\<rparr> (nested 0 2) ''c'' [[''x'']] 0 s \<and>
     getcfline \<lparr>fs_glob = \<lambda>p. [], fs_open = \<lambda>p. None\<rparr> s \<noteq> None"
proof -
  let ?fs = "\<lparr>fs_glob = \<lambda>p. [], fs_open = \<lambda>p. None\<rparr>"
  have "0 < (2::nat)" by simp
  from deep_first [OF this] obtain s where s: "cf_reads ?fs (nested 0 2) ''c'' [[''x'']] 0 s" by blast
  moreover have "getcfline ?fs s \<noteq> None" by (rule getcfline_returns [OF _ s]) simp
  ultimately show ?thesis by blast
qed

text \<open>A configuration file with more than 80 levels of indentation makes the parser write past the
  end of its array of indentations: no level is ever refused.\<close>

lemma deep_file_overflows:
  assumes "80 < n"
  shows "\<exists>evs s. cf_reads fsys (nested 0 n) name evs 0 s \<and> getcfline fsys s = Some (Inl IndentOverflow)"
proof -
  have n: "INDST_SIZE < n" using assms by (simp add: INDST_SIZE_def)
  then obtain evs s where "cf_reads fsys (nested 0 n) name evs 0 s" "deep_state INDST_SIZE (nested INDST_SIZE n) s"
    using deep_reach [OF n, of INDST_SIZE fsys name] by (auto simp: INDST_SIZE_def)
  with deep_overflows n show ?thesis by blast
qed

lemma deep_file_overflows_witness:
  "\<forall>fsys name. \<exists>evs s. cf_reads fsys (nested 0 81) name evs 0 s \<and> getcfline fsys s = Some (Inl IndentOverflow)"
  using deep_file_overflows [of 81] by simp

end
