(* ===== verification/Children.thy ===== *)
theory Children
  imports Conf Req "HOL-Library.Multiset"
begin

text \<open>
  The child handlers of \<open>lib/cf.c\<close> and the processes of \<open>lib/proc.c\<close>: reading the declaration of a
  child, expanding its arguments, passing a request to it over its socket with a restart when it
  has crashed or by a fork, and carrying running children over to a new configuration.
\<close>

section \<open>Data\<close>

datatype chtype = CH_SOCKET | CH_FORK

record stdchild =
  ch_type :: chtype
  ch_argv :: "cstring list option"
  ch_envp :: "(cstring \<times> cstring) list"
  ch_fd :: int
  agains :: int
  lastrep :: int

text \<open>
  The interface of a child: the handler of this file, or one without \<open>merge\<close> and \<open>destroy\<close> as in
  \<open>src/dirplex/conf.c\<close>.
\<close>

datatype chandler = StdHandler | PlainHandler

record child =
  ch_name :: cstring
  ch_iface :: chandler
  ch_std :: stdchild

definition new_std :: "chtype \<Rightarrow> stdchild" where
  "new_std t = \<lparr>ch_type = t, ch_argv = None, ch_envp = [], ch_fd = - 1, agains = 0, lastrep = 0\<rparr>"

definition newchild :: "cstring \<Rightarrow> chandler \<Rightarrow> stdchild \<Rightarrow> child" where
  "newchild name iface d = \<lparr>ch_name = name, ch_iface = iface, ch_std = d\<rparr>"

section \<open>Declarations\<close>

text \<open>The loop of \<open>parsechild\<close> over the lines of the block.\<close>

partial_function (option) child_lines ::
  "filesys \<Rightarrow> stdchild \<Rightarrow> cfstate \<Rightarrow> (cf_err + stdchild \<times> cfstate) option" where
  "child_lines fsys d s = (case getcfline fsys s of
      None \<Rightarrow> None
    | Some (Inl e) \<Rightarrow> Some (Inl e)
    | Some (Inr s1) \<Rightarrow>
        (let w = argv s1 in
         if w ! 0 = ''exec'' then
           child_lines fsys (if length w < 2 then d else d\<lparr>ch_argv := Some (tl w)\<rparr>) s1
         else if w ! 0 = ''env'' then
           child_lines fsys (if length w < 3 then d else d\<lparr>ch_envp := ch_envp d @ [(w ! 1, w ! 2)]\<rparr>) s1
         else if w ! 0 = ''end'' \<or> w ! 0 = ''eof'' then Some (Inr (d, s1))
         else child_lines fsys d s1))"

declare child_lines.simps [code]

text \<open>\<open>Inr (None, s)\<close> is the null pointer.\<close>

definition parsechild :: "filesys \<Rightarrow> cfstate \<Rightarrow> (cf_err + child option \<times> cfstate) option" where
  "parsechild fsys s =
     (let w = argv s in
      if w ! 0 = ''child'' \<or> w ! 0 = ''fchild'' then
        (let s1 = s\<lparr>expstart := True\<rparr> in
         if length w < 2 then
           (case skipcfblock fsys s1 of
              None \<Rightarrow> None
            | Some (Inl e) \<Rightarrow> Some (Inl e)
            | Some (Inr s2) \<Rightarrow> Some (Inr (None, s2)))
         else
           (case child_lines fsys (new_std (if w ! 0 = ''child'' then CH_SOCKET else CH_FORK)) s1 of
              None \<Rightarrow> None
            | Some (Inl e) \<Rightarrow> Some (Inl e)
            | Some (Inr (d, s2)) \<Rightarrow>
                Some (Inr (if ch_argv d = None then None else Some (newchild (w ! 1) StdHandler d), s2))))
      else Some (Inr (None, s)))"

text \<open>A child that has just been read has no process.\<close>

lemma child_lines_fd:
  assumes "child_lines fsys d s = Some (Inr (d', s'))"
  shows "ch_fd d' = ch_fd d"
proof -
  define P where "P = (\<lambda>(fsys::filesys) (d::stdchild) (s::cfstate) (r :: cf_err + stdchild \<times> cfstate).
    \<forall>d' s'. r = Inr (d', s') \<longrightarrow> ch_fd d' = ch_fd d)"
  have "P fsys d s (Inr (d', s'))"
    by (rule child_lines.raw_induct [where P = P, OF _ assms])
       (auto simp: P_def Let_def split: option.splits sum.splits if_splits)
  then show ?thesis by (simp add: P_def)
qed

lemma parsechild_fd:
  "parsechild fsys s = Some (Inr (Some ch, s')) \<Longrightarrow> ch_fd (ch_std ch) < 0"
  by (auto simp: parsechild_def newchild_def new_std_def Let_def
      split: if_splits option.splits sum.splits dest!: child_lines_fd)

lemma parsechild_std:
  "parsechild fsys s = Some (Inr (Some ch, s')) \<Longrightarrow> ch_iface ch = StdHandler \<and> ch_argv (ch_std ch) \<noteq> None"
  by (auto simp: parsechild_def newchild_def Let_def split: if_splits option.splits sum.splits)

section \<open>Arguments\<close>

definition env_char :: "char \<Rightarrow> bool" where
  "env_char c \<longleftrightarrow> islower c \<or> isupper c \<or> isdigit c \<or> c = CHR ''_''"

definition env_val :: "(cstring \<Rightarrow> cstring option) \<Rightarrow> cstring \<Rightarrow> cstring" where
  "env_val getenv v = (case getenv v of None \<Rightarrow> [] | Some x \<Rightarrow> x)"

text \<open>One argument in \<open>expandargs\<close>; after an open brace without its end the rest is copied.\<close>

lemma drop_shorter: "drop n t = v @ c # u \<Longrightarrow> length u < length t"
  by (metis append_take_drop_id length_append length_Cons less_add_Suc2 add_Suc_right trans_less_add2 lessI)

function expand_arg :: "(cstring \<Rightarrow> cstring option) \<Rightarrow> cstring \<Rightarrow> cstring" where
  "expand_arg getenv s = (case strchr s (CHR ''$'') of
      None \<Rightarrow> s
    | Some (a, b) \<Rightarrow> a @
       (if take 1 (tl b) = ''{'' then
          (case strchr (drop 2 b) (CHR ''}'') of
             None \<Rightarrow> drop 2 b
           | Some (v, r) \<Rightarrow> env_val getenv v @ expand_arg getenv (tl r))
        else env_val getenv (takeWhile env_char (tl b)) @ expand_arg getenv (dropWhile env_char (tl b))))"
  by pat_completeness auto
termination
proof (relation "measure (length \<circ> snd)", goal_cases)
  case (2 getenv s p a b q v r)
  then show ?case by (auto dest!: strchr_SomeD drop_shorter)
next
  case (3 getenv s p a b)
  then show ?case
    using length_dropWhile_le [of env_char "tl b"] by (auto dest!: strchr_SomeD)
qed simp

definition expandargs :: "(cstring \<Rightarrow> cstring option) \<Rightarrow> stdchild \<Rightarrow> cstring list" where
  "expandargs getenv sd = map (expand_arg getenv) (the (ch_argv sd))"

declare expand_arg.simps [simp del]

lemma expand_arg_plain [simp]: "CHR ''$'' \<notin> set s \<Longrightarrow> expand_arg getenv s = s"
  by (subst expand_arg.simps) (simp add: strchr_def)

section \<open>Processes\<close>

text \<open>
  The kernel as the outcomes of the calls still to come: the results of \<open>stdmkchild\<close> (a descriptor,
  or negative), of \<open>sendreq2\<close> (0, or the error number) and of \<open>fork\<close>, the time, and the log of
  what has been done. \<open>Spawn\<close> and \<open>ForkServe\<close> carry the arguments and what is put into the
  environment of the new process.
\<close>

datatype action =
    Spawn "cstring list" "(cstring \<times> cstring) list" int
  | SendReq int hthead int
  | CloseFd int
  | ForkServe "cstring list" "(cstring \<times> cstring) list"

record kernel =
  k_spawns :: "int list"
  k_sends :: "int list"
  k_forks :: "int list"
  k_time :: int
  k_log :: "action list"

definition EAGAIN :: int where "EAGAIN = 11"
definition ECONNRESET :: int where "ECONNRESET = 104"

definition log_action :: "action \<Rightarrow> kernel \<Rightarrow> kernel" where
  "log_action a k = k\<lparr>k_log := k_log k @ [a]\<rparr>"

text \<open>\<open>stdmkchild\<close> with \<open>stdinit\<close> run in the new process.\<close>

definition stdmkchild :: "cstring list \<Rightarrow> (cstring \<times> cstring) list \<Rightarrow> kernel \<Rightarrow> int \<times> kernel" where
  "stdmkchild args env k =
     (case k_spawns k of
        [] \<Rightarrow> (- 1, log_action (Spawn args env (- 1)) k)
      | f # fs \<Rightarrow> (f, log_action (Spawn args env f) (k\<lparr>k_spawns := fs\<rparr>)))"

definition send_req :: "int \<Rightarrow> hthead \<Rightarrow> kernel \<Rightarrow> int \<times> kernel" where
  "send_req sk req k =
     (case k_sends k of
        [] \<Rightarrow> (0, log_action (SendReq sk req 0) k)
      | e # es \<Rightarrow> (e, log_action (SendReq sk req e) (k\<lparr>k_sends := es\<rparr>)))"

text \<open>
  What \<open>stdforkserve\<close> executes: the arguments, followed by the request line, and the environment
  with the headers of the request.
\<close>

definition env_name :: "cstring \<Rightarrow> cstring" where
  "env_name n = ''REQ_'' @ map (\<lambda>c. if isalnum c then toupper c else CHR ''_'') n"

definition fork_args :: "cstring list \<Rightarrow> hthead \<Rightarrow> cstring list" where
  "fork_args args req = args @ [the (hd_method req), the (hd_url req), the (hd_rest req)]"

definition fork_env :: "hthead \<Rightarrow> (cstring \<times> cstring) list" where
  "fork_env req = map (\<lambda>(n, v). (env_name n, v)) (headers req) @ [(''HTTP_VERSION'', the (hd_ver req))]"

definition stdforkserve :: "cstring list \<Rightarrow> hthead \<Rightarrow> kernel \<Rightarrow> int \<times> kernel" where
  "stdforkserve args req k =
     (case k_forks k of
        [] \<Rightarrow> (1, log_action (ForkServe (fork_args args req) (fork_env req)) k)
      | p # ps \<Rightarrow>
          (if p < 0 then (- 1, k\<lparr>k_forks := ps\<rparr>)
           else (p, log_action (ForkServe (fork_args args req) (fork_env req)) (k\<lparr>k_forks := ps\<rparr>))))"

section \<open>Handling a request\<close>

definition start_child :: "(cstring \<Rightarrow> cstring option) \<Rightarrow> stdchild \<Rightarrow> kernel \<Rightarrow> stdchild \<times> kernel" where
  "start_child getenv sd k =
     (case stdmkchild (expandargs getenv sd) (ch_envp sd) k of (f, k1) \<Rightarrow> (sd\<lparr>ch_fd := f\<rparr>, k1))"

definition delivered :: "stdchild \<Rightarrow> kernel \<Rightarrow> int \<times> stdchild \<times> kernel" where
  "delivered sd k =
     (0, if agains sd > 0 \<and> k_time k - lastrep sd > 10 then sd\<lparr>agains := 0\<rparr> else sd, k)"

definition refused :: "int \<Rightarrow> stdchild \<Rightarrow> kernel \<Rightarrow> int \<times> stdchild \<times> kernel" where
  "refused serr sd k =
     (if serr = EAGAIN then
        (- 1, (if agains sd = 0 then sd\<lparr>lastrep := k_time k\<rparr> else sd)\<lparr>agains := agains sd + 1\<rparr>, k)
      else (- 1, sd\<lparr>ch_fd := - 1\<rparr>, log_action (CloseFd (ch_fd sd)) k))"

definition stdhandle :: "(cstring \<Rightarrow> cstring option) \<Rightarrow> stdchild \<Rightarrow> hthead \<Rightarrow> kernel \<Rightarrow>
    int \<times> stdchild \<times> kernel" where
  "stdhandle getenv sd req k =
     (if ch_type sd = CH_SOCKET then
        (case (if ch_fd sd < 0 then start_child getenv sd k else (sd, k)) of (sd1, k1) \<Rightarrow>
         (case send_req (ch_fd sd1) req k1 of (serr, k2) \<Rightarrow>
           if serr = 0 then delivered sd1 k2
           else if serr = EPIPE \<or> serr = ECONNRESET then
             (case start_child getenv sd1 (log_action (CloseFd (ch_fd sd1)) k2) of (sd2, k3) \<Rightarrow>
              (case send_req (ch_fd sd2) req k3 of (serr2, k4) \<Rightarrow>
                if serr2 = 0 then delivered sd2 k4 else refused serr2 sd2 k4))
           else refused serr sd1 k2))
      else
        (case stdforkserve (expandargs getenv sd) req k of (r, k1) \<Rightarrow>
          (if r < 0 then - 1 else 0, sd, k1)))"

section \<open>A new configuration\<close>

definition stdmerge :: "child \<Rightarrow> child \<Rightarrow> child \<times> child" where
  "stdmerge dst src =
     (if ch_iface src = StdHandler then
        (dst\<lparr>ch_std := (ch_std dst)\<lparr>ch_fd := ch_fd (ch_std src)\<rparr>\<rparr>,
         src\<lparr>ch_std := (ch_std src)\<lparr>ch_fd := - 1\<rparr>\<rparr>)
      else (dst, src))"

text \<open>The inner and the outer loop of \<open>mergechildren\<close>.\<close>

fun merge_one :: "child \<Rightarrow> child list \<Rightarrow> child \<times> child list" where
  "merge_one ch1 [] = (ch1, [])"
| "merge_one ch1 (ch2 # src) =
     (if ch_iface ch1 = StdHandler \<and> ch_name ch1 = ch_name ch2 then
        (case stdmerge ch1 ch2 of (ch1', ch2') \<Rightarrow> (ch1', ch2' # src))
      else (case merge_one ch1 src of (ch1', src') \<Rightarrow> (ch1', ch2 # src')))"

fun mergechildren :: "child list \<Rightarrow> child list \<Rightarrow> child list \<times> child list" where
  "mergechildren [] src = ([], src)"
| "mergechildren (ch1 # dst) src =
     (case merge_one ch1 src of (ch1', src1) \<Rightarrow>
      (case mergechildren dst src1 of (dst', src') \<Rightarrow> (ch1' # dst', src')))"

text \<open>The descriptors that \<open>freechild\<close> closes.\<close>

definition freechild :: "child \<Rightarrow> int list" where
  "freechild ch = (if ch_iface ch = StdHandler \<and> ch_fd (ch_std ch) \<ge> 0 then [ch_fd (ch_std ch)] else [])"

section \<open>Descriptors\<close>

definition live :: "int list \<Rightarrow> int multiset" where
  "live fds = mset (filter (\<lambda>f. 0 \<le> f) fds)"

fun spawned :: "action \<Rightarrow> int list" where
  "spawned (Spawn args env f) = [f]"
| "spawned _ = []"

fun closed_fd :: "action \<Rightarrow> int list" where
  "closed_fd (CloseFd f) = [f]"
| "closed_fd _ = []"

fun sent_ok :: "action \<Rightarrow> bool list" where
  "sent_ok (SendReq sk req e) = [e = 0]"
| "sent_ok _ = []"

definition collect :: "(action \<Rightarrow> 'a list) \<Rightarrow> kernel \<Rightarrow> 'a list" where
  "collect f k = concat (map f (k_log k))"

lemma live_simps [simp]: "live [] = {#}" "live (f # fs) = (if 0 \<le> f then {#f#} else {#}) + live fs"
  "live (fs @ gs) = live fs + live gs"
  by (simp_all add: live_def)

lemma collect_log [simp]: "collect f (log_action a k) = collect f k @ f a"
  by (simp add: collect_def log_action_def)

lemma collect_fields [simp]: "collect f (k\<lparr>k_spawns := xs\<rparr>) = collect f k"
  "collect f (k\<lparr>k_sends := xs\<rparr>) = collect f k" "collect f (k\<lparr>k_forks := xs\<rparr>) = collect f k"
  by (simp_all add: collect_def)

text \<open>A part of the handler that neither leaks a descriptor nor closes one twice.\<close>

definition balanced :: "stdchild \<Rightarrow> kernel \<Rightarrow> stdchild \<Rightarrow> kernel \<Rightarrow> bool" where
  "balanced sd k sd' k' \<longleftrightarrow>
     live (collect closed_fd k' @ [ch_fd sd']) + live (collect spawned k) =
     live (collect closed_fd k @ [ch_fd sd]) + live (collect spawned k')"

lemma chain_eq:
  fixes a :: "'a multiset"
  assumes "b + s = a + t" "c + t = b + u"
  shows "c + s = a + u"
proof (rule multiset_eqI)
  fix x
  show "count (c + s) x = count (a + u) x"
    using arg_cong [OF assms(1), of "\<lambda>m. count m x"] arg_cong [OF assms(2), of "\<lambda>m. count m x"] by simp
qed

lemma balanced_refl: "balanced sd k sd k"
  by (simp add: balanced_def)

lemma balanced_trans: "balanced sd k sd1 k1 \<Longrightarrow> balanced sd1 k1 sd2 k2 \<Longrightarrow> balanced sd k sd2 k2"
  unfolding balanced_def by (rule chain_eq)

lemma start_child_law:
  assumes "start_child getenv sd k = (sd', k')"
  shows "collect spawned k' = collect spawned k @ [ch_fd sd']" "collect closed_fd k' = collect closed_fd k"
    "collect sent_ok k' = collect sent_ok k"
  using assms by (auto simp: start_child_def stdmkchild_def split: list.splits)

lemma start_balanced:
  "start_child getenv sd k = (sd', k') \<Longrightarrow> ch_fd sd < 0 \<Longrightarrow> balanced sd k sd' k'"
  by (simp add: balanced_def start_child_law)

lemma restart_balanced:
  "start_child getenv sd (log_action (CloseFd (ch_fd sd)) k) = (sd', k') \<Longrightarrow> balanced sd k sd' k'"
  by (simp add: balanced_def start_child_law add.commute add.left_commute)

lemma send_req_law:
  assumes "send_req sk req k = (e, k')"
  shows "balanced sd k sd k'" "collect sent_ok k' = collect sent_ok k @ [e = 0]"
  using assms by (auto simp: send_req_def balanced_def split: list.splits)

lemma delivered_law:
  assumes "delivered sd k = (r, sd', k')"
  shows "balanced sd k sd' k'" "r = 0 \<and> k' = k"
  using assms by (auto simp: delivered_def balanced_def split: if_splits)

lemma refused_law:
  assumes "refused e sd k = (r, sd', k')"
  shows "balanced sd k sd' k'" "r = - 1 \<and> collect sent_ok k' = collect sent_ok k"
  using assms by (auto simp: refused_def balanced_def split: if_splits)

text \<open>What a call of the handler does, in terms of the first and the possible second attempt.\<close>

lemma stdhandle_law:
  assumes "stdhandle getenv sd req k = (r, sd', k')" "ch_type sd = CH_SOCKET"
  shows "balanced sd k sd' k' \<and> (\<exists>oks. collect sent_ok k' = collect sent_ok k @ oks \<and>
      oks \<in> {[True], [False], [False, True], [False, False]} \<and> (r = 0 \<longleftrightarrow> True \<in> set oks))"
proof -
  obtain sd1 k1 where s1: "(if ch_fd sd < 0 then start_child getenv sd k else (sd, k)) = (sd1, k1)" by fastforce
  obtain e k2 where s2: "send_req (ch_fd sd1) req k1 = (e, k2)" by fastforce
  obtain sd2 k3 where s3: "start_child getenv sd1 (log_action (CloseFd (ch_fd sd1)) k2) = (sd2, k3)" by fastforce
  obtain e2 k4 where s4: "send_req (ch_fd sd2) req k3 = (e2, k4)" by fastforce
  have "balanced sd k sd1 k1" "collect sent_ok k1 = collect sent_ok k"
    using s1 start_balanced [of getenv sd k sd1 k1] start_child_law(3) [of getenv sd k sd1 k1] balanced_refl
    by (auto split: if_splits)
  then have b2: "balanced sd k sd1 k2" "collect sent_ok k2 = collect sent_ok k @ [e = 0]"
    using balanced_trans send_req_law [OF s2] by auto
  then have b4: "balanced sd k sd2 k4" "collect sent_ok k4 = collect sent_ok k @ [e = 0, e2 = 0]"
    using balanced_trans restart_balanced [OF s3] start_child_law(3) [OF s3] send_req_law [OF s4]
    by (blast, simp)
  consider (ok) "delivered sd1 k2 = (r, sd', k')" "e = 0"
    | (ok2) "delivered sd2 k4 = (r, sd', k')" "e \<noteq> 0" "e2 = 0"
    | (bad2) "refused e2 sd2 k4 = (r, sd', k')" "e \<noteq> 0" "e2 \<noteq> 0"
    | (bad) "refused e sd1 k2 = (r, sd', k')" "e \<noteq> 0"
    using assms s1 s2 s3 s4 by (auto simp: stdhandle_def split: if_splits)
  then show ?thesis
  proof cases
    case ok
    with delivered_law [OF ok(1)] b2 show ?thesis by (auto intro: balanced_trans)
  next
    case ok2
    with delivered_law [OF ok2(1)] b4 show ?thesis by (auto intro: balanced_trans)
  next
    case bad2
    with refused_law [OF bad2(1)] b4 show ?thesis by (auto intro: balanced_trans)
  next
    case bad
    with refused_law [OF bad(1)] b2 show ?thesis by (auto intro: balanced_trans)
  qed
qed

text \<open>Merging moves descriptors from the old to the new children.\<close>

definition child_fds :: "child list \<Rightarrow> int list" where
  "child_fds chs = concat (map freechild chs)"

lemma child_fds_simps [simp]: "child_fds [] = []" "child_fds (c # cs) = freechild c @ child_fds cs"
  by (simp_all add: child_fds_def)

lemma merge_one_law:
  assumes "merge_one ch src = (ch', src')" "freechild ch = []"
  shows "live (freechild ch') + live (child_fds src') = live (child_fds src) \<and>
    ch_name ch' = ch_name ch \<and> map ch_name src' = map ch_name src"
  using assms
proof (induction ch src arbitrary: ch' src' rule: merge_one.induct)
  case (2 ch ch2 src)
  show ?case
  proof (cases "ch_iface ch = StdHandler \<and> ch_name ch = ch_name ch2")
    case True
    with 2(2,3) show ?thesis by (auto simp: stdmerge_def freechild_def split: if_splits)
  next
    case False
    obtain c s1 where c: "merge_one ch src = (c, s1)" by fastforce
    with False 2(2) have r: "ch' = c" "src' = ch2 # s1" by auto
    from 2(1) [OF False c 2(3)] r show ?thesis by (simp add: union_assoc union_lcomm)
  qed
qed simp

lemma mergechildren_law:
  assumes "mergechildren dst src = (dst', src')" "\<forall>ch\<in>set dst. freechild ch = []"
  shows "live (child_fds dst') + live (child_fds src') = live (child_fds src) \<and>
    map ch_name dst' = map ch_name dst"
  using assms
proof (induction dst src arbitrary: dst' src' rule: mergechildren.induct)
  case (2 ch dst src)
  obtain ch' s1 where 1: "merge_one ch src = (ch', s1)" by fastforce
  obtain d s2 where d: "mergechildren dst s1 = (d, s2)" by fastforce
  have r: "dst' = ch' # d" "src' = s2" using 2(2) 1 d by auto
  have m: "live (freechild ch') + live (child_fds s1) = live (child_fds src)" "ch_name ch' = ch_name ch"
    "live (child_fds d) + live (child_fds s2) = live (child_fds s1)" "map ch_name d = map ch_name dst"
    using 2(1) [OF 1 [symmetric] d] 2(3) merge_one_law [OF 1] by auto
  from m(2,4) r show ?case by (simp add: union_assoc m(3) m(1))
qed simp

section \<open>Properties\<close>

text \<open>C25. Passing a request to a socket child makes one attempt, or two when the first finds the child
  crashed; it reports success exactly when one attempt succeeded, and never delivers the request
  twice.\<close>

theorem stdhandle_delivers_once:
  assumes "stdhandle getenv sd req k = (r, sd', k')" "ch_type sd = CH_SOCKET"
  shows "\<exists>oks. collect sent_ok k' = collect sent_ok k @ oks \<and> length oks \<le> 2 \<and>
    count_list oks True \<le> 1 \<and> (r = 0 \<longleftrightarrow> count_list oks True = 1)"
  using stdhandle_law [OF assms] by auto

definition a_child :: stdchild where
  "a_child = (new_std CH_SOCKET)\<lparr>ch_argv := Some [''prog'', ''$HOME''], ch_fd := 5\<rparr>"

definition crashing :: kernel where
  "crashing = \<lparr>k_spawns = [9], k_sends = [32, 0], k_forks = [], k_time = 0, k_log = []\<rparr>"

lemma stdhandle_delivers_once_witness:
  "\<exists>sd' k'. stdhandle (\<lambda>v. None) a_child (mkreq ''GET'' ''/'' ''HTTP/1.1'') crashing = (0, sd', k') \<and>
     count_list (collect sent_ok k') True = 1"
proof -
  let ?r = "stdhandle (\<lambda>v. None) a_child (mkreq ''GET'' ''/'' ''HTTP/1.1'') crashing"
  have "fst ?r = 0" by code_simp
  then obtain sd' k' where r: "?r = (0, sd', k')" by (cases ?r) auto
  from stdhandle_delivers_once [OF r] show ?thesis
    using r by (auto simp: a_child_def new_std_def crashing_def collect_def)
qed



text \<open>Merging a new configuration with the running one keeps every connection to a running child
  exactly once: it is either handed to a child of the new configuration or still with the old one,
  which closes it.\<close>

lemma mergechildren_conserves:
  assumes "mergechildren dst src = (dst', src')" "\<forall>ch\<in>set dst. ch_fd (ch_std ch) < 0"
  shows "live (child_fds dst') + live (child_fds src') = live (child_fds src)"
proof -
  have "\<forall>ch\<in>set dst. freechild ch = []" using assms(2) by (auto simp: freechild_def)
  with mergechildren_law [OF assms(1)] show ?thesis by blast
qed

lemma mergechildren_conserves_witness:
  "\<exists>dst' src'. mergechildren [newchild ''a'' StdHandler (new_std CH_SOCKET)] [newchild ''a'' StdHandler a_child] =
       (dst', src') \<and> live (child_fds dst') + live (child_fds src') = {#5#}"
proof -
  let ?m = "mergechildren [newchild ''a'' StdHandler (new_std CH_SOCKET)] [newchild ''a'' StdHandler a_child]"
  obtain d s where ds: "?m = (d, s)" by fastforce
  from mergechildren_conserves [OF ds] show ?thesis
    using ds by (auto simp: newchild_def new_std_def a_child_def freechild_def)
qed

text \<open>A client cannot set an environment variable of its choice in a forked handler: whatever the
  names of its headers, every variable set is \<open>HTTP_VERSION\<close> or starts with \<open>REQ_\<close>, and its name
  has only letters, digits and underscores.\<close>

lemma fork_env_names:
  assumes "(n, v) \<in> set (fork_env req)"
  shows "(n = ''HTTP_VERSION'' \<or> take 4 n = ''REQ_'') \<and> (\<forall>c\<in>set n. isalnum c \<or> c = CHR ''_'')"
proof -
  have alnum: "isalnum c \<Longrightarrow> isalnum (toupper c)" for c
    by (auto simp: isalnum_def toupper_def isupper_def islower_def isdigit_def ord_chr_id)
  have lit: "\<forall>c\<in>set ''REQ_''. isalnum c \<or> c = CHR ''_''" "\<forall>c\<in>set ''HTTP_VERSION''. isalnum c \<or> c = CHR ''_''"
    by code_simp+
  consider "n = ''HTTP_VERSION''" | h where "n = env_name h" using assms by (auto simp: fork_env_def)
  then show ?thesis
  proof cases
    case 1
    with lit(2) show ?thesis by simp
  next
    case 2
    with alnum lit(1) show ?thesis by (auto simp: env_name_def)
  qed
qed

lemma fork_env_names_witness:
  "(''REQ_A__B'', ''x'') \<in> set (fork_env (headappheader (mkreq ''GET'' ''/'' ''HTTP/1.1'') ''a=-b'' ''x'')) \<and>
     (\<forall>c\<in>set ''REQ_A__B''. isalnum c \<or> c = CHR ''_'')"
proof -
  have "(''REQ_A__B'', ''x'') \<in> set (fork_env (headappheader (mkreq ''GET'' ''/'' ''HTTP/1.1'') ''a=-b'' ''x''))"
    by code_simp
  with fork_env_names [OF this] show ?thesis by blast
qed

text \<open>In the argument of a child, a variable in braces is replaced by its value, or by nothing when
  it is not set; the text before it is kept and the rest is expanded in turn, but not the value.\<close>

lemma expand_arg_braces:
  assumes "CHR ''$'' \<notin> set a" "CHR ''}'' \<notin> set v"
  shows "expand_arg getenv (a @ ''${'' @ v @ ''}'' @ b) = a @ env_val getenv v @ expand_arg getenv b"
proof -
  have "strchr (a @ CHR ''$'' # CHR ''{'' # v @ CHR ''}'' # b) (CHR ''$'') =
      Some (a, CHR ''$'' # CHR ''{'' # v @ CHR ''}'' # b)" using assms(1) by (rule strchr_append)
  moreover have "strchr (v @ CHR ''}'' # b) (CHR ''}'') = Some (v, CHR ''}'' # b)"
    using assms(2) by (rule strchr_append)
  ultimately show ?thesis by (subst expand_arg.simps) simp
qed

lemma expand_arg_braces_witness:
  "expand_arg (\<lambda>v. if v = ''A'' then Some ''$A'' else None) ''x${A}y'' = ''x$Ay''"
  using expand_arg_braces [of "''x''" "''A''" "\<lambda>v. if v = ''A'' then Some ''$A'' else None" "''y''"]
  by (simp add: env_val_def)

end
