(* ===== verification/Patplex.thy ===== *)
theory Patplex
  imports Children
begin

text \<open>
  The pattern-matching multiplexer \<open>src/patplex.c\<close>: reading \<open>match\<close> stanzas, choosing the pattern a
  request goes to, rewriting the request and passing it to the child the pattern names.

  The regular expressions of the C library are the parameters \<open>regcomp\<close> and \<open>regexec\<close>; \<open>'r\<close> is the
  type of compiled ones. The strings captured for a pattern live in allocated blocks that several
  pointers may share, so they are kept in an explicit store, with freed blocks marked.
\<close>

section \<open>Data\<close>

datatype rule_type = PAT_REST | PAT_URL | PAT_METHOD | PAT_HEADER | PAT_ALL

datatype handler = HND_NONE | HND_CHILD | HND_REPARSE

record 'r rule =
  r_type :: rule_type
  r_mss :: bool
  r_unq :: bool
  r_header :: "cstring option"
  r_pattern :: "'r option"

record 'r pattern =
  p_headers :: "(cstring \<times> cstring) list"
  childnm :: "cstring option"
  p_rules :: "'r rule list"
  restpat :: "cstring option"
  p_handler :: handler
  prio :: int
  disable :: bool

record 'r config =
  children :: "child list"
  patterns :: "'r pattern list"

definition newrule :: "'r rule" where
  "newrule = \<lparr>r_type = PAT_REST, r_mss = False, r_unq = False, r_header = None, r_pattern = None\<rparr>"

definition newpattern :: "'r pattern" where
  "newpattern = \<lparr>p_headers = [], childnm = None, p_rules = [], restpat = None, p_handler = HND_NONE,
     prio = 0, disable = False\<rparr>"

definition getchild :: "'r config \<Rightarrow> cstring \<Rightarrow> nat option" where
  "getchild cf name =
     (case dropWhile (\<lambda>i. ch_name (children cf ! i) \<noteq> name) [0..<length (children cf)] of
        [] \<Rightarrow> None | i # _ \<Rightarrow> Some i)"

section \<open>Reading the configuration\<close>

text \<open>The flags are the argument at position \<open>i\<close>, when there is one.\<close>

definition has_flag :: "cstring list \<Rightarrow> nat \<Rightarrow> char \<Rightarrow> bool" where
  "has_flag w i c \<longleftrightarrow> i < length w \<and> c \<in> set (w ! i)"

definition add_rule :: "'r rule \<Rightarrow> 'r pattern \<Rightarrow> 'r pattern" where
  "add_rule r pat = pat\<lparr>p_rules := p_rules pat @ [r]\<rparr>"

text \<open>\<open>regcomp\<close> is given the expression and whether case is ignored.\<close>

definition string_rule :: "(cstring \<Rightarrow> bool \<Rightarrow> 'r option) \<Rightarrow> cstring list \<Rightarrow> 'r pattern \<Rightarrow> 'r pattern" where
  "string_rule regcomp w pat =
     (if length w < 2 then pat
      else (case regcomp (w ! 1) (has_flag w 2 (CHR ''i'')) of
          None \<Rightarrow> pat
        | Some rx \<Rightarrow> add_rule (newrule
            \<lparr>r_type := (if w ! 0 = ''point'' then PAT_REST else if w ! 0 = ''url'' then PAT_URL else PAT_METHOD),
             r_pattern := Some rx, r_mss := has_flag w 2 (CHR ''s''), r_unq := has_flag w 2 (CHR ''q'')\<rparr>) pat))"

definition header_rule :: "(cstring \<Rightarrow> bool \<Rightarrow> 'r option) \<Rightarrow> cstring list \<Rightarrow> 'r pattern \<Rightarrow> 'r pattern" where
  "header_rule regcomp w pat =
     (if length w < 3 then pat
      else (case regcomp (w ! 2) (has_flag w 3 (CHR ''i'')) of
          None \<Rightarrow> pat
        | Some rx \<Rightarrow> add_rule (newrule
            \<lparr>r_type := PAT_HEADER, r_header := Some (w ! 1), r_pattern := Some rx,
             r_mss := has_flag w 3 (CHR ''s'')\<rparr>) pat))"

text \<open>One line of a stanza; the lines that end it are not handled here.\<close>

definition pattern_line :: "(cstring \<Rightarrow> bool \<Rightarrow> 'r option) \<Rightarrow> cstring list \<Rightarrow> 'r pattern \<Rightarrow> 'r pattern" where
  "pattern_line regcomp w pat =
    (let d = w ! 0 in
     if d = ''point'' \<or> d = ''url'' \<or> d = ''method'' then string_rule regcomp w pat
     else if d = ''header'' then header_rule regcomp w pat
     else if d = ''all'' then add_rule (newrule\<lparr>r_type := PAT_ALL\<rparr>) pat
     else if d = ''default'' then (add_rule (newrule\<lparr>r_type := PAT_ALL\<rparr>) pat)\<lparr>prio := - 10\<rparr>
     else if d = ''order'' \<or> d = ''priority'' then
       (if length w < 2 then pat else pat\<lparr>prio := atoi (w ! 1)\<rparr>)
     else if d = ''handler'' then
       (if length w < 2 then pat else pat\<lparr>childnm := Some (w ! 1), p_handler := HND_CHILD\<rparr>)
     else if d = ''reparse'' then pat\<lparr>p_handler := HND_REPARSE\<rparr>
     else if d = ''restpat'' then (if length w < 2 then pat else pat\<lparr>restpat := Some (w ! 1)\<rparr>)
     else if d = ''set'' \<or> d = ''xset'' then
       (if length w < 3 then pat
        else pat\<lparr>p_headers := (if d = ''xset'' then ''X-Ash-'' @ w ! 1 else w ! 1, w ! 2) # p_headers pat\<rparr>)
     else pat)"

partial_function (option) pattern_lines ::
  "filesys \<Rightarrow> (cstring \<Rightarrow> bool \<Rightarrow> 'r option) \<Rightarrow> 'r pattern \<Rightarrow> cfstate \<Rightarrow>
    (cf_err + 'r pattern \<times> cfstate) option" where
  "pattern_lines fsys regcomp pat s = (case getcfline fsys s of
      None \<Rightarrow> None
    | Some (Inl e) \<Rightarrow> Some (Inl e)
    | Some (Inr s1) \<Rightarrow>
        (if argv s1 ! 0 = ''end'' \<or> argv s1 ! 0 = ''eof'' then Some (Inr (pat, s1))
         else pattern_lines fsys regcomp (pattern_line regcomp (argv s1) pat) s1))"

definition parsepattern :: "filesys \<Rightarrow> (cstring \<Rightarrow> bool \<Rightarrow> 'r option) \<Rightarrow> cfstate \<Rightarrow>
    (cf_err + 'r pattern option \<times> cfstate) option" where
  "parsepattern fsys regcomp s =
     (if argv s ! 0 \<noteq> ''match'' then Some (Inr (None, s))
      else (case pattern_lines fsys regcomp newpattern (s\<lparr>expstart := True\<rparr>) of
          None \<Rightarrow> None
        | Some (Inl e) \<Rightarrow> Some (Inl e)
        | Some (Inr (pat, s1)) \<Rightarrow>
            Some (Inr (if p_rules pat = [] \<or> p_handler pat = HND_NONE then None else Some pat, s1))))"

partial_function (option) config_lines ::
  "filesys \<Rightarrow> (cstring \<Rightarrow> bool \<Rightarrow> 'r option) \<Rightarrow> 'r config \<Rightarrow> cfstate \<Rightarrow> (cf_err + 'r config) option" where
  "config_lines fsys regcomp cf s = (case getcfline fsys s of
      None \<Rightarrow> None
    | Some (Inl e) \<Rightarrow> Some (Inl e)
    | Some (Inr s1) \<Rightarrow> (case parsechild fsys s1 of
        None \<Rightarrow> None
      | Some (Inl e) \<Rightarrow> Some (Inl e)
      | Some (Inr (Some ch, s2)) \<Rightarrow> config_lines fsys regcomp (cf\<lparr>children := ch # children cf\<rparr>) s2
      | Some (Inr (None, s2)) \<Rightarrow> (case parsepattern fsys regcomp s2 of
          None \<Rightarrow> None
        | Some (Inl e) \<Rightarrow> Some (Inl e)
        | Some (Inr (Some pat, s3)) \<Rightarrow>
            config_lines fsys regcomp (cf\<lparr>patterns := pat # patterns cf\<rparr>) s3
        | Some (Inr (None, s3)) \<Rightarrow>
            (if argv s3 ! 0 = ''eof'' then Some (Inr cf) else config_lines fsys regcomp cf s3))))"

declare pattern_lines.simps [code] config_lines.simps [code]

text \<open>\<open>Inr None\<close> is a file that cannot be opened.\<close>

definition readconfig :: "filesys \<Rightarrow> (cstring \<Rightarrow> bool \<Rightarrow> 'r option) \<Rightarrow> cstring \<Rightarrow>
    (cf_err + 'r config option) option" where
  "readconfig fsys regcomp filename = (case fs_open fsys filename of
      None \<Rightarrow> Some (Inr None)
    | Some inp \<Rightarrow> (case mkcfparser fsys inp filename of
        None \<Rightarrow> None
      | Some (Inl e) \<Rightarrow> Some (Inl e)
      | Some (Inr s) \<Rightarrow> map_option (map_sum id Some)
          (config_lines fsys regcomp \<lparr>children = [], patterns = []\<rparr> s)))"

text \<open>
  \<open>reloadconf\<close>: the new configuration and the descriptors that \<open>freeconfig\<close> closes with the old one.
\<close>

definition freeconfig :: "'r config \<Rightarrow> int list" where
  "freeconfig cf = child_fds (children cf)"

definition reloadconf :: "filesys \<Rightarrow> (cstring \<Rightarrow> bool \<Rightarrow> 'r option) \<Rightarrow> cstring \<Rightarrow> 'r config \<Rightarrow>
    (cf_err + 'r config \<times> int list) option" where
  "reloadconf fsys regcomp nm lconfig = (case readconfig fsys regcomp nm of
      None \<Rightarrow> None
    | Some (Inl e) \<Rightarrow> Some (Inl e)
    | Some (Inr None) \<Rightarrow> Some (Inr (lconfig, []))
    | Some (Inr (Some cf)) \<Rightarrow>
        (case mergechildren (children cf) (children lconfig) of (new, old) \<Rightarrow>
          Some (Inr (cf\<lparr>children := new\<rparr>, freeconfig (lconfig\<lparr>children := old\<rparr>)))))"

section \<open>Rewriting the rest string\<close>

text \<open>
  The loop of \<open>exprestpat\<close>; \<open>ms\<close> are the captured strings. After a header in braces the code stays at
  the opening brace.
\<close>

function exprest :: "hthead \<Rightarrow> cstring list \<Rightarrow> cstring \<Rightarrow> cstring" where
  "exprest req ms [] = []"
| "exprest req ms (c # p) =
     (if c \<noteq> CHR ''$'' then c # exprest req ms p
      else (case p of
          [] \<Rightarrow> []
        | d # q \<Rightarrow>
            if isdigit d then (if nat (ord d - 48) < length ms then ms ! nat (ord d - 48) else []) @ exprest req ms q
            else if d = CHR ''_'' then the (hd_rest req) @ exprest req ms q
            else if d = CHR ''$'' then CHR ''$'' # exprest req ms q
            else if d = CHR ''{'' then
              (case strchr p (CHR ''}'') of
                 None \<Rightarrow> exprest req ms q
               | Some (a, _) \<Rightarrow>
                   (case getheader req (tl a) of None \<Rightarrow> [] | Some v \<Rightarrow> v) @ exprest req ms p)
            else exprest req ms p))"
  by pat_completeness auto
termination by (relation "measure (length \<circ> snd \<circ> snd)") auto

declare exprest.simps(2) [simp del]

text \<open>\<open>exprestpat\<close> with the strings of the match, or none for a null pointer.\<close>

definition exprestpat :: "hthead \<Rightarrow> cstring \<Rightarrow> cstring list \<Rightarrow> hthead" where
  "exprestpat req tmpl ms = replrest req (cstr (exprest req ms tmpl))"

section \<open>Matching\<close>

text \<open>
  \<open>qoffsets\<close>: the unquoted bytes, each with the offset it comes from; the last offset is that of the
  terminating NUL.
\<close>

fun unquote_from :: "nat \<Rightarrow> cstring \<Rightarrow> (char \<times> nat) list" where
  "unquote_from i [] = []"
| "unquote_from i (c # s) =
     (case s of
        h1 # h2 # t \<Rightarrow>
          (if c = CHR ''%'' \<and> hexdigit h1 \<ge> 0 \<and> hexdigit h2 \<ge> 0
           then (chr (hexdigit h1 * 16 + hexdigit h2), i) # unquote_from (i + 3) t
           else (c, i) # unquote_from (i + 1) s)
      | _ \<Rightarrow> (c, i) # unquote_from (i + 1) s)"

definition qoffsets :: "cstring \<Rightarrow> bool \<Rightarrow> string \<times> nat list" where
  "qoffsets pstr unquote =
    (let bs = (if unquote then unquote_from 0 pstr else zip pstr [0..<length pstr])
     in (map fst bs, map snd bs @ [length pstr]))"

text \<open>The store of captured strings; a freed block is \<open>None\<close>.\<close>

type_synonym store = "cstring list option list"

datatype memerr = UseAfterFree | DoubleFree

text \<open>\<open>freeca\<close>, which takes a null pointer.\<close>

definition freeca :: "nat option \<Rightarrow> store \<Rightarrow> memerr + store" where
  "freeca a mem = (case a of
      None \<Rightarrow> Inr mem
    | Some i \<Rightarrow> if mem ! i = None then Inl DoubleFree else Inr (mem[i := None]))"

text \<open>What \<open>regexec\<close> returns: the ends of the groups, negative for one that took no part.\<close>

type_synonym groups = "(int \<times> int) list"

definition captures :: "cstring \<Rightarrow> nat list \<Rightarrow> groups \<Rightarrow> cstring list" where
  "captures pstr obuf gr = map (\<lambda>(so, eo). take (obuf ! nat eo - obuf ! nat so) (drop (obuf ! nat so) pstr))
     (takeWhile (\<lambda>(so, eo). so \<ge> 0) (take 10 gr))"

text \<open>The string a rule looks at; \<open>None\<close> is a header the request does not have.\<close>

definition rule_string :: "hthead \<Rightarrow> 'r rule \<Rightarrow> cstring option" where
  "rule_string req r = (case r_type r of
      PAT_REST \<Rightarrow> hd_rest req
    | PAT_URL \<Rightarrow> hd_url req
    | PAT_METHOD \<Rightarrow> hd_method req
    | PAT_HEADER \<Rightarrow> getheader req (the (r_header r))
    | PAT_ALL \<Rightarrow> Some [])"

text \<open>The loop over the rules of a pattern: whether all matched, and \<open>rmo\<close>, \<open>mstr\<close> and the store.\<close>

fun match_rules :: "('r \<Rightarrow> cstring \<Rightarrow> groups option) \<Rightarrow> hthead \<Rightarrow> 'r rule list \<Rightarrow> int \<Rightarrow> nat option \<Rightarrow> store \<Rightarrow>
    memerr + bool \<times> int \<times> nat option \<times> store" where
  "match_rules regexec req [] rmo mstr mem = Inr (True, rmo, mstr, mem)"
| "match_rules regexec req (r # rs) rmo mstr mem =
     (if r_type r = PAT_ALL then match_rules regexec req rs rmo mstr mem
      else (case rule_string req r of
          None \<Rightarrow> Inr (False, rmo, mstr, mem)
        | Some pstr \<Rightarrow> (case qoffsets pstr (r_unq r) of (pbuf, obuf) \<Rightarrow>
            (case regexec (the (r_pattern r)) (cstr pbuf) of
               None \<Rightarrow> Inr (False, rmo, mstr, mem)
             | Some gr \<Rightarrow>
                 (let rmo1 = (if r_type r = PAT_REST then int (obuf ! nat (snd (gr ! 0))) else rmo) in
                  if r_mss r then
                    (case freeca mstr mem of
                       Inl e \<Rightarrow> Inl e
                     | Inr mem1 \<Rightarrow> match_rules regexec req rs rmo1 (Some (length mem1))
                         (mem1 @ [Some (captures pstr obuf gr)]))
                  else match_rules regexec req rs rmo1 mstr mem)))))"

text \<open>A match: where the pattern is (in the global configuration or not, and its place), the pattern,
  the captured strings and the end of the matched part of the rest string.\<close>

record 'r match =
  m_global :: bool
  m_ix :: nat
  m_pat :: "'r pattern"
  m_mstr :: "nat option"
  m_rmo :: int

definition freematch :: "'r match \<Rightarrow> store \<Rightarrow> memerr + store" where
  "freematch m mem = freeca (m_mstr m) mem"

definition skipped :: "'r pattern \<Rightarrow> 'r match option \<Rightarrow> bool" where
  "skipped pat best \<longleftrightarrow> disable pat \<or> (case best of None \<Rightarrow> False | Some m \<Rightarrow> prio pat \<le> prio (m_pat m))"

text \<open>The loop of \<open>findmatch\<close> over the patterns from place \<open>i\<close>. \<open>mstr\<close> is not reset between them.\<close>

fun find_from :: "('r \<Rightarrow> cstring \<Rightarrow> groups option) \<Rightarrow> hthead \<Rightarrow> bool \<Rightarrow> nat \<Rightarrow> 'r pattern list \<Rightarrow>
    'r match option \<Rightarrow> nat option \<Rightarrow> store \<Rightarrow> memerr + 'r match option \<times> store" where
  "find_from regexec req g i [] best mstr mem = Inr (best, mem)"
| "find_from regexec req g i (pat # pats) best mstr mem =
     (if skipped pat best then find_from regexec req g (i + 1) pats best mstr mem
      else (case match_rules regexec req (p_rules pat) (- 1) mstr mem of
          Inl e \<Rightarrow> Inl e
        | Inr (ok, rmo, mstr1, mem1) \<Rightarrow>
            if \<not> ok then find_from regexec req g (i + 1) pats best mstr1 mem1
            else (case (case best of None \<Rightarrow> Inr mem1 | Some m \<Rightarrow> freematch m mem1) of
                Inl e \<Rightarrow> Inl e
              | Inr mem2 \<Rightarrow> find_from regexec req g (i + 1) pats
                  (Some \<lparr>m_global = g, m_ix = i, m_pat = pat, m_mstr = mstr1, m_rmo = rmo\<rparr>) mstr1 mem2)))"

definition findmatch :: "('r \<Rightarrow> cstring \<Rightarrow> groups option) \<Rightarrow> hthead \<Rightarrow> bool \<Rightarrow> 'r config \<Rightarrow>
    'r match option \<Rightarrow> store \<Rightarrow> memerr + 'r match option \<times> store" where
  "findmatch regexec req g cf best mem = find_from regexec req g 0 (patterns cf) best None mem"

section \<open>Serving a request\<close>

definition set_headers :: "(cstring \<times> cstring) list \<Rightarrow> hthead \<Rightarrow> hthead" where
  "set_headers hs req = foldl (\<lambda>rq (n, v). headappheader (headrmheader rq n) n v) req hs"

text \<open>\<open>execmatch\<close>; the captured strings are only read for a \<open>restpat\<close>.\<close>

definition execmatch :: "hthead \<Rightarrow> 'r match \<Rightarrow> store \<Rightarrow> memerr + hthead" where
  "execmatch req m mem =
     (case (case restpat (m_pat m) of
         Some tmpl \<Rightarrow> (case m_mstr m of
             None \<Rightarrow> Inr (exprestpat req tmpl [])
           | Some i \<Rightarrow> (case mem ! i of
               None \<Rightarrow> Inl UseAfterFree
             | Some ms \<Rightarrow> Inr (exprestpat req tmpl ms)))
       | None \<Rightarrow> Inr (if m_rmo m \<noteq> - 1 then replrest req (drop (nat (m_rmo m)) (the (hd_rest req))) else req)) of
        Inl e \<Rightarrow> Inl e
      | Inr rq \<Rightarrow> Inr (set_headers (p_headers (m_pat m)) rq))"

text \<open>
  What becomes of a request: an error page, or a child (of the global configuration or not, by its
  place) and the request as it is passed on.
\<close>

datatype outcome = ErrorPage int | ToChild bool nat hthead

definition route_child :: "'r config \<Rightarrow> 'r config option \<Rightarrow> cstring \<Rightarrow> hthead \<Rightarrow> outcome" where
  "route_child lcf gcf name req =
     (case getchild lcf name of
        Some i \<Rightarrow> ToChild False i req
      | None \<Rightarrow> (case gcf of
          None \<Rightarrow> ErrorPage 500
        | Some g \<Rightarrow> (case getchild g name of Some i \<Rightarrow> ToChild True i req | None \<Rightarrow> ErrorPage 500)))"

definition set_disable :: "nat \<Rightarrow> 'r config \<Rightarrow> 'r config" where
  "set_disable i cf = cf\<lparr>patterns := (patterns cf)[i := (patterns cf ! i)\<lparr>disable := True\<rparr>]\<rparr>"

definition enabled :: "'r config \<Rightarrow> nat" where
  "enabled cf = length (filter (\<lambda>p. \<not> disable p) (patterns cf))"

text \<open>The two searches at the start of \<open>serve\<close>.\<close>

definition find_both :: "('r \<Rightarrow> cstring \<Rightarrow> groups option) \<Rightarrow> hthead \<Rightarrow> 'r config \<Rightarrow> 'r config option \<Rightarrow>
    store \<Rightarrow> memerr + 'r match option \<times> store" where
  "find_both regexec req lcf gcf mem = (case findmatch regexec req False lcf None mem of
      Inl e \<Rightarrow> Inl e
    | Inr (best, mem1) \<Rightarrow> (case gcf of
        None \<Rightarrow> Inr (best, mem1)
      | Some g \<Rightarrow> findmatch regexec req True g best mem1))"

text \<open>The match is of a pattern that is enabled, at its place.\<close>

definition good_match :: "'r config \<Rightarrow> 'r config option \<Rightarrow> 'r match \<Rightarrow> bool" where
  "good_match lcf gcf m \<longleftrightarrow> (\<exists>cf. (if m_global m then gcf = Some cf else cf = lcf) \<and>
     m_ix m < length (patterns cf) \<and> patterns cf ! m_ix m = m_pat m \<and> \<not> disable (m_pat m))"

lemma find_from_step:
  assumes "find_from regexec req g i (pat # pats) best mstr mem = Inr (b', mem')"
  obtains (skip) "skipped pat best" "find_from regexec req g (i + 1) pats best mstr mem = Inr (b', mem')"
  | (fail) rmo ms mm where "\<not> skipped pat best"
      "match_rules regexec req (p_rules pat) (- 1) mstr mem = Inr (False, rmo, ms, mm)"
      "find_from regexec req g (i + 1) pats best ms mm = Inr (b', mem')"
  | (take) rmo ms mm mm2 where "\<not> skipped pat best"
      "match_rules regexec req (p_rules pat) (- 1) mstr mem = Inr (True, rmo, ms, mm)"
      "find_from regexec req g (i + 1) pats
         (Some \<lparr>m_global = g, m_ix = i, m_pat = pat, m_mstr = ms, m_rmo = rmo\<rparr>) ms mm2 = Inr (b', mem')"
proof (cases "skipped pat best")
  case True
  with assms skip show thesis by simp
next
  case False
  with assms fail take show thesis by (auto split: sum.splits prod.splits if_splits)
qed

lemma find_from_good:
  assumes "find_from regexec req g i pats best mstr mem = Inr (Some m, mem')"
  shows "best = Some m \<or> (m_global m = g \<and> i \<le> m_ix m \<and> m_ix m < i + length pats \<and>
    pats ! (m_ix m - i) = m_pat m \<and> \<not> disable (m_pat m))"
  using assms
proof (induction pats arbitrary: i best mstr mem)
  case (Cons pat pats)
  have tail: "b = Some m \<or> (m_global m = g \<and> i \<le> m_ix m \<and> m_ix m < i + length (pat # pats) \<and>
      (pat # pats) ! (m_ix m - i) = m_pat m \<and> \<not> disable (m_pat m))"
    if "find_from regexec req g (i + 1) pats b ms mm = Inr (Some m, mem')" for b ms mm
    using Cons.IH [OF that] by (auto simp: nth_Cons')
  from Cons.prems show ?case
  proof (cases rule: find_from_step)
    case take
    with tail [OF take(3)] show ?thesis by (auto simp: skipped_def)
  qed (use tail in blast)+
qed simp

lemma find_both_good:
  "find_both regexec req lcf gcf mem = Inr (Some m, mem') \<Longrightarrow> good_match lcf gcf m"
  by (auto simp: find_both_def findmatch_def good_match_def split: sum.splits option.splits
      dest!: find_from_good)

lemma set_disable_fewer:
  assumes "i < length (patterns cf)" "\<not> disable (patterns cf ! i)"
  shows "enabled (set_disable i cf) < enabled cf"
proof -
  let ?ps = "patterns cf"
  have 1: "?ps = take i ?ps @ ?ps ! i # drop (Suc i) ?ps" using assms(1) by (rule id_take_nth_drop)
  have 2: "patterns (set_disable i cf) = take i ?ps @ (?ps ! i)\<lparr>disable := True\<rparr> # drop (Suc i) ?ps"
    using assms(1) by (simp add: set_disable_def upd_conv_take_nth_drop)
  have "enabled cf = length (filter (\<lambda>p. \<not> disable p) (take i ?ps)) + 1 +
      length (filter (\<lambda>p. \<not> disable p) (drop (Suc i) ?ps))"
    unfolding enabled_def by (subst 1) (use assms(2) in simp)
  then show ?thesis by (simp add: enabled_def 2)
qed

text \<open>
  \<open>serve\<close>: the outcome, if there is one, and the error that ends the process, if there is one. A
  \<open>reparse\<close> serves the rewritten request with the pattern disabled; the code enables it again
  afterwards, which the argument passing does by itself.
\<close>

definition disable_match :: "'r match \<Rightarrow> 'r config \<Rightarrow> 'r config option \<Rightarrow> 'r config \<times> 'r config option" where
  "disable_match m lcf gcf =
     (if m_global m then (lcf, map_option (set_disable (m_ix m)) gcf) else (set_disable (m_ix m) lcf, gcf))"

lemma disable_match_fewer:
  assumes "find_both regexec req lcf gcf mem = Inr (Some m, mem')" "disable_match m lcf gcf = (l, g)"
  shows "enabled l + (case g of None \<Rightarrow> 0 | Some cf \<Rightarrow> enabled cf) <
    enabled lcf + (case gcf of None \<Rightarrow> 0 | Some cf \<Rightarrow> enabled cf)"
  using find_both_good [OF assms(1)] assms(2)
  by (auto simp: good_match_def disable_match_def intro!: set_disable_fewer split: if_splits)

function serve :: "('r \<Rightarrow> cstring \<Rightarrow> groups option) \<Rightarrow> 'r config \<Rightarrow> 'r config option \<Rightarrow> hthead \<Rightarrow> store \<Rightarrow>
    outcome option \<times> (memerr + store)" where
  "serve regexec lcf gcf req mem =
     (case find_both regexec req lcf gcf mem of
        Inl e \<Rightarrow> (None, Inl e)
      | Inr (None, mem1) \<Rightarrow> (Some (ErrorPage 404), Inr mem1)
      | Inr (Some m, mem1) \<Rightarrow>
          (case execmatch req m mem1 of
             Inl e \<Rightarrow> (None, Inl e)
           | Inr req1 \<Rightarrow>
               (case (if p_handler (m_pat m) = HND_REPARSE then
                    (case disable_match m lcf gcf of (lcf1, gcf1) \<Rightarrow> serve regexec lcf1 gcf1 req1 mem1)
                  else (Some (route_child lcf gcf (the (childnm (m_pat m))) req1), Inr mem1)) of
                  (out, Inl e) \<Rightarrow> (out, Inl e)
                | (out, Inr mem2) \<Rightarrow> (out, freematch m mem2))))"
  by pat_completeness auto
termination
proof (relation "measure (\<lambda>(regexec, lcf, gcf, req, mem). enabled lcf +
    (case gcf of None \<Rightarrow> 0 | Some g \<Rightarrow> enabled g))", goal_cases)
  case 2
  then show ?case by simp (metis disable_match_fewer)
qed simp

declare serve.simps [simp del]

text \<open>
  Passing the request to the child, with \<open>childerror\<close> when it does not take it: the configuration
  with the new state of the child, the error page sent, if any, and the kernel.
\<close>

definition update_child :: "nat \<Rightarrow> stdchild \<Rightarrow> 'r config \<Rightarrow> 'r config" where
  "update_child i d cf = cf\<lparr>children := (children cf)[i := (children cf ! i)\<lparr>ch_std := d\<rparr>]\<rparr>"

definition deliver :: "(cstring \<Rightarrow> cstring option) \<Rightarrow> outcome \<Rightarrow> 'r config \<Rightarrow> 'r config option \<Rightarrow> kernel \<Rightarrow>
    int option \<times> 'r config \<times> 'r config option \<times> kernel" where
  "deliver getenv out lcf gcf k = (case out of
      ErrorPage code \<Rightarrow> (Some code, lcf, gcf, k)
    | ToChild g i req \<Rightarrow>
        (case stdhandle getenv (ch_std (children (if g then the gcf else lcf) ! i)) req k of (r, d, k1) \<Rightarrow>
          (if r \<noteq> 0 then Some 500 else None,
           if g then lcf else update_child i d lcf,
           if g then map_option (update_child i d) gcf else gcf, k1)))"

section \<open>Which pattern is chosen\<close>

text \<open>Whether a pattern is enabled and all its rules match, without regard to the captured strings.\<close>

definition rule_matches :: "('r \<Rightarrow> cstring \<Rightarrow> groups option) \<Rightarrow> hthead \<Rightarrow> 'r rule \<Rightarrow> bool" where
  "rule_matches regexec req r \<longleftrightarrow> r_type r = PAT_ALL \<or> (case rule_string req r of
      None \<Rightarrow> False
    | Some pstr \<Rightarrow> regexec (the (r_pattern r)) (cstr (fst (qoffsets pstr (r_unq r)))) \<noteq> None)"

definition applies :: "('r \<Rightarrow> cstring \<Rightarrow> groups option) \<Rightarrow> hthead \<Rightarrow> 'r pattern \<Rightarrow> bool" where
  "applies regexec req pat \<longleftrightarrow> \<not> disable pat \<and> (\<forall>r\<in>set (p_rules pat). rule_matches regexec req r)"

lemma match_rules_ok:
  "match_rules regexec req rs rmo mstr mem = Inr (ok, rmo', mstr', mem') \<Longrightarrow>
     ok \<longleftrightarrow> (\<forall>r\<in>set rs. rule_matches regexec req r)"
proof (induction rs arbitrary: rmo mstr mem)
  case (Cons r rs)
  obtain pbuf obuf pstr where q: "qoffsets pstr (r_unq r) = (pbuf, obuf)" "rule_string req r \<noteq> None \<Longrightarrow> rule_string req r = Some pstr"
    using surj_pair [of "qoffsets (the (rule_string req r)) (r_unq r)"] by fastforce
  show ?case
  proof (cases "r_type r = PAT_ALL \<or> rule_string req r = None")
    case True
    show ?thesis
    proof (cases "r_type r = PAT_ALL")
      case True
      moreover from this have "rule_matches regexec req r" by (simp add: rule_matches_def)
      ultimately show ?thesis using Cons.IH Cons.prems by simp
    next
      case False
      with True have "\<not> rule_matches regexec req r" by (simp add: rule_matches_def)
      with False True Cons.prems show ?thesis by simp
    qed
  next
    case False
    then have p: "rule_string req r = Some pstr" using q(2) by blast
    show ?thesis
    proof (cases "regexec (the (r_pattern r)) (cstr pbuf)")
      case None
      with Cons.prems False p q(1) show ?thesis by (auto simp: rule_matches_def)
    next
      case (Some gr)
      then have "rule_matches regexec req r" using p q(1) by (simp add: rule_matches_def)
      moreover from Cons.prems False p q(1) Some obtain rmo1 ms mm where
        "match_rules regexec req rs rmo1 ms mm = Inr (ok, rmo', mstr', mem')"
        by (auto simp: Let_def split: if_splits sum.splits)
      ultimately show ?thesis using Cons.IH by simp
    qed
  qed
qed simp

text \<open>\<open>best\<close> is the first of the patterns with the highest priority among those that apply.\<close>

definition is_best :: "('r \<Rightarrow> cstring \<Rightarrow> groups option) \<Rightarrow> hthead \<Rightarrow> 'r pattern list \<Rightarrow> 'r pattern option \<Rightarrow> bool" where
  "is_best regexec req pats best \<longleftrightarrow> (case best of
      None \<Rightarrow> \<forall>q\<in>set pats. \<not> applies regexec req q
    | Some p \<Rightarrow> applies regexec req p \<and> (\<exists>pre post. pats = pre @ p # post \<and>
        (\<forall>q\<in>set pre. applies regexec req q \<longrightarrow> prio q < prio p) \<and>
        (\<forall>q\<in>set post. applies regexec req q \<longrightarrow> prio q \<le> prio p)))"

lemma is_best_keep:
  assumes "is_best regexec req pats best"
    "\<not> applies regexec req q \<or> (\<exists>p. best = Some p \<and> prio q \<le> prio p)"
  shows "is_best regexec req (pats @ [q]) best"
proof (cases best)
  case None
  with assms show ?thesis by (simp add: is_best_def)
next
  case (Some p)
  with assms obtain pre post where pp: "pats = pre @ p # post"
    "\<forall>r\<in>set pre. applies regexec req r \<longrightarrow> prio r < prio p"
    "\<forall>r\<in>set post. applies regexec req r \<longrightarrow> prio r \<le> prio p" "applies regexec req p"
    by (auto simp: is_best_def)
  have "pats @ [q] = pre @ p # (post @ [q])" by (simp add: pp(1))
  moreover have "\<forall>r\<in>set (post @ [q]). applies regexec req r \<longrightarrow> prio r \<le> prio p"
    using pp(3) assms(2) Some by auto
  ultimately show ?thesis using pp(2,4) Some unfolding is_best_def by fastforce
qed

lemma is_best_take:
  assumes "is_best regexec req pats best" "applies regexec req q" "\<And>p. best = Some p \<Longrightarrow> prio p < prio q"
  shows "is_best regexec req (pats @ [q]) (Some q)"
proof -
  have "\<forall>r\<in>set pats. applies regexec req r \<longrightarrow> prio r < prio q"
  proof (cases best)
    case None
    with assms(1) show ?thesis by (simp add: is_best_def)
  next
    case (Some p)
    with assms(1) have "\<forall>r\<in>set pats. applies regexec req r \<longrightarrow> prio r \<le> prio p"
      by (fastforce simp: is_best_def)
    with assms(3) [OF Some] show ?thesis by fastforce
  qed
  with assms(2) show ?thesis unfolding is_best_def by (auto intro: exI [of _ pats] exI [of _ "[]"])
qed

lemma find_from_best:
  assumes "find_from regexec req g i pats best mstr mem = Inr (b', mem')"
    "is_best regexec req seen (map_option m_pat best)"
  shows "is_best regexec req (seen @ pats) (map_option m_pat b')"
  using assms
proof (induction pats arbitrary: i best mstr mem seen)
  case (Cons pat pats)
  have go: "is_best regexec req (seen @ pat # pats) (map_option m_pat b')"
    if "find_from regexec req g (i + 1) pats b ms mm = Inr (b', mem')"
      "is_best regexec req (seen @ [pat]) (map_option m_pat b)" for b ms mm
    using Cons.IH [OF that] by simp
  from Cons.prems(1) show ?case
  proof (cases rule: find_from_step)
    case skip
    then have "\<not> applies regexec req pat \<or> (\<exists>p. map_option m_pat best = Some p \<and> prio pat \<le> prio p)"
      by (auto simp: skipped_def applies_def split: option.splits)
    from go [OF skip(2) is_best_keep [OF Cons.prems(2) this]] show ?thesis .
  next
    case (fail rmo ms mm)
    then have "\<not> applies regexec req pat" using match_rules_ok [OF fail(2)] by (auto simp: applies_def)
    then show ?thesis using go [OF fail(3)] is_best_keep [OF Cons.prems(2)] by blast
  next
    case (take rmo ms mm mm2)
    have "applies regexec req pat"
      using match_rules_ok [OF take(2)] take(1) by (auto simp: applies_def skipped_def)
    moreover have "map_option m_pat best = Some p \<Longrightarrow> prio p < prio pat" for p
      using take(1) by (auto simp: skipped_def)
    ultimately have "is_best regexec req (seen @ [pat]) (Some pat)"
      using is_best_take [OF Cons.prems(2)] by blast
    with go [OF take(3)] show ?thesis by simp
  qed
qed simp

definition all_patterns :: "'r config \<Rightarrow> 'r config option \<Rightarrow> 'r pattern list" where
  "all_patterns lcf gcf = patterns lcf @ (case gcf of None \<Rightarrow> [] | Some g \<Rightarrow> patterns g)"

lemma find_both_best:
  assumes "find_both regexec req lcf gcf mem = Inr (best, mem')"
  shows "is_best regexec req (all_patterns lcf gcf) (map_option m_pat best)"
proof -
  obtain b1 mem1 where b1: "findmatch regexec req False lcf None mem = Inr (b1, mem1)"
    using assms by (auto simp: find_both_def split: sum.splits)
  have "is_best regexec req [] (map_option m_pat None)" by (simp add: is_best_def)
  from find_from_best [OF b1 [unfolded findmatch_def] this]
  have "is_best regexec req (patterns lcf) (map_option m_pat b1)" by simp
  with assms b1 show ?thesis
    by (cases gcf) (auto simp: find_both_def all_patterns_def findmatch_def dest: find_from_best)
qed

section \<open>Captured strings\<close>

text \<open>Without \<open>s\<close> flags no block is ever allocated.\<close>

definition no_captures :: "'r config \<Rightarrow> bool" where
  "no_captures cf \<longleftrightarrow> (\<forall>p\<in>set (patterns cf). \<forall>r\<in>set (p_rules p). \<not> r_mss r)"

lemma match_rules_plain:
  assumes "\<forall>r\<in>set rs. \<not> r_mss r"
  shows "\<exists>ok rmo'. match_rules regexec req rs rmo mstr mem = Inr (ok, rmo', mstr, mem)"
  using assms
proof (induction rs arbitrary: rmo)
  case (Cons r rs)
  then show ?case by (auto simp: Let_def split: option.splits prod.splits)
qed auto

lemma find_from_plain:
  assumes "\<forall>p\<in>set pats. \<forall>r\<in>set (p_rules p). \<not> r_mss r" "\<And>m. best = Some m \<Longrightarrow> m_mstr m = None"
  shows "\<exists>b. find_from regexec req g i pats best None mem = Inr (b, mem) \<and> (\<forall>m. b = Some m \<longrightarrow> m_mstr m = None)"
  using assms
proof (induction pats arbitrary: i best)
  case (Cons pat pats)
  have rest: "\<forall>p\<in>set pats. \<forall>r\<in>set (p_rules p). \<not> r_mss r" using Cons.prems(1) by simp
  obtain ok rmo where r: "match_rules regexec req (p_rules pat) (- 1) None mem = Inr (ok, rmo, None, mem)"
    using match_rules_plain [of "p_rules pat" regexec req "- 1" None mem] Cons.prems(1) by auto
  have fr: "(case best of None \<Rightarrow> Inr mem | Some m \<Rightarrow> freematch m mem) = Inr mem"
    using Cons.prems(2) by (auto simp: freematch_def freeca_def split: option.splits)
  show ?case
  proof (cases "skipped pat best \<or> \<not> ok")
    case True
    with Cons.IH [OF rest Cons.prems(2)] r show ?thesis by auto
  next
    case False
    have "\<exists>b. find_from regexec req g (i + 1) pats
        (Some \<lparr>m_global = g, m_ix = i, m_pat = pat, m_mstr = None, m_rmo = rmo\<rparr>) None mem = Inr (b, mem) \<and>
        (\<forall>m. b = Some m \<longrightarrow> m_mstr m = None)"
      by (rule Cons.IH [OF rest]) auto
    with False r fr show ?thesis by simp
  qed
qed simp

lemma no_captures_disable [simp]: "no_captures cf \<Longrightarrow> no_captures (set_disable i cf)"
  by (cases "i < length (patterns cf)")
     (auto simp: no_captures_def set_disable_def list_update_beyond dest!: set_update_subset_insert [THEN subsetD]
       dest: nth_mem)

lemma find_both_plain:
  assumes "no_captures lcf" "\<And>g. gcf = Some g \<Longrightarrow> no_captures g"
  shows "\<exists>b. find_both regexec req lcf gcf mem = Inr (b, mem) \<and> (\<forall>m. b = Some m \<longrightarrow> m_mstr m = None)"
proof -
  obtain b where b: "findmatch regexec req False lcf None mem = Inr (b, mem)" "\<forall>m. b = Some m \<longrightarrow> m_mstr m = None"
    using find_from_plain [of "patterns lcf" None regexec req False 0 mem] assms(1)
    by (auto simp: no_captures_def findmatch_def)
  show ?thesis
  proof (cases gcf)
    case None
    with b show ?thesis by (simp add: find_both_def)
  next
    case (Some g)
    with find_from_plain [of "patterns g" b regexec req True 0 mem] assms(2) b show ?thesis
      by (simp add: find_both_def findmatch_def no_captures_def)
  qed
qed

lemma serve_plain:
  "no_captures lcf \<Longrightarrow> (\<And>g. gcf = Some g \<Longrightarrow> no_captures g) \<Longrightarrow>
     \<exists>out. serve regexec lcf gcf req mem = (Some out, Inr mem)"
proof (induction regexec lcf gcf req mem rule: serve.induct)
  case (1 regexec lcf gcf req mem)
  obtain b where b: "find_both regexec req lcf gcf mem = Inr (b, mem)" "\<forall>m. b = Some m \<longrightarrow> m_mstr m = None"
    using find_both_plain [OF 1(2,3)] by blast
  show ?case
  proof (cases b)
    case None
    with b show ?thesis by (simp add: serve.simps [of regexec lcf])
  next
    case (Some m)
    obtain req1 where req1: "execmatch req m mem = Inr req1"
      using b(2) Some by (cases "restpat (m_pat m)") (auto simp: execmatch_def)
    obtain l g where lg: "disable_match m lcf gcf = (l, g)" by fastforce
    have plain: "no_captures l" "\<And>h. g = Some h \<Longrightarrow> no_captures h"
      using lg 1(2,3) by (auto simp: disable_match_def split: if_splits)
    have fr: "freematch m mem = Inr mem" using b(2) Some by (simp add: freematch_def freeca_def)
    show ?thesis
    proof (cases "p_handler (m_pat m) = HND_REPARSE")
      case True
      from 1(1) [OF b(1) _ Some req1 True lg [symmetric]] plain obtain out where
        "serve regexec l g req1 mem = (Some out, Inr mem)" by fastforce
      with True b(1) Some req1 lg fr show ?thesis by (simp add: serve.simps [of regexec lcf])
    next
      case False
      with b(1) Some req1 fr show ?thesis by (simp add: serve.simps [of regexec lcf])
    qed
  qed
qed

section \<open>Reloading\<close>

lemma config_lines_fd:
  assumes "config_lines fsys regcomp cf s = Some (Inr cf')" "\<forall>ch\<in>set (children cf). ch_fd (ch_std ch) < 0"
  shows "\<forall>ch\<in>set (children cf'). ch_fd (ch_std ch) < 0"
proof -
  define P where "P = (\<lambda>(fsys::filesys) (regcomp :: cstring \<Rightarrow> bool \<Rightarrow> 'a option) (cf :: 'a config) (s::cfstate)
    (r :: cf_err + 'a config). \<forall>cf'. r = Inr cf' \<longrightarrow> (\<forall>ch\<in>set (children cf). ch_fd (ch_std ch) < 0) \<longrightarrow>
      (\<forall>ch\<in>set (children cf'). ch_fd (ch_std ch) < 0))"
  have "P fsys regcomp cf s (Inr cf')"
  proof (rule config_lines.raw_induct [where P = P, OF _ assms(1)])
    fix run and fsys :: filesys and regcomp :: "cstring \<Rightarrow> bool \<Rightarrow> 'a option" and cf :: "'a config"
      and s :: cfstate and r
    assume IH: "\<And>fsys regcomp cf s r. run fsys regcomp cf s = Some r \<Longrightarrow> P fsys regcomp cf s r"
      and r: "(case getcfline fsys s of None \<Rightarrow> None | Some (Inl e) \<Rightarrow> Some (Inl e)
        | Some (Inr s1) \<Rightarrow> (case parsechild fsys s1 of None \<Rightarrow> None | Some (Inl e) \<Rightarrow> Some (Inl e)
          | Some (Inr (Some ch, s2)) \<Rightarrow> run fsys regcomp (cf\<lparr>children := ch # children cf\<rparr>) s2
          | Some (Inr (None, s2)) \<Rightarrow> (case parsepattern fsys regcomp s2 of None \<Rightarrow> None
            | Some (Inl e) \<Rightarrow> Some (Inl e)
            | Some (Inr (Some pat, s3)) \<Rightarrow> run fsys regcomp (cf\<lparr>patterns := pat # patterns cf\<rparr>) s3
            | Some (Inr (None, s3)) \<Rightarrow>
                (if argv s3 ! 0 = ''eof'' then Some (Inr cf) else run fsys regcomp cf s3)))) = Some r"
    show "P fsys regcomp cf s r"
    proof (cases "\<exists>e. r = Inl e \<or> r = Inr cf")
      case True
      then show ?thesis by (auto simp: P_def)
    next
      case False
      then consider (child) ch s1 s2 where "parsechild fsys s1 = Some (Inr (Some ch, s2))"
          "run fsys regcomp (cf\<lparr>children := ch # children cf\<rparr>) s2 = Some r"
        | (pat) pat s3 where "run fsys regcomp (cf\<lparr>patterns := pat # patterns cf\<rparr>) s3 = Some r"
        | (other) s3 where "run fsys regcomp cf s3 = Some r"
        using r by (auto split: option.splits sum.splits prod.splits if_splits)
      then show ?thesis
      proof cases
        case child
        with IH [OF child(2)] parsechild_fd [OF child(1)] show ?thesis by (simp add: P_def)
      next
        case pat
        with IH [OF pat] show ?thesis by (simp add: P_def)
      next
        case other
        with IH [OF other] show ?thesis by (simp add: P_def)
      qed
    qed
  qed
  then show ?thesis using assms(2) by (simp add: P_def)
qed

lemma readconfig_fd:
  fixes cf :: "'a config"
  assumes "readconfig fsys regcomp nm = Some (Inr (Some cf))"
  shows "\<forall>ch\<in>set (children cf). ch_fd (ch_std ch) < 0"
proof -
  from assms obtain s r where r: "config_lines fsys regcomp \<lparr>children = [], patterns = []\<rparr> s = Some r"
    "map_sum id Some r = (Inr (Some cf) :: cf_err + 'a config option)"
    by (auto simp: readconfig_def split: option.splits sum.splits)
  then have "r = Inr cf" by (cases r) auto
  with config_lines_fd [of fsys regcomp _ s cf] r(1) show ?thesis by simp
qed

section \<open>Properties\<close>

text \<open>C8. \<open>serve\<close> sends a request to the pattern with the highest priority among those that are enabled
  and whose rules all match, the first of them in the order of the list with the local configuration
  before the global one; it finds none only when there is none.\<close>

theorem patplex_chooses_best:
  assumes "find_both regexec req lcf gcf mem = Inr (best, mem')"
  shows "is_best regexec req (all_patterns lcf gcf) (map_option m_pat best)"
  by (rule find_both_best [OF assms])

text \<open>Two patterns that match every URL, the first with an \<open>s\<close> flag; the expressions are the strings
  they match at the start.\<close>

definition prefix_regexec :: "cstring \<Rightarrow> cstring \<Rightarrow> groups option" where
  "prefix_regexec rx s = (if take (length rx) s = rx then Some [(0, int (length rx))] else None)"

definition url_pattern :: "bool \<Rightarrow> int \<Rightarrow> cstring \<Rightarrow> cstring pattern" where
  "url_pattern mss pr rx = newpattern
     \<lparr>p_rules := [newrule\<lparr>r_type := PAT_URL, r_mss := mss, r_pattern := Some rx\<rparr>], prio := pr,
      p_handler := HND_CHILD, childnm := Some ''a''\<rparr>"

definition two_patterns :: "bool \<Rightarrow> cstring config" where
  "two_patterns mss = \<lparr>children = [], patterns = [url_pattern mss 0 ''/'', url_pattern False 1 ''/x'']\<rparr>"

definition x_req :: hthead where
  "x_req = mkreq ''GET'' ''/x'' ''HTTP/1.1''"

lemma patplex_chooses_best_witness:
  "is_best prefix_regexec x_req (patterns (two_patterns False)) (Some (url_pattern False 1 ''/x''))"
proof -
  define r where "r = find_both prefix_regexec x_req (two_patterns False) None []"
  have "r = Inr (Some \<lparr>m_global = False, m_ix = 1, m_pat = url_pattern False 1 ''/x'', m_mstr = None, m_rmo = - 1\<rparr>, [])"
    unfolding r_def
    by (simp add: find_both_def findmatch_def two_patterns_def skipped_def url_pattern_def newpattern_def
        newrule_def rule_string_def x_req_def mkreq_def prefix_regexec_def qoffsets_def freematch_def freeca_def
        cstr_def upt_rec)
  from patplex_chooses_best [OF this [unfolded r_def]] show ?thesis by (simp add: all_patterns_def)
qed

text \<open>When no rule captures strings, \<open>serve\<close> finishes every request without a memory error,
  through any number of \<open>reparse\<close> rounds, and leaves the store as it was.\<close>

lemma serve_without_captures:
  assumes "no_captures lcf" "\<And>g. gcf = Some g \<Longrightarrow> no_captures g"
  shows "\<exists>out. serve regexec lcf gcf req mem = (Some out, Inr mem)"
  by (rule serve_plain [OF assms])

lemma serve_without_captures_witness:
  "\<exists>out. serve prefix_regexec (two_patterns False) None x_req [] = (Some out, Inr [])"
  by (rule serve_without_captures) (simp_all add: no_captures_def two_patterns_def url_pattern_def newpattern_def newrule_def)

text \<open>A pattern that captures strings and is then beaten by one of higher priority that captures
  none makes \<open>serve\<close> free the captured strings twice: \<open>findmatch\<close> frees them with the beaten match
  and hands the same pointer to the new one.\<close>

lemma serve_double_free:
  assumes "patterns lcf = [p1, p2]" "\<not> disable p1" "\<not> disable p2" "prio p1 < prio p2"
    and "p_rules p1 = [r1]" "r_mss r1" "r_type r1 \<noteq> PAT_ALL" "rule_matches regexec req r1"
    and "p_rules p2 = [r2]" "r_type r2 = PAT_ALL"
    and "restpat p2 = None" "p_handler p2 = HND_CHILD"
  shows "snd (serve regexec lcf None req []) = Inl DoubleFree"
proof -
  obtain pstr gr where m: "rule_string req r1 = Some pstr"
    "regexec (the (r_pattern r1)) (cstr (fst (qoffsets pstr (r_unq r1)))) = Some gr"
    using assms(7,8) by (auto simp: rule_matches_def split: option.splits)
  define cap where "cap = captures pstr (snd (qoffsets pstr (r_unq r1))) gr"
  obtain rmo where "match_rules regexec req [r1] (- 1) None [] = Inr (True, rmo, Some 0, [Some cap])"
    using m assms(6,7) by (cases "qoffsets pstr (r_unq r1)") (simp add: cap_def freeca_def Let_def)
  then have "find_both regexec req lcf None [] =
      Inr (Some \<lparr>m_global = False, m_ix = 1, m_pat = p2, m_mstr = Some 0, m_rmo = - 1\<rparr>, [None])"
    using assms(1-5,9,10)
    by (simp add: find_both_def findmatch_def skipped_def freematch_def freeca_def)
  then show ?thesis
    using assms(11,12) by (simp add: serve.simps [of regexec lcf] execmatch_def freematch_def freeca_def)
qed

definition all_pattern :: "cstring pattern" where
  "all_pattern = newpattern\<lparr>p_rules := [newrule\<lparr>r_type := PAT_ALL\<rparr>], prio := 1, p_handler := HND_CHILD,
     childnm := Some ''a''\<rparr>"

lemma serve_double_free_witness:
  "snd (serve prefix_regexec \<lparr>children = [], patterns = [url_pattern True 0 ''/'', all_pattern]\<rparr> None x_req []) =
     Inl DoubleFree"
  by (rule serve_double_free [where ?p1.0 = "url_pattern True 0 ''/''" and ?p2.0 = all_pattern
        and ?r1.0 = "newrule\<lparr>r_type := PAT_URL, r_mss := True, r_pattern := Some ''/''\<rparr>"
        and ?r2.0 = "newrule\<lparr>r_type := PAT_ALL\<rparr>"])
     (simp_all add: url_pattern_def all_pattern_def newpattern_def newrule_def rule_matches_def rule_string_def
       x_req_def mkreq_def prefix_regexec_def qoffsets_def upt_rec)

text \<open>A header in braces in a \<open>restpat\<close> is not replaced by its value: the name in its braces is
  copied behind the value.\<close>

lemma restpat_header_copied:
  assumes "CHR ''$'' \<notin> set n" "CHR ''}'' \<notin> set n"
  shows "exprest req ms (''${'' @ n @ ''}'' @ b) =
    (case getheader req n of None \<Rightarrow> [] | Some v \<Rightarrow> v) @ ''{'' @ n @ ''}'' @ exprest req ms b"
proof -
  have plain: "CHR ''$'' \<notin> set l \<Longrightarrow> exprest req ms (l @ t) = l @ exprest req ms t" for l t
    by (induction l) (auto simp: exprest.simps(2))
  have "strchr (CHR ''{'' # n @ CHR ''}'' # b) (CHR ''}'') = Some (CHR ''{'' # n, CHR ''}'' # b)"
    using strchr_append [of "CHR ''}''" "CHR ''{'' # n" b] assms(2) by simp
  moreover have "\<not> isdigit (CHR ''{'')" by code_simp
  ultimately have "exprest req ms (CHR ''$'' # CHR ''{'' # n @ CHR ''}'' # b) =
      (case getheader req n of None \<Rightarrow> [] | Some v \<Rightarrow> v) @ exprest req ms (CHR ''{'' # n @ CHR ''}'' # b)"
    by (subst exprest.simps(2)) simp
  with plain [of "CHR ''{'' # n @ [CHR ''}'']" b] assms(1) show ?thesis by simp
qed

lemma restpat_header_copied_witness:
  "exprest (headappheader x_req ''Host'' ''h'') [] ''${Host}/'' = ''h{Host}/''"
proof -
  have "getheader (headappheader x_req ''Host'' ''h'') ''Host'' = Some ''h''" by code_simp
  then show ?thesis
    using restpat_header_copied [of "''Host''" "headappheader x_req ''Host'' ''h''" "[]" "''/''"]
    by (simp add: exprest.simps(2) [of _ _ "CHR ''/''"])
qed

text \<open>Reloading the configuration neither loses nor duplicates the connection to a running child:
  each is either with the child of the same name in the new configuration or closed.\<close>

lemma reload_conserves_children:
  assumes "reloadconf fsys regcomp nm lconfig = Some (Inr (cf, closed_fds))"
  shows "live (child_fds (children cf)) + live closed_fds = live (child_fds (children lconfig))"
proof -
  consider "readconfig fsys regcomp nm = Some (Inr None)"
    | new where "readconfig fsys regcomp nm = Some (Inr (Some new))"
    using assms by (auto simp: reloadconf_def split: option.splits sum.splits)
  then show ?thesis
  proof cases
    case 1
    with assms show ?thesis by (auto simp: reloadconf_def)
  next
    case 2
    obtain a b where ab: "mergechildren (children new) (children lconfig) = (a, b)" by fastforce
    have "\<forall>ch\<in>set (children new). freechild ch = []"
      using readconfig_fd [OF 2] by (auto simp: freechild_def)
    with mergechildren_law [OF ab] assms 2 ab show ?thesis by (auto simp: reloadconf_def freeconfig_def)
  qed
qed

lemma reload_conserves_children_witness:
  "reloadconf \<lparr>fs_glob = \<lambda>p. [], fs_open = \<lambda>p. None\<rparr> (\<lambda>rx i. Some rx) ''f''
       (two_patterns False\<lparr>children := [newchild ''a'' StdHandler a_child]\<rparr>) =
     Some (Inr (two_patterns False\<lparr>children := [newchild ''a'' StdHandler a_child]\<rparr>, [])) \<and>
   live (child_fds [newchild ''a'' StdHandler a_child]) + live [] = {#5#}"
proof -
  have "reloadconf \<lparr>fs_glob = \<lambda>p. [], fs_open = \<lambda>p. None\<rparr> (\<lambda>rx i. Some rx) ''f''
       (two_patterns False\<lparr>children := [newchild ''a'' StdHandler a_child]\<rparr>) =
     Some (Inr (two_patterns False\<lparr>children := [newchild ''a'' StdHandler a_child]\<rparr>, []))"
    by (simp add: reloadconf_def readconfig_def)
  with reload_conserves_children [OF this] show ?thesis
    by (simp add: newchild_def a_child_def freechild_def new_std_def)
qed

end
