(* ===== verification/Ratetable.thy ===== *)
theory Ratetable
  imports Main
begin

text \<open>
  The open-addressing hash table of \<open>src/ratequeue.c\<close>: linear probing, deletion that moves later
  entries back into the hole, growing and shrinking by rehashing. A table is the list of its
  slots; \<open>hsh\<close> gives the hash of an entry, and \<open>& m\<close> for \<open>m = 2 ^ k - 1\<close> is \<open>mod 2 ^ k\<close>.

  The invariant is that no empty slot lies between the home slot of an entry and the slot it is in;
  the deletion asserts it on its way to the entry.
\<close>

section \<open>Operations\<close>

text \<open>\<open>(i + 1) & m\<close>, and how far slot \<open>j\<close> is behind slot \<open>i\<close>: \<open>(j - i) & m\<close>.\<close>

definition next_slot :: "nat \<Rightarrow> nat \<Rightarrow> nat" where
  "next_slot N i = (i + 1) mod N"

definition behind :: "nat \<Rightarrow> nat \<Rightarrow> nat \<Rightarrow> nat" where
  "behind N i j = (j + N - i) mod N"

text \<open>The search of \<open>hashget\<close>, which looks at every slot once.\<close>

fun probe_find :: "('a \<Rightarrow> bool) \<Rightarrow> 'a option list \<Rightarrow> nat \<Rightarrow> nat \<Rightarrow> nat option" where
  "probe_find P tab i 0 = None"
| "probe_find P tab i (Suc n) =
     (case tab ! i of
        Some x \<Rightarrow> if P x then Some i else probe_find P tab (next_slot (length tab) i) n
      | None \<Rightarrow> probe_find P tab (next_slot (length tab) i) n)"

text \<open>The first empty slot; \<open>None\<close> stands for a search that never ends, in a full table.\<close>

fun probe_empty :: "'a option list \<Rightarrow> nat \<Rightarrow> nat \<Rightarrow> nat option" where
  "probe_empty tab i 0 = None"
| "probe_empty tab i (Suc n) =
     (if tab ! i = None then Some i else probe_empty tab (next_slot (length tab) i) n)"

definition tab_insert :: "('a \<Rightarrow> nat) \<Rightarrow> 'a \<Rightarrow> 'a option list \<Rightarrow> 'a option list option" where
  "tab_insert hsh x tab =
     map_option (\<lambda>i. tab[i := Some x]) (probe_empty tab (hsh x mod length tab) (length tab))"

text \<open>The loop of \<open>rehash\<close> over the old table: an entry that finds no slot is dropped.\<close>

definition rehash_step :: "('a \<Rightarrow> nat) \<Rightarrow> 'a option \<Rightarrow> 'a option list \<Rightarrow> 'a option list" where
  "rehash_step hsh e tab = (case e of
      None \<Rightarrow> tab
    | Some x \<Rightarrow> (case tab_insert hsh x tab of None \<Rightarrow> tab | Some tab' \<Rightarrow> tab'))"

definition SBUCKETS :: nat where
  "SBUCKETS = 7"

definition rehash :: "('a \<Rightarrow> nat) \<Rightarrow> nat \<Rightarrow> nat \<times> 'a option list \<Rightarrow> nat \<times> 'a option list" where
  "rehash hsh nlen ht = (case ht of (hashlen, old) \<Rightarrow>
     (let nl = max nlen SBUCKETS in
      if nl = hashlen then (hashlen, old)
      else (nl, fold (rehash_step hsh) old (replicate (2 ^ nl) None))))"

text \<open>
  The first loop of \<open>hashdel\<close>: the slot of the entry that satisfies \<open>P\<close>; \<open>None\<close> is the failed
  assertion that every slot on the way is taken.
\<close>

fun probe_taken :: "('a \<Rightarrow> bool) \<Rightarrow> 'a option list \<Rightarrow> nat \<Rightarrow> nat \<Rightarrow> nat option" where
  "probe_taken P tab i 0 = None"
| "probe_taken P tab i (Suc n) =
     (case tab ! i of
        None \<Rightarrow> None
      | Some x \<Rightarrow> if P x then Some i else probe_taken P tab (next_slot (length tab) i) n)"

text \<open>The second loop: \<open>i\<close> is the hole, \<open>o\<close> the slot looked at.\<close>

fun shift_back :: "('a \<Rightarrow> nat) \<Rightarrow> 'a option list \<Rightarrow> nat \<Rightarrow> nat \<Rightarrow> nat \<Rightarrow> 'a option list" where
  "shift_back hsh tab i j 0 = tab"
| "shift_back hsh tab i j (Suc n) =
     (case tab ! j of
        None \<Rightarrow> tab
      | Some x \<Rightarrow>
          (let N = length tab; p = behind N i (hsh x mod N) in
           if p = 0 \<or> p > behind N i j
           then shift_back hsh (tab[i := Some x, j := None]) j (next_slot N j) n
           else shift_back hsh tab i (next_slot N j) n))"

definition tab_delete :: "('a \<Rightarrow> nat) \<Rightarrow> ('a \<Rightarrow> bool) \<Rightarrow> nat \<Rightarrow> 'a option list \<Rightarrow> 'a option list option" where
  "tab_delete hsh P h tab =
     (case probe_taken P tab (h mod length tab) (length tab) of
        None \<Rightarrow> None
      | Some i \<Rightarrow> Some (shift_back hsh (tab[i := None]) i (next_slot (length tab) i) (length tab)))"

section \<open>Slots in a circle\<close>

lemma behind_if: "i < N \<Longrightarrow> j < N \<Longrightarrow> behind N i j = (if i \<le> j then j - i else j + N - i)"
  by (auto simp: behind_def mod_if)

lemma next_if: "i < N \<Longrightarrow> next_slot N i = (if i + 1 = N then 0 else i + 1)"
  by (auto simp: next_slot_def)

lemma next_less [simp]: "0 < N \<Longrightarrow> next_slot N i < N"
  by (simp add: next_slot_def)

lemma behind_less: "0 < N \<Longrightarrow> behind N i j < N"
  by (simp add: behind_def)

lemma behind_pos: "j < N \<Longrightarrow> k < N \<Longrightarrow> k \<noteq> j \<Longrightarrow> 0 < behind N j k"
  by (auto simp: behind_if)

lemma behind_next: "j < N \<Longrightarrow> behind N j (next_slot N j) = 1 mod N"
  by (auto simp: behind_def next_if mod_Suc)

text \<open>The slot \<open>n\<close> steps behind \<open>i\<close>, which a probe from \<open>i\<close> reaches after \<open>n\<close> steps.\<close>

definition slot_at :: "nat \<Rightarrow> nat \<Rightarrow> nat \<Rightarrow> nat" where
  "slot_at N i n = (i + n) mod N"

lemma slot_at_0: "i < N \<Longrightarrow> slot_at N i 0 = i"
  by (simp add: slot_at_def)

lemma slot_at_next: "slot_at N (next_slot N i) n = slot_at N i (Suc n)"
  by (simp add: slot_at_def next_slot_def mod_simps)

lemma slot_at_behind: "i < N \<Longrightarrow> j < N \<Longrightarrow> slot_at N i (behind N i j) = j"
  by (auto simp: slot_at_def behind_if)

lemma behind_slot_at: "i < N \<Longrightarrow> n < N \<Longrightarrow> behind N i (slot_at N i n) = n"
  by (auto simp: slot_at_def behind_def mod_if)

text \<open>Whether slot \<open>i\<close> comes before \<open>j\<close> on the way from \<open>h\<close>, seen from \<open>i\<close>.\<close>

lemma behind_add:
  "i < N \<Longrightarrow> j < N \<Longrightarrow> i \<le> j \<and> behind N i j + i = j \<or> j < i \<and> behind N i j + i = j + N"
  by (auto simp: behind_if)

lemma circle_before:
  assumes "h < N" "i < N" "j < N" "i \<noteq> j"
  shows "behind N h i < behind N h j \<longleftrightarrow> behind N i h = 0 \<or> behind N i h > behind N i j"
proof -
  note b = behind_add [OF assms(1,2)] behind_add [OF assms(1,3)] behind_add [OF assms(2,1)]
    behind_add [OF assms(2,3)]
  show ?thesis
  proof
    assume "behind N h i < behind N h j"
    with b assms show "behind N i h = 0 \<or> behind N i h > behind N i j" by linarith
  next
    assume "behind N i h = 0 \<or> behind N i h > behind N i j"
    then show "behind N h i < behind N h j"
    proof
      assume "behind N i h = 0"
      with b assms show ?thesis by linarith
    next
      assume "behind N i h > behind N i j"
      with b assms show ?thesis by linarith
    qed
  qed
qed

lemma circle_between:
  assumes "h < N" "i < N" "j < N" "k < N" "i \<noteq> j" "j \<noteq> k"
    "behind N h i < behind N h k" "behind N i j \<le> behind N i k"
  shows "behind N h j < behind N h k"
  using behind_add [OF assms(1,2)] behind_add [OF assms(1,3)] behind_add [OF assms(1,4)]
    behind_add [OF assms(2,3)] behind_add [OF assms(2,4)] assms by linarith

section \<open>The invariant\<close>

text \<open>Slot \<open>s\<close> is on the way of a probe from \<open>h\<close> to \<open>j\<close>, before \<open>j\<close>.\<close>

definition on_way :: "nat \<Rightarrow> nat \<Rightarrow> nat \<Rightarrow> nat \<Rightarrow> bool" where
  "on_way N h j s \<longleftrightarrow> behind N h s < behind N h j"

definition probe_ok :: "('a \<Rightarrow> nat) \<Rightarrow> 'a option list \<Rightarrow> bool" where
  "probe_ok hsh tab \<longleftrightarrow> (\<forall>j<length tab. \<forall>x. tab ! j = Some x \<longrightarrow>
     (\<forall>s<length tab. on_way (length tab) (hsh x mod length tab) j s \<longrightarrow> tab ! s \<noteq> None))"

definition entries :: "'a option list \<Rightarrow> 'a set" where
  "entries tab = {x. Some x \<in> set tab}"

text \<open>No entry is in two slots.\<close>

definition once :: "'a option list \<Rightarrow> bool" where
  "once tab \<longleftrightarrow> (\<forall>i<length tab. \<forall>j<length tab. tab ! i = tab ! j \<longrightarrow> tab ! i \<noteq> None \<longrightarrow> i = j)"

lemma probe_empty_law:
  assumes "i < length tab" "probe_empty tab i n = Some k" "n \<le> length tab"
  shows "k < length tab \<and> tab ! k = None \<and> (\<forall>s<length tab. on_way (length tab) i k s \<longrightarrow> tab ! s \<noteq> None)"
proof -
  let ?N = "length tab"
  have "0 < ?N" using assms(1) by linarith
  have "\<exists>d<n. k = slot_at ?N i d \<and> tab ! k = None \<and> (\<forall>e<d. tab ! slot_at ?N i e \<noteq> None)"
    using assms(1,2)
  proof (induction n arbitrary: i)
    case (Suc n)
    show ?case
    proof (cases "tab ! i = None")
      case True
      with Suc.prems show ?thesis by (auto simp: slot_at_0 intro!: exI [of _ 0])
    next
      case False
      with Suc.prems have "probe_empty tab (next_slot ?N i) n = Some k" by simp
      from Suc.IH [OF next_less [OF \<open>0 < ?N\<close>] this] obtain d where
        d: "d < n" "k = slot_at ?N i (Suc d)" "tab ! k = None" "\<forall>e<d. tab ! slot_at ?N i (Suc e) \<noteq> None"
        by (auto simp: slot_at_next)
      have "\<forall>e<Suc d. tab ! slot_at ?N i e \<noteq> None"
        using d(4) False Suc.prems(1) by (auto simp: less_Suc_eq_0_disj slot_at_0)
      with d show ?thesis by (intro exI [of _ "Suc d"]) auto
    qed
  qed simp
  then obtain d where d: "d < n" "k = slot_at ?N i d" "tab ! k = None" "\<forall>e<d. tab ! slot_at ?N i e \<noteq> None"
    by blast
  have k: "k < ?N" using d(2) \<open>0 < ?N\<close> by (simp add: slot_at_def)
  have "tab ! s \<noteq> None" if s: "s < ?N" "on_way ?N i k s" for s
  proof -
    have "behind ?N i s < d"
      using s(2) d(1,2) assms(1,3) by (simp add: on_way_def behind_slot_at)
    with d(4) slot_at_behind [OF assms(1) s(1)] show ?thesis by metis
  qed
  with k d(3) show ?thesis by blast
qed

lemma probe_empty_finds:
  assumes "i < length tab" "k < length tab" "tab ! k = None"
  shows "\<exists>k'. probe_empty tab i (length tab) = Some k'"
proof -
  let ?N = "length tab"
  have "\<exists>k'. probe_empty tab i n = Some k'" if "d < n" "tab ! slot_at ?N i d = None" "i < ?N" for d n i
    using that
  proof (induction n arbitrary: i d)
    case (Suc n)
    show ?case
    proof (cases "tab ! i = None")
      case False
      then obtain e where e: "d = Suc e" using Suc.prems by (cases d) (auto simp: slot_at_0)
      have "0 < ?N" using Suc.prems(3) by linarith
      with e Suc.prems False Suc.IH [of e "next_slot ?N i"] show ?thesis by (simp add: slot_at_next)
    qed simp
  qed simp
  moreover have "behind ?N i k < ?N" using assms(1) by (intro behind_less) linarith
  ultimately show ?thesis using assms slot_at_behind [OF assms(1,2)] by metis
qed

section \<open>Insertion and rehashing\<close>

lemma entries_update: "i < length tab \<Longrightarrow> tab ! i = None \<Longrightarrow> entries (tab[i := Some x]) = insert x (entries tab)"
proof (intro equalityI subsetI)
  fix y assume i: "i < length tab" "tab ! i = None" and "y \<in> insert x (entries tab)"
  then consider "y = x" | k where "k < length tab" "tab ! k = Some y"
    by (auto simp: entries_def in_set_conv_nth)
  then show "y \<in> entries (tab[i := Some x])"
  proof cases
    case 1
    with i(1) show ?thesis by (simp add: entries_def set_update_memI)
  next
    case 2
    then have "tab[i := Some x] ! k = Some y" using i by (cases "k = i") auto
    with 2(1) show ?thesis using nth_mem [of k "tab[i := Some x]"] by (simp add: entries_def)
  qed
qed (auto simp: entries_def dest!: set_update_subset_insert [THEN subsetD])

lemma entries_nth: "i < length tab \<Longrightarrow> tab ! i = Some x \<Longrightarrow> x \<in> entries tab"
  by (metis CollectI entries_def nth_mem)

lemma entries_slot: "x \<in> entries tab \<Longrightarrow> \<exists>i<length tab. tab ! i = Some x"
  by (auto simp: entries_def in_set_conv_nth)

lemma once_insert:
  assumes "once tab" "k < length tab" "tab ! k = None" "x \<notin> entries tab"
  shows "once (tab[k := Some x])"
proof -
  have ne: "j < length tab \<Longrightarrow> tab ! j \<noteq> Some x" for j using assms(4) entries_nth by metis
  then have ne': "j < length tab \<Longrightarrow> Some x \<noteq> tab ! j" for j by metis
  show ?thesis using assms(1-3) ne ne' unfolding once_def by (auto simp: nth_list_update split: if_splits)
qed

lemma tab_insert_law:
  assumes "tab_insert hsh x tab = Some tab'" "probe_ok hsh tab" "tab \<noteq> []"
  shows "length tab' = length tab" "probe_ok hsh tab'" "entries tab' = insert x (entries tab)"
    "once tab \<Longrightarrow> x \<notin> entries tab \<Longrightarrow> once tab'"
proof -
  let ?h = "hsh x mod length tab"
  obtain k where k: "probe_empty tab ?h (length tab) = Some k" "tab' = tab[k := Some x]"
    using assms(1) by (auto simp: tab_insert_def)
  have "?h < length tab" using assms(3) by simp
  note law = probe_empty_law [OF this k(1) order_refl]
  show "length tab' = length tab" by (simp add: k(2))
  show "entries tab' = insert x (entries tab)" using law by (simp add: k(2) entries_update)
  show "once tab \<Longrightarrow> x \<notin> entries tab \<Longrightarrow> once tab'" using law by (simp add: k(2) once_insert)
  show "probe_ok hsh tab'"
    using assms(2) law unfolding probe_ok_def k(2) by (auto simp: nth_list_update split: if_splits)
qed

lemma tab_insert_room:
  assumes "k < length tab" "tab ! k = None"
  shows "\<exists>tab'. tab_insert hsh x tab = Some tab'"
proof -
  have "hsh x mod length tab < length tab" using assms(1) by (intro mod_less_divisor) linarith
  from probe_empty_finds [OF this assms] show ?thesis by (auto simp: tab_insert_def)
qed

text \<open>The number of taken slots.\<close>

definition taken :: "'a option list \<Rightarrow> nat" where
  "taken tab = length (filter (\<lambda>e. e \<noteq> None) tab)"

lemma taken_update:
  "k < length tab \<Longrightarrow> tab ! k = None \<Longrightarrow> taken (tab[k := Some x]) = Suc (taken tab)"
proof (induction tab arbitrary: k)
  case (Cons e tab)
  then show ?case by (cases k) (auto simp: taken_def)
qed simp

lemma taken_clear:
  "k < length tab \<Longrightarrow> tab ! k = Some x \<Longrightarrow> Suc (taken (tab[k := None])) = taken tab"
proof (induction tab arbitrary: k)
  case (Cons e tab)
  then show ?case by (cases k) (auto simp: taken_def)
qed simp

lemma taken_room: "taken tab < length tab \<Longrightarrow> \<exists>k<length tab. tab ! k = None"
proof (rule ccontr)
  assume "taken tab < length tab" "\<not> (\<exists>k<length tab. tab ! k = None)"
  then have "filter (\<lambda>e. e \<noteq> None) tab = tab"
    by (intro filter_True ballI) (metis in_set_conv_nth)
  with \<open>taken tab < length tab\<close> show False by (simp add: taken_def)
qed

lemma tab_insert_taken:
  assumes "tab_insert hsh x tab = Some tab'" "tab \<noteq> []"
  shows "taken tab' = Suc (taken tab)"
proof -
  obtain k where k: "probe_empty tab (hsh x mod length tab) (length tab) = Some k" "tab' = tab[k := Some x]"
    using assms(1) by (auto simp: tab_insert_def)
  have "hsh x mod length tab < length tab" using assms(2) by simp
  from probe_empty_law [OF this k(1) order_refl] k(2) show ?thesis by (simp add: taken_update)
qed

lemma fold_rehash:
  assumes "probe_ok hsh tab" "once tab" "tab \<noteq> []" "taken tab + taken old \<le> length tab"
    "once old" "entries old \<inter> entries tab = {}"
  shows "length (fold (rehash_step hsh) old tab) = length tab \<and> probe_ok hsh (fold (rehash_step hsh) old tab) \<and>
    once (fold (rehash_step hsh) old tab) \<and> taken (fold (rehash_step hsh) old tab) = taken tab + taken old \<and>
    entries (fold (rehash_step hsh) old tab) = entries tab \<union> entries old"
  using assms
proof (induction old arbitrary: tab)
  case (Cons e old)
  have o: "once old" using Cons.prems(5) by (fastforce simp: once_def)
  show ?case
  proof (cases e)
    case None
    with Cons.IH [OF Cons.prems(1-3) _ o] Cons.prems(4,6) show ?thesis
      by (simp add: rehash_step_def taken_def entries_def)
  next
    case (Some x)
    have "taken tab < length tab" using Cons.prems(4) Some by (simp add: taken_def)
    then obtain tab' where tab': "tab_insert hsh x tab = Some tab'"
      using taken_room tab_insert_room by metis
    note law = tab_insert_law [OF tab' Cons.prems(1,3)] tab_insert_taken [OF tab' Cons.prems(3)]
    have "x \<in> entries (e # old)" by (simp add: entries_def Some)
    then have "x \<notin> entries tab" using Cons.prems(6) by blast
    moreover have "x \<notin> entries old"
    proof
      assume "x \<in> entries old"
      then obtain i where "i < length old" "old ! i = Some x" using entries_slot by metis
      then have "(e # old) ! 0 = (e # old) ! Suc i" "Suc i < length (e # old)" by (simp_all add: Some)
      with Cons.prems(5) Some show False unfolding once_def by fastforce
    qed
    ultimately have x: "x \<notin> entries tab" "x \<notin> entries old" by simp_all
    have ne: "tab' \<noteq> []" using law(1) Cons.prems(3) by auto
    have t: "taken tab' + taken old \<le> length tab'" "taken (e # old) = Suc (taken old)"
      using Cons.prems(4) law(1,5) Some by (simp_all add: taken_def)
    have e: "entries old \<inter> entries tab' = {}" "entries (e # old) = insert x (entries old)"
      using Cons.prems(6) law(3) x Some by (auto simp: entries_def)
    have f: "fold (rehash_step hsh) (e # old) tab = fold (rehash_step hsh) old tab'"
      by (simp add: rehash_step_def Some tab')
    show ?thesis
      unfolding f t(2) e(2)
      using Cons.IH [OF law(2) law(4) [OF Cons.prems(2) x(1)] ne t(1) o e(1)] law(1,3,5) by simp
  qed
qed (simp add: taken_def entries_def)

lemma rehash_law:
  assumes "rehash hsh n (hl, old) = (hl', tab')" "length old = 2 ^ hl" "probe_ok hsh old" "once old"
    "taken old \<le> 2 ^ max n SBUCKETS"
  shows "hl' = max n SBUCKETS \<and> length tab' = 2 ^ hl' \<and> probe_ok hsh tab' \<and> once tab' \<and>
    taken tab' = taken old \<and> entries tab' = entries old"
proof (cases "max n SBUCKETS = hl")
  case True
  with assms show ?thesis by (auto simp: rehash_def)
next
  case False
  let ?e = "replicate (2 ^ max n SBUCKETS) None :: 'a option list"
  have "probe_ok hsh ?e" "once ?e" "?e \<noteq> []" "taken ?e = 0" "entries ?e = {}"
    by (auto simp: probe_ok_def once_def taken_def entries_def)
  with fold_rehash [of hsh ?e old] assms False show ?thesis by (auto simp: rehash_def Let_def)
qed

section \<open>Deletion\<close>

lemma probe_taken_law:
  assumes "i < length tab" "k < length tab" "tab ! k = Some x" "P x"
    and "\<And>s y. s < length tab \<Longrightarrow> tab ! s = Some y \<Longrightarrow> P y \<Longrightarrow> s = k"
    and "\<And>s. s < length tab \<Longrightarrow> on_way (length tab) i k s \<Longrightarrow> tab ! s \<noteq> None"
  shows "probe_taken P tab i (length tab) = Some k"
proof -
  let ?N = "length tab"
  have "probe_taken P tab i n = Some k" if "d < n" "slot_at ?N i d = k" "i < ?N"
    "\<forall>e<d. tab ! slot_at ?N i e \<noteq> None" for d n i
    using that
  proof (induction n arbitrary: i d)
    case (Suc n)
    have pos: "0 < ?N" using Suc.prems(3) by linarith
    show ?case
    proof (cases "i = k")
      case True
      with assms(3,4) show ?thesis by simp
    next
      case False
      then obtain e where e: "d = Suc e" using Suc.prems by (cases d) (auto simp: slot_at_0)
      have ne: "tab ! i \<noteq> None" using Suc.prems(3,4) e by (auto simp: slot_at_0 dest: spec [of _ 0])
      then obtain y where y: "tab ! i = Some y" by blast
      then have "\<not> P y" using assms(5) Suc.prems(3) False by blast
      moreover have "probe_taken P tab (next_slot ?N i) n = Some k"
        using Suc.IH [of e "next_slot ?N i"] Suc.prems e pos by (auto simp: slot_at_next)
      ultimately show ?thesis using y by simp
    qed
  qed simp
  moreover have "behind ?N i k < ?N" using assms(1) by (intro behind_less) linarith
  moreover have "tab ! slot_at ?N i e \<noteq> None" if e: "e < behind ?N i k" for e
  proof (rule assms(6))
    show "slot_at ?N i e < ?N" unfolding slot_at_def using assms(1) by (intro mod_less_divisor) linarith
    show "on_way ?N i k (slot_at ?N i e)"
      using e assms(1) less_trans [OF e \<open>behind ?N i k < ?N\<close>] by (simp add: on_way_def behind_slot_at)
  qed
  ultimately show ?thesis using slot_at_behind [OF assms(1,2)] assms(1) by blast
qed

text \<open>
  While entries are moved back: the hole \<open>i\<close> may be on the way to an entry, but only to one that
  the loop has not passed yet.
\<close>

definition hole_ok :: "('a \<Rightarrow> nat) \<Rightarrow> 'a option list \<Rightarrow> nat \<Rightarrow> nat \<Rightarrow> bool" where
  "hole_ok hsh tab i j \<longleftrightarrow> (\<forall>k<length tab. \<forall>x. tab ! k = Some x \<longrightarrow> (\<forall>s<length tab.
     on_way (length tab) (hsh x mod length tab) k s \<longrightarrow>
       (tab ! s \<noteq> None \<or> s = i) \<and> (s = i \<longrightarrow> behind (length tab) i j \<le> behind (length tab) i k)))"

lemma hole_closed:
  assumes "hole_ok hsh tab i j" "tab ! j = None" "i \<noteq> j" "i < length tab" "j < length tab"
  shows "probe_ok hsh tab"
  unfolding probe_ok_def
proof (intro allI impI)
  fix k x s
  let ?N = "length tab"
  let ?h = "hsh x mod ?N"
  assume k: "k < ?N" "tab ! k = Some x" "s < ?N" "on_way ?N ?h k s"
  have h: "?h < ?N" using assms(4) by (intro mod_less_divisor) linarith
  have "s \<noteq> i"
  proof
    assume "s = i"
    then have le: "behind ?N i j \<le> behind ?N i k" using assms(1) k by (auto simp: hole_ok_def)
    have "k \<noteq> j" using k(2) assms(2) by auto
    with le k(4) \<open>s = i\<close> have "on_way ?N ?h k j"
      using circle_between [OF h assms(4,5) k(1) assms(3)] by (simp add: on_way_def)
    with assms(1,5) k(1,2) have "tab ! j \<noteq> None \<or> j = i" unfolding hole_ok_def by blast
    with assms(2,3) show False by simp
  qed
  with assms(1) k show "tab ! s \<noteq> None" by (auto simp: hole_ok_def)
qed

lemma hole_moved:
  assumes "hole_ok hsh tab i j" "tab ! i = None" "tab ! j = Some x" "i < length tab" "j < length tab" "i \<noteq> j"
    "behind (length tab) i (hsh x mod length tab) = 0 \<or>
     behind (length tab) i (hsh x mod length tab) > behind (length tab) i j"
  shows "hole_ok hsh (tab[i := Some x, j := None]) j (next_slot (length tab) j)"
  unfolding hole_ok_def length_list_update
proof (intro allI impI)
  fix k y s
  let ?N = "length tab"
  let ?tab = "tab[i := Some x, j := None]"
  assume k: "k < ?N" "?tab ! k = Some y" "s < ?N" "on_way ?N (hsh y mod ?N) k s"
  have h: "hsh y mod ?N < ?N" using assms(4) by (intro mod_less_divisor) linarith
  have kj: "k \<noteq> j" using k(2) assms(5) by auto
  have far: "behind ?N j (next_slot ?N j) \<le> behind ?N j k"
    using behind_pos [OF assms(5) k(1) kj] behind_next [OF assms(5)] mod_less_eq_dividend [of 1 ?N]
    by linarith
  show "(?tab ! s \<noteq> None \<or> s = j) \<and> (s = j \<longrightarrow> behind ?N j (next_slot ?N j) \<le> behind ?N j k)"
  proof (cases "k = i")
    case True
    then have y: "y = x" using k(2) assms(4,6) by simp
    have "on_way ?N (hsh x mod ?N) j i"
      using circle_before [OF _ assms(4,5,6)] h y assms(7) by (simp add: on_way_def)
    then have "on_way ?N (hsh x mod ?N) j s \<and> s \<noteq> i" using k(4) True y by (auto simp: on_way_def)
    then have "tab ! s \<noteq> None" using assms(1,3,5) k(3) unfolding hole_ok_def by blast
    with far show ?thesis using k(3) assms(4,5) by (cases "s = i"; cases "s = j") simp_all
  next
    case False
    then have "tab ! k = Some y" using k(2) kj by simp
    then have "tab ! s \<noteq> None \<or> s = i" using assms(1) k(1,3,4) unfolding hole_ok_def by blast
    with far show ?thesis using k(3) assms(4,5,6) by (cases "s = i"; cases "s = j") simp_all
  qed
qed

lemma hole_kept:
  assumes "hole_ok hsh tab i j" "tab ! j = Some x" "i < length tab" "j < length tab" "i \<noteq> j"
    "\<not> (behind (length tab) i (hsh x mod length tab) = 0 \<or>
     behind (length tab) i (hsh x mod length tab) > behind (length tab) i j)"
    "behind (length tab) i (next_slot (length tab) j) = Suc (behind (length tab) i j)"
  shows "hole_ok hsh tab i (next_slot (length tab) j)"
  unfolding hole_ok_def
proof (intro allI impI)
  fix k y s
  let ?N = "length tab"
  assume k: "k < ?N" "tab ! k = Some y" "s < ?N" "on_way ?N (hsh y mod ?N) k s"
  have h: "hsh y mod ?N < ?N" using assms(3) by (intro mod_less_divisor) linarith
  have "behind ?N i j < behind ?N i k" if "s = i"
  proof -
    have le: "behind ?N i j \<le> behind ?N i k" using assms(1) k that by (auto simp: hole_ok_def)
    have "k \<noteq> j"
    proof
      assume "k = j"
      then have "y = x" using k(2) assms(2) by simp
      with k(4) \<open>k = j\<close> that h assms(6) circle_before [OF _ assms(3,4,5)] show False
        by (simp add: on_way_def)
    qed
    with le behind_add [OF assms(3,4)] behind_add [OF assms(3) k(1)] k(1) assms(4) show ?thesis
      by linarith
  qed
  moreover have "tab ! s \<noteq> None \<or> s = i" using assms(1) k unfolding hole_ok_def by blast
  ultimately show "(tab ! s \<noteq> None \<or> s = i) \<and> (s = i \<longrightarrow> behind ?N i (next_slot ?N j) \<le> behind ?N i k)"
    using assms(7) by (auto simp: Suc_le_eq)
qed

lemma behind_step:
  assumes "i < N" "j < N" "e < N" "j \<noteq> e" "behind N i j < behind N i e"
  shows "behind N i (next_slot N j) = Suc (behind N i j) \<and> Suc (behind N (next_slot N j) e) = behind N j e"
proof -
  define q where "q = next_slot N j"
  have q: "q < N" "q = j + 1 \<or> q = 0 \<and> j + 1 = N" using assms(2) by (auto simp: q_def next_if)
  have "behind N i q = Suc (behind N i j)"
    using behind_add [OF assms(1,2)] behind_add [OF assms(1,3)] behind_add [OF assms(1) q(1)] q(2) assms(3,5)
    by linarith
  moreover have "Suc (behind N q e) = behind N j e"
    using behind_add [OF q(1) assms(3)] behind_add [OF assms(2,3)] q(2) assms(2,3,4) by linarith
  ultimately show ?thesis by (simp add: q_def)
qed

lemma shift_back_law:
  assumes "hole_ok hsh tab i j" "tab ! i = None" "once tab" "i < length tab" "j < length tab" "i \<noteq> j"
    and "e < length tab" "tab ! e = None" "e \<noteq> i" "behind (length tab) i j \<le> behind (length tab) i e"
    and "behind (length tab) j e < n"
  shows "length (shift_back hsh tab i j n) = length tab \<and> probe_ok hsh (shift_back hsh tab i j n) \<and>
    once (shift_back hsh tab i j n) \<and> entries (shift_back hsh tab i j n) = entries tab \<and>
    taken (shift_back hsh tab i j n) = taken tab"
  using assms
proof (induction n arbitrary: tab i j)
  case (Suc n)
  note pre = Suc.prems
  let ?N = "length tab"
  show ?case
  proof (cases "tab ! j")
    case None
    with pre hole_closed [OF pre(1) None pre(6,4,5)] show ?thesis by simp
  next
    case (Some x)
    then have je: "j \<noteq> e" using pre(8) by auto
    have lt: "behind ?N i j < behind ?N i e"
      using behind_add [OF pre(4,5)] behind_add [OF pre(4,7)] pre(4,5,7,10) je by linarith
    note step = conjunct1 [OF behind_step [OF pre(4,5,7) je lt]] conjunct2 [OF behind_step [OF pre(4,5,7) je lt]]
    have nl: "next_slot ?N j < ?N" using pre(4) by (intro next_less) linarith
    let ?c = "behind ?N i (hsh x mod ?N) = 0 \<or> behind ?N i (hsh x mod ?N) > behind ?N i j"
    show ?thesis
    proof (cases ?c)
      case True
      define t where "t = tab[i := Some x, j := None]"
      have ho: "hole_ok hsh t j (next_slot ?N j)"
        unfolding t_def by (rule hole_moved [OF pre(1,2) Some pre(4,5,6) True])
      have l: "length t = ?N" by (simp add: t_def)
      have "tab[i := Some x] ! j = Some x" "j < length (tab[i := Some x])" using Some pre(5,6) by simp_all
      from taken_clear [OF this(2,1)] taken_update [OF pre(4,2)] have tk: "taken t = taken tab"
        by (simp add: t_def)
      have nth: "t ! k = (if k = j then None else if k = i then Some x else tab ! k)" if "k < ?N" for k
        using that by (simp add: t_def)
      have en: "entries t = entries tab"
      proof (intro equalityI subsetI)
        fix y assume "y \<in> entries t"
        then obtain k where "k < ?N" "t ! k = Some y" using entries_slot l by metis
        then show "y \<in> entries tab" using nth [of k] Some pre(5) entries_nth [of _ tab y]
          by (auto split: if_splits)
      next
        fix y assume "y \<in> entries tab"
        then obtain k where k: "k < ?N" "tab ! k = Some y" using entries_slot by metis
        show "y \<in> entries t"
        proof (cases "k = j")
          case True
          with k Some nth [OF pre(4)] pre(6) show ?thesis using entries_nth [of i t y] l pre(4) by simp
        next
          case False
          with k nth [OF k(1)] pre(2) show ?thesis using entries_nth [of k t y] l by (cases "k = i") auto
        qed
      qed
      have on: "once t"
        unfolding once_def l
      proof (intro allI impI)
        fix a b assume ab: "a < ?N" "b < ?N" "t ! a = t ! b" "t ! a \<noteq> None"
        have only: "k < ?N \<Longrightarrow> tab ! k = Some x \<Longrightarrow> k = j" for k
          using pre(3,5) Some unfolding once_def by (metis option.distinct(1))
        show "a = b"
          using ab nth [OF ab(1)] nth [OF ab(2)] only [of a] only [of b] pre(3) unfolding once_def
          by (auto split: if_splits)
      qed
      have nn: "j \<noteq> next_slot ?N j" using je pre(5,7) by (auto simp: next_if)
      have b1: "behind ?N j (next_slot ?N j) \<le> behind ?N j e"
        using behind_pos [OF pre(5,7)] je behind_next [OF pre(5)] mod_less_eq_dividend [of 1 ?N] by linarith
      have te: "t ! e = None" using nth [OF pre(7)] pre(8,9) by simp
      have "behind ?N (next_slot ?N j) e < n" using step(2) pre(11) by linarith
      from Suc.IH [of t j "next_slot ?N j", unfolded l, OF ho _ on pre(5) nl nn pre(7) te je [symmetric] b1 this]
      show ?thesis using nth [OF pre(5)] tk en True Some by (simp add: Let_def t_def)
    next
      case False
      have "hole_ok hsh tab i (next_slot ?N j)"
        by (rule hole_kept [OF pre(1) Some pre(4,5,6) False step(1)])
      moreover have "i \<noteq> next_slot ?N j"
        using step(1) pre(4) by (auto simp: behind_if)
      moreover have "behind ?N i (next_slot ?N j) \<le> behind ?N i e" "behind ?N (next_slot ?N j) e < n"
        using step lt pre(11) by linarith+
      ultimately show ?thesis
        using Suc.IH [of tab i "next_slot ?N j"] pre(2-4,7-9) nl False Some by (simp add: Let_def)
    qed
  qed
qed simp

text \<open>
  Deleting an entry from a table that is not full: the search never meets an empty slot, and the
  result has all the other entries and the invariant.
\<close>

lemma tab_delete_law:
  assumes "probe_ok hsh tab" "once tab" "taken tab < length tab" "x \<in> entries tab" "P x"
    and "\<And>y. y \<in> entries tab \<Longrightarrow> P y \<Longrightarrow> y = x" "h = hsh x"
  shows "\<exists>tab'. tab_delete hsh P h tab = Some tab' \<and> length tab' = length tab \<and> probe_ok hsh tab' \<and>
    once tab' \<and> entries tab' = entries tab - {x} \<and> Suc (taken tab') = taken tab"
proof -
  let ?N = "length tab"
  obtain i where i: "i < ?N" "tab ! i = Some x" using entries_slot [OF assms(4)] by blast
  obtain e where e: "e < ?N" "tab ! e = None" using taken_room [OF assms(3)] by blast
  have pos: "0 < ?N" using i(1) by linarith
  have hm: "h mod ?N < ?N" using pos by simp
  have only: "s < ?N \<Longrightarrow> tab ! s = Some y \<Longrightarrow> P y \<Longrightarrow> s = i" for s y
    using assms(2,6) i entries_nth [of s tab y] unfolding once_def by (metis option.distinct(1))
  have way: "s < ?N \<Longrightarrow> on_way ?N (h mod ?N) i s \<Longrightarrow> tab ! s \<noteq> None" for s
    using assms(1,7) i unfolding probe_ok_def by blast
  have find: "probe_taken P tab (h mod ?N) ?N = Some i"
  proof (rule probe_taken_law [where x = x and P = P, OF hm i])
    show "P x" by (rule assms(5))
  next
    fix s y assume "s < ?N" "tab ! s = Some y" "P y"
    then show "s = i" by (rule only)
  next
    fix s assume "s < ?N" "on_way ?N (h mod ?N) i s"
    then show "tab ! s \<noteq> None" by (rule way)
  qed
  define t where "t = tab[i := None]"
  have l: "length t = ?N" by (simp add: t_def)
  let ?j = "next_slot ?N i"
  have ie: "i \<noteq> e" using i(2) e(2) by auto
  have ij: "i \<noteq> ?j" using ie i(1) e(1) by (auto simp: next_if)
  have jl: "?j < ?N" using pos by simp
  have b1: "k < ?N \<Longrightarrow> k \<noteq> i \<Longrightarrow> behind ?N i ?j \<le> behind ?N i k" for k
    using behind_pos [OF i(1), of k] behind_next [OF i(1)] mod_less_eq_dividend [of 1 ?N] by linarith
  have ho: "hole_ok hsh t i ?j"
    unfolding hole_ok_def l
  proof (intro allI impI)
    fix k y s
    assume k: "k < ?N" "t ! k = Some y" "s < ?N" "on_way ?N (hsh y mod ?N) k s"
    have ki: "k \<noteq> i" using k(1,2) by (auto simp: t_def)
    then have "tab ! k = Some y" using k(2) by (simp add: t_def)
    then have "tab ! s \<noteq> None" using assms(1) k unfolding probe_ok_def by blast
    then show "(t ! s \<noteq> None \<or> s = i) \<and> (s = i \<longrightarrow> behind ?N i ?j \<le> behind ?N i k)"
      using b1 [OF k(1) ki] k(3) by (cases "s = i") (simp_all add: t_def)
  qed
  have nth: "t ! k = (if k = i then None else tab ! k)" if "k < ?N" for k
    using that by (simp add: t_def)
  have on: "once t" using assms(2) nth l unfolding once_def by (auto split: if_splits)
  have en: "entries t = entries tab - {x}"
  proof (intro equalityI subsetI)
    fix y assume "y \<in> entries t"
    then obtain k where k: "k < ?N" "t ! k = Some y" using entries_slot l by metis
    then have "k \<noteq> i" "tab ! k = Some y" using nth [OF k(1)] by (auto split: if_splits)
    moreover from this have "y \<noteq> x" using assms(2) i k(1) unfolding once_def by (metis option.distinct(1))
    ultimately show "y \<in> entries tab - {x}" using entries_nth [OF k(1)] by simp
  next
    fix y assume y: "y \<in> entries tab - {x}"
    then have "y \<in> entries tab" by simp
    from entries_slot [OF this] obtain k where k: "k < ?N" "tab ! k = Some y" by blast
    with y i(2) have "k \<noteq> i" by auto
    with k nth [OF k(1)] show "y \<in> entries t" using entries_nth [of k t y] l by simp
  qed
  have tk: "Suc (taken t) = taken tab" using taken_clear [OF i] by (simp add: t_def)
  have ti: "t ! i = None" using i(1) by (simp add: t_def)
  have te: "t ! e = None" using nth [OF e(1)] e(2) by simp
  have fuel: "behind ?N ?j e < ?N" by (rule behind_less [OF pos])
  note law = shift_back_law [of hsh t i ?j e ?N, unfolded l, OF ho ti on i(1) jl ij e(1) te ie [symmetric]
      b1 [OF e(1) ie [symmetric]] fuel]
  have "tab_delete hsh P h tab = Some (shift_back hsh t i ?j ?N)"
    unfolding tab_delete_def find t_def by simp
  then show ?thesis using law unfolding en [symmetric] tk [symmetric] by blast
qed

section \<open>The table of the daemon\<close>

text \<open>\<open>hashlen\<close>, the slots and \<open>nbuckets\<close>, with the parts of \<open>hashget\<close> and \<open>hashdel\<close> that change them.\<close>

type_synonym 'a htab = "nat \<times> 'a option list \<times> nat"

definition ht_find :: "('a \<Rightarrow> bool) \<Rightarrow> nat \<Rightarrow> 'a htab \<Rightarrow> 'a option" where
  "ht_find P h t = (case t of (hashlen, slots, nb) \<Rightarrow>
     (case probe_find P slots (h mod length slots) (length slots) of None \<Rightarrow> None | Some i \<Rightarrow> slots ! i))"

definition ht_put :: "('a \<Rightarrow> nat) \<Rightarrow> 'a \<Rightarrow> 'a htab \<Rightarrow> 'a htab option" where
  "ht_put hsh x t = (case t of (hashlen, slots, nb) \<Rightarrow>
     (case tab_insert hsh x slots of
        None \<Rightarrow> None
      | Some slots1 \<Rightarrow>
          (let nb1 = nb + 1;
               (hl, slots2) = (if nb1 > 2 ^ (hashlen - 1) then rehash hsh (hashlen + 1) (hashlen, slots1)
                 else (hashlen, slots1))
           in Some (hl, slots2, nb1))))"

definition ht_del :: "('a \<Rightarrow> nat) \<Rightarrow> ('a \<Rightarrow> bool) \<Rightarrow> nat \<Rightarrow> 'a htab \<Rightarrow> 'a htab option" where
  "ht_del hsh P h t = (case t of (hashlen, slots, nb) \<Rightarrow>
     (case tab_delete hsh P h slots of
        None \<Rightarrow> None
      | Some slots1 \<Rightarrow>
          (let nb1 = nb - 1;
               (hl, slots2) = (if nb1 \<le> 2 ^ (hashlen - 3) then rehash hsh (hashlen - 1) (hashlen, slots1)
                 else (hashlen, slots1))
           in Some (hl, slots2, nb1))))"

text \<open>To evaluate examples: an empty table need not be searched.\<close>

lemma probe_find_empty: "list_all (\<lambda>e. e = None) tab \<Longrightarrow> i < length tab \<Longrightarrow> probe_find P tab i n = None"
proof (induction P tab i n rule: probe_find.induct)
  case (2 P tab i n)
  have "next_slot (length tab) i < length tab" using 2(4) unfolding next_slot_def by (intro mod_less_divisor) linarith
  moreover have "tab ! i = None" using 2(3,4) by (simp add: list_all_length)
  ultimately show ?case using 2 by simp
qed simp

lemma ht_find_code [code]:
  "ht_find P h (hashlen, slots, nb) =
     (if list_all (\<lambda>e. e = None) slots then None
      else (case probe_find P slots (h mod length slots) (length slots) of None \<Rightarrow> None | Some i \<Rightarrow> slots ! i))"
proof (cases "slots = []")
  case False
  then have "h mod length slots < length slots" by simp
  from probe_find_empty [OF _ this] show ?thesis by (simp add: ht_find_def)
qed (simp add: ht_find_def)

definition ht_empty :: "'a htab" where
  "ht_empty = (SBUCKETS, replicate (2 ^ SBUCKETS) None, 0)"

definition ht_keys :: "'a htab \<Rightarrow> 'a set" where
  "ht_keys t = entries (fst (snd t))"

text \<open>The table is at most half full, so every search meets an empty slot.\<close>

definition ht_ok :: "('a \<Rightarrow> nat) \<Rightarrow> 'a htab \<Rightarrow> bool" where
  "ht_ok hsh t \<longleftrightarrow> (case t of (hashlen, slots, nb) \<Rightarrow>
     SBUCKETS \<le> hashlen \<and> length slots = 2 ^ hashlen \<and> probe_ok hsh slots \<and> once slots \<and>
     taken slots = nb \<and> nb \<le> 2 ^ (hashlen - 1))"

lemma ht_empty_ok: "ht_ok hsh ht_empty" "ht_keys ht_empty = {}"
  by (auto simp: ht_ok_def ht_empty_def ht_keys_def probe_ok_def once_def taken_def entries_def)

lemma probe_ok_cong:
  "\<forall>x\<in>entries tab. hsh x = hsh' x \<Longrightarrow> probe_ok hsh tab \<Longrightarrow> probe_ok hsh' tab"
  unfolding probe_ok_def using entries_nth by metis

lemma ht_ok_cong: "ht_ok hsh t \<Longrightarrow> \<forall>x\<in>ht_keys t. hsh x = hsh' x \<Longrightarrow> ht_ok hsh' t"
  using probe_ok_cong [of "fst (snd t)" hsh hsh'] by (auto simp: ht_ok_def ht_keys_def)

lemma probe_find_sound:
  "probe_find P tab i n = Some k \<Longrightarrow> i < length tab \<Longrightarrow> \<exists>x. tab ! k = Some x \<and> P x \<and> k < length tab"
proof (induction P tab i n rule: probe_find.induct)
  case (2 P tab i n)
  have "0 < length tab" using 2(4) by linarith
  then have "next_slot (length tab) i < length tab" by simp
  with 2 show ?case by (cases "tab ! i") (auto split: if_splits)
qed simp

lemma probe_find_complete:
  assumes "i < length tab" "k < length tab" "tab ! k = Some x" "P x"
  shows "probe_find P tab i (length tab) \<noteq> None"
proof -
  let ?N = "length tab"
  have "probe_find P tab i n \<noteq> None" if "d < n" "slot_at ?N i d = k" "i < ?N" for d n i
    using that
  proof (induction n arbitrary: i d)
    case (Suc n)
    show ?case
    proof (cases "i = k")
      case False
      then obtain e where e: "d = Suc e" using Suc.prems by (cases d) (auto simp: slot_at_0)
      have "0 < ?N" using Suc.prems(3) by linarith
      with e Suc.prems Suc.IH [of e "next_slot ?N i"] show ?thesis
        by (auto simp: slot_at_next split: option.split)
    qed (use assms(3,4) in simp)
  qed simp
  moreover have "behind ?N i k < ?N" using assms(1) by (intro behind_less) linarith
  ultimately show ?thesis using slot_at_behind [OF assms(1,2)] assms(1) by blast
qed

lemma ht_find_law:
  assumes "ht_ok hsh t"
  shows "ht_find P h t = None \<longleftrightarrow> (\<forall>x\<in>ht_keys t. \<not> P x)"
    "ht_find P h t = Some x \<Longrightarrow> x \<in> ht_keys t \<and> P x"
proof -
  obtain hl slots nb where t: "t = (hl, slots, nb)" by (cases t)
  have h: "h mod length slots < length slots" using assms t by (simp add: ht_ok_def)
  note sound = probe_find_sound [OF _ h, of P "length slots"]
  show "ht_find P h t = Some x \<Longrightarrow> x \<in> ht_keys t \<and> P x"
    using sound entries_nth by (fastforce simp: ht_find_def t ht_keys_def split: option.splits)
  show "ht_find P h t = None \<longleftrightarrow> (\<forall>x\<in>ht_keys t. \<not> P x)"
  proof (cases "probe_find P slots (h mod length slots) (length slots)")
    case None
    then have "\<forall>x\<in>entries slots. \<not> P x"
      using probe_find_complete [OF h] entries_slot by metis
    with None show ?thesis by (simp add: ht_find_def t ht_keys_def)
  next
    case (Some k)
    with sound [OF Some] entries_nth [of k slots] show ?thesis by (auto simp: ht_find_def t ht_keys_def)
  qed
qed

lemma ht_put_law:
  assumes "ht_ok hsh t" "x \<notin> ht_keys t"
  shows "\<exists>t'. ht_put hsh x t = Some t' \<and> ht_ok hsh t' \<and> ht_keys t' = insert x (ht_keys t)"
proof -
  obtain hl slots nb where t: "t = (hl, slots, nb)" by (cases t)
  have ok: "SBUCKETS \<le> hl" "length slots = 2 ^ hl" "probe_ok hsh slots" "once slots" "taken slots = nb"
    "nb \<le> 2 ^ (hl - 1)" using assms(1) by (auto simp: ht_ok_def t)
  have hl: "0 < hl" using ok(1) by (simp add: SBUCKETS_def)
  have half: "(2::nat) ^ hl = 2 * 2 ^ (hl - 1)" using power_minus_mult [OF hl, of "2::nat"] by simp
  have pos: "0 < (2::nat) ^ (hl - 1)" by simp
  have "taken slots < length slots" unfolding ok(2,5) half using ok(6) pos by linarith
  then obtain k where "k < length slots" "slots ! k = None" using taken_room by blast
  from tab_insert_room [OF this, of hsh x] obtain s1 where s1: "tab_insert hsh x slots = Some s1" by blast
  have ne: "slots \<noteq> []" using ok(2) by auto
  have x: "x \<notin> entries slots" using assms(2) by (simp add: t ht_keys_def)
  note law = tab_insert_law [OF s1 ok(3) ne] tab_insert_taken [OF s1 ne]
  have o1: "once s1" using law(4) ok(4) x by blast
  show ?thesis
  proof (cases "nb + 1 > 2 ^ (hl - 1)")
    case True
    obtain h2 s2 where r: "rehash hsh (hl + 1) (hl, s1) = (h2, s2)" by (cases "rehash hsh (hl + 1) (hl, s1)")
    have mx: "max (hl + 1) SBUCKETS = hl + 1" using ok(1) by simp
    have "nb + 1 \<le> 2 ^ hl" unfolding half using ok(6) pos by linarith
    moreover have "(2::nat) ^ hl \<le> 2 ^ max (hl + 1) SBUCKETS" by (intro power_increasing) simp_all
    ultimately have tk: "taken s1 \<le> 2 ^ max (hl + 1) SBUCKETS" "nb + 1 \<le> 2 ^ hl"
      using ok(5) law(5) by linarith+
    have "length s1 = 2 ^ hl" using law(1) ok(2) by simp
    from rehash_law [OF r this law(2) o1 tk(1)]
    have s2: "h2 = hl + 1" "length s2 = 2 ^ h2" "probe_ok hsh s2" "once s2" "taken s2 = nb + 1"
      "entries s2 = insert x (entries slots)" using mx law(3,5) ok(5) by auto
    have "ht_put hsh x t = Some (h2, s2, nb + 1)" using s1 r True by (simp add: ht_put_def t)
    moreover have "ht_ok hsh (h2, s2, nb + 1)" using s2 tk(2) ok(1) by (simp add: ht_ok_def)
    ultimately show ?thesis using s2(6) by (simp add: ht_keys_def t)
  next
    case False
    with law(1,2,3,5) o1 ok s1 show ?thesis
      by (intro exI [of _ "(hl, s1, nb + 1)"]) (simp add: ht_put_def t ht_ok_def ht_keys_def)
  qed
qed

lemma ht_del_law:
  assumes "ht_ok hsh t" "x \<in> ht_keys t" "P x" "\<forall>y\<in>ht_keys t. P y \<longrightarrow> y = x"
  shows "\<exists>t'. ht_del hsh P (hsh x) t = Some t' \<and> ht_ok hsh t' \<and> ht_keys t' = ht_keys t - {x}"
proof -
  obtain hl slots nb where t: "t = (hl, slots, nb)" by (cases t)
  have ok: "SBUCKETS \<le> hl" "length slots = 2 ^ hl" "probe_ok hsh slots" "once slots" "taken slots = nb"
    "nb \<le> 2 ^ (hl - 1)" using assms(1) by (auto simp: ht_ok_def t)
  have hl: "7 \<le> hl" using ok(1) by (simp add: SBUCKETS_def)
  have half: "(2::nat) ^ hl = 2 * 2 ^ (hl - 1)" using power_minus_mult [of hl "2::nat"] hl by simp
  have pos: "0 < (2::nat) ^ (hl - 1)" by simp
  have room: "taken slots < length slots" unfolding ok(2,5) half using ok(6) pos by linarith
  have x: "x \<in> entries slots" "\<And>y. y \<in> entries slots \<Longrightarrow> P y \<Longrightarrow> y = x"
    using assms(2,4) by (auto simp: t ht_keys_def)
  obtain s1 where s1: "tab_delete hsh P (hsh x) slots = Some s1" "length s1 = length slots" "probe_ok hsh s1"
    "once s1" "entries s1 = entries slots - {x}" "Suc (taken s1) = taken slots"
    using tab_delete_law [where P = P and x = x, OF ok(3,4) room x(1) assms(3) x(2) refl [of "hsh x"]] by blast
  have nb1: "taken s1 = nb - 1" using s1(6) ok(5) by simp
  show ?thesis
  proof (cases "nb - 1 \<le> 2 ^ (hl - 3)")
    case True
    obtain h2 s2 where r: "rehash hsh (hl - 1) (hl, s1) = (h2, s2)" by (cases "rehash hsh (hl - 1) (hl, s1)")
    define m where "m = max (hl - 1) SBUCKETS"
    have m: "hl - 1 \<le> m" "SBUCKETS \<le> m" by (simp_all add: m_def)
    have "(2::nat) ^ (hl - 3) \<le> 2 ^ (m - 1)" using m(1) by (intro power_increasing) linarith+
    moreover have "(2::nat) ^ (hl - 3) \<le> 2 ^ m" using m(1) by (intro power_increasing) linarith+
    ultimately have tk: "nb - 1 \<le> 2 ^ (m - 1)" "taken s1 \<le> 2 ^ m" using True nb1 by linarith+
    have "h2 = m \<and> length s2 = 2 ^ h2 \<and> probe_ok hsh s2 \<and> once s2 \<and> taken s2 = taken s1 \<and> entries s2 = entries s1"
      using rehash_law [OF r _ s1(3,4)] s1(2) ok(2) tk(2) by (simp add: m_def)
    then have "ht_ok hsh (h2, s2, nb - 1)" "entries s2 = entries slots - {x}"
      using tk(1) nb1 m(2) s1(5) by (simp_all add: ht_ok_def)
    moreover have "ht_del hsh P (hsh x) t = Some (h2, s2, nb - 1)" using s1(1) r True by (simp add: ht_del_def t)
    ultimately show ?thesis by (simp add: ht_keys_def t)
  next
    case False
    with s1 ok nb1 show ?thesis
      by (intro exI [of _ "(hl, s1, nb - 1)"]) (simp add: ht_del_def t ht_ok_def ht_keys_def)
  qed
qed

section \<open>What the daemon relies on\<close>

locale bucket_index =
  fixes ok :: "('a \<Rightarrow> nat) \<Rightarrow> 't \<Rightarrow> bool"
    and keys :: "'t \<Rightarrow> 'a set"
    and find :: "('a \<Rightarrow> bool) \<Rightarrow> nat \<Rightarrow> 't \<Rightarrow> 'a option"
    and put :: "('a \<Rightarrow> nat) \<Rightarrow> 'a \<Rightarrow> 't \<Rightarrow> 't option"
    and del :: "('a \<Rightarrow> nat) \<Rightarrow> ('a \<Rightarrow> bool) \<Rightarrow> nat \<Rightarrow> 't \<Rightarrow> 't option"
  assumes find_None: "ok hsh t \<Longrightarrow> find P h t = None \<longleftrightarrow> (\<forall>x\<in>keys t. \<not> P x)"
    and find_Some: "ok hsh t \<Longrightarrow> find P h t = Some x \<Longrightarrow> x \<in> keys t \<and> P x"
    and put_law: "ok hsh t \<Longrightarrow> x \<notin> keys t \<Longrightarrow>
      \<exists>t'. put hsh x t = Some t' \<and> ok hsh t' \<and> keys t' = insert x (keys t)"
    and del_law: "ok hsh t \<Longrightarrow> x \<in> keys t \<Longrightarrow> P x \<Longrightarrow> \<forall>y\<in>keys t. P y \<longrightarrow> y = x \<Longrightarrow>
      \<exists>t'. del hsh P (hsh x) t = Some t' \<and> ok hsh t' \<and> keys t' = keys t - {x}"
    and hash_cong: "ok hsh t \<Longrightarrow> \<forall>x\<in>keys t. hsh x = hsh' x \<Longrightarrow> ok hsh' t"
begin

lemma find_only:
  assumes "ok hsh t" "x \<in> keys t" "P x" "\<forall>y\<in>keys t. P y \<longrightarrow> y = x"
  shows "find P h t = Some x"
proof (cases "find P h t")
  case None
  with find_None [OF assms(1)] assms(2,3) show ?thesis by blast
next
  case (Some y)
  with find_Some [OF assms(1) Some] assms(4) show ?thesis by blast
qed

text \<open>A new entry, of which the hash was not known before.\<close>

lemma put_new:
  assumes "ok hsh t" "x \<notin> keys t"
  shows "\<exists>t'. put (hsh(x := h)) x t = Some t' \<and> ok (hsh(x := h)) t' \<and> keys t' = insert x (keys t)"
proof (rule put_law)
  show "ok (hsh(x := h)) t" using assms by (intro hash_cong [OF assms(1)]) auto
qed (fact assms(2))

text \<open>After its deletion an entry is not found, whatever else is searched for is.\<close>

lemma find_deleted:
  assumes "ok hsh t" "x \<in> keys t" "P x" "\<forall>y\<in>keys t. P y \<longrightarrow> y = x"
  shows "\<exists>t'. del hsh P (hsh x) t = Some t' \<and> find P h t' = None"
  using del_law [OF assms] find_None assms(4) by (metis DiffD1 DiffD2 insertI1)

end

interpretation table: bucket_index ht_ok ht_keys ht_find ht_put ht_del
proof
  fix hsh :: "'a \<Rightarrow> nat" and t :: "'a htab" and P h x
  assume ok: "ht_ok hsh t"
  show "ht_find P h t = None \<longleftrightarrow> (\<forall>x\<in>ht_keys t. \<not> P x)" by (rule ht_find_law(1) [OF ok])
  show "ht_find P h t = Some x \<Longrightarrow> x \<in> ht_keys t \<and> P x" by (rule ht_find_law(2) [OF ok])
qed (blast intro: ht_put_law, blast intro: ht_del_law, blast intro: ht_ok_cong)

end
