(* ===== verification/Timeheap.thy ===== *)
theory Timeheap
  imports Main "HOL-Library.Multiset"
begin

text \<open>
  The heap of timers of \<open>src/ratequeue.c\<close>: an array of buckets with the time each is due, the
  earliest at the root, where every bucket knows its place (\<open>thpos\<close>). The field \<open>thpos\<close> of the
  buckets is the map \<open>pos\<close> of the state.
\<close>

section \<open>Operations\<close>

type_synonym ('b, 't) btime = "'b \<times> 't"

type_synonym ('b, 't) theap = "('b, 't) btime list \<times> ('b \<Rightarrow> int)"

text \<open>\<open>(timeheap.b[n] = bt).bk->thpos = n\<close>\<close>

definition th_put :: "nat \<Rightarrow> ('b, 't) btime \<Rightarrow> ('b, 't) theap \<Rightarrow> ('b, 't) theap" where
  "th_put n bt hp = ((fst hp)[n := bt], (snd hp)(fst bt := int n))"

abbreviation th_parent :: "nat \<Rightarrow> nat" where
  "th_parent n \<equiv> (n - 1) div 2"

fun thraise :: "('b, 't::linorder) btime \<Rightarrow> nat \<Rightarrow> ('b, 't) theap \<Rightarrow> ('b, 't) theap" where
  "thraise bt n hp =
     (if n > 0 \<and> \<not> snd (fst hp ! th_parent n) \<le> snd bt
      then thraise bt (th_parent n) (th_put n (fst hp ! th_parent n) hp)
      else th_put n bt hp)"

lemma length_put [simp]: "length (fst (th_put n bt hp)) = length (fst hp)"
  by (simp add: th_put_def)

text \<open>The child that a sinking entry is compared with.\<close>

definition least_child :: "('b, 't::linorder) btime list \<Rightarrow> nat \<Rightarrow> nat" where
  "least_child h n =
    (let c1 = 2 * n + 1; c2 = c1 + 1
     in if c2 < length h \<and> snd (h ! c2) < snd (h ! c1) then c2 else c1)"

function thlower :: "('b, 't::linorder) btime \<Rightarrow> nat \<Rightarrow> ('b, 't) theap \<Rightarrow> ('b, 't) theap" where
  "thlower bt n hp =
     (let c = least_child (fst hp) n in
      if 2 * n + 1 < length (fst hp) \<and> \<not> snd (fst hp ! c) > snd bt
      then thlower bt c (th_put n (fst hp ! c) hp)
      else th_put n bt hp)"
  by pat_completeness auto
termination
  by (relation "measure (\<lambda>(bt, n, hp). length (fst hp) - n)") (auto simp: least_child_def Let_def)

declare thraise.simps [simp del] thlower.simps [simp del]

definition thadjust :: "('b, 't::linorder) btime \<Rightarrow> nat \<Rightarrow> ('b, 't) theap \<Rightarrow> ('b, 't) theap" where
  "thadjust bt n hp =
     (if n > 0 \<and> snd (fst hp ! th_parent n) > snd bt then thraise bt n hp else thlower bt n hp)"

text \<open>The end of \<open>updbtime\<close>: a new entry, or a new time for the entry the bucket has.\<close>

definition th_set :: "'b \<Rightarrow> 't::linorder \<Rightarrow> ('b, 't) theap \<Rightarrow> ('b, 't) theap" where
  "th_set b tm hp =
     (if snd hp b < 0 then thraise (b, tm) (length (fst hp)) (fst hp @ [(b, tm)], snd hp)
      else thadjust (b, tm) (nat (snd hp b)) hp)"

text \<open>The removal in \<open>freebucket\<close>; the freed bucket has no place any more.\<close>

definition th_remove :: "'b \<Rightarrow> ('b, 't::linorder) theap \<Rightarrow> ('b, 't) theap" where
  "th_remove b hp =
     (if snd hp b < 0 then hp
      else (let n = nat (snd hp b); r = last (fst hp); h = butlast (fst hp);
                (h1, pos1) = (if n < length h then thadjust r n (h, snd hp) else (h, snd hp))
            in (h1, pos1(b := - 1))))"

section \<open>The order\<close>

definition th_heap :: "('b, 't::linorder) btime list \<Rightarrow> bool" where
  "th_heap h \<longleftrightarrow> (\<forall>k<length h. 0 < k \<longrightarrow> snd (h ! th_parent k) \<le> snd (h ! k))"

text \<open>
  An entry about to be put at \<open>n\<close>: everywhere but above (\<open>up\<close>) or below (\<open>down\<close>) that place the
  order holds, and the entries around the place are in order without it.
\<close>

definition hole_up :: "('b, 't::linorder) btime list \<Rightarrow> nat \<Rightarrow> ('b, 't) btime \<Rightarrow> bool" where
  "hole_up h n bt \<longleftrightarrow> n < length h \<and>
     (\<forall>k<length h. 0 < k \<longrightarrow> k \<noteq> n \<longrightarrow> snd (h[n := bt] ! th_parent k) \<le> snd (h[n := bt] ! k)) \<and>
     (\<forall>k<length h. 0 < k \<longrightarrow> th_parent k = n \<longrightarrow> 0 < n \<longrightarrow> snd (h ! th_parent n) \<le> snd (h ! k))"

definition hole_down :: "('b, 't::linorder) btime list \<Rightarrow> nat \<Rightarrow> ('b, 't) btime \<Rightarrow> bool" where
  "hole_down h n bt \<longleftrightarrow> n < length h \<and>
     (\<forall>k<length h. 0 < k \<longrightarrow> th_parent k \<noteq> n \<longrightarrow> snd (h[n := bt] ! th_parent k) \<le> snd (h[n := bt] ! k)) \<and>
     (\<forall>k<length h. 0 < k \<longrightarrow> th_parent k = n \<longrightarrow> 0 < n \<longrightarrow> snd (h ! th_parent n) \<le> snd (h ! k))"

lemma parent_less: "0 < k \<Longrightarrow> th_parent k < k"
  by linarith

lemma mset_hole:
  assumes "n < length h" "p < length h" "n \<noteq> p"
  shows "mset (h[n := h ! p, p := bt]) = mset (h[n := bt])"
  using mset_swap [of p "h[n := bt]" n] assms by simp

lemma raise_heap: "hole_up h n bt \<Longrightarrow> th_heap (fst (thraise bt n (h, pos)))"
proof (induction bt n "(h, pos)" arbitrary: h pos rule: thraise.induct)
  case (1 bt n h pos)
  show ?case
  proof (cases "n > 0 \<and> \<not> snd (h ! th_parent n) \<le> snd bt")
    case False
    have "th_heap (h[n := bt])"
      unfolding th_heap_def
    proof (intro allI impI)
      fix k assume k: "k < length (h[n := bt])" "0 < k"
      then have "th_parent k < k" by linarith
      with 1(2) False k show "snd (h[n := bt] ! th_parent k) \<le> snd (h[n := bt] ! k)"
        by (cases "k = n") (auto simp: hole_up_def)
    qed
    moreover have "thraise bt n (h, pos) = th_put n bt (h, pos)" using False by (subst thraise.simps) auto
    ultimately show ?thesis by (simp add: th_put_def)
  next
    case True
    define p where "p = th_parent n"
    define h1 where "h1 = h[n := h ! p]"
    have n: "n < length h" "p < n" using 1(2) True by (auto simp: hole_up_def p_def)
    have order: "k < length h \<Longrightarrow> 0 < k \<Longrightarrow> k \<noteq> n \<Longrightarrow> snd (h[n := bt] ! th_parent k) \<le> snd (h[n := bt] ! k)"
      "k < length h \<Longrightarrow> 0 < k \<Longrightarrow> th_parent k = n \<Longrightarrow> snd (h ! p) \<le> snd (h ! k)" for k
      using 1(2) True by (auto simp: hole_up_def p_def)
    have "hole_up h1 p bt"
      unfolding hole_up_def
    proof (intro conjI allI impI)
      show "p < length h1" using n by (simp add: h1_def)
    next
      fix k assume k: "k < length h1" "0 < k" "k \<noteq> p"
      have kp: "th_parent k < k" using k(2) by linarith
      consider "k = n" | "k \<noteq> n" "th_parent k = n" | "k \<noteq> n" "th_parent k = p" | "k \<noteq> n" "th_parent k \<noteq> n" "th_parent k \<noteq> p"
        by blast
      then show "snd (h1[p := bt] ! th_parent k) \<le> snd (h1[p := bt] ! k)"
      proof cases
        case 1
        moreover have "th_parent n = p" by (simp add: p_def)
        ultimately show ?thesis using True n by (simp add: h1_def not_le)
      next
        case 2
        with order(2) [of k] k n kp show ?thesis by (simp add: h1_def)
      next
        case 3
        moreover have "th_parent n = p" by (simp add: p_def)
        ultimately show ?thesis using order(1) [of k] k n True by (simp add: h1_def not_le)
      next
        case 4
        with order(1) [of k] k n show ?thesis by (simp add: h1_def)
      qed
    next
      fix k assume k: "k < length h1" "0 < k" "th_parent k = p" "0 < p"
      have pp: "th_parent p < p" using k(4) by linarith
      have up: "snd (h ! th_parent p) \<le> snd (h ! p)" using order(1) [of p] n k(4) pp by simp
      show "snd (h1 ! th_parent p) \<le> snd (h1 ! k)"
      proof (cases "k = n")
        case True
        with up n pp show ?thesis by (simp add: h1_def)
      next
        case False
        with order(1) [of k] up k n pp show ?thesis by (simp add: h1_def)
      qed
    qed
    then show ?thesis
      using 1(1) [of h1 "pos(fst (h ! p) := int n)"] True
      by (subst thraise.simps) (simp add: th_put_def h1_def p_def)
  qed
qed

lemma least_child_law:
  assumes "2 * n + 1 < length h"
  shows "least_child h n < length h" "0 < least_child h n" "th_parent (least_child h n) = n"
    "k < length h \<Longrightarrow> 0 < k \<Longrightarrow> th_parent k = n \<Longrightarrow> snd (h ! least_child h n) \<le> snd (h ! k)"
proof -
  show "least_child h n < length h" "0 < least_child h n" "th_parent (least_child h n) = n"
    using assms by (auto simp: least_child_def Let_def)
  assume k: "k < length h" "0 < k" "th_parent k = n"
  then have "k = 2 * n + 1 \<or> k = 2 * n + 2" by linarith
  with k(1) show "snd (h ! least_child h n) \<le> snd (h ! k)" by (auto simp: least_child_def Let_def)
qed

lemma lower_heap: "hole_down h n bt \<Longrightarrow> th_heap (fst (thlower bt n (h, pos)))"
proof (induction bt n "(h, pos)" arbitrary: h pos rule: thlower.induct)
  case (1 bt n h pos)
  define c where "c = least_child h n"
  have hd: "n < length h"
    "k < length h \<Longrightarrow> 0 < k \<Longrightarrow> th_parent k \<noteq> n \<Longrightarrow> snd (h[n := bt] ! th_parent k) \<le> snd (h[n := bt] ! k)"
    "k < length h \<Longrightarrow> 0 < k \<Longrightarrow> th_parent k = n \<Longrightarrow> 0 < n \<Longrightarrow> snd (h ! th_parent n) \<le> snd (h ! k)" for k
    using 1(2) by (auto simp: hole_down_def)
  show ?case
  proof (cases "2 * n + 1 < length h \<and> \<not> snd (h ! c) > snd bt")
    case False
    have "th_heap (h[n := bt])"
      unfolding th_heap_def
    proof (intro allI impI)
      fix k assume k: "k < length (h[n := bt])" "0 < k"
      show "snd (h[n := bt] ! th_parent k) \<le> snd (h[n := bt] ! k)"
      proof (cases "th_parent k = n")
        case True
        then have "2 * n + 1 < length h" "k \<noteq> n" using k by auto
        then have "snd bt < snd (h ! c)" using False by auto
        also have "\<dots> \<le> snd (h ! k)" using least_child_law(4) [of n h k] True k by (simp add: c_def)
        finally show ?thesis using True k \<open>k \<noteq> n\<close> by simp
      next
        case False
        with hd(2) k show ?thesis by simp
      qed
    qed
    moreover have "thlower bt n (h, pos) = th_put n bt (h, pos)"
      using False by (subst thlower.simps) (auto simp: c_def Let_def)
    ultimately show ?thesis by (simp add: th_put_def)
  next
    case True
    define h1 where "h1 = h[n := h ! c]"
    have c: "c < length h" "0 < c" "th_parent c = n" "c \<noteq> n" using least_child_law [of n h] True by (auto simp: c_def)
    have least: "k < length h \<Longrightarrow> 0 < k \<Longrightarrow> th_parent k = n \<Longrightarrow> snd (h ! c) \<le> snd (h ! k)" for k
      using least_child_law(4) [of n h k] True by (simp add: c_def)
    have "hole_down h1 c bt"
      unfolding hole_down_def
    proof (intro conjI allI impI)
      show "c < length h1" using c by (simp add: h1_def)
    next
      fix k assume k: "k < length h1" "0 < k" "th_parent k \<noteq> c"
      have kp: "th_parent k < k" using k(2) by linarith
      consider "k = c" | "k \<noteq> c" "th_parent k = n" | "k = n" | "k \<noteq> c" "k \<noteq> n" "th_parent k \<noteq> n" by blast
      then show "snd (h1[c := bt] ! th_parent k) \<le> snd (h1[c := bt] ! k)"
      proof cases
        case 1
        with True c hd(1) show ?thesis by (simp add: h1_def not_less)
      next
        case 2
        with least [of k] c k hd(1) kp show ?thesis by (auto simp: h1_def)
      next
        case 3
        with hd(3) [of c] c k kp show ?thesis by (simp add: h1_def)
      next
        case 4
        with hd(2) [of k] c k hd(1) show ?thesis by (simp add: h1_def)
      qed
    next
      fix k assume k: "k < length h1" "0 < k" "th_parent k = c" "0 < c"
      have "k \<noteq> n" using k c by linarith
      with hd(2) [of k] k c hd(1) show "snd (h1 ! th_parent c) \<le> snd (h1 ! k)" by (simp add: h1_def)
    qed
    then show ?thesis
      using 1(1) [of c h1 "pos(fst (h ! c) := int n)"] True
      by (subst thlower.simps) (simp add: th_put_def h1_def c_def Let_def)
  qed
qed

section \<open>The places\<close>

text \<open>No bucket is twice in the heap and each knows its place, but perhaps the one at \<open>n\<close>.\<close>

definition places_but :: "nat \<Rightarrow> ('b, 't) theap \<Rightarrow> bool" where
  "places_but n hp \<longleftrightarrow> (\<forall>k<length (fst hp). k \<noteq> n \<longrightarrow> snd hp (fst (fst hp ! k)) = int k)"

definition th_places :: "('b, 't) theap \<Rightarrow> bool" where
  "th_places hp \<longleftrightarrow> distinct (map fst (fst hp)) \<and> (\<forall>k<length (fst hp). snd hp (fst (fst hp ! k)) = int k)"

text \<open>What both ways of moving an entry to its place do beside the order.\<close>

definition placed :: "('b, 't) btime \<Rightarrow> nat \<Rightarrow> ('b, 't) theap \<Rightarrow> ('b, 't) theap \<Rightarrow> bool" where
  "placed bt n hp hp' \<longleftrightarrow> mset (fst hp') = mset ((fst hp)[n := bt]) \<and>
     (distinct (map fst ((fst hp)[n := bt])) \<longrightarrow> places_but n hp \<longrightarrow> th_places hp') \<and>
     (\<forall>b. b \<notin> fst ` set ((fst hp)[n := bt]) \<longrightarrow> snd hp' b = snd hp b)"

lemma placed_put: "n < length (fst hp) \<Longrightarrow> placed bt n hp (th_put n bt hp)"
proof -
  assume n: "n < length (fst hp)"
  have "th_places (th_put n bt hp)" if d: "distinct (map fst ((fst hp)[n := bt]))" "places_but n hp"
    unfolding th_places_def
  proof (intro conjI allI impI)
    show "distinct (map fst (fst (th_put n bt hp)))" using d(1) by (simp add: th_put_def)
  next
    fix k assume k: "k < length (fst (th_put n bt hp))"
    show "snd (th_put n bt hp) (fst (fst (th_put n bt hp) ! k)) = int k"
    proof (cases "k = n")
      case False
      have "map fst ((fst hp)[n := bt]) ! k \<noteq> map fst ((fst hp)[n := bt]) ! n"
        using k n False nth_eq_iff_index_eq [OF d(1), of k n] by (simp add: th_put_def)
      with False k n d(2) show ?thesis by (simp add: th_put_def places_but_def)
    qed (use n in \<open>simp add: th_put_def\<close>)
  qed
  moreover have "fst bt \<in> fst ` set ((fst hp)[n := bt])" using n by (simp add: set_update_memI)
  ultimately show ?thesis by (auto simp: placed_def th_put_def)
qed

lemma placed_move:
  assumes "n < length (fst hp)" "p < length (fst hp)" "n \<noteq> p" "placed bt p (th_put n (fst hp ! p) hp) hp'"
  shows "placed bt n hp hp'"
proof -
  obtain h pos where hp: "hp = (h, pos)" by (cases hp)
  have ms: "mset (h[n := h ! p, p := bt]) = mset (h[n := bt])" using mset_hole assms(1-3) hp by fastforce
  then have st: "set (h[n := h ! p, p := bt]) = set (h[n := bt])" by (rule mset_eq_setD)
  have dist: "distinct (map fst (h[n := h ! p, p := bt])) = distinct (map fst (h[n := bt]))"
    using arg_cong [OF ms, of "image_mset fst"] by (metis mset_eq_imp_distinct_iff mset_map)
  have places: "places_but p (th_put n (h ! p) (h, pos))"
    if "distinct (map fst (h[n := bt]))" "places_but n (h, pos)"
    unfolding places_but_def
  proof (intro allI impI)
    fix k assume k: "k < length (fst (th_put n (h ! p) (h, pos)))" "k \<noteq> p"
    show "snd (th_put n (h ! p) (h, pos)) (fst (fst (th_put n (h ! p) (h, pos)) ! k)) = int k"
    proof (cases "k = n")
      case False
      have "map fst (h[n := bt]) ! k \<noteq> map fst (h[n := bt]) ! p"
        using nth_eq_iff_index_eq [OF that(1), of k p] k assms(2) hp by (simp add: th_put_def)
      then have "fst (h ! k) \<noteq> fst (h ! p)" using False k assms(2,3) hp by (simp add: th_put_def)
      with False k that(2) show ?thesis by (simp add: th_put_def places_but_def)
    qed (use k in \<open>simp add: th_put_def\<close>)
  qed
  have here: "fst (h ! p) \<in> fst ` set (h[n := bt])"
  proof -
    have "h[n := bt] ! p \<in> set (h[n := bt])" using assms(2) hp by simp
    then show ?thesis using assms(3) by (metis image_eqI nth_list_update_neq)
  qed
  from assms(4) show ?thesis
    using ms st dist places here unfolding placed_def hp by (auto simp: th_put_def)
qed

lemma raise_placed: "n < length (fst hp) \<Longrightarrow> placed bt n hp (thraise bt n hp)"
proof (induction bt n hp rule: thraise.induct)
  case (1 bt n hp)
  show ?case
  proof (cases "n > 0 \<and> \<not> snd (fst hp ! th_parent n) \<le> snd bt")
    case False
    then show ?thesis using placed_put [OF 1(2)] by (subst thraise.simps) auto
  next
    case True
    have p: "th_parent n < length (fst hp)" "n \<noteq> th_parent n" using 1(2) True by linarith+
    have "placed bt (th_parent n) (th_put n (fst hp ! th_parent n) hp)
        (thraise bt (th_parent n) (th_put n (fst hp ! th_parent n) hp))" using 1(1) [OF True] p(1) by simp
    from placed_move [OF 1(2) p this] True show ?thesis by (subst thraise.simps) simp
  qed
qed

lemma lower_placed: "n < length (fst hp) \<Longrightarrow> placed bt n hp (thlower bt n hp)"
proof (induction bt n hp rule: thlower.induct)
  case (1 bt n hp)
  let ?c = "least_child (fst hp) n"
  show ?case
  proof (cases "2 * n + 1 < length (fst hp) \<and> \<not> snd (fst hp ! ?c) > snd bt")
    case False
    then have "thlower bt n hp = th_put n bt hp" by (subst thlower.simps) (auto simp: Let_def)
    with placed_put [OF 1(2)] show ?thesis by simp
  next
    case True
    have c: "?c < length (fst hp)" "n \<noteq> ?c" using least_child_law [of n "fst hp"] True by auto
    have "placed bt ?c (th_put n (fst hp ! ?c) hp) (thlower bt ?c (th_put n (fst hp ! ?c) hp))"
      using 1(1) [OF refl True] c(1) by simp
    from placed_move [OF 1(2) c this] True show ?thesis by (subst thlower.simps) (simp add: Let_def)
  qed
qed

section \<open>The operations of the daemon\<close>

text \<open>A heap in order in which every bucket knows whether and where it is.\<close>

definition th_ok :: "('b, 't::linorder) theap \<Rightarrow> bool" where
  "th_ok hp \<longleftrightarrow> th_heap (fst hp) \<and> th_places hp \<and>
     (\<forall>b. 0 \<le> snd hp b \<longleftrightarrow> b \<in> fst ` set (fst hp))"

lemma adjust_heap:
  assumes "th_heap (fst hp)" "n < length (fst hp)"
  shows "th_heap (fst (thadjust bt n hp))" "placed bt n hp (thadjust bt n hp)"
proof -
  obtain h pos where hp: "hp = (h, pos)" by (cases hp)
  have h: "k < length h \<Longrightarrow> 0 < k \<Longrightarrow> snd (h ! th_parent k) \<le> snd (h ! k)" for k
    using assms(1) hp by (simp add: th_heap_def)
  have below: "snd (h ! th_parent n) \<le> snd (h ! k)" if "k < length h" "0 < k" "th_parent k = n" "0 < n" for k
    using h [of k] h [of n] that assms(2) hp by fastforce
  show "placed bt n hp (thadjust bt n hp)"
    using raise_placed [OF assms(2)] lower_placed [OF assms(2)] by (simp add: thadjust_def)
  show "th_heap (fst (thadjust bt n hp))"
  proof (cases "n > 0 \<and> snd (h ! th_parent n) > snd bt")
    case True
    have "hole_up h n bt"
      unfolding hole_up_def
    proof (intro conjI allI impI)
      fix k assume k: "k < length h" "0 < k" "k \<noteq> n"
      show "snd (h[n := bt] ! th_parent k) \<le> snd (h[n := bt] ! k)"
      proof (cases "th_parent k = n")
        case True
        with \<open>n > 0 \<and> _\<close> below [OF k(1,2)] k assms(2) hp show ?thesis by fastforce
      next
        case False
        with h [OF k(1,2)] k show ?thesis by simp
      qed
    qed (use assms(2) hp below in auto)
    from raise_heap [OF this] True show ?thesis by (simp add: thadjust_def hp)
  next
    case False
    have "hole_down h n bt"
      unfolding hole_down_def
    proof (intro conjI allI impI)
      fix k assume k: "k < length h" "0 < k" "th_parent k \<noteq> n"
      show "snd (h[n := bt] ! th_parent k) \<le> snd (h[n := bt] ! k)"
        using h [OF k(1,2)] k False by (cases "k = n") auto
    qed (use assms(2) hp below in auto)
    from lower_heap [OF this] False show ?thesis by (auto simp: thadjust_def hp)
  qed
qed

lemma append_heap:
  assumes "th_heap h"
  shows "th_heap (fst (thraise bt (length h) (h @ [bt], pos)))"
proof (rule raise_heap)
  show "hole_up (h @ [bt]) (length h) bt"
    unfolding hole_up_def
  proof (intro conjI allI impI)
    fix k assume k: "k < length (h @ [bt])" "0 < k" "k \<noteq> length h"
    then have "k < length h" "th_parent k < length h" by auto
    with assms k show "snd ((h @ [bt])[length h := bt] ! th_parent k) \<le> snd ((h @ [bt])[length h := bt] ! k)"
      by (simp add: nth_append th_heap_def)
  next
    fix k assume "k < length (h @ [bt])" "0 < k" "th_parent k = length h"
    then show "snd ((h @ [bt]) ! th_parent (length h)) \<le> snd ((h @ [bt]) ! k)" by simp
  qed simp
qed

lemma th_ok_place:
  assumes "th_ok hp" "0 \<le> snd hp b"
  shows "nat (snd hp b) < length (fst hp)" "fst (fst hp ! nat (snd hp b)) = b"
proof -
  obtain k where "k < length (fst hp)" "fst (fst hp ! k) = b"
    using assms by (fastforce simp: th_ok_def in_set_conv_nth)
  moreover from this have "snd hp b = int k" using assms(1) by (auto simp: th_ok_def th_places_def)
  ultimately show "nat (snd hp b) < length (fst hp)" "fst (fst hp ! nat (snd hp b)) = b" by simp_all
qed

text \<open>From a placement to the whole invariant.\<close>

lemma placed_ok:
  assumes "placed bt n (h, pos) hp'" "th_heap (fst hp')" "distinct (map fst (h[n := bt]))" "places_but n (h, pos)"
    and "\<And>b. b \<notin> fst ` set (h[n := bt]) \<Longrightarrow> pos b < 0"
  shows "th_ok hp'" "set (fst hp') = set (h[n := bt])"
proof -
  show st: "set (fst hp') = set (h[n := bt])"
    using assms(1) by (auto simp: placed_def dest!: mset_eq_setD)
  have pl: "th_places hp'" using assms(1,3,4) by (simp add: placed_def)
  have "0 \<le> snd hp' b \<longleftrightarrow> b \<in> fst ` set (fst hp')" for b
  proof (cases "b \<in> fst ` set (fst hp')")
    case True
    then obtain k where "k < length (fst hp')" "fst (fst hp' ! k) = b" by (fastforce simp: in_set_conv_nth)
    with pl True show ?thesis by (auto simp: th_places_def)
  next
    case False
    with assms(1,5) st have "snd hp' b = pos b" "pos b < 0" by (auto simp: placed_def)
    with False show ?thesis by simp
  qed
  with pl assms(2) show "th_ok hp'" by (simp add: th_ok_def)
qed

lemma distinct_other: "distinct (map fst xs) \<Longrightarrow> n < length xs \<Longrightarrow>
    set (xs[n := y]) = insert y {e \<in> set xs. fst e \<noteq> fst (xs ! n)}"
proof -
  assume d: "distinct (map fst xs)" and n: "n < length xs"
  define a b where "a = take n xs" and "b = drop (Suc n) xs"
  obtain x where x: "x = xs ! n" by simp
  have xs: "xs = a @ x # b" using id_take_nth_drop [OF n] by (simp add: a_def b_def x)
  have up: "xs[n := y] = a @ y # b" using n by (simp add: a_def b_def upd_conv_take_nth_drop)
  have d': "fst x \<notin> fst ` set a" "fst x \<notin> fst ` set b" using d xs by auto
  then have "\<And>e. e \<in> set a \<or> e \<in> set b \<Longrightarrow> fst e \<noteq> fst x" by (metis imageI)
  then have "{e \<in> set (a @ x # b). fst e \<noteq> fst x} = set a \<union> set b" by auto
  then have "{e \<in> set xs. fst e \<noteq> fst x} = set a \<union> set b" by (simp only: xs)
  then show ?thesis by (simp only: up x [symmetric]) auto
qed

lemma th_set_law:
  assumes "th_ok hp"
  shows "th_ok (th_set b tm hp) \<and>
    set (fst (th_set b tm hp)) = insert (b, tm) {e \<in> set (fst hp). fst e \<noteq> b}"
proof -
  obtain h pos where hp: "hp = (h, pos)" by (cases hp)
  have ok: "th_heap h" "distinct (map fst h)" "\<And>k. k < length h \<Longrightarrow> pos (fst (h ! k)) = int k"
    "\<And>b. 0 \<le> pos b \<longleftrightarrow> b \<in> fst ` set h"
    using assms hp by (auto simp: th_ok_def th_places_def)
  show ?thesis
  proof (cases "pos b < 0")
    case True
    define hp' where "hp' = thraise (b, tm) (length h) (h @ [(b, tm)], pos)"
    have b: "b \<notin> fst ` set h" using ok(4) [of b] True by simp
    have pl: "placed (b, tm) (length h) (h @ [(b, tm)], pos) hp'"
      unfolding hp'_def by (rule raise_placed) simp
    have hh: "th_heap (fst hp')" unfolding hp'_def by (rule append_heap [OF ok(1)])
    have dd: "distinct (map fst ((h @ [(b, tm)])[length h := (b, tm)]))" using ok(2) b by simp
    have pp: "places_but (length h) (h @ [(b, tm)], pos)"
      using ok(3) by (auto simp: places_but_def nth_append)
    have "c \<notin> fst ` set ((h @ [(b, tm)])[length h := (b, tm)]) \<Longrightarrow> pos c < 0" for c
      using ok(4) [of c] by auto
    from placed_ok [OF pl hh dd pp this] have "th_ok hp'" "set (fst hp') = insert (b, tm) (set h)" by auto
    moreover have "{e \<in> set h. fst e \<noteq> b} = set h" using b by auto
    ultimately show ?thesis using True by (simp add: th_set_def hp hp'_def)
  next
    case False
    define n where "n = nat (pos b)"
    have n: "n < length h" "fst (h ! n) = b" using th_ok_place [OF assms] False hp by (auto simp: n_def)
    have ids: "map fst (h[n := (b, tm)]) = map fst h" using n by (metis fst_conv list_update_id map_update)
    have dd: "distinct (map fst (h[n := (b, tm)]))" using ok(2) ids by simp
    have pp: "places_but n (h, pos)" using ok(3) by (simp add: places_but_def)
    have "c \<notin> fst ` set (h[n := (b, tm)]) \<Longrightarrow> pos c < 0" for c
      using ok(4) [of c] arg_cong [OF ids, of set] by simp
    from placed_ok [OF adjust_heap(2) adjust_heap(1) dd pp this] n ok(1)
    have "th_ok (thadjust (b, tm) n (h, pos))" "set (fst (thadjust (b, tm) n (h, pos))) = set (h[n := (b, tm)])"
      by auto
    with False distinct_other [OF ok(2) n(1)] n(2) show ?thesis by (simp add: th_set_def hp n_def)
  qed
qed

lemma th_heap_butlast: "th_heap h \<Longrightarrow> th_heap (butlast h)"
  by (auto simp: th_heap_def nth_butlast)

lemma th_remove_law:
  assumes "th_ok hp"
  shows "th_ok (th_remove b hp) \<and> set (fst (th_remove b hp)) = {e \<in> set (fst hp). fst e \<noteq> b}"
proof -
  obtain h pos where hp: "hp = (h, pos)" by (cases hp)
  have ok: "th_heap h" "distinct (map fst h)" "\<And>k. k < length h \<Longrightarrow> pos (fst (h ! k)) = int k"
    "\<And>b. 0 \<le> pos b \<longleftrightarrow> b \<in> fst ` set h"
    using assms hp by (auto simp: th_ok_def th_places_def)
  show ?thesis
  proof (cases "pos b < 0")
    case True
    moreover from this have "b \<notin> fst ` set h" using ok(4) [of b] by simp
    then have "{e \<in> set h. fst e \<noteq> b} = set h" by auto
    ultimately show ?thesis using assms by (simp add: th_remove_def hp)
  next
    case False
    define n where "n = nat (pos b)"
    define g where "g = butlast h"
    define r where "r = last h"
    have n: "n < length h" "fst (h ! n) = b" using th_ok_place [OF assms] False hp by (auto simp: n_def)
    have ne: "h \<noteq> []" using n by auto
    have h: "h = g @ [r]" by (simp add: g_def r_def ne)
    have okg: "k < length g \<Longrightarrow> pos (fst (g ! k)) = int k" for k
      using ok(3) [of k] h by (simp add: nth_append)
    define hp1 where "hp1 = (if n < length g then thadjust r n (g, pos) else (g, pos))"
    have rest: "set (fst hp1) = {e \<in> set h. fst e \<noteq> b} \<and> th_heap (fst hp1) \<and> th_places hp1 \<and>
        (\<forall>c. c \<noteq> b \<longrightarrow> (0 \<le> snd hp1 c \<longleftrightarrow> c \<in> fst ` set (fst hp1)))"
    proof (cases "n < length g")
      case True
      have gn: "fst (g ! n) = b" using n(2) True h by (simp add: nth_append)
      have dg: "distinct (map fst g)" "fst r \<notin> fst ` set g" using ok(2) h by auto
      have st: "set (g[n := r]) = {e \<in> set h. fst e \<noteq> b}"
        using distinct_other [OF dg(1) True, of r] gn dg(2) True h nth_mem [OF True] by auto
      have dd: "distinct (map fst (g[n := r]))"
        using dg by (simp add: map_update distinct_list_update)
      have pp: "places_but n (g, pos)" using okg by (simp add: places_but_def)
      define pos' where "pos' = pos(b := - 1)"
      have pl: "placed r n (g, pos) hp1" "th_heap (fst hp1)"
        using adjust_heap [of "(g, pos)" n r] th_heap_butlast [OF ok(1)] True by (auto simp: hp1_def g_def)
      have pl1: "th_places hp1" using pl(1) dd pp by (simp add: placed_def)
      have st1: "set (fst hp1) = set (g[n := r])" using pl(1) by (auto simp: placed_def dest!: mset_eq_setD)
      have "0 \<le> snd hp1 c \<longleftrightarrow> c \<in> fst ` set (fst hp1)" if "c \<noteq> b" for c
      proof (cases "c \<in> fst ` set (fst hp1)")
        case True
        then obtain k where "k < length (fst hp1)" "fst (fst hp1 ! k) = c" by (fastforce simp: in_set_conv_nth)
        with pl1 True show ?thesis by (auto simp: th_places_def)
      next
        case False
        then have "snd hp1 c = pos c" using pl(1) st1 by (simp add: placed_def)
        moreover have "c \<notin> fst ` set h" using False st1 st that by auto
        ultimately show ?thesis using ok(4) [of c] False by simp
      qed
      with st st1 pl(2) pl1 show ?thesis by simp
    next
      case False
      then have "n = length g" using n(1) h by simp
      then have "fst r = b" using n(2) h by simp
      moreover have "fst r \<notin> fst ` set g" using ok(2) h by auto
      ultimately have "\<And>e. e \<in> set g \<Longrightarrow> fst e \<noteq> b" by (metis imageI)
      then have st: "set g = {e \<in> set h. fst e \<noteq> b}" using h \<open>fst r = b\<close> by auto
      have "distinct (map fst g)" using ok(2) h by simp
      then have "th_places (g, pos)" using okg by (simp add: th_places_def)
      moreover have "0 \<le> pos c \<longleftrightarrow> c \<in> fst ` set g" if "c \<noteq> b" for c
        using ok(4) [of c] that \<open>fst r = b\<close> h by auto
      ultimately show ?thesis using False st th_heap_butlast [OF ok(1)] by (simp add: hp1_def g_def)
    qed
    have rem: "th_remove b hp = (fst hp1, (snd hp1)(b := - 1))"
      using False by (simp add: th_remove_def hp hp1_def n_def g_def r_def Let_def split: prod.splits)
    have nb: "b \<notin> fst ` set (fst hp1)" using rest by auto
    have "th_places (fst hp1, (snd hp1)(b := - 1))"
      using rest nb by (auto simp: th_places_def)
    with rest nb show ?thesis unfolding rem th_ok_def by (simp add: hp)
  qed
qed

text \<open>The root is due first.\<close>

lemma th_root_least:
  assumes "th_heap h" "k < length h"
  shows "snd (h ! 0) \<le> snd (h ! k)"
  using assms(2)
proof (induction k rule: less_induct)
  case (less k)
  show ?case
  proof (cases "k = 0")
    case False
    then have "th_parent k < k" by linarith
    with less.IH [of "th_parent k"] less.prems assms(1) False show ?thesis
      by (force simp: th_heap_def)
  qed simp
qed

section \<open>What the daemon relies on\<close>

definition th_first :: "('b, 't) theap \<Rightarrow> ('b, 't) btime option" where
  "th_first hp = (case fst hp of [] \<Rightarrow> None | e # _ \<Rightarrow> Some e)"

definition th_due :: "('b, 't) theap \<Rightarrow> ('b \<times> 't) set" where
  "th_due hp = set (fst hp)"

lemma th_set_timer: "th_ok hp \<Longrightarrow>
    th_ok (th_set b tm hp) \<and> th_due (th_set b tm hp) = insert (b, tm) {e \<in> th_due hp. fst e \<noteq> b}"
  using th_set_law by (simp add: th_due_def)

lemma th_remove_timer: "th_ok hp \<Longrightarrow>
    th_ok (th_remove b hp) \<and> th_due (th_remove b hp) = {e \<in> th_due hp. fst e \<noteq> b}"
  using th_remove_law by (simp add: th_due_def)

lemma th_first_None: "th_first hp = None \<longleftrightarrow> th_due hp = {}"
  by (auto simp: th_first_def th_due_def split: list.splits)

lemma th_first_Some:
  assumes "th_ok hp" "th_first hp = Some e"
  shows "e \<in> th_due hp \<and> (\<forall>e'\<in>th_due hp. snd e \<le> snd e')"
proof -
  have e: "fst hp \<noteq> []" "e = fst hp ! 0" using assms(2) by (auto simp: th_first_def split: list.splits)
  have "th_heap (fst hp)" using assms(1) by (simp add: th_ok_def)
  then have "snd e \<le> snd e'" if "e' \<in> set (fst hp)" for e'
    using th_root_least [of "fst hp"] that e(2) by (metis in_set_conv_nth)
  with e show ?thesis by (simp add: th_due_def)
qed

lemma th_one_time: "th_ok hp \<Longrightarrow> (b, t) \<in> th_due hp \<Longrightarrow> (b, t') \<in> th_due hp \<Longrightarrow> t = t'"
  using eq_key_imp_eq_value [of "fst hp" b t t'] by (simp add: th_ok_def th_places_def th_due_def)

text \<open>The entry of a bucket.\<close>

lemma th_map: "th_ok hp \<Longrightarrow> map_of (fst hp) b = Some t \<longleftrightarrow> (b, t) \<in> th_due hp"
  by (simp add: th_ok_def th_places_def th_due_def)

lemma th_set_map:
  assumes "th_ok hp"
  shows "map_of (fst (th_set b tm hp)) c = (if c = b then Some tm else map_of (fst hp) c)"
proof -
  have "map_of (fst (th_set b tm hp)) c = Some t \<longleftrightarrow> (if c = b then Some tm else map_of (fst hp) c) = Some t" for t
    using th_map [OF assms] th_map [of "th_set b tm hp"] th_set_timer [OF assms, of b tm] by auto
  then show ?thesis by (metis not_None_eq)
qed

lemma th_remove_map:
  assumes "th_ok hp"
  shows "map_of (fst (th_remove b hp)) c = (if c = b then None else map_of (fst hp) c)"
proof -
  have "map_of (fst (th_remove b hp)) c = Some t \<longleftrightarrow> (if c = b then None else map_of (fst hp) c) = Some t" for t
    using th_map [OF assms] th_map [of "th_remove b hp"] th_remove_timer [OF assms, of b] by auto
  then show ?thesis by (metis not_None_eq)
qed

lemma th_ok_forget: "th_ok hp \<Longrightarrow> b \<notin> fst ` th_due hp \<Longrightarrow> th_ok (fst hp, (snd hp)(b := - 1))"
  by (auto simp: th_ok_def th_places_def th_due_def)

locale timer_queue =
  fixes ok :: "'q \<Rightarrow> bool"
    and due :: "'q \<Rightarrow> ('b \<times> 't::linorder) set"
    and set_time :: "'b \<Rightarrow> 't \<Rightarrow> 'q \<Rightarrow> 'q"
    and cancel :: "'b \<Rightarrow> 'q \<Rightarrow> 'q"
    and first :: "'q \<Rightarrow> ('b \<times> 't) option"
  assumes set_law: "ok q \<Longrightarrow> ok (set_time b t q) \<and> due (set_time b t q) = insert (b, t) {e \<in> due q. fst e \<noteq> b}"
    and cancel_law: "ok q \<Longrightarrow> ok (cancel b q) \<and> due (cancel b q) = {e \<in> due q. fst e \<noteq> b}"
    and first_Some: "ok q \<Longrightarrow> first q = Some e \<Longrightarrow> e \<in> due q \<and> (\<forall>e'\<in>due q. snd e \<le> snd e')"
    and first_None: "ok q \<Longrightarrow> first q = None \<longleftrightarrow> due q = {}"
    and one_time: "ok q \<Longrightarrow> (b, t) \<in> due q \<Longrightarrow> (b, t') \<in> due q \<Longrightarrow> t = t'"
begin

text \<open>When the first entry is not due, nothing is.\<close>

lemma none_overdue:
  assumes "ok q" "\<And>b t. first q = Some (b, t) \<Longrightarrow> now < t" "(b, t) \<in> due q"
  shows "now < t"
proof (cases "first q")
  case None
  with first_None [OF assms(1)] assms(3) show ?thesis by simp
next
  case (Some e)
  obtain c u where e: "e = (c, u)" by (cases e)
  have "now < u" using assms(2) Some e by blast
  also have "u \<le> t" using first_Some [OF assms(1) Some] assms(3) e by fastforce
  finally show ?thesis .
qed

lemma set_owners: "ok q \<Longrightarrow> fst ` due (set_time b t q) = insert b (fst ` due q)"
  using set_law [of q b t] by (auto simp: image_iff)

lemma cancel_owners: "ok q \<Longrightarrow> fst ` due (cancel b q) = fst ` due q - {b}"
  using cancel_law [of q b] by auto

text \<open>Later times for the first entry make progress: fewer entries are due at \<open>now\<close>.\<close>

lemma fewer_overdue:
  assumes "ok q" "finite (due q)" "(b, t) \<in> due q" "t \<le> now" "now < u"
  shows "card {e \<in> due (set_time b u q). snd e \<le> now} < card {e \<in> due q. snd e \<le> now}"
proof (rule psubset_card_mono)
  show "finite {e \<in> due q. snd e \<le> now}" using assms(2) by simp
  have "(b, t) \<notin> {e \<in> due (set_time b u q). snd e \<le> now}"
    using set_law [OF assms(1), of b u] assms(4,5) by auto
  moreover have "(b, t) \<in> {e \<in> due q. snd e \<le> now}" using assms(3,4) by simp
  moreover have "{e \<in> due (set_time b u q). snd e \<le> now} \<subseteq> {e \<in> due q. snd e \<le> now}"
    using set_law [OF assms(1), of b u] assms(5) by auto
  ultimately show "{e \<in> due (set_time b u q). snd e \<le> now} \<subset> {e \<in> due q. snd e \<le> now}" by blast
qed

end

interpretation timers: timer_queue th_ok th_due th_set th_remove th_first
  by unfold_locales (auto intro: th_one_time simp: th_first_None th_set_timer th_remove_timer
      dest: th_first_Some)

end
