(* ===== verification/Ratequeue.thy ===== *)
theory Ratequeue
  imports Complex_Main Ratetable Timeheap Conf Req "HOL-Library.Multiset"
begin

text \<open>
  The rate limiter \<open>src/ratequeue.c\<close>: a leaky bucket for each client address, in which requests
  beyond its size wait in the brim and requests beyond the brim are refused; a hash table finds the
  bucket of an address, a heap of timers the buckets that need attention.

  A bucket is a record in a store, its address what the table and the heap hold. Times and levels
  are \<open>double\<close> in the code; the model computes with exact rational numbers, and stops where
  the code would divide by a rate of zero and go on with an infinity. The clock is given to
  each operation as the value it reads, and \<open>inet_pton\<close>, \<open>strtod\<close> and \<open>strtol\<close> are parameters.
\<close>

section \<open>Sources\<close>

text \<open>\<open>len\<close> is the length of the data, and \<open>hash\<close> a function of the rest (\<open>src_hash\<close>).\<close>

datatype source = Source (src_type: int) (src_data: string)

definition AF_INET :: int where "AF_INET = 2"
definition AF_INET6 :: int where "AF_INET6 = 10"

definition src_hash :: "source \<Rightarrow> 32 word" where
  "src_hash s = fold (\<lambda>c h. h * 31 + word_of_int (schar c)) (src_data s) (word_of_int (src_type s))"

definition reqsource :: "(int \<Rightarrow> cstring \<Rightarrow> string option) \<Rightarrow> hthead \<Rightarrow> source" where
  "reqsource pton req = (case getheader req ''X-Ash-Address'' of
      None \<Rightarrow> Source 0 []
    | Some sa \<Rightarrow> (case pton AF_INET sa of
        Some a4 \<Rightarrow> Source AF_INET (take 4 a4)
      | None \<Rightarrow> (case pton AF_INET6 sa of
          Some a6 \<Rightarrow> Source AF_INET6 (take 16 a6)
        | None \<Rightarrow> Source 0 [])))"

text \<open>\<open>memcmp\<close> up to the size of its value, which the code does not use.\<close>

fun memcmp :: "string \<Rightarrow> string \<Rightarrow> nat \<Rightarrow> int" where
  "memcmp a b 0 = 0"
| "memcmp a b (Suc n) = (case (a, b) of
      (x # a', y # b') \<Rightarrow> if x = y then memcmp a' b' n else ord x - ord y
    | _ \<Rightarrow> 0)"

definition srccmp :: "source \<Rightarrow> source \<Rightarrow> int" where
  "srccmp a b =
    (let c = int (length (src_data a)) - int (length (src_data b)) in
     if c \<noteq> 0 then c
     else (let c = src_type a - src_type b in
       if c \<noteq> 0 then c else memcmp (src_data a) (src_data b) (length (src_data a))))"

lemma memcmp_zero: "length a = length b \<Longrightarrow> memcmp a b (length a) = 0 \<longleftrightarrow> a = b"
proof (induction a arbitrary: b)
  case (Cons x a)
  then show ?case by (cases b) auto
qed simp

lemma srccmp_zero [simp]: "srccmp a b = 0 \<longleftrightarrow> a = b"
  using memcmp_zero [of "src_data a" "src_data b"]
  by (cases a; cases b) (auto simp: srccmp_def Let_def)

section \<open>Buckets\<close>

type_synonym queued = "hthead \<times> int"

record bucket =
  bk_id :: source
  bk_level :: rat
  bk_last :: rat
  bk_etime :: rat
  bk_wtime :: rat
  bk_brim :: "queued list"
  bk_blocked :: int

record ratecfg =
  cf_size :: rat
  cf_rate :: rat
  cf_retain :: rat
  cf_warnrate :: rat
  cf_brimsize :: int

definition defcfg :: ratecfg where
  "defcfg = \<lparr>cf_size = 100, cf_rate = 10, cf_retain = 10, cf_warnrate = 60, cf_brimsize = 10\<rparr>"

text \<open>
  The static variables, the store of buckets, and what has become of the requests: passed to the
  child, answered with 429, thrown away with their bucket. \<open>rq_next\<close> is the next address to be
  allocated.
\<close>

record ratequeue =
  rq_now :: rat
  rq_cf :: ratecfg
  rq_table :: "nat htab"
  rq_heap :: "(nat, rat) theap"
  rq_store :: "nat \<Rightarrow> bucket option"
  rq_next :: nat
  rq_sent :: "queued list"
  rq_refused :: "queued list"
  rq_dropped :: "queued list"

text \<open>
  How the daemon stops: a failed assertion, a search that never ends, \<open>exit(1)\<close> when the child
  cannot be reached, and the division by a rate of zero.
\<close>

datatype rq_stop = FailedAssertion | EndlessSearch | ChildGone | ZeroRate

definition bk_at :: "ratequeue \<Rightarrow> nat \<Rightarrow> bucket" where
  "bk_at st a = the (rq_store st a)"

definition hash_of :: "ratequeue \<Rightarrow> nat \<Rightarrow> nat" where
  "hash_of st a = unat (src_hash (bk_id (bk_at st a)))"

definition set_bucket :: "nat \<Rightarrow> bucket \<Rightarrow> ratequeue \<Rightarrow> ratequeue" where
  "set_bucket a bk st = st\<lparr>rq_store := (rq_store st)(a \<mapsto> bk)\<rparr>"

definition is_source :: "ratequeue \<Rightarrow> source \<Rightarrow> nat \<Rightarrow> bool" where
  "is_source st src a \<longleftrightarrow> srccmp (bk_id (bk_at st a)) src = 0"

definition new_bucket :: "source \<Rightarrow> rat \<Rightarrow> bucket" where
  "new_bucket src now = \<lparr>bk_id = src, bk_level = 0, bk_last = now, bk_etime = now, bk_wtime = 0,
     bk_brim = [], bk_blocked = - 1\<rparr>"

definition hashget :: "source \<Rightarrow> ratequeue \<Rightarrow> rq_stop + nat \<times> ratequeue" where
  "hashget src st =
     (case ht_find (is_source st src) (unat (src_hash src)) (rq_table st) of
        Some a \<Rightarrow> Inr (a, st)
      | None \<Rightarrow>
          (let a = rq_next st;
               st1 = set_bucket a (new_bucket src (rq_now st))
                 (st\<lparr>rq_next := a + 1, rq_heap := (fst (rq_heap st), (snd (rq_heap st))(a := - 1))\<rparr>)
           in case ht_put (hash_of st1) a (rq_table st1) of
                None \<Rightarrow> Inl EndlessSearch
              | Some t \<Rightarrow> Inr (a, st1\<lparr>rq_table := t\<rparr>)))"

definition hashdel :: "nat \<Rightarrow> ratequeue \<Rightarrow> rq_stop + ratequeue" where
  "hashdel a st =
     (case ht_del (hash_of st) (is_source st (bk_id (bk_at st a))) (hash_of st a) (rq_table st) of
        None \<Rightarrow> Inl FailedAssertion
      | Some t \<Rightarrow> Inr (st\<lparr>rq_table := t\<rparr>))"

definition freebucket :: "nat \<Rightarrow> ratequeue \<Rightarrow> rq_stop + ratequeue" where
  "freebucket a st = (case hashdel a st of
      Inl e \<Rightarrow> Inl e
    | Inr st1 \<Rightarrow> Inr (st1\<lparr>rq_heap := th_remove a (rq_heap st1), rq_store := (rq_store st1)(a := None),
        rq_dropped := rq_dropped st1 @ bk_brim (bk_at st1 a)\<rparr>))"

text \<open>The time of \<open>updbtime\<close>; the two divisions are made only where the code makes them.\<close>

definition btime_of :: "ratecfg \<Rightarrow> bucket \<Rightarrow> rat option" where
  "btime_of cf bk =
     (if cf_rate cf = 0 \<and> (bk_level bk \<noteq> 0 \<or> bk_brim bk \<noteq> []) then None
      else Some
        (let tm = (if bk_level bk = 0 then bk_etime bk + cf_retain cf
               else bk_last bk + bk_level bk / cf_rate cf + cf_retain cf);
             warn = bk_wtime bk + cf_warnrate cf;
             tm = (if bk_blocked bk > 0 \<and> warn > tm then warn else tm);
             room = bk_last bk + (bk_level bk - cf_size cf) / cf_rate cf;
             tm = (if bk_brim bk \<noteq> [] \<and> room < tm then room else tm)
         in if bk_blocked bk > 0 \<and> warn < tm then warn else tm))"

definition updbtime :: "nat \<Rightarrow> ratequeue \<Rightarrow> rq_stop + ratequeue" where
  "updbtime a st = (case btime_of (rq_cf st) (bk_at st a) of
      None \<Rightarrow> Inl ZeroRate
    | Some tm \<Rightarrow> Inr (st\<lparr>rq_heap := th_set a tm (rq_heap st)\<rparr>))"

text \<open>The flow out of a bucket since it was last looked at.\<close>

definition leak :: "ratecfg \<Rightarrow> rat \<Rightarrow> bucket \<Rightarrow> bucket" where
  "leak cf now bk =
     (let level = bk_level bk - (now - bk_last bk) * cf_rate cf in
      if level < 0
      then bk\<lparr>bk_level := 0, bk_last := now,
             bk_etime := (if bk_level bk > 0 then now + level / cf_rate cf else bk_etime bk)\<rparr>
      else bk\<lparr>bk_level := level, bk_last := now\<rparr>)"

text \<open>
  \<open>takes sent w\<close>: whether the child accepts \<open>w\<close> after the requests \<open>sent\<close>. The loop of
  \<open>tickbucket\<close> gives the new level, what still waits, and what has been sent.
\<close>

fun drain :: "(queued list \<Rightarrow> queued \<Rightarrow> bool) \<Rightarrow> rat \<Rightarrow> rat \<Rightarrow> queued list \<Rightarrow> queued list \<Rightarrow>
    rq_stop + rat \<times> queued list \<times> queued list" where
  "drain takes bsize level [] sent = Inr (level, [], sent)"
| "drain takes bsize level (w # brim) sent =
     (if level < bsize
      then (if takes sent w then drain takes bsize (level + 1) brim (sent @ [w]) else Inl ChildGone)
      else Inr (level, w # brim, sent))"

definition warned :: "ratecfg \<Rightarrow> rat \<Rightarrow> bucket \<Rightarrow> bucket" where
  "warned cf now bk =
     (if bk_blocked bk > 0 \<and> now - bk_wtime bk \<ge> cf_warnrate cf
      then bk\<lparr>bk_wtime := now, bk_blocked := 0\<rparr> else bk)"

definition tick :: "(queued list \<Rightarrow> queued \<Rightarrow> bool) \<Rightarrow> ratecfg \<Rightarrow> rat \<Rightarrow> bucket \<Rightarrow> queued list \<Rightarrow>
    rq_stop + bucket \<times> queued list" where
  "tick takes cf now bk0 sent =
     (let bk = leak cf now bk0 in
      case drain takes (cf_size cf) (bk_level bk) (bk_brim bk) sent of
        Inl e \<Rightarrow> Inl e
      | Inr (level, brim, sent1) \<Rightarrow> Inr (warned cf now (bk\<lparr>bk_level := level, bk_brim := brim\<rparr>), sent1))"

definition tickbucket :: "(queued list \<Rightarrow> queued \<Rightarrow> bool) \<Rightarrow> nat \<Rightarrow> ratequeue \<Rightarrow> rq_stop + ratequeue" where
  "tickbucket takes a st =
     (case tick takes (rq_cf st) (rq_now st) (bk_at st a) (rq_sent st) of
        Inl e \<Rightarrow> Inl e
      | Inr (bk, sent) \<Rightarrow> Inr (set_bucket a bk (st\<lparr>rq_sent := sent\<rparr>)))"

definition checkbtime :: "(queued list \<Rightarrow> queued \<Rightarrow> bool) \<Rightarrow> nat \<Rightarrow> ratequeue \<Rightarrow> rq_stop + ratequeue" where
  "checkbtime takes a st = (case tickbucket takes a st of
      Inl e \<Rightarrow> Inl e
    | Inr st1 \<Rightarrow>
        (let bk = bk_at st1 a in
         if bk_level bk = 0 \<and> rq_now st1 \<ge> bk_etime bk + cf_retain (rq_cf st1) \<and> bk_blocked bk \<le> 0
         then freebucket a st1 else updbtime a st1))"

definition serve :: "(int \<Rightarrow> cstring \<Rightarrow> string option) \<Rightarrow> (queued list \<Rightarrow> queued \<Rightarrow> bool) \<Rightarrow> rat \<Rightarrow> queued \<Rightarrow>
    ratequeue \<Rightarrow> rq_stop + ratequeue" where
  "serve pton takes now w st = (case hashget (reqsource pton (fst w)) (st\<lparr>rq_now := now\<rparr>) of
      Inl e \<Rightarrow> Inl e
    | Inr (a, st1) \<Rightarrow> (case tickbucket takes a st1 of
        Inl e \<Rightarrow> Inl e
      | Inr st2 \<Rightarrow>
          (let bk = bk_at st2 a; cf = rq_cf st2 in
           if bk_level bk < cf_size cf then
             (if takes (rq_sent st2) w
              then updbtime a (set_bucket a (bk\<lparr>bk_level := bk_level bk + 1\<rparr>) (st2\<lparr>rq_sent := rq_sent st2 @ [w]\<rparr>))
              else Inl ChildGone)
           else if int (length (bk_brim bk)) < cf_brimsize cf then
             updbtime a (set_bucket a (bk\<lparr>bk_brim := bk_brim bk @ [w]\<rparr>) st2)
           else
             (let bk1 = (if bk_blocked bk < 0 then bk\<lparr>bk_wtime := now, bk_blocked := 0\<rparr> else bk)
              in updbtime a (set_bucket a (bk1\<lparr>bk_blocked := bk_blocked bk1 + 1\<rparr>)
                   (st2\<lparr>rq_refused := rq_refused st2 @ [w]\<rparr>))))))"

section \<open>Configuration\<close>

text \<open>
  \<open>strtod\<close> and \<open>strtol\<close> give the value and what is left of the string. The value of a
  \<open>long\<close> is cut to 32 bits when it is stored.
\<close>

definition parseint :: "(cstring \<Rightarrow> int \<times> cstring) \<Rightarrow> cstring \<Rightarrow> int option" where
  "parseint strtol str = (case strtol str of (buf, p) \<Rightarrow>
     if p = str \<or> p \<noteq> [] then None else Some (sint (word_of_int buf :: 32 word)))"

definition parsefloat :: "(cstring \<Rightarrow> rat \<times> cstring) \<Rightarrow> cstring \<Rightarrow> rat option" where
  "parsefloat strtod str = (case strtod str of (buf, p) \<Rightarrow>
     if p = str \<or> p \<noteq> [] then None else Some buf)"

text \<open>A line of the configuration; \<open>None\<close> is the jump to \<open>err\<close>.\<close>

definition conf_line :: "(cstring \<Rightarrow> rat \<times> cstring) \<Rightarrow> (cstring \<Rightarrow> int \<times> cstring) \<Rightarrow> cstring list \<Rightarrow> ratecfg \<Rightarrow>
    ratecfg option" where
  "conf_line strtod strtol w cf =
     (if w ! 0 = ''size'' then
        (if length w < 2 then None else map_option (\<lambda>v. cf\<lparr>cf_size := v\<rparr>) (parsefloat strtod (w ! 1)))
      else if w ! 0 = ''rate'' then
        (if length w < 2 then None else map_option (\<lambda>v. cf\<lparr>cf_rate := v\<rparr>) (parsefloat strtod (w ! 1)))
      else if w ! 0 = ''brim'' then
        (if length w < 2 then None else map_option (\<lambda>v. cf\<lparr>cf_brimsize := v\<rparr>) (parseint strtol (w ! 1)))
      else Some cf)"

partial_function (option) conf_lines :: "(cstring list \<Rightarrow> ratecfg \<Rightarrow> ratecfg option) \<Rightarrow> filesys \<Rightarrow> ratecfg \<Rightarrow>
    cfstate \<Rightarrow> (cf_err + ratecfg option) option" where
  "conf_lines line fsys cf s = (case getcfline fsys s of
      None \<Rightarrow> None
    | Some (Inl e) \<Rightarrow> Some (Inl e)
    | Some (Inr s1) \<Rightarrow>
        (if argv s1 ! 0 = ''eof'' then Some (Inr (Some cf))
         else (case line (argv s1) cf of
             None \<Rightarrow> Some (Inr None)
           | Some cf1 \<Rightarrow> conf_lines line fsys cf1 s1)))"

declare conf_lines.simps [code]

text \<open>\<open>Inr None\<close> is the result -1.\<close>

definition readconf :: "(cstring \<Rightarrow> rat \<times> cstring) \<Rightarrow> (cstring \<Rightarrow> int \<times> cstring) \<Rightarrow> filesys \<Rightarrow> cstring \<Rightarrow>
    (cf_err + ratecfg option) option" where
  "readconf strtod strtol fsys path = (case fs_open fsys path of
      None \<Rightarrow> Some (Inr None)
    | Some inp \<Rightarrow> (case mkcfparser fsys inp path of
        None \<Rightarrow> None
      | Some (Inl e) \<Rightarrow> Some (Inl e)
      | Some (Inr s) \<Rightarrow> conf_lines (conf_line strtod strtol) fsys defcfg s))"

section \<open>The main loop\<close>

definition start :: "ratecfg \<Rightarrow> ratequeue" where
  "start cf = \<lparr>rq_now = 0, rq_cf = cf, rq_table = ht_empty, rq_heap = ([], \<lambda>_. - 1),
     rq_store = (\<lambda>_. None), rq_next = 0, rq_sent = [], rq_refused = [], rq_dropped = []\<rparr>"

text \<open>How long \<open>poll\<close> waits, in milliseconds; -1 is for ever. The conversion to \<open>int\<close> truncates.\<close>

definition trunc :: "rat \<Rightarrow> int" where
  "trunc x = (if 0 \<le> x then \<lfloor>x\<rfloor> else \<lceil>x\<rceil>)"

definition poll_time :: "ratequeue \<Rightarrow> int" where
  "poll_time st =
     (let timeout = (case th_first (rq_heap st) of None \<Rightarrow> - 1 | Some (_, tm) \<Rightarrow> tm) in
      if timeout < 0 then - 1 else trunc ((timeout + 1 / 10 - rq_now st) * 1000))"

text \<open>
  The loop over the timers that are due, which reads the clock before each look at the heap; \<open>ts\<close> are
  its readings, and the result tells whether the loop ended with them.
\<close>

fun check_due :: "(queued list \<Rightarrow> queued \<Rightarrow> bool) \<Rightarrow> rat list \<Rightarrow> ratequeue \<Rightarrow> rq_stop + bool \<times> ratequeue" where
  "check_due takes [] st = Inr (th_first (rq_heap st) = None, st)"
| "check_due takes (t # ts) st = (case th_first (rq_heap st) of
      None \<Rightarrow> Inr (True, st)
    | Some (a, tm) \<Rightarrow>
        (let st1 = st\<lparr>rq_now := t\<rparr> in
         if t < tm then Inr (True, st1)
         else (case checkbtime takes a st1 of
             Inl e \<Rightarrow> Inl e
           | Inr st2 \<Rightarrow> check_due takes ts st2)))"

text \<open>
  One turn of the loop of \<open>main\<close>: a configuration if one is to be reloaded, the clock, the request
  that \<open>recvreq\<close> gives if \<open>poll\<close> reports one, with the clock that \<open>serve\<close> reads, and the timers.
\<close>

definition main_turn :: "(int \<Rightarrow> cstring \<Rightarrow> string option) \<Rightarrow> (queued list \<Rightarrow> queued \<Rightarrow> bool) \<Rightarrow>
    ratecfg option \<Rightarrow> rat \<Rightarrow> (rat \<times> queued) option \<Rightarrow> rat list \<Rightarrow> ratequeue \<Rightarrow> rq_stop + bool \<times> ratequeue" where
  "main_turn pton takes conf t0 req ts st =
     (let st0 = (case conf of None \<Rightarrow> st | Some cf \<Rightarrow> st\<lparr>rq_cf := cf\<rparr>); st1 = st0\<lparr>rq_now := t0\<rparr> in
      case req of
        None \<Rightarrow> check_due takes ts st1
      | Some (t, w) \<Rightarrow> (case serve pton takes t w st1 of
          Inl e \<Rightarrow> Inl e
        | Inr st2 \<Rightarrow> check_due takes ts st2))"

section \<open>The promise: a bucket for each source\<close>

text \<open>
  The daemon without its data structures: a map from sources to buckets and a map from sources to
  the times their buckets are to be looked at.
\<close>

record limiter =
  lm_now :: rat
  lm_cf :: ratecfg
  lm_buckets :: "source \<Rightarrow> bucket option"
  lm_due :: "source \<Rightarrow> rat option"
  lm_sent :: "queued list"
  lm_refused :: "queued list"
  lm_dropped :: "queued list"

definition lm_put :: "source \<Rightarrow> bucket \<Rightarrow> limiter \<Rightarrow> rq_stop + limiter" where
  "lm_put s bk L = (case btime_of (lm_cf L) bk of
      None \<Rightarrow> Inl ZeroRate
    | Some tm \<Rightarrow> Inr (L\<lparr>lm_buckets := (lm_buckets L)(s \<mapsto> bk), lm_due := (lm_due L)(s \<mapsto> tm)\<rparr>))"

definition lm_expired :: "ratecfg \<Rightarrow> rat \<Rightarrow> bucket \<Rightarrow> bool" where
  "lm_expired cf now bk \<longleftrightarrow> bk_level bk = 0 \<and> now \<ge> bk_etime bk + cf_retain cf \<and> bk_blocked bk \<le> 0"

definition lm_check :: "(queued list \<Rightarrow> queued \<Rightarrow> bool) \<Rightarrow> source \<Rightarrow> limiter \<Rightarrow> rq_stop + limiter" where
  "lm_check takes s L = (case tick takes (lm_cf L) (lm_now L) (the (lm_buckets L s)) (lm_sent L) of
      Inl e \<Rightarrow> Inl e
    | Inr (bk, sent) \<Rightarrow>
        (if lm_expired (lm_cf L) (lm_now L) bk
         then Inr (L\<lparr>lm_buckets := (lm_buckets L)(s := None), lm_due := (lm_due L)(s := None),
           lm_sent := sent, lm_dropped := lm_dropped L @ bk_brim bk\<rparr>)
         else lm_put s bk (L\<lparr>lm_sent := sent\<rparr>)))"

definition lm_bucket :: "source \<Rightarrow> limiter \<Rightarrow> bucket" where
  "lm_bucket s L = (case lm_buckets L s of Some bk \<Rightarrow> bk | None \<Rightarrow> new_bucket s (lm_now L))"

definition lm_serve :: "(queued list \<Rightarrow> queued \<Rightarrow> bool) \<Rightarrow> source \<Rightarrow> queued \<Rightarrow> limiter \<Rightarrow> rq_stop + limiter" where
  "lm_serve takes s w L = (case tick takes (lm_cf L) (lm_now L) (lm_bucket s L) (lm_sent L) of
      Inl e \<Rightarrow> Inl e
    | Inr (bk, sent) \<Rightarrow>
        (if bk_level bk < cf_size (lm_cf L) then
           (if takes sent w then lm_put s (bk\<lparr>bk_level := bk_level bk + 1\<rparr>) (L\<lparr>lm_sent := sent @ [w]\<rparr>)
            else Inl ChildGone)
         else if int (length (bk_brim bk)) < cf_brimsize (lm_cf L) then
           lm_put s (bk\<lparr>bk_brim := bk_brim bk @ [w]\<rparr>) (L\<lparr>lm_sent := sent\<rparr>)
         else
           (let bk1 = (if bk_blocked bk < 0 then bk\<lparr>bk_wtime := lm_now L, bk_blocked := 0\<rparr> else bk)
            in lm_put s (bk1\<lparr>bk_blocked := bk_blocked bk1 + 1\<rparr>)
                 (L\<lparr>lm_sent := sent, lm_refused := lm_refused L @ [w]\<rparr>))))"

definition find_src :: "ratequeue \<Rightarrow> source \<Rightarrow> nat option" where
  "find_src st s = ht_find (is_source st s) (unat (src_hash s)) (rq_table st)"

definition abs_rq :: "ratequeue \<Rightarrow> limiter" where
  "abs_rq st = \<lparr>lm_now = rq_now st, lm_cf = rq_cf st,
     lm_buckets = (\<lambda>s. map_option (bk_at st) (find_src st s)),
     lm_due = (\<lambda>s. case find_src st s of None \<Rightarrow> None | Some a \<Rightarrow> map_of (fst (rq_heap st)) a),
     lm_sent = rq_sent st, lm_refused = rq_refused st, lm_dropped = rq_dropped st\<rparr>"

section \<open>The data structures\<close>

definition rq_struct :: "ratequeue \<Rightarrow> bool" where
  "rq_struct st \<longleftrightarrow> ht_ok (hash_of st) (rq_table st) \<and> ht_keys (rq_table st) = dom (rq_store st) \<and>
     th_ok (rq_heap st) \<and> fst ` th_due (rq_heap st) \<subseteq> dom (rq_store st) \<and>
     (\<forall>a\<in>dom (rq_store st). a < rq_next st) \<and>
     (\<forall>a\<in>dom (rq_store st). \<forall>b\<in>dom (rq_store st). bk_id (bk_at st a) = bk_id (bk_at st b) \<longrightarrow> a = b)"

text \<open>Between the operations every bucket has a timer.\<close>

definition rq_ok :: "ratequeue \<Rightarrow> bool" where
  "rq_ok st \<longleftrightarrow> rq_struct st \<and> dom (rq_store st) \<subseteq> fst ` th_due (rq_heap st)"

lemma rq_ok_start: "rq_ok (start cf)"
  by (auto simp: rq_ok_def rq_struct_def start_def ht_empty_ok th_ok_def th_heap_def th_places_def th_due_def)

lemma find_src_iff:
  assumes "rq_struct st"
  shows "find_src st s = Some a \<longleftrightarrow> a \<in> dom (rq_store st) \<and> bk_id (bk_at st a) = s"
proof
  have ok: "ht_ok (hash_of st) (rq_table st)" "ht_keys (rq_table st) = dom (rq_store st)"
    using assms by (auto simp: rq_struct_def)
  show "find_src st s = Some a \<Longrightarrow> a \<in> dom (rq_store st) \<and> bk_id (bk_at st a) = s"
    using table.find_Some [OF ok(1), of "is_source st s" _ a] ok(2) by (simp add: find_src_def is_source_def)
  assume a: "a \<in> dom (rq_store st) \<and> bk_id (bk_at st a) = s"
  show "find_src st s = Some a"
    unfolding find_src_def
  proof (rule table.find_only [OF ok(1)])
    show "\<forall>y\<in>ht_keys (rq_table st). is_source st s y \<longrightarrow> y = a"
      using assms a unfolding rq_struct_def is_source_def srccmp_zero by metis
  qed (use a ok(2) in \<open>simp_all add: is_source_def\<close>)
qed

lemma find_src_None:
  assumes "rq_struct st"
  shows "find_src st s = None \<longleftrightarrow> (\<forall>a\<in>dom (rq_store st). bk_id (bk_at st a) \<noteq> s)"
  using find_src_iff [OF assms, of s] by (metis not_None_eq)

lemma find_src_eqI:
  assumes "rq_struct st" "\<And>s a. F s = Some a \<longleftrightarrow> a \<in> dom (rq_store st) \<and> bk_id (bk_at st a) = s"
  shows "find_src st = F"
proof
  fix s
  show "find_src st s = F s"
    using find_src_iff [OF assms(1), of s] assms(2) [of s] by (metis not_None_eq)
qed

text \<open>A change of a bucket that keeps its source.\<close>

lemma set_bucket_at [simp]: "bk_at (set_bucket a bk st) b = (if b = a then bk else bk_at st b)"
  by (simp add: set_bucket_def bk_at_def)

lemma set_bucket_sel [simp]:
  "rq_now (set_bucket a bk st) = rq_now st" "rq_cf (set_bucket a bk st) = rq_cf st"
  "rq_table (set_bucket a bk st) = rq_table st" "rq_heap (set_bucket a bk st) = rq_heap st"
  "rq_store (set_bucket a bk st) = (rq_store st)(a \<mapsto> bk)" "rq_next (set_bucket a bk st) = rq_next st"
  "rq_sent (set_bucket a bk st) = rq_sent st" "rq_refused (set_bucket a bk st) = rq_refused st"
  "rq_dropped (set_bucket a bk st) = rq_dropped st"
  by (simp_all add: set_bucket_def)

lemma set_bucket_struct:
  assumes "rq_struct st" "a \<in> dom (rq_store st)" "bk_id bk = bk_id (bk_at st a)"
  shows "rq_struct (set_bucket a bk st)" "find_src (set_bucket a bk st) = find_src st"
proof -
  have id: "bk_id (bk_at (set_bucket a bk st) b) = bk_id (bk_at st b)" for b using assms(3) by simp
  have h: "hash_of (set_bucket a bk st) = hash_of st" by (rule ext) (simp add: hash_of_def assms(3))
  have d: "dom (rq_store (set_bucket a bk st)) = dom (rq_store st)" using assms(2) by auto
  show st: "rq_struct (set_bucket a bk st)"
    using assms(1) unfolding rq_struct_def id h d set_bucket_sel(3,4,6) .
  show "find_src (set_bucket a bk st) = find_src st"
    by (rule find_src_eqI [OF st]) (simp only: id d find_src_iff [OF assms(1)])
qed

text \<open>What does not touch the structures.\<close>

lemma rq_struct_same:
  assumes "rq_table st' = rq_table st" "rq_store st' = rq_store st" "rq_heap st' = rq_heap st" "rq_next st' = rq_next st"
  shows "rq_struct st' = rq_struct st" "find_src st' = find_src st" "bk_at st' = bk_at st" "rq_ok st' = rq_ok st"
proof -
  show at: "bk_at st' = bk_at st" by (rule ext) (simp add: bk_at_def assms)
  have h: "hash_of st' = hash_of st" by (rule ext) (simp add: hash_of_def at)
  show s: "rq_struct st' = rq_struct st" by (simp add: rq_struct_def assms at h)
  show "rq_ok st' = rq_ok st" by (simp add: rq_ok_def assms s)
  have "is_source st' = is_source st" by (intro ext) (simp add: is_source_def at)
  then show "find_src st' = find_src st" by (intro ext) (simp add: find_src_def assms)
qed

lemma hashget_law:
  assumes "rq_struct st"
  shows "\<exists>a st'. hashget src st = Inr (a, st') \<and> rq_struct st' \<and> find_src st' = (find_src st)(src \<mapsto> a) \<and>
    (\<forall>b\<in>dom (rq_store st). bk_at st' b = bk_at st b) \<and>
    bk_at st' a = (if find_src st src = None then new_bucket src (rq_now st) else bk_at st a) \<and>
    a \<in> dom (rq_store st') \<and> bk_id (bk_at st' a) = src \<and> dom (rq_store st') = insert a (dom (rq_store st)) \<and>
    fst (rq_heap st') = fst (rq_heap st) \<and> rq_now st' = rq_now st \<and> rq_cf st' = rq_cf st \<and>
    rq_sent st' = rq_sent st \<and> rq_refused st' = rq_refused st \<and> rq_dropped st' = rq_dropped st"
proof (cases "find_src st src")
  case (Some a)
  with find_src_iff [OF assms, of src a] assms show ?thesis
    by (intro exI [of _ a] exI [of _ st]) (auto simp: hashget_def find_src_def)
next
  case None
  let ?a = "rq_next st"
  define st1 where "st1 = set_bucket ?a (new_bucket src (rq_now st))
      (st\<lparr>rq_next := ?a + 1, rq_heap := (fst (rq_heap st), (snd (rq_heap st))(?a := - 1))\<rparr>)"
  have ok: "ht_ok (hash_of st) (rq_table st)" "ht_keys (rq_table st) = dom (rq_store st)" "th_ok (rq_heap st)"
    "fst ` th_due (rq_heap st) \<subseteq> dom (rq_store st)" "\<forall>a\<in>dom (rq_store st). a < ?a"
    "\<forall>a\<in>dom (rq_store st). \<forall>b\<in>dom (rq_store st). bk_id (bk_at st a) = bk_id (bk_at st b) \<longrightarrow> a = b"
    using assms by (auto simp: rq_struct_def)
  have fresh: "?a \<notin> dom (rq_store st)" using ok(5) by blast
  have at: "bk_at st1 b = (if b = ?a then new_bucket src (rq_now st) else bk_at st b)" for b
    by (simp add: st1_def) (simp add: bk_at_def)
  have h: "hash_of st1 = (hash_of st)(?a := unat (src_hash src))"
    by (rule ext) (simp add: hash_of_def at new_bucket_def)
  have tab: "rq_table st1 = rq_table st" by (simp add: st1_def)
  obtain t where t: "ht_put (hash_of st1) ?a (rq_table st1) = Some t" "ht_ok (hash_of st1) t"
    "ht_keys t = insert ?a (dom (rq_store st))"
    using table.put_new [OF ok(1), of ?a "unat (src_hash src)"] fresh unfolding ok(2) h tab by blast
  define st2 where "st2 = st1\<lparr>rq_table := t\<rparr>"
  have at2: "bk_at st2 = bk_at st1" by (rule ext) (simp add: bk_at_def st2_def)
  then have h2: "hash_of st2 = hash_of st1" by (intro ext) (simp add: hash_of_def)
  have d: "dom (rq_store st2) = insert ?a (dom (rq_store st))" by (simp add: st2_def st1_def)
  have none: "\<forall>a\<in>dom (rq_store st). bk_id (bk_at st a) \<noteq> src" using find_src_None [OF assms] None by simp
  have notin: "?a \<notin> fst ` th_due (rq_heap st)" using fresh ok(4) by blast
  have heap: "th_ok (rq_heap st2)" "th_due (rq_heap st2) = th_due (rq_heap st)"
    using th_ok_forget [OF ok(3) notin] by (simp_all add: st2_def st1_def th_due_def)
  have s: "rq_struct st2"
    unfolding rq_struct_def
  proof (intro conjI)
    show "ht_ok (hash_of st2) (rq_table st2)" using t(2) h2 by (simp add: st2_def)
    show "ht_keys (rq_table st2) = dom (rq_store st2)" unfolding d using t(3) by (simp add: st2_def)
    show "th_ok (rq_heap st2)" by (fact heap(1))
    show "fst ` th_due (rq_heap st2) \<subseteq> dom (rq_store st2)" unfolding d heap(2) using ok(4) by blast
    have "rq_next st2 = Suc ?a" by (simp add: st2_def st1_def)
    then show "\<forall>a\<in>dom (rq_store st2). a < rq_next st2" unfolding d using ok(5) less_Suc_eq by simp
    show "\<forall>a\<in>dom (rq_store st2). \<forall>b\<in>dom (rq_store st2). bk_id (bk_at st2 a) = bk_id (bk_at st2 b) \<longrightarrow> a = b"
      unfolding d at2 at using ok(6) none fresh by (auto simp: new_bucket_def)
  qed
  have f: "find_src st2 = (find_src st)(src \<mapsto> ?a)"
  proof (rule find_src_eqI [OF s])
    fix s b
    show "((find_src st)(src \<mapsto> ?a)) s = Some b \<longleftrightarrow> b \<in> dom (rq_store st2) \<and> bk_id (bk_at st2 b) = s"
      unfolding d at2 at using find_src_iff [OF assms, of s b] none fresh by (auto simp: new_bucket_def)
  qed
  have "hashget src st = Inr (?a, st2)"
    unfolding hashget_def find_src_def [symmetric] None option.case Let_def st1_def [symmetric] t(1) st2_def
    by (rule refl)
  moreover have "bk_at st2 ?a = new_bucket src (rq_now st)" "bk_id (bk_at st2 ?a) = src"
    by (simp_all add: at2 at new_bucket_def)
  moreover have "\<forall>b\<in>dom (rq_store st). bk_at st2 b = bk_at st b" using fresh by (auto simp: at2 at)
  ultimately show ?thesis using s f d None
    by (intro exI [of _ ?a] exI [of _ st2]) (simp add: st2_def st1_def)
qed

lemma updbtime_law:
  assumes "rq_struct st" "a \<in> dom (rq_store st)" "dom (rq_store st) - {a} \<subseteq> fst ` th_due (rq_heap st)"
  shows "case updbtime a st of
      Inl e \<Rightarrow> e = ZeroRate \<and> btime_of (rq_cf st) (bk_at st a) = None
    | Inr st' \<Rightarrow> rq_ok st' \<and> (\<exists>tm. btime_of (rq_cf st) (bk_at st a) = Some tm \<and>
        abs_rq st' = (abs_rq st)\<lparr>lm_due := (lm_due (abs_rq st))(bk_id (bk_at st a) \<mapsto> tm)\<rparr>)"
proof (cases "btime_of (rq_cf st) (bk_at st a)")
  case None
  then show ?thesis by (simp add: updbtime_def)
next
  case (Some tm)
  define st' where "st' = st\<lparr>rq_heap := th_set a tm (rq_heap st)\<rparr>"
  have heap: "th_ok (rq_heap st)" using assms(1) by (simp add: rq_struct_def)
  note set = timers.set_law [OF heap, of a tm] timers.set_owners [OF heap, of a tm]
  have at: "bk_at st' = bk_at st" by (rule ext) (simp add: bk_at_def st'_def)
  then have h: "hash_of st' = hash_of st" by (intro ext) (simp add: hash_of_def)
  have s: "rq_struct st'"
    using assms(1,2) set unfolding rq_struct_def at h by (auto simp: st'_def)
  have f: "find_src st' = find_src st"
    by (rule find_src_eqI [OF s]) (simp add: find_src_iff [OF assms(1)] at, simp add: st'_def)
  have ok: "rq_ok st'" using s assms(3) set(2) by (auto simp: rq_ok_def st'_def)
  have due: "(case find_src st s of None \<Rightarrow> None | Some b \<Rightarrow> map_of (fst (rq_heap st')) b) =
      ((lm_due (abs_rq st))(bk_id (bk_at st a) \<mapsto> tm)) s" for s
  proof (cases "find_src st s")
    case None
    with find_src_None [OF assms(1), of s] assms(2) have "s \<noteq> bk_id (bk_at st a)" by blast
    with None show ?thesis by (simp add: abs_rq_def)
  next
    case (Some b)
    then have b: "b \<in> dom (rq_store st)" "bk_id (bk_at st b) = s" using find_src_iff [OF assms(1)] by auto
    have eq: "s = bk_id (bk_at st a) \<longleftrightarrow> b = a" using assms(1,2) b unfolding rq_struct_def by metis
    have m: "map_of (fst (rq_heap st')) b = (if b = a then Some tm else map_of (fst (rq_heap st)) b)"
      using th_set_map [OF heap] by (simp add: st'_def)
    show ?thesis
      using Some eq m by (auto simp: abs_rq_def)
  qed
  have "abs_rq st' = (abs_rq st)\<lparr>lm_due := (lm_due (abs_rq st))(bk_id (bk_at st a) \<mapsto> tm)\<rparr>"
    using due unfolding abs_rq_def f at by (simp add: st'_def fun_eq_iff)
  with ok Some show ?thesis by (simp add: updbtime_def st'_def)
qed

lemma freebucket_law:
  assumes "rq_struct st" "a \<in> dom (rq_store st)" "dom (rq_store st) - {a} \<subseteq> fst ` th_due (rq_heap st)"
  shows "\<exists>st'. freebucket a st = Inr st' \<and> rq_ok st' \<and>
    abs_rq st' = (abs_rq st)\<lparr>lm_buckets := (lm_buckets (abs_rq st))(bk_id (bk_at st a) := None),
      lm_due := (lm_due (abs_rq st))(bk_id (bk_at st a) := None),
      lm_dropped := rq_dropped st @ bk_brim (bk_at st a)\<rparr>"
proof -
  let ?s = "bk_id (bk_at st a)"
  have ok: "ht_ok (hash_of st) (rq_table st)" "ht_keys (rq_table st) = dom (rq_store st)" "th_ok (rq_heap st)"
    "fst ` th_due (rq_heap st) \<subseteq> dom (rq_store st)" "\<forall>a\<in>dom (rq_store st). a < rq_next st"
    "\<forall>a\<in>dom (rq_store st). \<forall>b\<in>dom (rq_store st). bk_id (bk_at st a) = bk_id (bk_at st b) \<longrightarrow> a = b"
    using assms(1) by (auto simp: rq_struct_def)
  have "a \<in> ht_keys (rq_table st)" "is_source st ?s a" "\<forall>b\<in>ht_keys (rq_table st). is_source st ?s b \<longrightarrow> b = a"
    using assms(2) ok(2,6) by (auto simp: is_source_def)
  from table.del_law [OF ok(1) this] obtain t where t:
    "ht_del (hash_of st) (is_source st ?s) (hash_of st a) (rq_table st) = Some t" "ht_ok (hash_of st) t"
    "ht_keys t = ht_keys (rq_table st) - {a}" by blast
  define st' where "st' = st\<lparr>rq_table := t, rq_heap := th_remove a (rq_heap st),
      rq_store := (rq_store st)(a := None), rq_dropped := rq_dropped st @ bk_brim (bk_at st a)\<rparr>"
  have free: "freebucket a st = Inr st'"
    using t(1) by (simp add: freebucket_def hashdel_def st'_def bk_at_def)
  have d: "dom (rq_store st') = dom (rq_store st) - {a}" by (auto simp: st'_def)
  have at: "bk_at st' b = bk_at st b" if "b \<noteq> a" for b using that by (simp add: bk_at_def st'_def)
  note rem = timers.cancel_law [OF ok(3), of a] timers.cancel_owners [OF ok(3), of a]
  have s: "rq_struct st'"
    unfolding rq_struct_def
  proof (intro conjI)
    have "\<forall>x\<in>ht_keys t. hash_of st x = hash_of st' x" using at t(3) by (simp add: hash_of_def)
    from table.hash_cong [OF t(2) this] show "ht_ok (hash_of st') (rq_table st')" by (simp add: st'_def)
    show "ht_keys (rq_table st') = dom (rq_store st')" unfolding d using t(3) ok(2) by (simp add: st'_def)
    show "th_ok (rq_heap st')" using rem(1) by (simp add: st'_def)
    have "th_due (rq_heap st') = th_due (th_remove a (rq_heap st))" by (simp add: st'_def)
    then show "fst ` th_due (rq_heap st') \<subseteq> dom (rq_store st')" unfolding d using rem(2) ok(4) by auto
    show "\<forall>a\<in>dom (rq_store st'). a < rq_next st'" unfolding d using ok(5) by (simp add: st'_def)
    show "\<forall>a\<in>dom (rq_store st'). \<forall>b\<in>dom (rq_store st'). bk_id (bk_at st' a) = bk_id (bk_at st' b) \<longrightarrow> a = b"
      unfolding d using ok(6) at by auto
  qed
  have "th_due (rq_heap st') = th_due (th_remove a (rq_heap st))" by (simp add: st'_def)
  then have rqok: "rq_ok st'" unfolding rq_ok_def d using s rem(2) assms(3) by auto
  have f: "find_src st' = (find_src st)(?s := None)"
  proof (rule find_src_eqI [OF s])
    fix s b
    show "((find_src st)(?s := None)) s = Some b \<longleftrightarrow> b \<in> dom (rq_store st') \<and> bk_id (bk_at st' b) = s"
      unfolding d using find_src_iff [OF assms(1), of s b] assms(2) ok(6) at [of b]
      by (cases "b = a") auto
  qed
  have other: "b \<noteq> a" if "find_src st s = Some b" "s \<noteq> ?s" for s b
    using that find_src_iff [OF assms(1)] by auto
  have m: "map_of (fst (rq_heap st')) b = map_of (fst (rq_heap st)) b" if "b \<noteq> a" for b
    using th_remove_map [OF ok(3), of a b] that by (simp add: st'_def)
  have "abs_rq st' = (abs_rq st)\<lparr>lm_buckets := (lm_buckets (abs_rq st))(?s := None),
      lm_due := (lm_due (abs_rq st))(?s := None), lm_dropped := rq_dropped st @ bk_brim (bk_at st a)\<rparr>"
    unfolding abs_rq_def f
  proof (simp add: fun_eq_iff, intro conjI allI impI)
    fix s assume s: "s \<noteq> ?s"
    show "map_option (bk_at st') (find_src st s) = map_option (bk_at st) (find_src st s)"
      using other [OF _ s] at by (cases "find_src st s") auto
    show "(case find_src st s of None \<Rightarrow> None | Some x \<Rightarrow> map_of (fst (rq_heap st')) x) =
        (case find_src st s of None \<Rightarrow> None | Some x \<Rightarrow> map_of (fst (rq_heap st)) x)"
      using other [OF _ s] m by (cases "find_src st s") auto
  qed (simp_all add: st'_def)
  with free rqok show ?thesis by blast
qed

section \<open>Refinement\<close>

lemma abs_set_bucket:
  assumes "rq_struct st" "a \<in> dom (rq_store st)" "bk_id bk = bk_id (bk_at st a)"
  shows "abs_rq (set_bucket a bk st) = (abs_rq st)\<lparr>lm_buckets := (lm_buckets (abs_rq st))(bk_id bk \<mapsto> bk)\<rparr>"
proof -
  have here: "find_src st (bk_id bk) = Some a" using find_src_iff [OF assms(1)] assms(2,3) by simp
  have "map_option (bk_at (set_bucket a bk st)) (find_src st s) =
      ((\<lambda>s. map_option (bk_at st) (find_src st s))(bk_id bk \<mapsto> bk)) s" for s
  proof (cases "s = bk_id bk")
    case False
    with here have "find_src st s \<noteq> Some a" using find_src_iff [OF assms(1)] by metis
    with False show ?thesis by (cases "find_src st s") auto
  qed (simp add: here)
  then show ?thesis unfolding abs_rq_def set_bucket_struct(2) [OF assms] by (simp add: fun_eq_iff cong: option.case_cong)
qed

lemma tick_id: "tick takes cf now bk sent = Inr (bk', sent') \<Longrightarrow> bk_id bk' = bk_id bk"
  by (auto simp: tick_def Let_def leak_def warned_def split: sum.splits if_splits)

text \<open>Setting a bucket and its timer is what the promise says.\<close>

lemma put_refines:
  assumes "rq_struct st" "a \<in> dom (rq_store st)" "dom (rq_store st) - {a} \<subseteq> fst ` th_due (rq_heap st)"
    and "bk_id bk = bk_id (bk_at st a)"
  shows "case updbtime a (set_bucket a bk st) of
      Inl e \<Rightarrow> lm_put (bk_id bk) bk (abs_rq st) = Inl e
    | Inr st' \<Rightarrow> rq_ok st' \<and> lm_put (bk_id bk) bk (abs_rq st) = Inr (abs_rq st')"
proof -
  have s: "rq_struct (set_bucket a bk st)" by (rule set_bucket_struct(1) [OF assms(1,2,4)])
  have "dom (rq_store (set_bucket a bk st)) = dom (rq_store st)" using assms(2) by auto
  with updbtime_law [OF s, of a] assms(2,3) abs_set_bucket [OF assms(1,2,4)] show ?thesis
    by (auto simp: lm_put_def abs_rq_def split: sum.splits)
qed

lemma abs_sel [simp]:
  "lm_now (abs_rq st) = rq_now st" "lm_cf (abs_rq st) = rq_cf st" "lm_sent (abs_rq st) = rq_sent st"
  "lm_refused (abs_rq st) = rq_refused st" "lm_dropped (abs_rq st) = rq_dropped st"
  by (simp_all add: abs_rq_def)

lemma abs_bucket: "rq_struct st \<Longrightarrow> a \<in> dom (rq_store st) \<Longrightarrow>
    lm_buckets (abs_rq st) (bk_id (bk_at st a)) = Some (bk_at st a)"
  using find_src_iff [of st "bk_id (bk_at st a)" a] by (simp add: abs_rq_def)

lemma abs_same [simp]:
  "abs_rq (st\<lparr>rq_sent := x\<rparr>) = (abs_rq st)\<lparr>lm_sent := x\<rparr>"
  "abs_rq (st\<lparr>rq_refused := x\<rparr>) = (abs_rq st)\<lparr>lm_refused := x\<rparr>"
  "abs_rq (st\<lparr>rq_now := t\<rparr>) = (abs_rq st)\<lparr>lm_now := t\<rparr>"
  "abs_rq (st\<lparr>rq_cf := cf\<rparr>) = (abs_rq st)\<lparr>lm_cf := cf\<rparr>"
  using rq_struct_same(2,3) [of "st\<lparr>rq_sent := x\<rparr>" st] rq_struct_same(2,3) [of "st\<lparr>rq_refused := x\<rparr>" st]
    rq_struct_same(2,3) [of "st\<lparr>rq_now := t\<rparr>" st] rq_struct_same(2,3) [of "st\<lparr>rq_cf := cf\<rparr>" st]
  by (simp_all add: abs_rq_def cong: option.case_cong)

lemma lm_put_same [simp]: "lm_put s bk (L\<lparr>lm_buckets := (lm_buckets L)(s \<mapsto> bk0)\<rparr>) = lm_put s bk L"
  by (auto simp: lm_put_def split: option.split)

text \<open>The ticked bucket, before its timer is set.\<close>

lemma ticked:
  assumes "rq_struct st" "a \<in> dom (rq_store st)" "dom (rq_store st) - {a} \<subseteq> fst ` th_due (rq_heap st)"
    and "bk_id bk = bk_id (bk_at st a)"
  shows "rq_struct (set_bucket a bk (st\<lparr>rq_sent := sent\<rparr>))"
    "a \<in> dom (rq_store (set_bucket a bk (st\<lparr>rq_sent := sent\<rparr>)))"
    "dom (rq_store (set_bucket a bk (st\<lparr>rq_sent := sent\<rparr>))) - {a} \<subseteq>
      fst ` th_due (rq_heap (set_bucket a bk (st\<lparr>rq_sent := sent\<rparr>)))"
    "abs_rq (set_bucket a bk (st\<lparr>rq_sent := sent\<rparr>)) =
      (abs_rq st)\<lparr>lm_sent := sent, lm_buckets := (lm_buckets (abs_rq st))(bk_id bk \<mapsto> bk)\<rparr>"
proof -
  define st1 where "st1 = st\<lparr>rq_sent := sent\<rparr>"
  have same: "rq_struct st1" "bk_at st1 = bk_at st" "rq_store st1 = rq_store st" "rq_heap st1 = rq_heap st"
    using assms(1) rq_struct_same [of st1 st] by (simp_all add: st1_def)
  have a: "a \<in> dom (rq_store st1)" "bk_id bk = bk_id (bk_at st1 a)" using assms(2,4) same by simp_all
  show "rq_struct (set_bucket a bk (st\<lparr>rq_sent := sent\<rparr>))"
    using set_bucket_struct(1) [OF same(1) a] by (simp add: st1_def)
  show "abs_rq (set_bucket a bk (st\<lparr>rq_sent := sent\<rparr>)) =
      (abs_rq st)\<lparr>lm_sent := sent, lm_buckets := (lm_buckets (abs_rq st))(bk_id bk \<mapsto> bk)\<rparr>"
    using abs_set_bucket [OF same(1) a] by (simp add: st1_def)
qed (use assms(3) in auto)

lemma checkbtime_law:
  assumes "rq_ok st" "a \<in> dom (rq_store st)"
  shows "case checkbtime takes a st of
      Inl e \<Rightarrow> lm_check takes (bk_id (bk_at st a)) (abs_rq st) = Inl e
    | Inr st' \<Rightarrow> rq_ok st' \<and> lm_check takes (bk_id (bk_at st a)) (abs_rq st) = Inr (abs_rq st')"
proof -
  have ok: "rq_struct st" "dom (rq_store st) - {a} \<subseteq> fst ` th_due (rq_heap st)"
    using assms(1) by (auto simp: rq_ok_def)
  note ab = abs_bucket [OF ok(1) assms(2)]
  show ?thesis
  proof (cases "tick takes (rq_cf st) (rq_now st) (bk_at st a) (rq_sent st)")
    case (Inl e)
    with ab show ?thesis by (simp add: checkbtime_def tickbucket_def lm_check_def)
  next
    case (Inr r)
    obtain bk sent where r: "r = (bk, sent)" by (cases r)
    have id: "bk_id bk = bk_id (bk_at st a)" using tick_id Inr r by blast
    define st1 where "st1 = set_bucket a bk (st\<lparr>rq_sent := sent\<rparr>)"
    note t = ticked [OF ok(1) assms(2) ok(2) id, of sent, folded st1_def]
    have at: "bk_at st1 a = bk" and sel: "rq_cf st1 = rq_cf st" "rq_now st1 = rq_now st" "rq_dropped st1 = rq_dropped st"
      by (simp_all add: st1_def)
    have tb: "tickbucket takes a st = Inr st1" by (simp add: tickbucket_def Inr r st1_def)
    show ?thesis
    proof (cases "lm_expired (rq_cf st) (rq_now st) bk")
      case True
      obtain st2 where "freebucket a st1 = Inr st2" "rq_ok st2"
        "abs_rq st2 = (abs_rq st1)\<lparr>lm_buckets := (lm_buckets (abs_rq st1))(bk_id bk := None),
          lm_due := (lm_due (abs_rq st1))(bk_id bk := None), lm_dropped := rq_dropped st1 @ bk_brim bk\<rparr>"
        using freebucket_law [OF t(1,2,3)] at by auto
      with True Inr r ab id t(4) tb at sel show ?thesis
        by (simp add: checkbtime_def lm_check_def lm_expired_def Let_def)
    next
      case False
      have "set_bucket a bk st1 = st1" by (simp add: st1_def set_bucket_def)
      then have "case updbtime a st1 of
          Inl e \<Rightarrow> lm_put (bk_id bk) bk (abs_rq st1) = Inl e
        | Inr st' \<Rightarrow> rq_ok st' \<and> lm_put (bk_id bk) bk (abs_rq st1) = Inr (abs_rq st')"
        using put_refines [OF t(1,2,3), of bk] at by simp
      moreover have "lm_put (bk_id bk) bk (abs_rq st1) = lm_put (bk_id bk) bk ((abs_rq st)\<lparr>lm_sent := sent\<rparr>)"
        using lm_put_same [of "bk_id bk" bk "(abs_rq st)\<lparr>lm_sent := sent\<rparr>" bk] by (simp add: t(4))
      moreover have "checkbtime takes a st = updbtime a st1"
        using False tb at sel by (auto simp: checkbtime_def lm_expired_def Let_def)
      moreover have "lm_check takes (bk_id (bk_at st a)) (abs_rq st) = lm_put (bk_id bk) bk ((abs_rq st)\<lparr>lm_sent := sent\<rparr>)"
        using False ab Inr r id by (simp add: lm_check_def)
      ultimately show ?thesis by (simp cong: sum.case_cong)
    qed
  qed
qed

lemma serve_law:
  assumes "rq_ok st"
  shows "case serve pton takes now w st of
      Inl e \<Rightarrow> lm_serve takes (reqsource pton (fst w)) w ((abs_rq st)\<lparr>lm_now := now\<rparr>) = Inl e
    | Inr st' \<Rightarrow> rq_ok st' \<and>
        lm_serve takes (reqsource pton (fst w)) w ((abs_rq st)\<lparr>lm_now := now\<rparr>) = Inr (abs_rq st')"
proof -
  define s where "s = reqsource pton (fst w)"
  define st0 where "st0 = st\<lparr>rq_now := now\<rparr>"
  have ok0: "rq_struct st0" "dom (rq_store st0) \<subseteq> fst ` th_due (rq_heap st0)"
    using assms rq_struct_same(1) [of st0 st] by (auto simp: rq_ok_def st0_def)
  obtain a st1 where g: "hashget s st0 = Inr (a, st1)" "rq_struct st1" "find_src st1 = (find_src st0)(s \<mapsto> a)"
    "\<forall>b\<in>dom (rq_store st0). bk_at st1 b = bk_at st0 b"
    "bk_at st1 a = (if find_src st0 s = None then new_bucket s (rq_now st0) else bk_at st0 a)"
    "a \<in> dom (rq_store st1)" "bk_id (bk_at st1 a) = s" "dom (rq_store st1) = insert a (dom (rq_store st0))"
    "fst (rq_heap st1) = fst (rq_heap st0)" "rq_now st1 = rq_now st0" "rq_cf st1 = rq_cf st0"
    "rq_sent st1 = rq_sent st0" "rq_refused st1 = rq_refused st0" "rq_dropped st1 = rq_dropped st0"
    using hashget_law [OF ok0(1), of s] by blast
  have now: "rq_now st1 = now" by (simp add: g(10) st0_def)
  have due: "dom (rq_store st1) - {a} \<subseteq> fst ` th_due (rq_heap st1)"
    using ok0(2) unfolding g(8) th_due_def g(9) by blast
  have bucket: "lm_bucket s (abs_rq st0) = bk_at st1 a"
  proof (cases "find_src st0 s")
    case (Some b)
    then have "b \<in> dom (rq_store st0)" "bk_id (bk_at st0 b) = s" using find_src_iff [OF ok0(1)] by auto
    moreover from this have "b = a"
      using g(2,4,6,7,8) unfolding rq_struct_def by (metis insertI2)
    ultimately show ?thesis using Some g(4) by (simp add: lm_bucket_def abs_rq_def)
  qed (simp add: lm_bucket_def abs_rq_def g(5))
  text \<open>Up to the bucket that is set and its timer, the table has the same map.\<close>
  have upd: "lm_put s bk ((abs_rq st1)\<lparr>lm_sent := x, lm_refused := y\<rparr>) =
      lm_put s bk ((abs_rq st0)\<lparr>lm_sent := x, lm_refused := y\<rparr>)" for bk x y
  proof -
    have "map_option (bk_at st1) (find_src st1 r) = map_option (bk_at st0) (find_src st0 r)" if "r \<noteq> s" for r
    proof (cases "find_src st0 r")
      case (Some b)
      then have "b \<in> dom (rq_store st0)" using find_src_iff [OF ok0(1)] by auto
      with Some that g(3,4) show ?thesis by simp
    qed (use that g(3) in simp)
    then have "(lm_buckets (abs_rq st1))(s \<mapsto> bk) = (lm_buckets (abs_rq st0))(s \<mapsto> bk)"
      by (auto simp: fun_eq_iff abs_rq_def)
    moreover have "(lm_due (abs_rq st1))(s \<mapsto> tm) = (lm_due (abs_rq st0))(s \<mapsto> tm)" for tm
      by (auto simp: fun_eq_iff abs_rq_def g(3,9) split: option.split)
    ultimately show ?thesis
      using g(10-14) now by (simp add: lm_put_def st0_def split: option.split)
  qed
  have a0: "abs_rq st0 = (abs_rq st)\<lparr>lm_now := now\<rparr>" by (simp add: st0_def)
  show ?thesis
  proof (cases "tick takes (rq_cf st) now (bk_at st1 a) (rq_sent st)")
    case (Inl e)
    have "tickbucket takes a st1 = Inl e" using Inl g(11,12) now by (simp add: tickbucket_def st0_def)
    moreover have "lm_serve takes s w (abs_rq st0) = Inl e" using Inl bucket by (simp add: lm_serve_def st0_def)
    ultimately show ?thesis
      unfolding serve_def s_def [symmetric] st0_def [symmetric] a0 [symmetric] g(1) by simp
  next
    case (Inr r)
    obtain bk sent where r: "r = (bk, sent)" by (cases r)
    have id: "bk_id bk = bk_id (bk_at st1 a)" using tick_id Inr r by blast
    define st2 where "st2 = set_bucket a bk (st1\<lparr>rq_sent := sent\<rparr>)"
    have tb: "tickbucket takes a st1 = Inr st2"
      using Inr r g(11,12) now by (simp add: tickbucket_def st2_def st0_def)
    have put: "case updbtime a (set_bucket a bk' (st2\<lparr>rq_sent := x, rq_refused := y\<rparr>)) of
        Inl e \<Rightarrow> lm_put s bk' ((abs_rq st0)\<lparr>lm_sent := x, lm_refused := y\<rparr>) = Inl e
      | Inr st' \<Rightarrow> rq_ok st' \<and> lm_put s bk' ((abs_rq st0)\<lparr>lm_sent := x, lm_refused := y\<rparr>) = Inr (abs_rq st')"
      if id': "bk_id bk' = s" for bk' x y
    proof -
      define st3 where "st3 = st1\<lparr>rq_sent := x, rq_refused := y\<rparr>"
      have st3: "rq_struct st3" "bk_at st3 = bk_at st1" "rq_store st3 = rq_store st1" "rq_heap st3 = rq_heap st1"
        using g(2) rq_struct_same [of st3 st1] by (simp_all add: st3_def)
      have "set_bucket a bk' (st2\<lparr>rq_sent := x, rq_refused := y\<rparr>) = set_bucket a bk' st3"
        by (simp add: set_bucket_def st2_def st3_def)
      moreover have "abs_rq st3 = (abs_rq st1)\<lparr>lm_sent := x, lm_refused := y\<rparr>" by (simp add: st3_def)
      moreover have "case updbtime a (set_bucket a bk' st3) of
          Inl e \<Rightarrow> lm_put (bk_id bk') bk' (abs_rq st3) = Inl e
        | Inr st' \<Rightarrow> rq_ok st' \<and> lm_put (bk_id bk') bk' (abs_rq st3) = Inr (abs_rq st')"
        using put_refines [OF st3(1), of a bk'] g(6,7) due id' st3 by simp
      ultimately show ?thesis using upd id' by (simp cong: sum.case_cong)
    qed
    have sel: "rq_cf st2 = rq_cf st" "rq_sent st2 = sent" "rq_refused st2 = rq_refused st" "bk_at st2 a = bk"
      using g(11,13) by (simp_all add: st2_def st0_def)
    have lm: "lm_serve takes s w (abs_rq st0) =
       (if bk_level bk < cf_size (rq_cf st) then
           (if takes sent w then lm_put s (bk\<lparr>bk_level := bk_level bk + 1\<rparr>) ((abs_rq st0)\<lparr>lm_sent := sent @ [w]\<rparr>)
            else Inl ChildGone)
         else if int (length (bk_brim bk)) < cf_brimsize (rq_cf st) then
           lm_put s (bk\<lparr>bk_brim := bk_brim bk @ [w]\<rparr>) ((abs_rq st0)\<lparr>lm_sent := sent\<rparr>)
         else
           (let bk1 = (if bk_blocked bk < 0 then bk\<lparr>bk_wtime := now, bk_blocked := 0\<rparr> else bk)
            in lm_put s (bk1\<lparr>bk_blocked := bk_blocked bk1 + 1\<rparr>)
                 ((abs_rq st0)\<lparr>lm_sent := sent, lm_refused := rq_refused st @ [w]\<rparr>)))"
      using Inr r bucket by (simp add: lm_serve_def st0_def)
    have e: "st2\<lparr>rq_sent := x, rq_refused := rq_refused st\<rparr> = st2\<lparr>rq_sent := x\<rparr>"
      "st2\<lparr>rq_sent := sent, rq_refused := x'\<rparr> = st2\<lparr>rq_refused := x'\<rparr>" "st2\<lparr>rq_refused := rq_refused st\<rparr> = st2" for x x'
      using sel(2,3) by (cases st2, simp)+
    have "lm_refused (abs_rq st0) = rq_refused st" by (simp add: st0_def)
    then have e0: "(abs_rq st0)\<lparr>lm_sent := x, lm_refused := rq_refused st\<rparr> = (abs_rq st0)\<lparr>lm_sent := x\<rparr>" for x
      by (cases "abs_rq st0") simp
    have serve: "serve pton takes now w st =
       (if bk_level bk < cf_size (rq_cf st) then
           (if takes sent w then updbtime a (set_bucket a (bk\<lparr>bk_level := bk_level bk + 1\<rparr>) (st2\<lparr>rq_sent := sent @ [w]\<rparr>))
            else Inl ChildGone)
         else if int (length (bk_brim bk)) < cf_brimsize (rq_cf st) then
           updbtime a (set_bucket a (bk\<lparr>bk_brim := bk_brim bk @ [w]\<rparr>) st2)
         else
           (let bk1 = (if bk_blocked bk < 0 then bk\<lparr>bk_wtime := now, bk_blocked := 0\<rparr> else bk)
            in updbtime a (set_bucket a (bk1\<lparr>bk_blocked := bk_blocked bk1 + 1\<rparr>)
                 (st2\<lparr>rq_refused := rq_refused st @ [w]\<rparr>))))"
      unfolding serve_def s_def [symmetric] st0_def [symmetric] g(1) using tb sel by (simp add: Let_def)
    define bk1 where "bk1 = (if bk_blocked bk < 0 then bk\<lparr>bk_wtime := now, bk_blocked := 0\<rparr> else bk)"
    have ids: "bk_id (bk\<lparr>bk_level := bk_level bk + 1\<rparr>) = s" "bk_id (bk\<lparr>bk_brim := bk_brim bk @ [w]\<rparr>) = s"
      "bk_id (bk1\<lparr>bk_blocked := bk_blocked bk1 + 1\<rparr>) = s"
      using id g(7) by (simp_all add: bk1_def)
    show ?thesis
      unfolding s_def [symmetric] a0 [symmetric] serve lm Let_def bk1_def [symmetric]
      using put [OF ids(1), of "rq_refused st" "sent @ [w]", unfolded e(1) e0]
        put [OF ids(2), of "rq_refused st" sent, unfolded e(2,3) e0]
        put [OF ids(3), of "rq_refused st @ [w]" sent, unfolded e(2)] by simp
  qed
qed

text \<open>The promise itself stops only for the child or the rate.\<close>

lemma drain_stop: "drain takes bsize level brim sent = Inl x \<Longrightarrow> x = ChildGone"
  by (induction takes bsize level brim sent rule: drain.induct) (auto split: if_splits)

lemma tick_stop: "tick takes cf now bk sent = Inl x \<Longrightarrow> x = ChildGone"
  by (auto simp: tick_def Let_def dest: drain_stop split: sum.splits)

lemma lm_put_stop: "lm_put s bk L = Inl x \<Longrightarrow> x = ZeroRate"
  by (auto simp: lm_put_def split: option.splits)

lemma lm_check_stop: "lm_check takes s L = Inl x \<Longrightarrow> x = ChildGone \<or> x = ZeroRate"
  by (auto simp: lm_check_def dest: tick_stop lm_put_stop split: sum.splits if_splits)

lemma lm_serve_stop: "lm_serve takes s w L = Inl x \<Longrightarrow> x = ChildGone \<or> x = ZeroRate"
  by (auto simp: lm_serve_def Let_def dest: tick_stop lm_put_stop split: sum.splits if_splits)

end
