(* ===== verification/Ratelimit.thy ===== *)
theory Ratelimit
  imports Ratequeue "HOL-Library.Sublist"
begin

text \<open>
  What the rate limiter of \<open>Ratequeue\<close> guarantees over its runs: it never fails an assertion and
  behaves as a bucket for each source, no source gets more requests through than its size and rate
  allow, requests of a source are passed on in the order they came, none is lost, and those that
  wait are passed on when there is room.
\<close>

section \<open>Runs\<close>

text \<open>
  What the main loop does, with the clock it reads: a request from the socket, a look at the first
  timer, a reading of the clock before \<open>poll\<close>, a new configuration.
\<close>

datatype rq_event = Request rat queued | Check rat | Look rat | Reload ratecfg

fun rq_do :: "(int \<Rightarrow> cstring \<Rightarrow> string option) \<Rightarrow> (queued list \<Rightarrow> queued \<Rightarrow> bool) \<Rightarrow> rq_event \<Rightarrow> ratequeue \<Rightarrow>
    rq_stop + ratequeue" where
  "rq_do pton takes (Request t w) st = serve pton takes t w st"
| "rq_do pton takes (Check t) st = (case th_first (rq_heap st) of
      None \<Rightarrow> Inr st
    | Some (a, tm) \<Rightarrow>
        (if t < tm then Inr (st\<lparr>rq_now := t\<rparr>) else checkbtime takes a (st\<lparr>rq_now := t\<rparr>)))"
| "rq_do pton takes (Look t) st = Inr (st\<lparr>rq_now := t\<rparr>)"
| "rq_do pton takes (Reload cf) st = Inr (st\<lparr>rq_cf := cf\<rparr>)"

fun rq_run :: "(int \<Rightarrow> cstring \<Rightarrow> string option) \<Rightarrow> (queued list \<Rightarrow> queued \<Rightarrow> bool) \<Rightarrow> rq_event list \<Rightarrow> ratequeue \<Rightarrow>
    rq_stop + ratequeue" where
  "rq_run pton takes [] st = Inr st"
| "rq_run pton takes (e # es) st = (case rq_do pton takes e st of
      Inl x \<Rightarrow> Inl x | Inr st1 \<Rightarrow> rq_run pton takes es st1)"

fun event_time :: "rq_event \<Rightarrow> rat list" where
  "event_time (Request t w) = [t]"
| "event_time (Check t) = [t]"
| "event_time (Look t) = [t]"
| "event_time (Reload cf) = []"

fun event_req :: "rq_event \<Rightarrow> queued list" where
  "event_req (Request t w) = [w]"
| "event_req _ = []"

fun event_conf :: "rq_event \<Rightarrow> ratecfg list" where
  "event_conf (Reload cf) = [cf]"
| "event_conf _ = []"

definition clock_of :: "rq_event list \<Rightarrow> rat list" where
  "clock_of es = concat (map event_time es)"

definition received :: "rq_event list \<Rightarrow> queued list" where
  "received es = concat (map event_req es)"

definition confs :: "rq_event list \<Rightarrow> ratecfg list" where
  "confs es = concat (map event_conf es)"

text \<open>A turn of the main loop is a run.\<close>

lemma check_due_run:
  "check_due takes ts st = Inr (b, st') \<Longrightarrow>
    \<exists>n. rq_run pton takes (map Check (take n ts)) st = Inr st'"
proof (induction takes ts st arbitrary: b st' rule: check_due.induct)
  case (1 takes st)
  then show ?case by simp
next
  case (2 takes t ts st)
  show ?case
  proof (cases "th_first (rq_heap st)")
    case None
    with 2(2) show ?thesis by (intro exI [of _ 0]) simp
  next
    case (Some x)
    obtain a tm where x: "x = (a, tm)" by (cases x)
    show ?thesis
    proof (cases "t < tm")
      case True
      with 2(2) Some x show ?thesis by (intro exI [of _ 1]) (simp add: Let_def)
    next
      case False
      then obtain st2 where c: "checkbtime takes a (st\<lparr>rq_now := t\<rparr>) = Inr st2" "check_due takes ts st2 = Inr (b, st')"
        using 2(2) Some x by (auto simp: Let_def split: sum.splits)
      from 2(1) [OF Some x [symmetric] refl False c] obtain n where "rq_run pton takes (map Check (take n ts)) st2 = Inr st'" by blast
      with c Some x False show ?thesis by (intro exI [of _ "Suc n"]) simp
    qed
  qed
qed

lemma rq_run_append: "rq_run pton takes (es @ fs) st = (case rq_run pton takes es st of
    Inl x \<Rightarrow> Inl x | Inr st1 \<Rightarrow> rq_run pton takes fs st1)"
  by (induction es arbitrary: st) (auto split: sum.split)

lemma main_turn_run:
  assumes "main_turn pton takes conf t0 req ts st = Inr (b, st')"
  shows "\<exists>n. rq_run pton takes ((case conf of None \<Rightarrow> [] | Some cf \<Rightarrow> [Reload cf]) @ [Look t0] @
    (case req of None \<Rightarrow> [] | Some (t, w) \<Rightarrow> [Request t w]) @ map Check (take n ts)) st = Inr st'"
proof -
  define st1 where "st1 = (case conf of None \<Rightarrow> st | Some cf \<Rightarrow> st\<lparr>rq_cf := cf\<rparr>)\<lparr>rq_now := t0\<rparr>"
  have pre: "rq_run pton takes ((case conf of None \<Rightarrow> [] | Some cf \<Rightarrow> [Reload cf]) @ [Look t0] @ es) st =
      rq_run pton takes es st1" for es
    by (simp add: st1_def split: option.split)
  show ?thesis
  proof (cases req)
    case None
    with assms have "check_due takes ts st1 = Inr (b, st')" by (simp add: main_turn_def Let_def st1_def)
    from check_due_run [OF this] None show ?thesis unfolding pre by simp
  next
    case (Some r)
    obtain t w where r: "r = (t, w)" by (cases r)
    with Some assms obtain st2 where st2: "serve pton takes t w st1 = Inr st2" "check_due takes ts st2 = Inr (b, st')"
      by (auto simp: main_turn_def Let_def st1_def split: sum.splits)
    from check_due_run [OF st2(2)] Some r st2(1) show ?thesis unfolding pre by simp
  qed
qed

section \<open>Refinement of runs\<close>

inductive lm_step :: "(queued \<Rightarrow> source) \<Rightarrow> (queued list \<Rightarrow> queued \<Rightarrow> bool) \<Rightarrow> limiter \<Rightarrow> rq_event \<Rightarrow> limiter \<Rightarrow> bool"
  for src takes where
  lm_request: "lm_serve takes (src w) w (L\<lparr>lm_now := t\<rparr>) = Inr L' \<Longrightarrow> lm_step src takes L (Request t w) L'"
| lm_due_check: "lm_due L s = Some tm \<Longrightarrow> tm \<le> t \<Longrightarrow> lm_check takes s (L\<lparr>lm_now := t\<rparr>) = Inr L' \<Longrightarrow>
    lm_step src takes L (Check t) L'"
| lm_none_due: "\<forall>s tm. lm_due L s = Some tm \<longrightarrow> t < tm \<Longrightarrow> lm_step src takes L (Check t) (L\<lparr>lm_now := t\<rparr>)"
| lm_no_timer: "lm_due L = (\<lambda>_. None) \<Longrightarrow> lm_step src takes L (Check t) L"
| lm_look: "lm_step src takes L (Look t) (L\<lparr>lm_now := t\<rparr>)"
| lm_reload: "lm_step src takes L (Reload cf) (L\<lparr>lm_cf := cf\<rparr>)"

inductive lm_run :: "(queued \<Rightarrow> source) \<Rightarrow> (queued list \<Rightarrow> queued \<Rightarrow> bool) \<Rightarrow> limiter \<Rightarrow> rq_event list \<Rightarrow> limiter \<Rightarrow> bool"
  for src takes where
  lm_stay: "lm_run src takes L [] L"
| lm_more: "lm_step src takes L e L1 \<Longrightarrow> lm_run src takes L1 es L2 \<Longrightarrow> lm_run src takes L (e # es) L2"

text \<open>Every event that the data structures go through is one of the promise.\<close>

lemma due_abs:
  assumes "rq_ok st" "(a, tm) \<in> th_due (rq_heap st)"
  shows "a \<in> dom (rq_store st)" "lm_due (abs_rq st) (bk_id (bk_at st a)) = Some tm"
proof -
  have ok: "rq_struct st" "th_ok (rq_heap st)" "fst ` th_due (rq_heap st) \<subseteq> dom (rq_store st)"
    using assms(1) by (auto simp: rq_ok_def rq_struct_def)
  show a: "a \<in> dom (rq_store st)" using ok(3) assms(2) by (metis fst_conv image_eqI subsetD)
  show "lm_due (abs_rq st) (bk_id (bk_at st a)) = Some tm"
  proof -
    have "find_src st (bk_id (bk_at st a)) = Some a" using find_src_iff [OF ok(1)] a by simp
    with th_map [OF ok(2)] assms(2) show ?thesis by (simp add: abs_rq_def)
  qed
qed

lemma due_conc:
  assumes "rq_ok st" "lm_due (abs_rq st) s = Some tm"
  shows "\<exists>a. (a, tm) \<in> th_due (rq_heap st)"
proof -
  have ok: "th_ok (rq_heap st)" using assms(1) by (auto simp: rq_ok_def rq_struct_def)
  then show ?thesis using assms(2) th_map [OF ok] by (auto simp: abs_rq_def split: option.splits)
qed

lemma rq_do_law:
  assumes "rq_ok st"
  shows "case rq_do pton takes e st of
      Inl x \<Rightarrow> x = ChildGone \<or> x = ZeroRate
    | Inr st' \<Rightarrow> rq_ok st' \<and> lm_step (\<lambda>w. reqsource pton (fst w)) takes (abs_rq st) e (abs_rq st')"
proof (cases e)
  case (Request t w)
  have "x = ChildGone \<or> x = ZeroRate" if "lm_serve takes (reqsource pton (fst w)) w ((abs_rq st)\<lparr>lm_now := t\<rparr>) = Inl x" for x
    using that by (rule lm_serve_stop)
  with serve_law [OF assms, where pton = pton and takes = takes and now = t and w = w] Request show ?thesis
    by (auto intro!: lm_step.intros split: sum.splits)
next
  case (Check t)
  have ok: "th_ok (rq_heap st)" using assms by (auto simp: rq_ok_def rq_struct_def)
  show ?thesis
  proof (cases "th_first (rq_heap st)")
    case None
    then have "th_due (rq_heap st) = {}" using timers.first_None [OF ok] by simp
    then have "lm_due (abs_rq st) s = None" for s using due_conc [OF assms, of s] by fastforce
    then have "lm_due (abs_rq st) = (\<lambda>_. None)" by (rule ext)
    with None Check assms show ?thesis by (auto intro: lm_step.intros)
  next
    case (Some x)
    obtain a tm where x: "x = (a, tm)" by (cases x)
    have first: "(a, tm) \<in> th_due (rq_heap st)" using timers.first_Some [OF ok Some] x by simp
    define st1 where "st1 = st\<lparr>rq_now := t\<rparr>"
    have st1: "rq_ok st1" "bk_at st1 = bk_at st" "rq_store st1 = rq_store st" "abs_rq st1 = (abs_rq st)\<lparr>lm_now := t\<rparr>"
      using assms rq_struct_same(3,4) [of st1 st] by (simp_all add: st1_def)
    show ?thesis
    proof (cases "t < tm")
      case True
      have "t < u" if u: "lm_due (abs_rq st) s = Some u" for s u
      proof -
        obtain b where b: "(b, u) \<in> th_due (rq_heap st)" using due_conc [OF assms u] by blast
        show ?thesis using timers.none_overdue [OF ok _ b, of t] Some x True by simp
      qed
      with True Some x Check st1(1) show ?thesis by (auto intro!: lm_none_due simp: st1_def)
    next
      case False
      have a: "a \<in> dom (rq_store st1)" using due_abs(1) [OF assms first] st1(3) by simp
      have stop: "x = ChildGone \<or> x = ZeroRate" if "lm_check takes s L = Inl x" for x s L
        using that by (rule lm_check_stop)
      show ?thesis
        using checkbtime_law [OF st1(1) a, where takes = takes] stop False Some x Check due_abs(2) [OF assms first] st1(2,4)
        by (auto intro!: lm_due_check [where s = "bk_id (bk_at st a)" and tm = tm] simp: st1_def [symmetric] split: sum.splits)
    qed
  qed
next
  case (Look t)
  then show ?thesis using assms rq_struct_same(4) [of "st\<lparr>rq_now := t\<rparr>" st] by (auto intro: lm_step.intros)
next
  case (Reload cf)
  then show ?thesis using assms rq_struct_same(4) [of "st\<lparr>rq_cf := cf\<rparr>" st] by (auto intro: lm_step.intros)
qed

lemma rq_run_law:
  "rq_ok st \<Longrightarrow> (case rq_run pton takes es st of
      Inl x \<Rightarrow> x = ChildGone \<or> x = ZeroRate
    | Inr st' \<Rightarrow> rq_ok st' \<and> lm_run (\<lambda>w. reqsource pton (fst w)) takes (abs_rq st) es (abs_rq st'))"
proof (induction es arbitrary: st)
  case Nil
  then show ?case by (simp add: lm_stay)
next
  case (Cons e es)
  note law = rq_do_law [OF Cons.prems, where pton = pton and takes = takes and e = e]
  show ?case
  proof (cases "rq_do pton takes e st")
    case (Inl x)
    with law show ?thesis by simp
  next
    case (Inr st1)
    with law Cons.IH [of st1] show ?thesis by (auto intro: lm_more split: sum.splits)
  qed
qed

section \<open>One event\<close>

lemma drain_law:
  "drain takes bsize level brim sent = Inr (level', brim', sent') \<Longrightarrow>
    \<exists>out. sent' = sent @ out \<and> brim = out @ brim' \<and> level' = level + rat_of_nat (length out) \<and>
      (brim' = [] \<or> bsize \<le> level') \<and> (out = [] \<or> level' < bsize + 1)"
proof (induction takes bsize level brim sent rule: drain.induct)
  case (2 takes bsize level w brim sent)
  show ?case
  proof (cases "level < bsize")
    case False
    with 2(2) show ?thesis by (intro exI [of _ "[]"]) auto
  next
    case True
    with 2(2) have t: "takes sent w" "drain takes bsize (level + 1) brim (sent @ [w]) = Inr (level', brim', sent')"
      by (auto split: if_splits)
    from 2(1) [OF True t] obtain out where out: "sent' = (sent @ [w]) @ out" "brim = out @ brim'"
      "level' = level + 1 + rat_of_nat (length out)" "brim' = [] \<or> bsize \<le> level'" "out = [] \<or> level' < bsize + 1"
      by blast
    have "level' < bsize + 1" using out(3,5) True by (cases out) auto
    with out show ?thesis by (intro exI [of _ "w # out"]) simp
  qed
qed simp

text \<open>The level of a bucket that has leaked until \<open>now\<close>.\<close>

definition leaked :: "ratecfg \<Rightarrow> rat \<Rightarrow> bucket \<Rightarrow> rat" where
  "leaked cf now bk = max 0 (bk_level bk - (now - bk_last bk) * cf_rate cf)"

lemma tick_law:
  assumes "tick takes cf now bk sent = Inr (bk', sent')"
  shows "\<exists>out. sent' = sent @ out \<and> bk_brim bk = out @ bk_brim bk' \<and>
    bk_level bk' = leaked cf now bk + rat_of_nat (length out) \<and> bk_last bk' = now \<and>
    (bk_brim bk' = [] \<or> cf_size cf \<le> bk_level bk') \<and> (out = [] \<or> bk_level bk' < cf_size cf + 1)"
proof -
  define l where "l = leak cf now bk"
  have l: "bk_level l = leaked cf now bk" "bk_brim l = bk_brim bk" "bk_last l = now"
    by (auto simp: l_def leak_def leaked_def Let_def)
  obtain level' brim' where d: "drain takes (cf_size cf) (bk_level l) (bk_brim l) sent = Inr (level', brim', sent')"
    "bk' = warned cf now (l\<lparr>bk_level := level', bk_brim := brim'\<rparr>)"
    using assms by (auto simp: tick_def l_def [symmetric] Let_def split: sum.splits)
  then have "bk_level bk' = level'" "bk_brim bk' = brim'" "bk_last bk' = now" using l(3) by (auto simp: warned_def)
  with drain_law [OF d(1)] l(1,2) show ?thesis by simp
qed

lemma lm_put_law: "lm_put s bk L = Inr L' \<Longrightarrow>
    \<exists>tm. btime_of (lm_cf L) bk = Some tm \<and>
      L' = L\<lparr>lm_buckets := (lm_buckets L)(s \<mapsto> bk), lm_due := (lm_due L)(s \<mapsto> tm)\<rparr>"
  by (auto simp: lm_put_def split: option.splits)

text \<open>
  What an event does to the bucket of a source \<open>s\<close>: \<open>out\<close> leaves the brim, \<open>w\<close> is what arrives.
\<close>

definition bucket_event :: "source \<Rightarrow> queued list \<Rightarrow> limiter \<Rightarrow> limiter \<Rightarrow> bool" where
  "bucket_event s ws L L' \<longleftrightarrow> lm_cf L' = lm_cf L \<and>
     (\<exists>bk out mid pass wait ref drop. bk_brim (lm_bucket s L) = out @ mid \<and>
        lm_sent L' = lm_sent L @ out @ pass \<and> lm_refused L' = lm_refused L @ ref \<and> lm_dropped L' = lm_dropped L @ drop \<and>
        bk_level bk = leaked (lm_cf L) (lm_now L) (lm_bucket s L) + rat_of_nat (length (out @ pass)) \<and>
        bk_last bk = lm_now L \<and> lm_now L' = lm_now L \<and>
        (out @ pass \<noteq> [] \<longrightarrow> bk_level bk < cf_size (lm_cf L) + 1) \<and>
        (mid \<noteq> [] \<longrightarrow> cf_size (lm_cf L) \<le> bk_level bk \<and> pass = []) \<and>
        (ws = pass \<and> wait = [] \<and> ref = [] \<or> ws = wait \<and> pass = [] \<and> ref = [] \<and> cf_size (lm_cf L) \<le> bk_level bk
          \<or> ws = ref \<and> pass = [] \<and> wait = []) \<and>
        (lm_buckets L' = (lm_buckets L)(s \<mapsto> bk) \<and> bk_brim bk = mid @ wait \<and> drop = [] \<and>
           (\<exists>tm. btime_of (lm_cf L) bk = Some tm \<and> lm_due L' = (lm_due L)(s \<mapsto> tm)) \<or>
         lm_buckets L' = (lm_buckets L)(s := None) \<and> lm_due L' = (lm_due L)(s := None) \<and> ws = [] \<and> drop = mid \<and>
           bk_level bk = 0))"

lemma check_event:
  assumes "lm_check takes s L = Inr L'" "lm_buckets L s \<noteq> None"
  shows "bucket_event s [] L L'"
proof -
  obtain bk0 where bk0: "lm_buckets L s = Some bk0" using assms(2) by blast
  obtain bk sent where t: "tick takes (lm_cf L) (lm_now L) bk0 (lm_sent L) = Inr (bk, sent)"
    using assms(1) bk0 by (auto simp: lm_check_def split: sum.splits)
  have b: "lm_bucket s L = bk0" by (simp add: lm_bucket_def bk0)
  obtain out where out: "sent = lm_sent L @ out" "bk_brim bk0 = out @ bk_brim bk"
    "bk_level bk = leaked (lm_cf L) (lm_now L) bk0 + rat_of_nat (length out)" "bk_last bk = lm_now L"
    "bk_brim bk = [] \<or> cf_size (lm_cf L) \<le> bk_level bk" "out = [] \<or> bk_level bk < cf_size (lm_cf L) + 1"
    using tick_law [OF t] by blast
  show ?thesis
  proof (cases "lm_expired (lm_cf L) (lm_now L) bk")
    case True
    with assms(1) bk0 t have L': "L' = L\<lparr>lm_buckets := (lm_buckets L)(s := None), lm_due := (lm_due L)(s := None),
         lm_sent := sent, lm_dropped := lm_dropped L @ bk_brim bk\<rparr>" by (simp add: lm_check_def)
    show ?thesis
      unfolding bucket_event_def b
      by (intro conjI, simp add: L', rule exI [of _ bk], rule exI [of _ out], rule exI [of _ "bk_brim bk"],
          rule exI [of _ "[]"], rule exI [of _ "[]"], rule exI [of _ "[]"], rule exI [of _ "bk_brim bk"])
        (use out True L' in \<open>auto simp: lm_expired_def\<close>)
  next
    case False
    with assms(1) bk0 t have "lm_put s bk (L\<lparr>lm_sent := sent\<rparr>) = Inr L'" by (simp add: lm_check_def)
    from lm_put_law [OF this] obtain tm where L': "btime_of (lm_cf L) bk = Some tm" "L' = L\<lparr>lm_sent := sent,
        lm_buckets := (lm_buckets L)(s \<mapsto> bk), lm_due := (lm_due L)(s \<mapsto> tm)\<rparr>" by auto
    show ?thesis
      unfolding bucket_event_def b
      by (intro conjI, simp add: L', rule exI [of _ bk], rule exI [of _ out], rule exI [of _ "bk_brim bk"],
          rule exI [of _ "[]"], rule exI [of _ "[]"], rule exI [of _ "[]"], rule exI [of _ "[]"])
        (use out L' in auto)
  qed
qed

lemma serve_event:
  assumes "lm_serve takes s w L = Inr L'"
  shows "bucket_event s [w] L L'"
proof -
  obtain bk sent where t: "tick takes (lm_cf L) (lm_now L) (lm_bucket s L) (lm_sent L) = Inr (bk, sent)"
    using assms by (auto simp: lm_serve_def split: sum.splits)
  obtain out where out: "sent = lm_sent L @ out" "bk_brim (lm_bucket s L) = out @ bk_brim bk"
    "bk_level bk = leaked (lm_cf L) (lm_now L) (lm_bucket s L) + rat_of_nat (length out)" "bk_last bk = lm_now L"
    "bk_brim bk = [] \<or> cf_size (lm_cf L) \<le> bk_level bk" "out = [] \<or> bk_level bk < cf_size (lm_cf L) + 1"
    using tick_law [OF t] by blast
  show ?thesis
  proof (cases "bk_level bk < cf_size (lm_cf L)")
    case True
    with assms t have "lm_put s (bk\<lparr>bk_level := bk_level bk + 1\<rparr>) (L\<lparr>lm_sent := sent @ [w]\<rparr>) = Inr L'"
      by (auto simp: lm_serve_def split: if_splits)
    from lm_put_law [OF this] obtain tm where L': "btime_of (lm_cf L) (bk\<lparr>bk_level := bk_level bk + 1\<rparr>) = Some tm"
      "L' = L\<lparr>lm_sent := sent @ [w], lm_buckets := (lm_buckets L)(s \<mapsto> bk\<lparr>bk_level := bk_level bk + 1\<rparr>),
         lm_due := (lm_due L)(s \<mapsto> tm)\<rparr>" by auto
    show ?thesis
      unfolding bucket_event_def
      by (intro conjI, simp add: L', rule exI [of _ "bk\<lparr>bk_level := bk_level bk + 1\<rparr>"], rule exI [of _ out],
          rule exI [of _ "[]"], rule exI [of _ "[w]"], rule exI [of _ "[]"], rule exI [of _ "[]"], rule exI [of _ "[]"])
        (use out L' True in auto)
  next
    case full: False
    show ?thesis
    proof (cases "int (length (bk_brim bk)) < cf_brimsize (lm_cf L)")
      case True
      with assms t full have "lm_put s (bk\<lparr>bk_brim := bk_brim bk @ [w]\<rparr>) (L\<lparr>lm_sent := sent\<rparr>) = Inr L'"
        by (simp add: lm_serve_def)
      from lm_put_law [OF this] obtain tm where L': "btime_of (lm_cf L) (bk\<lparr>bk_brim := bk_brim bk @ [w]\<rparr>) = Some tm"
        "L' = L\<lparr>lm_sent := sent, lm_buckets := (lm_buckets L)(s \<mapsto> bk\<lparr>bk_brim := bk_brim bk @ [w]\<rparr>),
           lm_due := (lm_due L)(s \<mapsto> tm)\<rparr>" by auto
      show ?thesis
        unfolding bucket_event_def
        by (intro conjI, simp add: L', rule exI [of _ "bk\<lparr>bk_brim := bk_brim bk @ [w]\<rparr>"], rule exI [of _ out],
            rule exI [of _ "bk_brim bk"], rule exI [of _ "[]"], rule exI [of _ "[w]"], rule exI [of _ "[]"],
            rule exI [of _ "[]"])
          (use out L' full in auto)
    next
      case False
      define bk1 where "bk1 = (if bk_blocked bk < 0 then bk\<lparr>bk_wtime := lm_now L, bk_blocked := 0\<rparr> else bk)"
      define bk2 where "bk2 = bk1\<lparr>bk_blocked := bk_blocked bk1 + 1\<rparr>"
      have same: "bk_brim bk2 = bk_brim bk" "bk_level bk2 = bk_level bk" "bk_last bk2 = bk_last bk"
        by (simp_all add: bk1_def bk2_def)
      from False assms t full have "lm_put s bk2 (L\<lparr>lm_sent := sent, lm_refused := lm_refused L @ [w]\<rparr>) = Inr L'"
        by (simp add: lm_serve_def bk1_def [symmetric] bk2_def [symmetric])
      from lm_put_law [OF this] obtain tm where L': "btime_of (lm_cf L) bk2 = Some tm"
        "L' = L\<lparr>lm_sent := sent, lm_refused := lm_refused L @ [w], lm_buckets := (lm_buckets L)(s \<mapsto> bk2),
           lm_due := (lm_due L)(s \<mapsto> tm)\<rparr>" by auto
      show ?thesis
        unfolding bucket_event_def
        by (intro conjI, simp add: L', rule exI [of _ bk2], rule exI [of _ out],
            rule exI [of _ "bk_brim bk"], rule exI [of _ "[]"], rule exI [of _ "[]"], rule exI [of _ "[w]"],
            rule exI [of _ "[]"])
          (use out L' full same in auto)
    qed
  qed
qed

section \<open>Invariants of runs\<close>

definition lm_inv :: "(queued \<Rightarrow> source) \<Rightarrow> limiter \<Rightarrow> bool" where
  "lm_inv src L \<longleftrightarrow> dom (lm_due L) = dom (lm_buckets L) \<and>
     (\<forall>s bk. lm_buckets L s = Some bk \<longrightarrow>
        bk_last bk \<le> lm_now L \<and> 0 \<le> bk_level bk \<and> (\<forall>w\<in>set (bk_brim bk). src w = s))"

definition idle_event :: "rq_event \<Rightarrow> limiter \<Rightarrow> limiter \<Rightarrow> bool" where
  "idle_event e L L' \<longleftrightarrow> event_req e = [] \<and> (\<exists>t cf. L' = L\<lparr>lm_now := t, lm_cf := cf\<rparr> \<and>
     (t = lm_now L \<or> event_time e = [t]) \<and> (event_conf e = [] \<and> cf = lm_cf L \<or> event_conf e = [cf]))"

lemma lm_step_event:
  assumes "lm_step src takes L e L'" "dom (lm_due L) = dom (lm_buckets L)"
  shows "(\<exists>s t. event_time e = [t] \<and> event_conf e = [] \<and> bucket_event s (event_req e) (L\<lparr>lm_now := t\<rparr>) L' \<and>
      (\<forall>w\<in>set (event_req e). src w = s)) \<or> idle_event e L L'"
  using assms(1)
proof cases
  case (lm_request w t)
  with serve_event [OF lm_request(2)] show ?thesis by auto
next
  case (lm_due_check s tm t)
  have "lm_buckets L s \<noteq> None" using lm_due_check(2) assms(2) by blast
  then have "lm_buckets (L\<lparr>lm_now := t\<rparr>) s \<noteq> None" by simp
  from check_event [OF lm_due_check(4) this] lm_due_check(1) show ?thesis by auto
next
  case (lm_none_due t)
  then show ?thesis by (intro disjI2) (auto simp: idle_event_def intro!: exI [of _ t] exI [of _ "lm_cf L"])
next
  case (lm_no_timer t)
  then show ?thesis
    by (intro disjI2) (auto simp: idle_event_def intro!: exI [of _ "lm_now L"] exI [of _ "lm_cf L"])
next
  case (lm_look t)
  then show ?thesis by (intro disjI2) (auto simp: idle_event_def intro!: exI [of _ t] exI [of _ "lm_cf L"])
next
  case (lm_reload cf)
  then show ?thesis by (intro disjI2) (auto simp: idle_event_def intro!: exI [of _ "lm_now L"] exI [of _ cf])
qed

lemma lm_bucket_now: "lm_inv src L \<Longrightarrow> bk_last (lm_bucket s L) \<le> lm_now L \<and> 0 \<le> bk_level (lm_bucket s L) \<and>
    (\<forall>w\<in>set (bk_brim (lm_bucket s L)). src w = s)"
  by (auto simp: lm_inv_def lm_bucket_def new_bucket_def split: option.split)

lemma leaked_nonneg [simp]: "0 \<le> leaked cf now bk"
  by (simp add: leaked_def)

lemma inv_later: "lm_inv src L \<Longrightarrow> lm_now L \<le> t \<Longrightarrow> lm_inv src (L\<lparr>lm_now := t, lm_cf := cf\<rparr>)"
  by (fastforce simp: lm_inv_def)

lemma inv_event:
  assumes "lm_inv src L" "bucket_event s ws L L'" "\<forall>w\<in>set ws. src w = s"
  shows "lm_inv src L'"
proof -
  obtain bk out mid pass wait ref drop where ev: "bk_brim (lm_bucket s L) = out @ mid"
    "bk_level bk = leaked (lm_cf L) (lm_now L) (lm_bucket s L) + rat_of_nat (length (out @ pass))"
    "bk_last bk = lm_now L" "lm_now L' = lm_now L"
    "ws = pass \<and> wait = [] \<and> ref = [] \<or> ws = wait \<and> pass = [] \<and> ref = [] \<and> cf_size (lm_cf L) \<le> bk_level bk
          \<or> ws = ref \<and> pass = [] \<and> wait = []"
    "lm_buckets L' = (lm_buckets L)(s \<mapsto> bk) \<and> bk_brim bk = mid @ wait \<and> drop = [] \<and>
           (\<exists>tm. btime_of (lm_cf L) bk = Some tm \<and> lm_due L' = (lm_due L)(s \<mapsto> tm)) \<or>
     lm_buckets L' = (lm_buckets L)(s := None) \<and> lm_due L' = (lm_due L)(s := None) \<and> ws = [] \<and> drop = mid \<and>
           bk_level bk = 0"
    using assms(2) unfolding bucket_event_def by blast
  have nonneg: "0 \<le> bk_level bk" unfolding ev(2) by (intro add_nonneg_nonneg) simp_all
  have mid: "\<forall>w\<in>set mid. src w = s" using lm_bucket_now [OF assms(1), of s] ev(1) by auto
  have wait: "\<forall>w\<in>set wait. src w = s" using ev(5) assms(3) by auto
  show ?thesis
    using ev(6)
  proof (elim disjE conjE exE)
    fix tm assume k: "lm_buckets L' = (lm_buckets L)(s \<mapsto> bk)" "bk_brim bk = mid @ wait" "lm_due L' = (lm_due L)(s \<mapsto> tm)"
    show ?thesis using assms(1) mid wait nonneg ev(3,4) unfolding lm_inv_def k(1,3) by (auto simp: k(2))
  next
    assume "lm_buckets L' = (lm_buckets L)(s := None)" "lm_due L' = (lm_due L)(s := None)"
    then show ?thesis using assms(1) ev(4) unfolding lm_inv_def by auto
  qed
qed

section \<open>Every request is accounted for, in order\<close>

definition of_source :: "(queued \<Rightarrow> source) \<Rightarrow> source \<Rightarrow> queued list \<Rightarrow> queued list" where
  "of_source src s ws = filter (\<lambda>w. src w = s) ws"

definition lm_waiting :: "limiter \<Rightarrow> source \<Rightarrow> queued list" where
  "lm_waiting L s = bk_brim (lm_bucket s L)"

definition lm_accounts :: "(queued \<Rightarrow> source) \<Rightarrow> queued list \<Rightarrow> limiter \<Rightarrow> bool" where
  "lm_accounts src ws L \<longleftrightarrow> (\<forall>s.
     subseq (of_source src s (lm_sent L) @ lm_waiting L s) (of_source src s ws) \<and>
     mset (of_source src s ws) = mset (of_source src s (lm_sent L)) + mset (lm_waiting L s) +
       mset (of_source src s (lm_refused L)) + mset (of_source src s (lm_dropped L)))"

lemma of_source_append [simp]: "of_source src s (xs @ ys) = of_source src s xs @ of_source src s ys"
  by (simp add: of_source_def)

lemma of_source_all: "\<forall>w\<in>set xs. src w = s \<Longrightarrow> of_source src r xs = (if r = s then xs else [])"
  by (auto simp: of_source_def)

lemma accounts_event:
  assumes "lm_inv src L" "lm_accounts src W L" "bucket_event s ws L L'" "\<forall>w\<in>set ws. src w = s"
  shows "lm_accounts src (W @ ws) L'"
proof -
  obtain bk out mid pass wait ref drop where ev: "bk_brim (lm_bucket s L) = out @ mid"
    "lm_sent L' = lm_sent L @ out @ pass" "lm_refused L' = lm_refused L @ ref" "lm_dropped L' = lm_dropped L @ drop"
    "mid \<noteq> [] \<longrightarrow> cf_size (lm_cf L) \<le> bk_level bk \<and> pass = []"
    "ws = pass \<and> wait = [] \<and> ref = [] \<or> ws = wait \<and> pass = [] \<and> ref = [] \<and> cf_size (lm_cf L) \<le> bk_level bk
          \<or> ws = ref \<and> pass = [] \<and> wait = []"
    "lm_buckets L' = (lm_buckets L)(s \<mapsto> bk) \<and> bk_brim bk = mid @ wait \<and> drop = [] \<and>
           (\<exists>tm. btime_of (lm_cf L) bk = Some tm \<and> lm_due L' = (lm_due L)(s \<mapsto> tm)) \<or>
     lm_buckets L' = (lm_buckets L)(s := None) \<and> lm_due L' = (lm_due L)(s := None) \<and> ws = [] \<and> drop = mid \<and>
           bk_level bk = 0"
    using assms(3) unfolding bucket_event_def by blast
  have mine: "\<forall>w\<in>set (out @ mid). src w = s" using lm_bucket_now [OF assms(1), of s] ev(1) by simp
  have drop: "drop = [] \<or> drop = mid \<and> ws = []" using ev(7) by blast
  have all: "of_source src r out = (if r = s then out else [])" "of_source src r pass = (if r = s then pass else [])"
    "of_source src r ref = (if r = s then ref else [])" "of_source src r drop = (if r = s then drop else [])"
    "of_source src r ws = (if r = s then ws else [])" for r
  proof -
    have "\<forall>w\<in>set out. src w = s" "\<forall>w\<in>set pass. src w = s" "\<forall>w\<in>set ref. src w = s" "\<forall>w\<in>set drop. src w = s"
      using mine drop ev(6) assms(4) by auto
    with assms(4) show "of_source src r out = (if r = s then out else [])"
      "of_source src r pass = (if r = s then pass else [])" "of_source src r ref = (if r = s then ref else [])"
      "of_source src r drop = (if r = s then drop else [])" "of_source src r ws = (if r = s then ws else [])"
      by (simp_all only: of_source_all)
  qed
  have rest: "lm_waiting L' s = (if drop = [] then mid @ wait else [])"
    using ev(6,7) by (auto simp: lm_waiting_def lm_bucket_def new_bucket_def)
  have other: "lm_waiting L' r = lm_waiting L r" if "r \<noteq> s" for r
    using ev(7) that by (auto simp: lm_waiting_def lm_bucket_def new_bucket_def split: option.split)
  show ?thesis
    unfolding lm_accounts_def
  proof (intro allI)
    fix r
    have old: "subseq (of_source src r (lm_sent L) @ lm_waiting L r) (of_source src r W)"
      "mset (of_source src r W) = mset (of_source src r (lm_sent L)) + mset (lm_waiting L r) +
         mset (of_source src r (lm_refused L)) + mset (of_source src r (lm_dropped L))"
      using assms(2) unfolding lm_accounts_def by blast+
    show "subseq (of_source src r (lm_sent L') @ lm_waiting L' r) (of_source src r (W @ ws)) \<and>
      mset (of_source src r (W @ ws)) = mset (of_source src r (lm_sent L')) + mset (lm_waiting L' r) +
        mset (of_source src r (lm_refused L')) + mset (of_source src r (lm_dropped L'))"
    proof (cases "r = s")
      case False
      with old other [OF False] all [of r] show ?thesis by (simp add: ev(2-4))
    next
      case True
      let ?S = "of_source src s (lm_sent L)" and ?W = "of_source src s W"
      have old': "subseq (?S @ out @ mid) ?W" using old(1) True ev(1) by (simp add: lm_waiting_def)
      have ext: "subseq (?S @ out @ mid @ ws) (?W @ ws)" using list_emb_append_mono [OF old', of ws ws] by simp
      have ext2: "subseq (?S @ out @ mid) (?W @ ws)" by (rule subseq_rev_drop_many [OF old'])
      have "subseq (?S @ out) (?S @ out @ mid)" by (intro prefix_imp_subseq) simp
      from subseq_order.trans [OF this ext2] have ext3: "subseq (?S @ out) (?W @ ws)" .
      have new: "of_source src s (lm_sent L') @ lm_waiting L' s = ?S @ out @ pass @ (if drop = [] then mid @ wait else [])"
        using all [of s] rest by (simp add: ev(2))
      have "subseq (?S @ out @ pass @ (if drop = [] then mid @ wait else [])) (?W @ ws)"
      proof (cases "drop = []")
        case True
        with ev(5,6) ext ext2 show ?thesis by (cases "mid = []") auto
      next
        case False
        with drop ev(6) ext3 show ?thesis by auto
      qed
      moreover have "mset (?W @ ws) = mset (of_source src s (lm_sent L')) + mset (lm_waiting L' s) +
        mset (of_source src s (lm_refused L')) + mset (of_source src s (lm_dropped L'))"
      proof -
        have "mset (out @ mid) + mset ws = mset out + mset pass + mset (if drop = [] then mid @ wait else []) + mset ref + mset drop"
          using drop ev(6) by (auto simp: ac_simps)
        moreover have "mset (lm_waiting L s) = mset (out @ mid)" using ev(1) by (simp add: lm_waiting_def)
        ultimately show ?thesis
          using old(2) True all [of s] rest by (simp add: ev(2-4) ac_simps)
      qed
      ultimately show ?thesis using True new all [of s] by (simp del: append_assoc)
    qed
  qed
qed

lemma idle_bucket: "idle_event e L L' \<Longrightarrow> bk_brim (lm_bucket s L') = bk_brim (lm_bucket s L)"
  by (auto simp: idle_event_def lm_bucket_def new_bucket_def split: option.split)

lemma idle_accounts: "idle_event e L L' \<Longrightarrow> lm_accounts src W L \<Longrightarrow> lm_accounts src W L'"
  using idle_bucket [of e L L'] by (auto simp: lm_accounts_def lm_waiting_def idle_event_def)

lemma received_Cons [simp]: "received (e # es) = event_req e @ received es"
  by (simp add: received_def)

lemma clock_of_Cons [simp]: "clock_of (e # es) = event_time e @ clock_of es"
  by (simp add: clock_of_def)

lemma confs_Cons [simp]: "confs (e # es) = event_conf e @ confs es"
  by (simp add: confs_def)

text \<open>A run with a clock that does not go back keeps the invariant and the accounts.\<close>

lemma lm_run_accounts:
  "lm_run src takes L es L' \<Longrightarrow> lm_inv src L \<Longrightarrow> sorted (lm_now L # clock_of es) \<Longrightarrow> lm_accounts src W L \<Longrightarrow>
    lm_inv src L' \<and> lm_accounts src (W @ received es) L' \<and> lm_now L \<le> lm_now L'"
proof (induction L es L' arbitrary: W rule: lm_run.induct)
  case (lm_stay L)
  then show ?case by (simp add: received_def)
next
  case (lm_more L e L1 es L2)
  have "dom (lm_due L) = dom (lm_buckets L)" using lm_more.prems(1) by (simp add: lm_inv_def)
  from lm_step_event [OF lm_more.hyps(1) this] show ?case
  proof (elim disjE exE conjE)
    fix s t
    assume e: "event_time e = [t]" "bucket_event s (event_req e) (L\<lparr>lm_now := t\<rparr>) L1" "\<forall>w\<in>set (event_req e). src w = s"
    have t: "lm_now L \<le> t" "sorted (t # clock_of es)" using lm_more.prems(2) e(1) by simp_all
    have inv: "lm_inv src (L\<lparr>lm_now := t\<rparr>)" using inv_later [OF lm_more.prems(1) t(1), of "lm_cf L"] by simp
    have id: "idle_event (Look t) L (L\<lparr>lm_now := t\<rparr>)"
      by (auto simp: idle_event_def intro!: exI [of _ t] exI [of _ "lm_cf L"])
    have now: "lm_now L1 = t" using e(2) by (auto simp: bucket_event_def)
    with lm_more.IH [OF inv_event [OF inv e(2,3)] _ accounts_event [OF inv idle_accounts [OF id lm_more.prems(3)] e(2,3)]] t
    show ?thesis by simp
  next
    assume id: "idle_event e L L1"
    then obtain t cf where L1: "L1 = L\<lparr>lm_now := t, lm_cf := cf\<rparr>" "t = lm_now L \<or> event_time e = [t]" "event_req e = []"
      by (auto simp: idle_event_def)
    have t: "lm_now L \<le> t" "sorted (t # clock_of es)"
      using lm_more.prems(2) L1(2) by (auto simp: sorted_append)
    with lm_more.IH [OF _ _ idle_accounts [OF id lm_more.prems(3)]] inv_later [OF lm_more.prems(1) t(1), of cf] L1
    show ?thesis by auto
  qed
qed

section \<open>The rate\<close>

text \<open>The level of the bucket of a source at the present time; no bucket is an empty one.\<close>

definition lm_level :: "limiter \<Rightarrow> source \<Rightarrow> rat" where
  "lm_level L s = leaked (lm_cf L) (lm_now L) (lm_bucket s L)"

definition passed :: "(queued \<Rightarrow> source) \<Rightarrow> source \<Rightarrow> queued list \<Rightarrow> rat" where
  "passed src s ws = rat_of_nat (length (of_source src s ws))"

definition lm_capped :: "limiter \<Rightarrow> bool" where
  "lm_capped L \<longleftrightarrow> (\<forall>s. bk_level (lm_bucket s L) < cf_size (lm_cf L) + 1)"

lemma leaked_now: "0 \<le> bk_level bk \<Longrightarrow> bk_last bk = now \<Longrightarrow> leaked cf now bk = bk_level bk"
  by (simp add: leaked_def)

lemma leaked_later:
  assumes "0 \<le> cf_rate cf" "now \<le> t"
  shows "leaked cf now bk \<le> leaked cf t bk + cf_rate cf * (t - now)"
proof -
  have "0 \<le> cf_rate cf * (t - now)" using assms by simp
  moreover have "(t - bk_last bk) * cf_rate cf = (now - bk_last bk) * cf_rate cf + cf_rate cf * (t - now)"
    by (simp add: algebra_simps)
  ultimately show ?thesis unfolding leaked_def by linarith
qed

lemma leaked_le: "0 \<le> cf_rate cf \<Longrightarrow> bk_last bk \<le> now \<Longrightarrow> 0 \<le> bk_level bk \<Longrightarrow> leaked cf now bk \<le> bk_level bk"
  by (simp add: leaked_def)

lemma capped_later: "lm_capped L \<Longrightarrow> 0 \<le> cf_size (lm_cf L) \<Longrightarrow> lm_capped (L\<lparr>lm_now := t\<rparr>)"
  unfolding lm_capped_def
proof
  fix s
  assume a: "\<forall>s. bk_level (lm_bucket s L) < cf_size (lm_cf L) + 1" "0 \<le> cf_size (lm_cf L)"
  then show "bk_level (lm_bucket s (L\<lparr>lm_now := t\<rparr>)) < cf_size (lm_cf (L\<lparr>lm_now := t\<rparr>)) + 1"
    using a(1) [THEN spec, of s] by (cases "lm_buckets L s") (simp_all add: lm_bucket_def new_bucket_def)
qed

lemma event_rate:
  assumes "lm_inv src L" "bucket_event s ws L L'" "\<forall>w\<in>set ws. src w = s" "0 \<le> cf_rate (lm_cf L)" "0 \<le> cf_size (lm_cf L)"
    and "lm_capped L"
  shows "passed src r (lm_sent L') + lm_level L r = passed src r (lm_sent L) + lm_level L' r" "lm_capped L'"
proof -
  obtain bk out mid pass wait ref drop where ev: "bk_brim (lm_bucket s L) = out @ mid"
    "lm_sent L' = lm_sent L @ out @ pass"
    "bk_level bk = leaked (lm_cf L) (lm_now L) (lm_bucket s L) + rat_of_nat (length (out @ pass))"
    "bk_last bk = lm_now L" "lm_now L' = lm_now L" "lm_cf L' = lm_cf L"
    "out @ pass \<noteq> [] \<longrightarrow> bk_level bk < cf_size (lm_cf L) + 1"
    "ws = pass \<and> wait = [] \<and> ref = [] \<or> ws = wait \<and> pass = [] \<and> ref = [] \<and> cf_size (lm_cf L) \<le> bk_level bk
          \<or> ws = ref \<and> pass = [] \<and> wait = []"
    "lm_buckets L' = (lm_buckets L)(s \<mapsto> bk) \<and> bk_brim bk = mid @ wait \<and> drop = [] \<and>
           (\<exists>tm. btime_of (lm_cf L) bk = Some tm \<and> lm_due L' = (lm_due L)(s \<mapsto> tm)) \<or>
     lm_buckets L' = (lm_buckets L)(s := None) \<and> lm_due L' = (lm_due L)(s := None) \<and> ws = [] \<and> drop = mid \<and>
           bk_level bk = 0"
    using assms(2) unfolding bucket_event_def by blast
  let ?l = "leaked (lm_cf L) (lm_now L) (lm_bucket s L)"
  have nonneg: "0 \<le> bk_level bk" unfolding ev(3) by (intro add_nonneg_nonneg) simp_all
  have "\<forall>w\<in>set (out @ pass). src w = s" using lm_bucket_now [OF assms(1), of s] ev(1,8) assms(3) by auto
  from of_source_all [OF this, of r] have sent: "passed src r (lm_sent L') = passed src r (lm_sent L) + (if r = s then rat_of_nat (length (out @ pass)) else 0)"
    unfolding passed_def ev(2) of_source_append [of src r "lm_sent L"] by simp
  have other: "lm_bucket q L' = lm_bucket q L" if "q \<noteq> s" for q
    using ev(5,9) that by (auto simp: lm_bucket_def split: option.split)
  have here: "leaked (lm_cf L) (lm_now L) (lm_bucket s L') = bk_level bk \<and> bk_level (lm_bucket s L') = bk_level bk"
    using ev(5,9) leaked_now [OF nonneg ev(4)] by (auto simp: lm_bucket_def new_bucket_def leaked_def)
  show "passed src r (lm_sent L') + lm_level L r = passed src r (lm_sent L) + lm_level L' r"
    using sent other here ev(3) by (auto simp: lm_level_def ev(5,6))
  have le: "?l \<le> bk_level (lm_bucket s L)" using leaked_le [OF assms(4)] lm_bucket_now [OF assms(1)] by blast
  have cap: "bk_level (lm_bucket s L) < cf_size (lm_cf L) + 1" using assms(6) by (simp add: lm_capped_def)
  have "bk_level bk < cf_size (lm_cf L) + 1"
  proof (cases "out @ pass = []")
    case True
    then show ?thesis using ev(3) le cap by simp
  qed (use ev(7) in blast)
  then show "lm_capped L'"
    unfolding lm_capped_def ev(6) using here other assms(6) by (metis lm_capped_def)
qed

lemma lm_run_rate:
  "lm_run src takes L es L' \<Longrightarrow> lm_inv src L \<Longrightarrow> sorted (lm_now L # clock_of es) \<Longrightarrow> confs es = [] \<Longrightarrow>
    0 \<le> cf_rate (lm_cf L) \<Longrightarrow> 0 \<le> cf_size (lm_cf L) \<Longrightarrow> lm_capped L \<Longrightarrow>
    passed src s (lm_sent L') + lm_level L s \<le>
      passed src s (lm_sent L) + lm_level L' s + cf_rate (lm_cf L) * (lm_now L' - lm_now L) \<and>
    lm_capped L' \<and> lm_cf L' = lm_cf L \<and> lm_inv src L'"
proof (induction L es L' rule: lm_run.induct)
  case (lm_more L e L1 es L2)
  let ?r = "cf_rate (lm_cf L)"
  have later: "lm_level L s \<le> lm_level (L\<lparr>lm_now := t\<rparr>) s + ?r * (t - lm_now L)" if "lm_now L \<le> t" for t
  proof (cases "lm_buckets L s")
    case None
    with that lm_more.prems(4) show ?thesis by (simp add: lm_level_def lm_bucket_def new_bucket_def leaked_def)
  next
    case (Some bk)
    with leaked_later [OF lm_more.prems(4) that] show ?thesis by (simp add: lm_level_def lm_bucket_def)
  qed
  have step: "lm_cf L1 = lm_cf L \<and> lm_capped L1 \<and> lm_inv src L1 \<and> sorted (lm_now L1 # clock_of es) \<and>
      passed src s (lm_sent L1) + lm_level L s \<le> passed src s (lm_sent L) + lm_level L1 s + ?r * (lm_now L1 - lm_now L)"
  proof -
    have "dom (lm_due L) = dom (lm_buckets L)" using lm_more.prems(1) by (simp add: lm_inv_def)
    from lm_step_event [OF lm_more.hyps(1) this] show ?thesis
    proof (elim disjE exE conjE)
      fix q t
      assume e: "event_time e = [t]" "bucket_event q (event_req e) (L\<lparr>lm_now := t\<rparr>) L1" "\<forall>w\<in>set (event_req e). src w = q"
      have t: "lm_now L \<le> t" "sorted (t # clock_of es)" using lm_more.prems(2) e(1) by simp_all
      have inv: "lm_inv src (L\<lparr>lm_now := t\<rparr>)" using inv_later [OF lm_more.prems(1) t(1), of "lm_cf L"] by simp
      have cap: "lm_capped (L\<lparr>lm_now := t\<rparr>)" using capped_later [OF lm_more.prems(6,5)] .
      have now: "lm_now L1 = t" "lm_cf L1 = lm_cf L" using e(2) by (auto simp: bucket_event_def)
      note ev = event_rate(1) [OF inv e(2,3) _ _ cap, of s] event_rate(2) [OF inv e(2,3) _ _ cap]
      have "passed src s (lm_sent L1) + lm_level (L\<lparr>lm_now := t\<rparr>) s = passed src s (lm_sent L) + lm_level L1 s" "lm_capped L1"
        using ev lm_more.prems(4,5) by simp_all
      moreover have "lm_inv src L1" by (rule inv_event [OF inv e(2,3)])
      ultimately show ?thesis using later [OF t(1)] now t(2) by auto
    next
      assume id: "idle_event e L L1"
      have "event_conf e = []" using lm_more.prems(3) by simp
      then obtain t where L1: "L1 = L\<lparr>lm_now := t\<rparr>" "t = lm_now L \<or> event_time e = [t]"
        using id by (auto simp: idle_event_def)
      have t: "lm_now L \<le> t" "sorted (t # clock_of es)"
        using lm_more.prems(2) L1(2) by (auto simp: sorted_append)
      have cap: "lm_capped (L\<lparr>lm_now := t\<rparr>)" using capped_later [OF lm_more.prems(6,5)] .
      from t cap L1(1) later [OF t(1)] inv_later [OF lm_more.prems(1) t(1), of "lm_cf L"] show ?thesis by simp
    qed
  qed
  have "confs es = []" using lm_more.prems(3) by simp
  with lm_more.IH step lm_more.prems(4,5)
  have "passed src s (lm_sent L2) + lm_level L1 s \<le>
      passed src s (lm_sent L1) + lm_level L2 s + ?r * (lm_now L2 - lm_now L1)"
    "lm_capped L2" "lm_cf L2 = lm_cf L" "lm_inv src L2" by auto
  moreover have "?r * (lm_now L2 - lm_now L) = ?r * (lm_now L2 - lm_now L1) + ?r * (lm_now L1 - lm_now L)"
    by (simp add: algebra_simps)
  ultimately show ?case using step by linarith
qed simp

section \<open>Nothing is thrown away\<close>

lemma event_keeps:
  assumes "bucket_event s ws L L'" "0 < cf_size (lm_cf L)"
  shows "lm_dropped L' = lm_dropped L"
  using assms unfolding bucket_event_def by fastforce

lemma lm_run_keeps:
  "lm_run src takes L es L' \<Longrightarrow> lm_inv src L \<Longrightarrow> sorted (lm_now L # clock_of es) \<Longrightarrow>
    \<forall>cf\<in>set (lm_cf L # confs es). 0 < cf_size cf \<Longrightarrow> lm_dropped L' = lm_dropped L"
proof (induction L es L' rule: lm_run.induct)
  case (lm_more L e L1 es L2)
  have "dom (lm_due L) = dom (lm_buckets L)" using lm_more.prems(1) by (simp add: lm_inv_def)
  from lm_step_event [OF lm_more.hyps(1) this] show ?case
  proof (elim disjE exE conjE)
    fix s t
    assume e: "event_time e = [t]" "event_conf e = []" "bucket_event s (event_req e) (L\<lparr>lm_now := t\<rparr>) L1"
      "\<forall>w\<in>set (event_req e). src w = s"
    have t: "lm_now L \<le> t" "sorted (t # clock_of es)" using lm_more.prems(2) e(1) by simp_all
    have inv: "lm_inv src (L\<lparr>lm_now := t\<rparr>)" using inv_later [OF lm_more.prems(1) t(1), of "lm_cf L"] by simp
    have "lm_now L1 = t" "lm_cf L1 = lm_cf L" using e(3) by (auto simp: bucket_event_def)
    with lm_more.IH [OF inv_event [OF inv e(3,4)]] t lm_more.prems(3) event_keeps [OF e(3)] e(2) show ?thesis by simp
  next
    assume "idle_event e L L1"
    then obtain t cf where L1: "L1 = L\<lparr>lm_now := t, lm_cf := cf\<rparr>" "t = lm_now L \<or> event_time e = [t]"
      "event_conf e = [] \<and> cf = lm_cf L \<or> event_conf e = [cf]" by (auto simp: idle_event_def)
    have t: "lm_now L \<le> t" "sorted (t # clock_of es)"
      using lm_more.prems(2) L1(2) by (auto simp: sorted_append)
    with lm_more.IH t inv_later [OF lm_more.prems(1) t(1), of cf] lm_more.prems(3) L1(3) show ?thesis
      by (auto simp: L1(1))
  qed
qed simp

section \<open>Timers\<close>

text \<open>Under one configuration the timer of a bucket is the time \<open>updbtime\<close> computes for it.\<close>

definition lm_timely :: "limiter \<Rightarrow> bool" where
  "lm_timely L \<longleftrightarrow> dom (lm_due L) = dom (lm_buckets L) \<and>
     (\<forall>s bk. lm_buckets L s = Some bk \<longrightarrow> lm_due L s = btime_of (lm_cf L) bk)"

lemma lm_run_timely:
  "lm_run src takes L es L' \<Longrightarrow> confs es = [] \<Longrightarrow> lm_timely L \<Longrightarrow> lm_timely L' \<and> lm_cf L' = lm_cf L"
proof (induction L es L' rule: lm_run.induct)
  case (lm_more L e L1 es L2)
  have dom: "dom (lm_due L) = dom (lm_buckets L)" using lm_more.prems(2) by (simp add: lm_timely_def)
  have "lm_timely L1 \<and> lm_cf L1 = lm_cf L"
    using lm_step_event [OF lm_more.hyps(1) dom]
  proof (elim disjE exE conjE)
    fix s t
    assume "bucket_event s (event_req e) (L\<lparr>lm_now := t\<rparr>) L1"
    then obtain bk where cf: "lm_cf L1 = lm_cf L" and "(\<exists>tm. lm_buckets L1 = (lm_buckets L)(s \<mapsto> bk) \<and>
         btime_of (lm_cf L) bk = Some tm \<and> lm_due L1 = (lm_due L)(s \<mapsto> tm)) \<or>
       lm_buckets L1 = (lm_buckets L)(s := None) \<and> lm_due L1 = (lm_due L)(s := None)"
      unfolding bucket_event_def by auto
    from this(2) show ?thesis
    proof (elim disjE exE conjE)
      fix tm assume k: "lm_buckets L1 = (lm_buckets L)(s \<mapsto> bk)" "btime_of (lm_cf L) bk = Some tm" "lm_due L1 = (lm_due L)(s \<mapsto> tm)"
      show ?thesis using lm_more.prems(2) k(2) unfolding lm_timely_def cf k(1,3) by auto
    next
      assume k: "lm_buckets L1 = (lm_buckets L)(s := None)" "lm_due L1 = (lm_due L)(s := None)"
      show ?thesis using lm_more.prems(2) unfolding lm_timely_def cf k by auto
    qed
  next
    assume "idle_event e L L1"
    then obtain t where "L1 = L\<lparr>lm_now := t\<rparr>" using lm_more.prems(1) by (auto simp: idle_event_def)
    with lm_more.prems(2) show ?thesis by (simp add: lm_timely_def)
  qed
  with lm_more.IH lm_more.prems(1) show ?case by simp
qed simp

text \<open>The timer of a bucket with waiting requests is not later than the time it has room.\<close>

lemma btime_room: "btime_of cf bk = Some tm \<Longrightarrow> bk_brim bk \<noteq> [] \<Longrightarrow>
    tm \<le> bk_last bk + (bk_level bk - cf_size cf) / cf_rate cf"
  by (auto simp: btime_of_def Let_def split: if_splits)

lemma check_due_end:
  "check_due takes ts st = Inr (True, st') \<Longrightarrow>
    th_first (rq_heap st') = None \<or> (\<exists>a tm. th_first (rq_heap st') = Some (a, tm) \<and> rq_now st' < tm)"
proof (induction takes ts st arbitrary: st' rule: check_due.induct)
  case (2 takes t ts st)
  show ?case
  proof (cases "th_first (rq_heap st)")
    case (Some x)
    obtain a tm where x: "x = (a, tm)" by (cases x)
    show ?thesis
    proof (cases "t < tm")
      case False
      then obtain st2 where c: "checkbtime takes a (st\<lparr>rq_now := t\<rparr>) = Inr st2" "check_due takes ts st2 = Inr (True, st')"
        using 2(2) Some x by (auto simp: Let_def split: sum.splits)
      from 2(1) [OF Some x [symmetric] refl False c] show ?thesis .
    qed (use 2(2) Some x in auto)
  qed (use 2(2) in auto)
qed auto

lemma start_law:
  "lm_inv src (abs_rq (start cf))" "lm_accounts src [] (abs_rq (start cf))" "lm_timely (abs_rq (start cf))"
  "find_src (start cf) s = None"
proof -
  show none: "find_src (start cf) s = None" for s
    using find_src_None [of "start cf" s] rq_ok_start [of cf] by (simp add: rq_ok_def start_def)
  then have "lm_buckets (abs_rq (start cf)) = (\<lambda>_. None)" "lm_due (abs_rq (start cf)) = (\<lambda>_. None)"
    "rq_sent (start cf) = []" "rq_refused (start cf) = []" "rq_dropped (start cf) = []"
    by (simp_all add: abs_rq_def, simp_all add: start_def)
  then show "lm_inv src (abs_rq (start cf))" "lm_accounts src [] (abs_rq (start cf))" "lm_timely (abs_rq (start cf))"
    by (simp_all add: lm_inv_def lm_accounts_def lm_timely_def of_source_def lm_waiting_def lm_bucket_def new_bucket_def)
qed

section \<open>Properties\<close>

abbreviation rq_src :: "(int \<Rightarrow> cstring \<Rightarrow> string option) \<Rightarrow> queued \<Rightarrow> source" where
  "rq_src pton w \<equiv> reqsource pton (fst w)"

text \<open>What waits for a source.\<close>

definition waiting_of :: "ratequeue \<Rightarrow> source \<Rightarrow> queued list" where
  "waiting_of st s = (case find_src st s of None \<Rightarrow> [] | Some a \<Rightarrow> bk_brim (bk_at st a))"

lemma waiting_abs: "lm_waiting (abs_rq st) s = waiting_of st s"
  by (simp add: lm_waiting_def lm_bucket_def abs_rq_def waiting_of_def new_bucket_def split: option.split)

lemma run_from_start:
  assumes "rq_run pton takes es (start cf) = Inr st"
  shows "rq_ok st" "lm_run (rq_src pton) takes (abs_rq (start cf)) es (abs_rq st)"
  using rq_run_law [OF rq_ok_start [of cf], where pton = pton and takes = takes and es = es] assms by simp_all

text \<open>C1. The hash table and the heap of timers do what they are for: every run of the daemon is a
  run of the machine that has just a map from sources to buckets and a map from sources to times, and
  in which a timer is looked at when it is due and not before. No assertion fails and no search of
  the table runs for ever: a run goes on unless the child cannot be reached or the rate is zero.\<close>

theorem ratequeue_refines:
  "case rq_run pton takes es (start cf) of
     Inl x \<Rightarrow> x = ChildGone \<or> x = ZeroRate
   | Inr st \<Rightarrow> lm_run (rq_src pton) takes (abs_rq (start cf)) es (abs_rq st) \<and> rq_ok st"
  using rq_run_law [OF rq_ok_start [of cf], where pton = pton and takes = takes and es = es]
  by (auto split: sum.splits)

text \<open>C2. The limit: between any two moments of a run a source gets fewer than \<open>size + 1\<close> requests
  through beyond what the rate allows for the time between them, also when its bucket is given up and
  made anew in between.\<close>

theorem rate_limit:
  assumes "rq_run pton takes es1 (start cf) = Inr st1" "rq_run pton takes es2 st1 = Inr st2"
    and "sorted (0 # clock_of (es1 @ es2))" "sorted (rq_now st1 # clock_of es2)" "confs (es1 @ es2) = []"
    and "0 \<le> cf_rate cf" "0 \<le> cf_size cf"
  shows "passed (rq_src pton) s (rq_sent st2) - passed (rq_src pton) s (rq_sent st1) <
    cf_size cf + 1 + cf_rate cf * (rq_now st2 - rq_now st1)"
proof -
  note run1 = run_from_start [OF assms(1)]
  have run2: "lm_run (rq_src pton) takes (abs_rq st1) es2 (abs_rq st2)"
    using rq_run_law [OF run1(1), where pton = pton and takes = takes and es = es2] assms(2) by simp
  have t: "sorted (0 # clock_of es1)" "confs es1 = []" "confs es2 = []"
    using assms(3,5) by (auto simp: clock_of_def confs_def sorted_append)
  have s0: "lm_now (abs_rq (start cf)) = 0" "lm_cf (abs_rq (start cf)) = cf" by (simp_all add: start_def)
  have cap: "lm_capped (abs_rq (start cf))"
    using start_law(4) assms(7) by (simp add: lm_capped_def lm_bucket_def new_bucket_def abs_rq_def start_def)
  have "lm_capped (abs_rq st1) \<and> lm_cf (abs_rq st1) = lm_cf (abs_rq (start cf)) \<and> lm_inv (rq_src pton) (abs_rq st1)"
    using lm_run_rate [OF run1(2) start_law(1), of s] t(1,2) cap assms(6,7) unfolding s0 by blast
  then have inv: "lm_capped (abs_rq st1)" "lm_cf (abs_rq st1) = cf" "lm_inv (rq_src pton) (abs_rq st1)"
    unfolding s0 by blast+
  have r: "passed (rq_src pton) s (rq_sent st2) + lm_level (abs_rq st1) s \<le>
      passed (rq_src pton) s (rq_sent st1) + lm_level (abs_rq st2) s + cf_rate cf * (rq_now st2 - rq_now st1)"
    "lm_capped (abs_rq st2)" "lm_cf (abs_rq st2) = cf" "lm_inv (rq_src pton) (abs_rq st2)"
    using lm_run_rate [OF run2 inv(3), of s] assms(4,6,7) inv(1,2) t(3) by simp_all
  have "lm_level (abs_rq st2) s \<le> bk_level (lm_bucket s (abs_rq st2))"
    unfolding lm_level_def r(3) using leaked_le [OF assms(6)] lm_bucket_now [OF r(4)] by blast
  also have "\<dots> < cf_size cf + 1" using r(2,3) by (simp add: lm_capped_def)
  finally have "lm_level (abs_rq st2) s < cf_size cf + 1" .
  moreover have "0 \<le> lm_level (abs_rq st1) s" by (simp add: lm_level_def)
  ultimately show ?thesis using r(1) by linarith
qed

text \<open>C20. Requests of a source are passed on in the order in which they came, those that wait are
  behind those that were passed, every request is passed, waiting or refused, once, and none is
  thrown away with its bucket as long as the sizes are positive.\<close>

theorem requests_accounted:
  assumes "rq_run pton takes es (start cf) = Inr st" "sorted (0 # clock_of es)" "\<forall>c\<in>set (cf # confs es). 0 < cf_size c"
  shows "subseq (of_source (rq_src pton) s (rq_sent st) @ waiting_of st s) (of_source (rq_src pton) s (received es)) \<and>
    mset (of_source (rq_src pton) s (received es)) =
      mset (of_source (rq_src pton) s (rq_sent st)) + mset (waiting_of st s) +
      mset (of_source (rq_src pton) s (rq_refused st)) \<and>
    rq_dropped st = []"
proof -
  note run = run_from_start [OF assms(1)]
  have s0: "lm_now (abs_rq (start cf)) = 0" "lm_cf (abs_rq (start cf)) = cf" "lm_dropped (abs_rq (start cf)) = []"
    by (simp_all add: start_def)
  have srt: "sorted (lm_now (abs_rq (start cf)) # clock_of es)" using assms(2) by (simp only: s0)
  have "lm_accounts (rq_src pton) ([] @ received es) (abs_rq st)"
    using lm_run_accounts [OF run(2) start_law(1) srt start_law(2)] by blast
  moreover have "lm_dropped (abs_rq st) = []"
    using lm_run_keeps [OF run(2) start_law(1) srt] assms(3) by (simp add: s0 del: abs_sel)
  ultimately show ?thesis by (simp add: lm_accounts_def waiting_abs of_source_def)
qed

text \<open>A request waits only as long as there is no room: when the loop of the daemon over the timers
  that are due has ended, then every source with waiting requests has a bucket that, by the clock the
  loop read last, is still more than full.\<close>

lemma waiting_only_when_full:
  assumes "rq_run pton takes es (start cf) = Inr st" "confs es = []" "0 < cf_rate cf"
    and "check_due takes ts st = Inr (True, st')" "find_src st' s = Some a" "bk_brim (bk_at st' a) \<noteq> []"
  shows "cf_size cf < leaked cf (rq_now st') (bk_at st' a)"
proof -
  obtain n where "rq_run pton takes (map Check (take n ts)) st = Inr st'" using check_due_run [OF assms(4)] by blast
  with assms(1) have run': "rq_run pton takes (es @ map Check (take n ts)) (start cf) = Inr st'"
    by (simp add: rq_run_append)
  note run = run_from_start [OF run']
  have "confs (map Check xs) = []" for xs by (simp add: confs_def)
  then have "confs (es @ map Check (take n ts)) = []" using assms(2) by (simp add: confs_def)
  from lm_run_timely [OF run(2) this start_law(3)]
  have time: "lm_timely (abs_rq st')" "rq_cf st' = cf" by (simp_all add: start_def)
  let ?bk = "bk_at st' a"
  have bk: "lm_buckets (abs_rq st') s = Some ?bk" using assms(5) by (simp add: abs_rq_def)
  then have due: "lm_due (abs_rq st') s = btime_of cf ?bk" using time by (simp add: lm_timely_def)
  moreover have "s \<in> dom (lm_due (abs_rq st'))" using time(1) bk by (auto simp: lm_timely_def)
  ultimately obtain tm where tm: "lm_due (abs_rq st') s = Some tm" "btime_of cf ?bk = Some tm" by (metis domD)
  obtain b where b: "(b, tm) \<in> th_due (rq_heap st')" using due_conc [OF run(1) tm(1)] by blast
  have ok: "th_ok (rq_heap st')" using run(1) by (auto simp: rq_ok_def rq_struct_def)
  have "th_first (rq_heap st') \<noteq> None" using b timers.first_None [OF ok] by auto
  with check_due_end [OF assms(4)] have "rq_now st' < u" if "th_first (rq_heap st') = Some (c, u)" for c u
    using that by auto
  from timers.none_overdue [OF ok this b] have "rq_now st' < tm" .
  also have "tm \<le> bk_last ?bk + (bk_level ?bk - cf_size cf) / cf_rate cf" by (rule btime_room [OF tm(2) assms(6)])
  finally have "(rq_now st' - bk_last ?bk) < (bk_level ?bk - cf_size cf) / cf_rate cf" by simp
  then have "(rq_now st' - bk_last ?bk) * cf_rate cf < bk_level ?bk - cf_size cf"
    using assms(3) by (simp add: pos_less_divide_eq)
  then show ?thesis by (simp add: leaked_def)
qed

section \<open>Examples\<close>

definition no_address :: "int \<Rightarrow> cstring \<Rightarrow> string option" where
  "no_address af sa = None"

definition willing :: "queued list \<Rightarrow> queued \<Rightarrow> bool" where
  "willing sent w = True"

definition small_cfg :: ratecfg where
  "small_cfg = defcfg\<lparr>cf_size := 1, cf_rate := 1, cf_brimsize := 2\<rparr>"

definition a_request :: "int \<Rightarrow> queued" where
  "a_request n = (mkreq ''GET'' ''/'' ''HTTP/1.1'', n)"

definition a_burst :: "rq_event list" where
  "a_burst = map (\<lambda>n. Request 0 (a_request n)) [1, 2, 3, 4]"

text \<open>Four requests at once: one is passed, two wait, one is refused.\<close>

lemma burst_run: "\<exists>st. rq_run no_address willing a_burst (start small_cfg) = Inr st \<and> rq_sent st = [a_request 1] \<and>
    waiting_of st (Source 0 []) = [a_request 2, a_request 3] \<and> rq_refused st = [a_request 4]"
proof -
  have "case rq_run no_address willing a_burst (start small_cfg) of Inl _ \<Rightarrow> False
    | Inr st \<Rightarrow> rq_sent st = [a_request 1] \<and> waiting_of st (Source 0 []) = [a_request 2, a_request 3] \<and>
        rq_refused st = [a_request 4]"
    by code_simp
  then show ?thesis by (auto split: sum.splits)
qed

lemma burst_source: "rq_src no_address (a_request n) = Source 0 []"
  by (simp add: reqsource_def a_request_def getheader_def mkreq_def)

lemma burst_times: "clock_of a_burst = [0, 0, 0, 0]" "confs a_burst = []"
  by (simp_all add: clock_of_def confs_def a_burst_def)

theorem requests_accounted_witness:
  "\<exists>st. rq_run no_address willing a_burst (start small_cfg) = Inr st \<and> rq_dropped st = [] \<and>
     mset (received a_burst) = mset (rq_sent st) + mset (waiting_of st (Source 0 [])) + mset (rq_refused st)"
proof -
  obtain st where st: "rq_run no_address willing a_burst (start small_cfg) = Inr st" "rq_sent st = [a_request 1]"
    "rq_refused st = [a_request 4]"
    using burst_run by blast
  have "0 < cf_size small_cfg" by (simp add: small_cfg_def)
  with requests_accounted [OF st(1), of "Source 0 []"] burst_times st show ?thesis
    by (simp add: of_source_def burst_source received_def a_burst_def)
qed

text \<open>Half a second later the second request has been passed; the limit leaves room for 2.5.\<close>

lemma burst_later:
  "\<exists>st1 st2. rq_run no_address willing a_burst (start small_cfg) = Inr st1 \<and>
     rq_run no_address willing [Check (1/2)] st1 = Inr st2 \<and> rq_now st1 = 0 \<and> rq_now st2 = 1/2 \<and>
     rq_sent st1 = [a_request 1] \<and> rq_sent st2 = [a_request 1, a_request 2]"
proof -
  have "case rq_run no_address willing a_burst (start small_cfg) of Inl _ \<Rightarrow> False
    | Inr st1 \<Rightarrow> (case rq_run no_address willing [Check (1/2)] st1 of Inl _ \<Rightarrow> False
      | Inr st2 \<Rightarrow> rq_now st1 = 0 \<and> rq_now st2 = 1/2 \<and>
        rq_sent st1 = [a_request 1] \<and> rq_sent st2 = [a_request 1, a_request 2])"
    by code_simp
  then show ?thesis by (auto split: sum.splits simp del: rq_run.simps)
qed

theorem rate_limit_witness:
  "\<exists>st1 st2. rq_run no_address willing a_burst (start small_cfg) = Inr st1 \<and>
     rq_run no_address willing [Check (1/2)] st1 = Inr st2 \<and>
     passed (rq_src no_address) (Source 0 []) (rq_sent st2) - passed (rq_src no_address) (Source 0 []) (rq_sent st1) = 1 \<and>
     (1::rat) < 1 + 1 + 1 * (1/2 - 0)"
proof -
  obtain st1 st2 where st: "rq_run no_address willing a_burst (start small_cfg) = Inr st1"
    "rq_run no_address willing [Check (1/2)] st1 = Inr st2" "rq_now st1 = 0" "rq_now st2 = 1/2"
    "rq_sent st1 = [a_request 1]" "rq_sent st2 = [a_request 1, a_request 2]" using burst_later by blast
  have "sorted (0 # clock_of (a_burst @ [Check (1/2)]))" "confs (a_burst @ [Check (1/2)]) = []"
    "sorted (rq_now st1 # clock_of [Check (1/2)])" "0 \<le> cf_rate small_cfg" "0 \<le> cf_size small_cfg"
    by (simp_all add: clock_of_def confs_def a_burst_def st(3) small_cfg_def)
  from rate_limit [OF st(1,2) this(1,3,2,4,5), of "Source 0 []"] st show ?thesis
    by (auto simp: passed_def of_source_def burst_source small_cfg_def)
qed

lemma burst_waits:
  "\<exists>st st' a. rq_run no_address willing a_burst (start small_cfg) = Inr st \<and>
     check_due willing [1/2, 3/4] st = Inr (True, st') \<and> find_src st' (Source 0 []) = Some a \<and>
     bk_brim (bk_at st' a) = [a_request 3] \<and> rq_now st' = 3/4"
proof -
  have "case rq_run no_address willing a_burst (start small_cfg) of Inl _ \<Rightarrow> False
    | Inr st \<Rightarrow> (case check_due willing [1/2, 3/4] st of Inl _ \<Rightarrow> False
      | Inr (b, st') \<Rightarrow> b \<and> rq_now st' = 3/4 \<and> (case find_src st' (Source 0 []) of None \<Rightarrow> False
         | Some a \<Rightarrow> bk_brim (bk_at st' a) = [a_request 3]))"
    by code_simp
  then show ?thesis by (auto split: sum.splits option.splits)
qed

theorem waiting_only_when_full_witness:
  "\<exists>st' a. find_src st' (Source 0 []) = Some a \<and> bk_brim (bk_at st' a) = [a_request 3] \<and>
     1 < leaked small_cfg (3/4) (bk_at st' a)"
proof -
  obtain st st' a where st: "rq_run no_address willing a_burst (start small_cfg) = Inr st"
    "check_due willing [1/2, 3/4] st = Inr (True, st')" "find_src st' (Source 0 []) = Some a"
    "bk_brim (bk_at st' a) = [a_request 3]" "rq_now st' = 3/4" using burst_waits by blast
  have "0 < cf_rate small_cfg" "cf_size small_cfg = 1" by (simp_all add: small_cfg_def)
  with waiting_only_when_full [OF st(1) burst_times(2) _ st(2,3)] st show ?thesis by auto
qed

end
