(* ===== verification/Cgi.thy ===== *)
theory Cgi
  imports Req Resp
begin

text \<open>
  What the gateways \<open>src/callcgi.c\<close>, \<open>src/callscgi.c\<close> and \<open>src/callfcgi.c\<close> share: the
  variables that describe a request to a CGI program, and the head of the program's reply. With it
  the SCGI request, a netstring, and the exchange of \<open>callscgi\<close>.
\<close>

section \<open>The variables\<close>

text \<open>
  \<open>SCRIPT_NAME\<close> and \<open>PATH_INFO\<close>: the rest string is cut off the path when the path ends with
  it, and a script at the root has an empty name and a path that begins with the slash.
\<close>

definition cgi_url :: "cstring \<Rightarrow> cstring \<times> cstring option" where
  "cgi_url url = (case strchr url (CHR ''?'') of None \<Rightarrow> (url, None) | Some (a, b) \<Rightarrow> (a, Some (tl b)))"

definition cut_rest :: "cstring \<Rightarrow> cstring \<Rightarrow> cstring" where
  "cut_rest rest path =
     (if rest \<noteq> [] \<and> length path \<ge> length rest \<and> drop (length path - length rest) path = rest
      then take (length path - length rest) path else path)"

definition script_path :: "cstring \<Rightarrow> cstring \<Rightarrow> cstring \<times> cstring" where
  "script_path rest path =
     (let name = cut_rest rest path; pinf = (case unquoteurl rest of None \<Rightarrow> rest | Some p \<Rightarrow> p)
      in if name = ''/'' then ([], ''/'' @ pinf) else (name, pinf))"

definition absolutify :: "cstring \<Rightarrow> cstring \<Rightarrow> cstring" where
  "absolutify cwd file = (if take 1 file \<noteq> ''/'' then cwd @ ''/'' @ file else file)"

definition env_header :: "hthead \<Rightarrow> cstring \<Rightarrow> cstring \<Rightarrow> (cstring \<times> cstring) list" where
  "env_header req header name = (case getheader req header of None \<Rightarrow> [] | Some h \<Rightarrow> [(name, h)])"

definition http_name :: "cstring \<Rightarrow> cstring" where
  "http_name h = map (\<lambda>c. if isalnum c then toupper c else CHR ''_'') (''HTTP_'' @ h)"

text \<open>
  \<open>mkcgienv\<close>: the variables in their order. \<open>proto\<close> is what the protocol adds after the first
  two: nothing in \<open>callfcgi\<close>, \<open>SCGI\<close> in \<open>callscgi\<close>.
\<close>

definition mkcgienv :: "(cstring \<times> cstring) list \<Rightarrow> cstring \<Rightarrow> cstring \<Rightarrow> hthead \<Rightarrow> (cstring \<times> cstring) list" where
  "mkcgienv proto version cwd req =
     (case cgi_url (the (hd_url req)) of (path, qp) \<Rightarrow>
      case script_path (the (hd_rest req)) path of (name, pinf) \<Rightarrow>
        [(''SERVER_SOFTWARE'', ''ashd/'' @ version), (''GATEWAY_INTERFACE'', ''CGI/1.1'')] @ proto @
        [(''SERVER_PROTOCOL'', the (hd_ver req)), (''REQUEST_METHOD'', the (hd_method req)),
         (''REQUEST_URI'', the (hd_url req)), (''PATH_INFO'', pinf), (''SCRIPT_NAME'', name),
         (''QUERY_STRING'', case qp of None \<Rightarrow> [] | Some q \<Rightarrow> q)] @
        env_header req ''Host'' ''SERVER_NAME'' @
        env_header req ''X-Ash-Server-Address'' ''SERVER_ADDR'' @
        env_header req ''X-Ash-Server-Port'' ''SERVER_PORT'' @
        env_header req ''X-Ash-Remote-User'' ''REMOTE_USER'' @
        (if getheader req ''X-Ash-Protocol'' = Some ''https'' then [(''HTTPS'', ''on'')] else []) @
        env_header req ''X-Ash-Address'' ''REMOTE_ADDR'' @
        env_header req ''X-Ash-Port'' ''REMOTE_PORT'' @
        env_header req ''Content-Type'' ''CONTENT_TYPE'' @
        (case getheader req ''Content-Length'' of
           Some h \<Rightarrow> [(''CONTENT_LENGTH'', h)] | None \<Rightarrow> [(''CONTENT_LENGTH'', ''0'')]) @
        (case getheader req ''X-Ash-File'' of
           None \<Rightarrow> [] | Some h \<Rightarrow> [(''SCRIPT_FILENAME'', absolutify cwd h)]) @
        map (\<lambda>(n, v). (http_name n, v)) (headers req))"

definition scgi_env :: "cstring \<Rightarrow> cstring \<Rightarrow> hthead \<Rightarrow> (cstring \<times> cstring) list" where
  "scgi_env = mkcgienv [(''SCGI'', ''1'')]"

section \<open>The reply\<close>

text \<open>
  \<open>parseresp\<close> turns a CGI reply head into a response head. The blank in the value of \<open>Status\<close> is
  overwritten before the header is removed.
\<close>

definition cgi_status :: "hthead \<Rightarrow> hthead" where
  "cgi_status resp = (case getheader resp ''Status'' of
      Some st \<Rightarrow>
        (case strchr st (CHR '' '') of
           Some (a, b) \<Rightarrow> headrmheader (resp\<lparr>hd_code := atoi a, hd_msg := Some (tl b)\<rparr>) ''Status''
         | None \<Rightarrow> headrmheader (resp\<lparr>hd_code := atoi st, hd_msg := Some (httpdefstatus (atoi st))\<rparr>) ''Status'')
    | None \<Rightarrow>
        (if getheader resp ''Location'' \<noteq> None then resp\<lparr>hd_code := 303, hd_msg := Some ''See Other''\<rparr>
         else resp\<lparr>hd_code := 200, hd_msg := Some ''OK''\<rparr>))"

definition empty_resp :: hthead where
  "empty_resp = \<lparr>hd_method = None, hd_url = None, hd_ver = Some ''HTTP/1.1'', hd_msg = None, hd_code = 0,
     hd_rest = None, headers = []\<rparr>"

definition parseresp :: "string \<Rightarrow> hthead option \<times> string" where
  "parseresp inp = (case parseheaders empty_resp inp of
      (ok, resp, rest) \<Rightarrow> (if ok then Some (cgi_status resp) else None, rest))"

section \<open>Output\<close>

text \<open>Whether all of a text went out: \<open>fputc\<close> and \<open>fwrite\<close> on a \<open>FILE\<close>.\<close>

definition fputs :: "string \<Rightarrow> ofile \<Rightarrow> bool \<times> ofile" where
  "fputs s f =
     (if length s \<le> oroom f then (True, f\<lparr>obytes := obytes f @ s, oroom := oroom f - length s\<rparr>)
      else (False, f\<lparr>obytes := obytes f @ take (oroom f) s, oroom := 0\<rparr>))"

text \<open>\<open>passdata\<close> between two files, in blocks of 8192 bytes; the result is the total or -1.\<close>

function passdata_from :: "int \<Rightarrow> string \<Rightarrow> ofile \<Rightarrow> int \<times> ofile" where
  "passdata_from tot inp out =
     (let buf = take 8192 inp in
      case fputs buf out of (ok, out1) \<Rightarrow>
        if \<not> ok then (- 1, out1)
        else if length buf < 8192 then (tot + int (length buf), out1)
        else passdata_from (tot + int (length buf)) (drop 8192 inp) out1)"
  by pat_completeness auto
termination
  by (relation "measure (\<lambda>(tot, inp, out). length inp)") auto

declare passdata_from.simps [simp del]

definition passdata :: "string \<Rightarrow> ofile \<Rightarrow> int \<times> ofile" where
  "passdata inp out = passdata_from 0 inp out"

text \<open>
  The reply to the client: the head, an empty line, the rest. \<open>writeresp\<close> and \<open>fputc\<close> are called
  without a look at their results.
\<close>

definition send_reply :: "string \<Rightarrow> ofile \<Rightarrow> ofile" where
  "send_reply reply client = (case parseresp reply of
      (None, _) \<Rightarrow> client
    | (Some resp, rest) \<Rightarrow>
        (case writeresp resp client of
           None \<Rightarrow> client
         | Some (_, c1) \<Rightarrow> snd (passdata rest (snd (fputs [chr 10] c1)))))"

section \<open>SCGI\<close>

text \<open>
  The exchange in \<open>serve\<close> of \<open>callscgi\<close>: the variables as one netstring of names and values, each
  with its NUL, the body of the request, and then the reply that the server gives. \<open>server\<close> tells the
  reply to what has been written.
\<close>

definition scgi_head :: "(cstring \<times> cstring) list \<Rightarrow> string" where
  "scgi_head env = show_nat (length (pack_headers env)) @ '':'' @ pack_headers env @ '',''"

definition scgi_serve :: "cstring \<Rightarrow> cstring \<Rightarrow> hthead \<Rightarrow> string \<Rightarrow> (string \<Rightarrow> string) \<Rightarrow> ofile \<Rightarrow> ofile \<Rightarrow> ofile \<times> ofile" where
  "scgi_serve version cwd req body server os client =
     (case fputs (scgi_head (scgi_env version cwd req)) os of (_, os1) \<Rightarrow>
        (case passdata body os1 of (r, os2) \<Rightarrow>
           if r < 0 then (os2, client) else (os2, send_reply (server (obytes os2)) client)))"

section \<open>Facts\<close>

lemma fputs_room: "length s \<le> oroom f \<Longrightarrow>
    fputs s f = (True, f\<lparr>obytes := obytes f @ s, oroom := oroom f - length s\<rparr>)"
  by (simp add: fputs_def)

lemma passdata_from_law:
  "case passdata_from tot inp out of (r, out') \<Rightarrow>
     (if length inp \<le> oroom out
      then r = tot + int (length inp) \<and> out' = out\<lparr>obytes := obytes out @ inp, oroom := oroom out - length inp\<rparr>
      else r = - 1 \<and> obytes out' = obytes out @ take (oroom out) inp \<and> oroom out' = 0)"
proof (induction tot inp out rule: passdata_from.induct)
  case (1 tot inp out)
  let ?buf = "take 8192 inp"
  show ?case
  proof (cases "length ?buf \<le> oroom out")
    case False
    then have "passdata_from tot inp out = (- 1, out\<lparr>obytes := obytes out @ take (oroom out) ?buf, oroom := 0\<rparr>)"
      by (subst passdata_from.simps) (simp add: fputs_def Let_def)
    moreover have "oroom out < length inp" "oroom out < 8192" using False by simp_all
    ultimately show ?thesis by simp
  next
    case True
    define o1 where "o1 = out\<lparr>obytes := obytes out @ ?buf, oroom := oroom out - length ?buf\<rparr>"
    have fp: "fputs ?buf out = (True, o1)" using True by (simp add: fputs_room o1_def)
    show ?thesis
    proof (cases "length ?buf < 8192")
      case True
      then have short: "?buf = inp" by simp
      then have "passdata_from tot inp out = (tot + int (length inp), o1)"
        using fp True by (subst passdata_from.simps) (simp add: Let_def)
      with \<open>length ?buf \<le> oroom out\<close> short show ?thesis by (simp add: o1_def)
    next
      case False
      then have len: "length inp = 8192 + length (drop 8192 inp)" "length ?buf = 8192" by simp_all
      have eq: "passdata_from tot inp out = passdata_from (tot + int (length ?buf)) (drop 8192 inp) o1"
        using fp False by (subst passdata_from.simps) (simp add: Let_def)
      have IH: "case passdata_from (tot + int (length ?buf)) (drop 8192 inp) o1 of (r, out') \<Rightarrow>
         (if length (drop 8192 inp) \<le> oroom o1
          then r = tot + int (length ?buf) + int (length (drop 8192 inp)) \<and>
            out' = o1\<lparr>obytes := obytes o1 @ drop 8192 inp, oroom := oroom o1 - length (drop 8192 inp)\<rparr>
          else r = - 1 \<and> obytes out' = obytes o1 @ take (oroom o1) (drop 8192 inp) \<and> oroom out' = 0)"
        using 1 [OF refl fp [symmetric]] False by simp
      have room: "oroom o1 = oroom out - 8192" "8192 \<le> oroom out" "obytes o1 = obytes out @ ?buf"
        using True len(2) by (simp_all add: o1_def)
      have "take (oroom out) inp = ?buf @ take (oroom out - 8192) (drop 8192 inp)"
        using room(2) by (metis le_add_diff_inverse take_add)
      moreover have "?buf @ drop 8192 inp = inp" by simp
      moreover have "length (drop 8192 inp) \<le> oroom o1 \<longleftrightarrow> length inp \<le> oroom out" using room len by linarith
      ultimately show ?thesis
        unfolding eq using IH len(2) room by (auto simp: o1_def split: if_splits)
    qed
  qed
qed

lemma passdata_law:
  "length inp \<le> oroom out \<Longrightarrow>
    passdata inp out = (int (length inp), out\<lparr>obytes := obytes out @ inp, oroom := oroom out - length inp\<rparr>)"
  using passdata_from_law [where tot = 0 and inp = inp and out = out] by (auto simp: passdata_def split: prod.splits)

section \<open>What a server makes of the message\<close>

text \<open>A netstring, and the pairs of NUL-terminated strings in it, as the SCGI protocol has them.\<close>

function unpack_env :: "string \<Rightarrow> (cstring \<times> cstring) list option" where
  "unpack_env p =
     (if p = [] then Some []
      else (case decstr p of
          (Some n, p1) \<Rightarrow> (case decstr p1 of
              (Some v, p2) \<Rightarrow> map_option ((#) (n, v)) (unpack_env p2)
            | (None, _) \<Rightarrow> None)
        | (None, _) \<Rightarrow> None))"
  by pat_completeness auto
termination
  by (relation "measure length") (auto dest!: sym [of _ "decstr _"] decstr_shorter)

declare unpack_env.simps [simp del]

definition scgi_decode :: "string \<Rightarrow> ((cstring \<times> cstring) list \<times> string) option" where
  "scgi_decode msg = (case strtoll msg of (n, p) \<Rightarrow>
     if take 1 p = '':'' \<and> take 1 (drop (nat n + 1) p) = '',''
     then map_option (\<lambda>env. (env, drop (nat n + 2) p)) (unpack_env (take (nat n) (tl p)))
     else None)"

lemma unpack_pack:
  "\<forall>x\<in>set env. nul_free (fst x) \<and> nul_free (snd x) \<Longrightarrow> unpack_env (pack_headers env) = Some env"
proof (induction env)
  case Nil
  show ?case by (simp add: unpack_env.simps [of "[]"])
next
  case (Cons x env)
  obtain n v where x: "x = (n, v)" by fastforce
  with Cons show ?case by (subst unpack_env.simps) simp
qed

lemma scgi_head_decode:
  assumes "\<forall>x\<in>set env. nul_free (fst x) \<and> nul_free (snd x)" "int (length (pack_headers env)) < 2 ^ 63"
  shows "scgi_decode (scgi_head env @ body) = Some (env, body)"
proof -
  let ?h = "pack_headers env"
  have "\<not> isdigit (hd ('':'' @ ?h @ '','' @ body))" by (simp add: isdigit_def ord_def)
  then have "strtoll (scgi_head env @ body) = (int (length ?h), '':'' @ ?h @ '','' @ body)"
    using strtoll_show_nat [OF assms(2), of "'':'' @ ?h @ '','' @ body"] by (simp add: scgi_head_def)
  then show ?thesis using unpack_pack [OF assms(1)] by (simp add: scgi_decode_def)
qed

text \<open>Where the strings of the variables come from.\<close>

definition req_strings :: "hthead \<Rightarrow> bool" where
  "req_strings req \<longleftrightarrow> (\<exists>m u v r. hd_method req = Some m \<and> hd_url req = Some u \<and> hd_ver req = Some v \<and>
     hd_rest req = Some r \<and> nul_free m \<and> nul_free u \<and> nul_free v \<and> nul_free r) \<and>
     (\<forall>h\<in>set (headers req). nul_free (fst h) \<and> nul_free (snd h))"

lemma nul_free_getheader:
  "\<forall>h\<in>set (headers req). nul_free (fst h) \<and> nul_free (snd h) \<Longrightarrow> getheader req name = Some v \<Longrightarrow> nul_free v"
proof -
  have "\<forall>h\<in>set hs. nul_free (fst h) \<and> nul_free (snd h) \<Longrightarrow> find_header hs name = Some v \<Longrightarrow> nul_free v" for hs
    by (induction hs name rule: find_header.induct) (auto split: if_splits)
  then show "\<forall>h\<in>set (headers req). nul_free (fst h) \<and> nul_free (snd h) \<Longrightarrow> getheader req name = Some v \<Longrightarrow> nul_free v"
    by (simp add: getheader_def)
qed

lemma nul_free_env_header:
  "\<forall>h\<in>set (headers req). nul_free (fst h) \<and> nul_free (snd h) \<Longrightarrow> nul_free name \<Longrightarrow>
    x \<in> set (env_header req header name) \<Longrightarrow> nul_free (fst x) \<and> nul_free (snd x)"
proof (cases "getheader req header")
  case (Some v)
  moreover assume "\<forall>h\<in>set (headers req). nul_free (fst h) \<and> nul_free (snd h)"
  ultimately have "nul_free v" by (intro nul_free_getheader)
  with Some show "nul_free name \<Longrightarrow> x \<in> set (env_header req header name) \<Longrightarrow> nul_free (fst x) \<and> nul_free (snd x)"
    by (simp add: env_header_def)
qed (simp add: env_header_def)

lemma nul_free_subset: "nul_free t \<Longrightarrow> set s \<subseteq> set t \<Longrightarrow> nul_free s"
  unfolding nul_free_def by blast

lemma http_name_chars: "c \<in> set (http_name n) \<Longrightarrow> isupper c \<or> isdigit c \<or> c = CHR ''_''"
proof -
  have "isupper (toupper c) \<or> isdigit (toupper c)" if "isalnum c" for c
  proof (cases "islower c")
    case True
    then have "ord (toupper c) = ord c - 32" by (simp add: toupper_def islower_def ord_chr_id)
    with True show ?thesis by (simp add: isupper_def islower_def)
  qed (use that in \<open>auto simp: isalnum_def toupper_def\<close>)
  then show "c \<in> set (http_name n) \<Longrightarrow> isupper c \<or> isdigit c \<or> c = CHR ''_''"
    by (auto simp: http_name_def split: if_splits)
qed

lemma nul_free_http_name: "nul_free (http_name n)"
proof -
  have "ord NUL = 0" by (simp add: ord_def)
  then have "\<not> isupper NUL" "\<not> isdigit NUL" by (simp_all add: isupper_def isdigit_def)
  then show ?thesis using http_name_chars [of NUL n] by (auto simp: nul_free_def)
qed

lemma nul_free_script: "nul_free r \<Longrightarrow> nul_free p \<Longrightarrow> script_path r p = (n, i) \<Longrightarrow> nul_free n \<and> nul_free i"
proof -
  have "nul_free q" if "unquoteurl r = Some q" for q using that by (auto simp: unquoteurl_def)
  moreover have "nul_free p \<Longrightarrow> nul_free (cut_rest r p)"
    by (rule nul_free_subset) (auto simp: cut_rest_def dest: in_set_takeD)
  ultimately show "nul_free r \<Longrightarrow> nul_free p \<Longrightarrow> script_path r p = (n, i) \<Longrightarrow> nul_free n \<and> nul_free i"
    by (auto simp: script_path_def Let_def split: option.splits if_splits)
qed

lemma nul_free_url: "nul_free u \<Longrightarrow> cgi_url u = (p, q) \<Longrightarrow> nul_free p \<and> (\<forall>s. q = Some s \<longrightarrow> nul_free s)"
  by (auto simp: cgi_url_def dest!: strchr_SomeD split: option.splits)

lemma nul_free_mkcgienv:
  assumes "req_strings req" "nul_free version" "nul_free cwd" "\<forall>x\<in>set proto. nul_free (fst x) \<and> nul_free (snd x)"
    and x: "x \<in> set (mkcgienv proto version cwd req)"
  shows "nul_free (fst x) \<and> nul_free (snd x)"
proof -
  obtain m u v r where f: "hd_method req = Some m" "hd_url req = Some u" "hd_ver req = Some v" "hd_rest req = Some r"
    "nul_free m" "nul_free u" "nul_free v" "nul_free r" and
    h: "\<forall>h\<in>set (headers req). nul_free (fst h) \<and> nul_free (snd h)"
    using assms(1) unfolding req_strings_def by blast
  obtain p q where pq: "cgi_url u = (p, q)" by fastforce
  obtain n i where ni: "script_path r p = (n, i)" by fastforce
  have pn: "nul_free p" "\<forall>s. q = Some s \<longrightarrow> nul_free s" using nul_free_url [OF f(6) pq] by blast+
  have nn: "nul_free n" "nul_free i" using nul_free_script [OF f(8) pn(1) ni] by blast+
  note hdr = nul_free_env_header [OF h, of _ x]
  note gh = nul_free_getheader [OF h]
  show ?thesis
    using x unfolding mkcgienv_def f option.sel pq ni prod.case set_append Un_iff
    apply (elim disjE)
    using f assms(2-4) pn nn gh by (auto simp: absolutify_def nul_free_http_name split: option.splits if_splits dest: hdr [rotated] h [rule_format])
qed

section \<open>Properties\<close>

lemma write_hdrs_room: "length (hdr_text hs) \<le> oroom f \<Longrightarrow> write_hdrs fprintf hs f =
    Some (0, f\<lparr>obytes := obytes f @ hdr_text hs, oroom := oroom f - length (hdr_text hs)\<rparr>)"
proof (induction hs arbitrary: f)
  case (Cons x hs)
  obtain n v where x: "x = (n, v)" by fastforce
  let ?t = "n @ '': '' @ v @ [chr 13, chr 10]"
  have t: "hdr_text (x # hs) = ?t @ hdr_text hs" by (simp add: x crlf_def)
  have fp: "fprintf 8 ?t f = Some (int (length ?t), f\<lparr>obytes := obytes f @ ?t, oroom := oroom f - length ?t\<rparr>)"
    using Cons.prems by (intro fprintf_room) (simp add: t)
  show ?case
    using Cons.IH [of "f\<lparr>obytes := obytes f @ ?t, oroom := oroom f - length ?t\<rparr>"] Cons.prems fp
    by (simp add: x crlf_def add.commute add.left_commute)
qed simp

lemma writeresp_room:
  assumes "hd_ver resp \<noteq> None" "hd_msg resp \<noteq> None" "length (resp_text resp) \<le> oroom f"
  shows "writeresp resp f =
    Some (0, f\<lparr>obytes := obytes f @ resp_text resp, oroom := oroom f - length (resp_text resp)\<rparr>)"
proof -
  have "fprintf 10 (status_line resp) f = Some (int (length (status_line resp)),
      f\<lparr>obytes := obytes f @ status_line resp, oroom := oroom f - length (status_line resp)\<rparr>)"
    using assms(3) by (intro fprintf_room) (simp add: resp_text_def)
  with assms write_hdrs_room [of "headers resp" "f\<lparr>obytes := obytes f @ status_line resp, oroom := oroom f - length (status_line resp)\<rparr>"]
  show ?thesis by (simp add: writeresp_def write_resp_def resp_text_def)
qed

text \<open>With a path whose end is the quoted path information, \<open>PATH_INFO\<close> is the information and
  \<open>SCRIPT_NAME\<close> what is before it; only the script at the root takes the slash over into the
  information.\<close>

lemma script_path_split:
  assumes "nul_free q"
  shows "script_path (urlquote q) (p @ urlquote q) = (if p = ''/'' then ([], ''/'' @ q) else (p, q))"
proof -
  have "unquoteurl (urlquote q) = Some q" using assms by (simp add: unquoteurl_def unquote_quote)
  moreover have "cut_rest (urlquote q) (p @ urlquote q) = p" by (auto simp: cut_rest_def)
  ultimately show ?thesis by (simp add: script_path_def)
qed

lemma script_path_split_witness:
  "script_path (urlquote ''/a b'') (''/cgi/x'' @ urlquote ''/a b'') = (''/cgi/x'', ''/a b'')"
  using script_path_split [of "''/a b''" "''/cgi/x''"] by simp


definition a_cgi_req :: hthead where
  "a_cgi_req = headappheader (mkreq ''GET'' ''/x'' ''HTTP/1.1'') ''Host'' ''h''"


text \<open>The reply of a CGI program reaches the client as an HTTP response with its headers and its
  body: the status is what the program gave as \<open>Status\<close>, which is not passed on, or 303 when
  it only gave a location, or 200.\<close>

lemma cgi_reply:
  assumes "\<forall>h\<in>set hs. header_ok h" "length (hdr_text hs) + 2 < 65536"
    and "r = cgi_status (empty_resp\<lparr>headers := hs\<rparr>)" "length (resp_text r) + 1 + length body \<le> oroom client"
  shows "obytes (send_reply (hdr_text hs @ crlf @ body) client) = obytes client @ resp_text r @ chr 10 # body \<and>
    headers r = rm_header hs ''Status'' \<and>
    (case find_header hs ''Status'' of
       Some st \<Rightarrow> (\<forall>n msg. st = show_nat n @ '' '' @ msg \<and> int n < 2 ^ 31 \<longrightarrow> hd_code r = int n \<and> hd_msg r = Some msg)
     | None \<Rightarrow> hd_code r = (if find_header hs ''Location'' = None then 200 else 303))"
proof -
  have rm: "find_header hs n = None \<Longrightarrow> rm_header hs n = hs" for hs n
    by (induction hs n rule: find_header.induct) (auto split: if_splits)
  have hdr: "headers r = rm_header hs ''Status''" "hd_ver r \<noteq> None" "hd_msg r \<noteq> None"
    by (auto simp: assms(3) cgi_status_def getheader_def headrmheader_def empty_resp_def rm split: option.split)
  have status: "case find_header hs ''Status'' of
       Some st \<Rightarrow> (\<forall>n msg. st = show_nat n @ '' '' @ msg \<and> int n < 2 ^ 31 \<longrightarrow> hd_code r = int n \<and> hd_msg r = Some msg)
     | None \<Rightarrow> hd_code r = (if find_header hs ''Location'' = None then 200 else 303)"
  proof (cases "find_header hs ''Status''")
    case None
    then show ?thesis by (simp add: assms(3) cgi_status_def getheader_def)
  next
    case (Some st)
    have "hd_code r = int n \<and> hd_msg r = Some msg" if st: "st = show_nat n @ '' '' @ msg" "int n < 2 ^ 31" for n msg
    proof -
      have "CHR '' '' \<notin> set (show_nat n)" using show_nat_digits [of "CHR '' ''" n] by (auto simp: isdigit_def ord_def)
      then have c: "strchr st (CHR '' '') = Some (show_nat n, CHR '' '' # msg)" by (simp add: st)
      have "atoi (show_nat n) = int n"
        using strtoll_show_nat [of n "[]"] st(2) by (simp add: atoi_def signed_take_bit_int_eq_self)
      with Some c show ?thesis by (simp add: assms(3) cgi_status_def getheader_def headrmheader_def)
    qed
    with Some show ?thesis by simp
  qed
  have "parseresp (hdr_text hs @ crlf @ body) = (Some r, body)"
    using parseheaders_text [OF assms(1,2), of empty_resp body]
    by (simp add: parseresp_def parseheaders_def assms(3)) (simp add: empty_resp_def)
  moreover have "writeresp r client =
      Some (0, client\<lparr>obytes := obytes client @ resp_text r, oroom := oroom client - length (resp_text r)\<rparr>)"
    using writeresp_room [OF hdr(2,3)] assms(4) by simp
  ultimately have "obytes (send_reply (hdr_text hs @ crlf @ body) client) = obytes client @ resp_text r @ chr 10 # body"
    using assms(4) by (simp add: send_reply_def fputs_room passdata_law)
  with hdr(1) status show ?thesis by blast
qed

lemma cgi_reply_witness:
  "obytes (send_reply (hdr_text [(''Status'', ''404 Gone''), (''A'', ''b'')] @ crlf @ ''x'') \<lparr>obytes = [], oroom = 100\<rparr>) =
     ''HTTP/1.1 404 Gone'' @ crlf @ ''A: b'' @ crlf @ chr 10 # ''x''"
proof -
  let ?hs = "[(''Status'', ''404 Gone''), (''A'', ''b'')]"
  have "\<forall>h\<in>set ?hs. header_ok h" by code_simp
  moreover have "length (hdr_text ?hs) + 2 < 65536" by code_simp
  moreover have "length (resp_text (cgi_status (empty_resp\<lparr>headers := ?hs\<rparr>))) + 1 + length ''x'' \<le> 100" by code_simp
  moreover have "resp_text (cgi_status (empty_resp\<lparr>headers := ?hs\<rparr>)) = ''HTTP/1.1 404 Gone'' @ crlf @ ''A: b'' @ crlf"
    by code_simp
  ultimately show ?thesis using cgi_reply [of ?hs _ "''x''" "\<lparr>obytes = [], oroom = 100\<rparr>", OF _ _ refl] by simp
qed

end
