(* ===== verification/Fcgi.thy ===== *)
theory Fcgi
  imports Cgi
begin

text \<open>
  The FastCGI gateway, \<open>src/callfcgi.c\<close>: the encoding of the variables, the records of the
  protocol in both directions, the thread that takes the server's records apart, and the exchange
  of \<open>serve\<close>.
\<close>

unbundle bit_operations_syntax

section \<open>Variables\<close>

text \<open>A length is one byte below 128, otherwise four with the top bit set.\<close>

definition kv_length :: "int \<Rightarrow> string" where
  "kv_length kl =
     (if kl < 128 then [chr kl]
      else [chr (drop_bit 24 (kl AND 0x7f000000) OR 0x80), chr (drop_bit 16 (kl AND 0x00ff0000)),
        chr (drop_bit 8 (kl AND 0x0000ff00)), chr (kl AND 0x000000ff)])"

definition bufcatkv :: "string \<Rightarrow> cstring \<times> cstring \<Rightarrow> string" where
  "bufcatkv dst kv = (case kv of (key, val) \<Rightarrow>
     dst @ kv_length (int (length key)) @ kv_length (int (length val)) @ key @ val)"

definition fcgi_env :: "cstring \<Rightarrow> cstring \<Rightarrow> hthead \<Rightarrow> (cstring \<times> cstring) list" where
  "fcgi_env = mkcgienv []"

definition fcgi_params :: "cstring \<Rightarrow> cstring \<Rightarrow> hthead \<Rightarrow> string" where
  "fcgi_params version cwd req = foldl bufcatkv [] (fcgi_env version cwd req)"

section \<open>Records\<close>

definition FCGI_BEGIN_REQUEST :: int where "FCGI_BEGIN_REQUEST = 1"
definition FCGI_PARAMS :: int where "FCGI_PARAMS = 4"
definition FCGI_STDIN :: int where "FCGI_STDIN = 5"
definition FCGI_STDOUT :: int where "FCGI_STDOUT = 6"
definition FCGI_STDERR :: int where "FCGI_STDERR = 7"

lemmas fcgi_types = FCGI_BEGIN_REQUEST_def FCGI_PARAMS_def FCGI_STDIN_def FCGI_STDOUT_def FCGI_STDERR_def

definition rec_header :: "int \<Rightarrow> int \<Rightarrow> int \<Rightarrow> int \<Rightarrow> string" where
  "rec_header type rid cl p =
     [chr 1, chr type, chr (drop_bit 8 (rid AND 0xff00)), chr (rid AND 0x00ff),
      chr (drop_bit 8 (cl AND 0xff00)), chr (cl AND 0x00ff), chr p, chr 0]"

text \<open>
  \<open>sendrec\<close>: the data in records of at most 65535 bytes, each padded to a multiple of eight; an
  empty text is one empty record. The result is whether all was written.
\<close>

function sendrec :: "int \<Rightarrow> int \<Rightarrow> string \<Rightarrow> ofile \<Rightarrow> bool \<times> ofile" where
  "sendrec type rid data out =
     (let cl = min (length data) 65535; p = (8 - cl mod 8) mod 8 in
      case fputs (rec_header type rid (int cl) (int p)) out of
        (False, o1) \<Rightarrow> (False, o1)
      | (True, o1) \<Rightarrow>
          (case fputs (take cl data) o1 of
             (False, o2) \<Rightarrow> (False, o2)
           | (True, o2) \<Rightarrow>
               (case fputs (replicate p NUL) o2 of
                  (False, o3) \<Rightarrow> (False, o3)
                | (True, o3) \<Rightarrow> if drop cl data = [] then (True, o3) else sendrec type rid (drop cl data) o3)))"
  by pat_completeness auto
termination
  by (relation "measure (\<lambda>(type, rid, data, out). length data)") auto

declare sendrec.simps [simp del]

text \<open>
  \<open>recvrec\<close>. The pointer it stores through \<open>data\<close> is null before the call, and the caller keeps it:
  a record that is cut short leaves it at memory that has been given back.
\<close>

datatype dptr = Null | Live | Freed

definition recvrec :: "string \<Rightarrow> (int \<times> int \<times> string) option \<times> dptr \<times> string" where
  "recvrec inp =
     (if length inp < 8 then (None, Null, [])
      else
        let h = take 8 inp; rest = drop 8 inp;
            dlen = nat (push_bit 8 (ord (h ! 4)) OR ord (h ! 5));
            tl = dlen + nat (ord (h ! 6))
        in if ord (h ! 0) \<noteq> 1 then (None, Null, rest)
           else if ord (h ! 7) \<noteq> 0 then (None, Null, rest)
           else if length rest < tl then (None, Freed, [])
           else (Some (ord (h ! 1), push_bit 8 (ord (h ! 2)) OR ord (h ! 3), take dlen rest), Live, drop tl rest))"

definition begreq :: "int \<Rightarrow> ofile \<Rightarrow> bool \<times> ofile" where
  "begreq rid out = sendrec FCGI_BEGIN_REQUEST rid [NUL, chr 1, NUL, NUL, NUL, NUL, NUL, NUL] out"

section \<open>Taking the reply apart\<close>

text \<open>The streams \<open>outplex\<close> writes, each the destination of the records of one type.\<close>

record outch =
  ch_id :: int
  ch_open :: bool
  ch_out :: ofile

fun deliver :: "int \<Rightarrow> string \<Rightarrow> outch list \<Rightarrow> bool \<times> outch list" where
  "deliver type data [] = (True, [])"
| "deliver type data (c # cs) =
     (if ch_id c = type then
        (if \<not> ch_open c then (True, c # cs)
         else if data = [] then (True, c\<lparr>ch_open := False\<rparr> # cs)
         else (case fputs data (ch_out c) of (ok, f) \<Rightarrow> (ok, c\<lparr>ch_out := f\<rparr> # cs)))
      else (case deliver type data cs of (ok, cs') \<Rightarrow> (ok, c # cs')))"

lemma recvrec_shorter: "recvrec inp = (Some r, p, rest) \<Longrightarrow> length rest < length inp"
  by (auto simp: recvrec_def Let_def split: if_splits)

text \<open>The loop up to the label \<open>out\<close>, and what is there in \<open>data\<close>.\<close>

function outplex_loop :: "string \<Rightarrow> outch list \<Rightarrow> dptr \<times> outch list" where
  "outplex_loop sk outs = (case recvrec sk of
      (None, p, _) \<Rightarrow> (p, outs)
    | (Some (type, rid, data), p, sk1) \<Rightarrow>
        if rid \<noteq> 1 then (p, outs)
        else (case deliver type data outs of
            (False, outs1) \<Rightarrow> (p, outs1)
          | (True, outs1) \<Rightarrow> outplex_loop sk1 outs1))"
  by pat_completeness auto
termination
  by (relation "measure (\<lambda>(sk, outs). length sk)") (auto dest: sym [THEN recvrec_shorter])

declare outplex_loop.simps [simp del]

text \<open>\<open>None\<close> is \<open>free\<close> on memory that is already free.\<close>

definition outplex :: "string \<Rightarrow> outch list \<Rightarrow> outch list option" where
  "outplex sk outs = (case outplex_loop sk outs of (p, outs1) \<Rightarrow>
     if p = Freed then None else Some (map (\<lambda>c. c\<lparr>ch_open := False\<rparr>) outs1))"

text \<open>\<open>errhandler\<close>: the lines of the other stream that are logged, read in pieces of 1023 bytes.\<close>

definition fgets_len :: "nat \<Rightarrow> string \<Rightarrow> nat" where
  "fgets_len n s = min n (min (length s) (Suc (length (takeWhile (\<lambda>c. c \<noteq> chr 10) s))))"

definition chop_newlines :: "cstring \<Rightarrow> cstring" where
  "chop_newlines s = rev (dropWhile (\<lambda>c. c = chr 10) (rev s))"

function errhandler :: "string \<Rightarrow> cstring list" where
  "errhandler inp =
     (if inp = [] then []
      else let k = fgets_len 1023 inp; line = chop_newlines (cstr (take k inp))
           in (if line \<noteq> [] then [line] else []) @ errhandler (drop k inp))"
  by pat_completeness auto
termination
  by (relation "measure length") (auto simp: fgets_len_def)

declare errhandler.simps [simp del]

section \<open>A request\<close>

function send_stdin :: "string \<Rightarrow> ofile \<Rightarrow> bool \<times> ofile" where
  "send_stdin inp out =
     (let buf = take 8192 inp in
      case sendrec FCGI_STDIN 1 buf out of
        (False, o1) \<Rightarrow> (False, o1)
      | (True, o1) \<Rightarrow> if length buf < 8192 then (True, o1) else send_stdin (drop 8192 inp) o1)"
  by pat_completeness auto
termination
  by (relation "measure (\<lambda>(inp, out). length inp)") auto

declare send_stdin.simps [simp del]

text \<open>
  What \<open>serve\<close> sends. \<open>Inl\<close> is a jump to \<open>out\<close>; its flag says whether \<open>head\<close>, which is given back
  there, has been set up before.
\<close>

definition fcgi_send :: "cstring \<Rightarrow> cstring \<Rightarrow> hthead \<Rightarrow> string \<Rightarrow> ofile \<Rightarrow> (bool + unit) \<times> ofile" where
  "fcgi_send version cwd req body os = (case begreq 1 os of
      (False, o1) \<Rightarrow> (Inl False, o1)
    | (True, o1) \<Rightarrow> (case sendrec FCGI_PARAMS 1 (fcgi_params version cwd req) o1 of
        (False, o2) \<Rightarrow> (Inl True, o2)
      | (True, o2) \<Rightarrow> (case sendrec FCGI_PARAMS 1 [] o2 of
          (False, o3) \<Rightarrow> (Inl True, o3)
        | (True, o3) \<Rightarrow> (case send_stdin body o3 of
            (False, o4) \<Rightarrow> (Inl True, o4)
          | (True, o4) \<Rightarrow> (case sendrec FCGI_STDIN 1 [] o4 of
              (False, o5) \<Rightarrow> (Inl True, o5)
            | (True, o5) \<Rightarrow> (Inr (), o5))))))"

definition out_channels :: "ofile \<Rightarrow> outch list" where
  "out_channels pipe = [\<lparr>ch_id = FCGI_STDOUT, ch_open = True, ch_out = pipe\<rparr>,
     \<lparr>ch_id = FCGI_STDERR, ch_open = True, ch_out = pipe\<rparr>]"

text \<open>
  The exchange: \<open>server\<close> tells the reply to what it has been sent, \<open>pipe\<close> is a fresh pipe between
  \<open>outplex\<close> and the two readers. The result is what has been sent, the logged lines and what the
  client has; \<open>None\<close> is memory given back twice, or never obtained.
\<close>

definition fcgi_serve :: "cstring \<Rightarrow> cstring \<Rightarrow> hthead \<Rightarrow> string \<Rightarrow> (string \<Rightarrow> string) \<Rightarrow> ofile \<Rightarrow> ofile \<Rightarrow> ofile \<Rightarrow>
    (ofile \<times> cstring list \<times> ofile) option" where
  "fcgi_serve version cwd req body server pipe os client =
     (case fcgi_send version cwd req body os of (r, os1) \<Rightarrow>
      case outplex (server (obytes os1)) (out_channels pipe) of
        None \<Rightarrow> None
      | Some outs \<Rightarrow>
          let outi = obytes (ch_out (outs ! 0)); erri = obytes (ch_out (outs ! 1)) in
          (case r of
             Inl False \<Rightarrow> None
           | Inl True \<Rightarrow> Some (os1, errhandler erri, client)
           | Inr _ \<Rightarrow> Some (os1, errhandler erri, send_reply outi client)))"

section \<open>The bits of the lengths\<close>

lemma byte_of: "drop_bit k (n AND push_bit k 255) = take_bit 8 (drop_bit k n)" for n :: int
proof -
  have "(255 :: int) = mask 8" by (simp add: mask_eq_exp_minus_1)
  then show ?thesis by (simp add: drop_bit_and drop_bit_push_bit take_bit_eq_mask)
qed

lemma word16_bytes:
  "0 \<le> n \<Longrightarrow> n < 65536 \<Longrightarrow> drop_bit 8 (n AND 0xff00) = n div 256"
  "0 \<le> n \<Longrightarrow> n < 65536 \<Longrightarrow> n AND 0x00ff = n mod 256" for n :: int
  using byte_of [of 8 n] byte_of [of 0 n]
  by (simp_all add: push_bit_eq_mult take_bit_eq_mod drop_bit_eq_div)

lemma join_bytes: "0 \<le> b \<Longrightarrow> b < 256 \<Longrightarrow> push_bit 8 a OR b = 256 * a + b" for a b :: int
proof -
  assume "0 \<le> b" "b < 256"
  then have "take_bit 8 b = b" by (simp add: take_bit_int_eq_self)
  then show ?thesis
    using concat_bit_eq [of 8 b a] by (simp add: concat_bit_def push_bit_eq_mult or.commute)
qed

lemma set_top_bit: "0 \<le> n \<Longrightarrow> n < 128 \<Longrightarrow> n OR 0x80 = n + 128" for n :: int
proof -
  assume "0 \<le> n" "n < 128"
  then have "take_bit 7 n = n" by (simp add: take_bit_int_eq_self)
  then show ?thesis
    using concat_bit_eq [of 7 n 1] by (simp add: concat_bit_def push_bit_eq_mult)
qed

section \<open>What a FastCGI server reads\<close>

text \<open>The lengths and the pairs, as the protocol has them.\<close>

fun read_length :: "string \<Rightarrow> (nat \<times> string) option" where
  "read_length [] = None"
| "read_length (a # t) =
     (if ord a < 128 then Some (nat (ord a), t)
      else (case t of
          b # c # d # u \<Rightarrow> Some (nat ((ord a - 128) * 2 ^ 24 + ord b * 2 ^ 16 + ord c * 2 ^ 8 + ord d), u)
        | _ \<Rightarrow> None))"

lemma read_length_shorter: "read_length s = Some (n, t) \<Longrightarrow> length t < length s"
  by (induction s rule: read_length.induct) (auto split: if_splits list.splits)

function read_params :: "string \<Rightarrow> (cstring \<times> cstring) list option" where
  "read_params s =
     (if s = [] then Some []
      else (case read_length s of
          None \<Rightarrow> None
        | Some (kl, s1) \<Rightarrow> (case read_length s1 of
            None \<Rightarrow> None
          | Some (vl, s2) \<Rightarrow>
              if length s2 < kl + vl then None
              else map_option ((#) (take kl s2, take vl (drop kl s2))) (read_params (drop (kl + vl) s2)))))"
  by pat_completeness auto
termination
  by (relation "measure length") (auto dest!: sym [of _ "read_length _"] read_length_shorter)

declare read_params.simps [simp del]

lemma join_quads: "n div 2 ^ 24 * 2 ^ 24 + n div 2 ^ 16 mod 256 * 2 ^ 16 + n div 2 ^ 8 mod 256 * 2 ^ 8 + n mod 256 = n"
  for n :: int
proof -
  define x y z where "x = n div 256" and "y = x div 256" and "z = y div 256"
  have "n div 2 ^ 24 = z" "n div 2 ^ 16 = y" "n div 2 ^ 8 = x"
    by (simp_all add: x_def y_def z_def flip: zdiv_zmult2_eq)
  moreover have "n mod 256 = n - 256 * x" "x mod 256 = x - 256 * y" "y mod 256 = y - 256 * z"
    unfolding x_def y_def z_def by (simp_all add: minus_mult_div_eq_mod)
  ultimately show ?thesis by (simp add: algebra_simps)
qed

lemma read_kv_length: "0 \<le> n \<Longrightarrow> n < 2 ^ 31 \<Longrightarrow> read_length (kv_length n @ t) = Some (nat n, t)"
proof (cases "n < 128")
  case False
  assume n: "0 \<le> n" "n < 2 ^ 31"
  have a: "drop_bit 24 (n AND 0x7f000000) = n div 2 ^ 24"
  proof -
    have "drop_bit 24 (n AND push_bit 24 (mask 7)) = take_bit 7 (drop_bit 24 n)"
      by (simp add: drop_bit_and drop_bit_push_bit take_bit_eq_mask)
    also have "\<dots> = n div 2 ^ 24"
      using n by (simp add: drop_bit_eq_div take_bit_int_eq_self)
    finally show ?thesis by (simp add: push_bit_eq_mult mask_eq_exp_minus_1)
  qed
  have b: "drop_bit 16 (n AND 0x00ff0000) = n div 2 ^ 16 mod 256"
    using byte_of [of 16 n] by (simp add: push_bit_eq_mult take_bit_eq_mod drop_bit_eq_div)
  have c: "drop_bit 8 (n AND 0x0000ff00) = n div 2 ^ 8 mod 256"
    using byte_of [of 8 n] by (simp add: push_bit_eq_mult take_bit_eq_mod drop_bit_eq_div)
  have d: "n AND 0x000000ff = n mod 256"
    using byte_of [of 0 n] by (simp add: push_bit_eq_mult take_bit_eq_mod drop_bit_eq_div)
  have top: "0 \<le> n div 2 ^ 24" "n div 2 ^ 24 < 128" using n by simp_all
  have "n div 2 ^ 24 * 2 ^ 24 + n div 2 ^ 16 mod 256 * 2 ^ 16 + n div 2 ^ 8 mod 256 * 2 ^ 8 + n mod 256 = n"
    by (rule join_quads)
  moreover have "ord (chr (n div 2 ^ 24 OR 0x80)) = n div 2 ^ 24 + 128"
    using top by (simp only: set_top_bit) (rule ord_chr_id, simp_all)
  moreover have "ord (chr (m mod 256)) = m mod 256" for m by (simp add: ord_chr)
  ultimately show ?thesis
    using False top by (simp only: kv_length_def a b c d if_False append_Cons append_Nil read_length.simps list.case) simp
qed (simp add: kv_length_def)

abbreviation short_kv :: "cstring \<times> cstring \<Rightarrow> bool" where
  "short_kv kv \<equiv> length (fst kv) < 2 ^ 31 \<and> length (snd kv) < 2 ^ 31"

lemma read_params_kv:
  assumes "short_kv kv"
  shows "read_params (bufcatkv [] kv @ t) = map_option ((#) kv) (read_params t)"
proof -
  obtain k v where kv: "kv = (k, v)" by fastforce
  have "kv_length n \<noteq> []" for n by (simp add: kv_length_def)
  with assms show ?thesis
    by (subst read_params.simps) (simp add: kv bufcatkv_def read_kv_length)
qed

lemma bufcatkv_acc: "foldl bufcatkv dst env = dst @ foldl bufcatkv [] env"
proof (induction env arbitrary: dst)
  case (Cons kv env)
  have "bufcatkv dst kv = dst @ bufcatkv [] kv" by (simp add: bufcatkv_def split: prod.split)
  then show ?case using Cons [of "bufcatkv dst kv"] Cons [of "bufcatkv [] kv"] by simp
qed simp

lemma read_params_env: "\<forall>kv\<in>set env. short_kv kv \<Longrightarrow> read_params (foldl bufcatkv [] env) = Some env"
proof (induction env)
  case Nil
  show ?case by (simp add: read_params.simps)
next
  case (Cons kv env)
  then show ?case
    using bufcatkv_acc [of "bufcatkv [] kv" env] by (simp add: read_params_kv)
qed

section \<open>Records of a stream of bytes\<close>

function records :: "string \<Rightarrow> (int \<times> int \<times> string) list" where
  "records s = (case recvrec s of (Some r, _, t) \<Rightarrow> r # records t | (None, _, _) \<Rightarrow> [])"
  by pat_completeness auto
termination
  by (relation "measure length") (auto dest: sym [THEN recvrec_shorter])

declare records.simps [simp del]

text \<open>A stream of one type ends with its first empty record.\<close>

definition stream_of :: "int \<Rightarrow> (int \<times> int \<times> string) list \<Rightarrow> string" where
  "stream_of type rs = concat (takeWhile (\<lambda>d. d \<noteq> []) (map (snd \<circ> snd) (filter (\<lambda>r. fst r = type) rs)))"

definition frame :: "int \<Rightarrow> int \<Rightarrow> string \<Rightarrow> string" where
  "frame type rid data =
     (let p = (8 - length data mod 8) mod 8 in rec_header type rid (int (length data)) (int p) @ data @ replicate p NUL)"

abbreviation rec_ok :: "int \<times> int \<times> string \<Rightarrow> bool" where
  "rec_ok r \<equiv> 0 \<le> fst r \<and> fst r < 256 \<and> 0 \<le> fst (snd r) \<and> fst (snd r) < 65536 \<and> length (snd (snd r)) \<le> 65535"

lemma recvrec_frame:
  assumes "rec_ok (type, rid, data)"
  shows "recvrec (frame type rid data @ t) = (Some (type, rid, data), Live, t)"
proof -
  define p where "p = (8 - length data mod 8) mod 8"
  define l where "l = int (length data)"
  have p: "p < 256" by (simp add: p_def)
  have l: "0 \<le> l" "l < 65536" using assms by (simp_all add: l_def)
  have hdr: "rec_header type rid l (int p) =
      [chr 1, chr type, chr (rid div 256), chr (rid mod 256), chr (l div 256), chr (l mod 256), chr (int p), chr 0]"
    using assms l unfolding rec_header_def word16_bytes [OF l] by (simp add: word16_bytes del: drop_bit_and)
  have "rid < 65536" using assms by simp
  then have "rid div 256 < 256" "l div 256 < 256" using l by presburger+
  moreover have "0 \<le> rid div 256" using assms by (simp add: pos_imp_zdiv_nonneg_iff)
  ultimately have "push_bit 8 (ord (chr (l div 256))) OR ord (chr (l mod 256)) = l"
    "push_bit 8 (ord (chr (rid div 256))) OR ord (chr (rid mod 256)) = rid"
    using assms l by (simp_all add: join_bytes)
  moreover have "frame type rid data = rec_header type rid l (int p) @ data @ replicate p NUL"
    by (simp add: frame_def p_def l_def Let_def)
  moreover have "nat l = length data" by (simp add: l_def)
  ultimately show ?thesis
    using assms p unfolding recvrec_def by (simp add: hdr Let_def)
qed

lemma records_frame:
  "rec_ok (type, rid, data) \<Longrightarrow> records (frame type rid data @ t) = (type, rid, data) # records t"
  by (subst records.simps) (simp add: recvrec_frame)

text \<open>The records \<open>sendrec\<close> makes of a text.\<close>

function chunks :: "string \<Rightarrow> string list" where
  "chunks data = (let cl = min (length data) 65535
     in if drop cl data = [] then [data] else take cl data # chunks (drop cl data))"
  by pat_completeness auto
termination
  by (relation "measure length") auto

declare chunks.simps [simp del]

definition frames :: "int \<Rightarrow> string list \<Rightarrow> string" where
  "frames type ds = concat (map (frame type 1) ds)"

lemma frames_simps [simp]:
  "frames type [] = []" "frames type (d # ds) = frame type 1 d @ frames type ds"
  "frames type (ds @ es) = frames type ds @ frames type es"
  by (simp_all add: frames_def)

lemma concat_chunks: "concat (chunks data) = data"
  by (induction data rule: chunks.induct, subst chunks.simps) (simp add: Let_def)

lemma chunks_bounds: "d \<in> set (chunks data) \<Longrightarrow> length d \<le> 65535 \<and> (data \<noteq> [] \<longrightarrow> d \<noteq> [])"
proof (induction data rule: chunks.induct)
  case (1 data)
  let ?cl = "min (length data) 65535"
  show ?case
  proof (cases "drop ?cl data = []")
    case True
    then have "chunks data = [data]" by (subst chunks.simps) (simp add: Let_def)
    moreover have "length data \<le> 65535" using True by (auto simp: min_def split: if_splits)
    ultimately show ?thesis using "1.prems" by simp
  next
    case False
    then have "chunks data = take ?cl data # chunks (drop ?cl data)" by (subst chunks.simps) (simp add: Let_def)
    moreover have "data \<noteq> []" using False by auto
    ultimately show ?thesis using "1.prems" "1.IH" [OF refl False] False by auto
  qed
qed

definition put :: "string \<Rightarrow> ofile \<Rightarrow> ofile" where
  "put s f = f\<lparr>obytes := obytes f @ s, oroom := oroom f - length s\<rparr>"

lemma put_simps [simp]:
  "obytes (put s f) = obytes f @ s" "oroom (put s f) = oroom f - length s"
  "put t (put s f) = put (s @ t) f" "put [] f = f"
  by (simp_all add: put_def)

lemma fputs_put: "length s \<le> oroom f \<Longrightarrow> fputs s f = (True, put s f)"
  by (simp add: fputs_room put_def)

lemma sendrec_frames:
  "length (frames type (chunks data)) \<le> oroom out \<Longrightarrow>
    sendrec type 1 data out = (True, put (frames type (chunks data)) out)"
proof (induction data arbitrary: out rule: chunks.induct)
  case (1 data)
  define cl where "cl = min (length data) 65535"
  define h where "h = frame type 1 (take cl data)"
  have len: "length (take cl data) = cl" by (simp add: cl_def)
  have one: "sendrec type 1 data out =
      (if drop cl data = [] then (True, put h out) else sendrec type 1 (drop cl data) (put h out))"
    if "length h \<le> oroom out"
  proof -
    define p where "p = (8 - cl mod 8) mod 8"
    define a where "a = rec_header type 1 (int cl) (int p)"
    have h: "h = a @ take cl data @ replicate p NUL" by (simp only: h_def frame_def p_def a_def len Let_def)
    have "sendrec type 1 data out = (case fputs a out of (False, o1) \<Rightarrow> (False, o1)
      | (True, o1) \<Rightarrow> (case fputs (take cl data) o1 of (False, o2) \<Rightarrow> (False, o2)
        | (True, o2) \<Rightarrow> (case fputs (replicate p NUL) o2 of (False, o3) \<Rightarrow> (False, o3)
          | (True, o3) \<Rightarrow> if drop cl data = [] then (True, o3) else sendrec type 1 (drop cl data) o3)))"
      by (subst sendrec.simps) (simp only: Let_def cl_def [symmetric] p_def [symmetric] a_def [symmetric])
    moreover have "fputs a out = (True, put a out)"
      using that by (intro fputs_put) (simp add: h)
    moreover have "fputs (take cl data) (put a out) = (True, put (a @ take cl data) out)"
      using that by (subst fputs_put) (simp_all add: h)
    moreover have "fputs (replicate p NUL) (put (a @ take cl data) out) = (True, put h out)"
      using that by (subst fputs_put) (simp_all add: h)
    ultimately show ?thesis by (simp only: prod.case bool.case if_True)
  qed
  show ?case
  proof (cases "drop cl data = []")
    case True
    then have "chunks data = [data]" by (subst chunks.simps) (simp add: Let_def cl_def)
    with True one "1.prems" show ?thesis by (simp add: h_def)
  next
    case False
    then have ch: "chunks data = take cl data # chunks (drop cl data)" by (subst chunks.simps) (simp add: Let_def cl_def)
    with "1.prems" have "length (frames type (chunks (drop cl data))) \<le> oroom (put h out)" "length h \<le> oroom out"
      by (simp_all add: h_def)
    with one False "1.IH" [OF cl_def False] ch show ?thesis by (simp add: h_def)
  qed
qed

lemma records_frames:
  "0 \<le> type \<Longrightarrow> type < 256 \<Longrightarrow> \<forall>d\<in>set ds. length d \<le> 65535 \<Longrightarrow>
    records (frames type ds @ t) = map (\<lambda>d. (type, 1, d)) ds @ records t"
  by (induction ds) (simp_all add: records_frame)

section \<open>The message of a request\<close>

function blocks :: "string \<Rightarrow> string list" where
  "blocks body = take 8192 body # (if length body < 8192 then [] else blocks (drop 8192 body))"
  by pat_completeness auto
termination
  by (relation "measure length") auto

declare blocks.simps [simp del]

lemma blocks_short: "length body < 8192 \<Longrightarrow> blocks body = [body]"
  by (subst blocks.simps) simp

lemma blocks_long: "\<not> length body < 8192 \<Longrightarrow> blocks body = take 8192 body # blocks (drop 8192 body)"
  by (subst blocks.simps) simp

definition fcgi_message :: "string \<Rightarrow> string \<Rightarrow> string" where
  "fcgi_message params body =
     frames FCGI_BEGIN_REQUEST [[NUL, chr 1, NUL, NUL, NUL, NUL, NUL, NUL]] @
     frames FCGI_PARAMS (chunks params @ [[]]) @ frames FCGI_STDIN (blocks body @ [[]])"

lemma chunks_short: "length data \<le> 65535 \<Longrightarrow> chunks data = [data]"
  by (subst chunks.simps) simp

lemma blocks_bounds: "d \<in> set (blocks body) \<Longrightarrow> length d \<le> 65535"
proof (induction body rule: blocks.induct)
  case (1 body)
  have "d = take 8192 body \<or> \<not> length body < 8192 \<and> d \<in> set (blocks (drop 8192 body))"
    using "1.prems" by (subst (asm) blocks.simps) (auto split: if_splits)
  with "1.IH" show ?case by auto
qed

lemma blocks_stream: "concat (takeWhile (\<lambda>d. d \<noteq> []) (blocks body @ [[]])) = body"
proof (induction body rule: blocks.induct)
  case (1 body)
  show ?case
  proof (cases "length body < 8192")
    case True
    then show ?thesis by (simp add: blocks_short)
  next
    case False
    then have "take 8192 body \<noteq> []" by (cases body) simp_all
    with "1" [OF False] blocks_long [OF False] show ?thesis by simp
  qed
qed

lemma chunks_stream: "concat (takeWhile (\<lambda>d. d \<noteq> []) (chunks data @ [[]])) = data"
proof (cases "data = []")
  case False
  then have "takeWhile (\<lambda>d. d \<noteq> []) (chunks data @ [[]]) = chunks data"
    using chunks_bounds [of _ data] by (subst takeWhile_append2) auto
  then show ?thesis by (simp add: concat_chunks)
qed (simp add: chunks_short)

lemma send_stdin_frames:
  "length (frames FCGI_STDIN (blocks body)) \<le> oroom out \<Longrightarrow>
    send_stdin body out = (True, put (frames FCGI_STDIN (blocks body)) out)"
proof (induction body arbitrary: out rule: blocks.induct)
  case (1 body)
  let ?b = "take 8192 body"
  have ch: "frames FCGI_STDIN (chunks ?b) = frame FCGI_STDIN 1 ?b" by (simp add: chunks_short)
  have "length (frame FCGI_STDIN 1 ?b) \<le> oroom out" using "1.prems" by (subst (asm) blocks.simps) simp
  then have sr: "sendrec FCGI_STDIN 1 ?b out = (True, put (frame FCGI_STDIN 1 ?b) out)"
    using sendrec_frames [of FCGI_STDIN ?b out] by (simp add: ch)
  show ?case
  proof (cases "length body < 8192")
    case True
    then have "send_stdin body out = (True, put (frame FCGI_STDIN 1 ?b) out)"
      using sr by (subst send_stdin.simps) simp
    with True show ?thesis by (simp add: blocks_short)
  next
    case False
    note bl = blocks_long [OF False]
    have "send_stdin body out = send_stdin (drop 8192 body) (put (frame FCGI_STDIN 1 ?b) out)"
      using sr False by (subst send_stdin.simps) simp
    also have "\<dots> = (True, put (frames FCGI_STDIN (blocks body)) out)"
      using "1.IH" [OF False, of "put (frame FCGI_STDIN 1 ?b) out"] "1.prems" by (simp add: bl)
    finally show ?thesis .
  qed
qed

lemma fcgi_send_message:
  assumes "length (fcgi_message (fcgi_params version cwd req) body) \<le> oroom os"
  shows "fcgi_send version cwd req body os = (Inr (), put (fcgi_message (fcgi_params version cwd req) body) os)"
proof -
  note sr = sendrec_frames [of _ "[]"] sendrec_frames [of FCGI_PARAMS]
    sendrec_frames [of FCGI_BEGIN_REQUEST "[NUL, chr 1, NUL, NUL, NUL, NUL, NUL, NUL]"]
  show ?thesis
    using assms unfolding fcgi_send_def fcgi_message_def begreq_def
    by (simp add: sr send_stdin_frames chunks_short)
qed

lemma records_message:
  "records (fcgi_message params body) = (FCGI_BEGIN_REQUEST, 1, [NUL, chr 1, NUL, NUL, NUL, NUL, NUL, NUL]) #
    map (\<lambda>d. (FCGI_PARAMS, 1, d)) (chunks params @ [[]]) @ map (\<lambda>d. (FCGI_STDIN, 1, d)) (blocks body @ [[]])"
proof -
  have bounds: "\<forall>d\<in>set (chunks params @ [[]]). length d \<le> 65535" "\<forall>d\<in>set (blocks body @ [[]]). length d \<le> 65535"
    using chunks_bounds [of _ params] blocks_bounds [of _ body] by auto
  have "records [] = []" by (subst records.simps) (simp add: recvrec_def)
  then have "records (frames FCGI_STDIN (blocks body @ [[]])) = map (\<lambda>d. (FCGI_STDIN, 1, d)) (blocks body @ [[]])"
    using records_frames [OF _ _ bounds(2), of FCGI_STDIN "[]"] by (simp add: fcgi_types)
  moreover have "records (frames FCGI_PARAMS (chunks params @ [[]]) @ t) = map (\<lambda>d. (FCGI_PARAMS, 1, d)) (chunks params @ [[]]) @ records t" for t
    using records_frames [OF _ _ bounds(1), of FCGI_PARAMS t] by (simp add: fcgi_types)
  moreover have "records (frames FCGI_BEGIN_REQUEST [d] @ t) = (FCGI_BEGIN_REQUEST, 1, d) # records t"
    if "length d \<le> 65535" for d t
    using that records_frames [of FCGI_BEGIN_REQUEST "[d]" t] by (simp add: fcgi_types)
  ultimately show ?thesis unfolding fcgi_message_def by simp
qed

lemma stream_of_append: "\<forall>r\<in>set rs. fst r \<noteq> type \<Longrightarrow> stream_of type (rs @ qs) = stream_of type qs"
  "\<forall>r\<in>set qs. fst r \<noteq> type \<Longrightarrow> stream_of type (rs @ qs) = stream_of type rs"
  by (simp_all add: stream_of_def filter_False)

lemma stream_of_map: "stream_of type (map (\<lambda>d. (type, 1, d)) ds) = concat (takeWhile (\<lambda>d. d \<noteq> []) ds)"
  by (simp add: stream_of_def comp_def)

lemma streams_message:
  "stream_of FCGI_PARAMS (records (fcgi_message params body)) = params"
  "stream_of FCGI_STDIN (records (fcgi_message params body)) = body"
proof -
  let ?p = "map (\<lambda>d. (FCGI_PARAMS, 1, d)) (chunks params @ [[]]) :: (int \<times> int \<times> string) list"
  let ?b = "map (\<lambda>d. (FCGI_STDIN, 1, d)) (blocks body @ [[]]) :: (int \<times> int \<times> string) list"
  let ?h = "[(FCGI_BEGIN_REQUEST, 1, [NUL, chr 1, NUL, NUL, NUL, NUL, NUL, NUL])] :: (int \<times> int \<times> string) list"
  have r: "records (fcgi_message params body) = ?h @ ?p @ ?b" by (simp add: records_message)
  have "stream_of FCGI_PARAMS (?h @ ?p @ ?b) = stream_of FCGI_PARAMS ?p"
    by (subst stream_of_append, simp add: fcgi_types, subst stream_of_append(2)) (auto simp: fcgi_types)
  then show "stream_of FCGI_PARAMS (records (fcgi_message params body)) = params"
    unfolding r stream_of_map chunks_stream .
  have "stream_of FCGI_STDIN ((?h @ ?p) @ ?b) = stream_of FCGI_STDIN ?b"
    by (subst stream_of_append) (auto simp: fcgi_types)
  then show "stream_of FCGI_STDIN (records (fcgi_message params body)) = body"
    unfolding r append_assoc stream_of_map blocks_stream .
qed

section \<open>The reply\<close>

text \<open>How the records of a stream end: \<open>Freed\<close> is in the middle of one.\<close>

function rec_end :: "string \<Rightarrow> dptr" where
  "rec_end s = (case recvrec s of (Some _, _, t) \<Rightarrow> rec_end t | (None, p, _) \<Rightarrow> p)"
  by pat_completeness auto
termination
  by (relation "measure length") (auto dest: sym [THEN recvrec_shorter])

declare rec_end.simps [simp del]

definition feed :: "int \<times> int \<times> string \<Rightarrow> outch \<Rightarrow> outch" where
  "feed r c = (if ch_id c = fst r \<and> ch_open c
     then if snd (snd r) = [] then c\<lparr>ch_open := False\<rparr> else c\<lparr>ch_out := put (snd (snd r)) (ch_out c)\<rparr> else c)"

lemma feed_other: "fst r \<notin> ch_id ` set cs \<Longrightarrow> map (feed r) cs = cs"
  by (induction cs) (auto simp: feed_def)

lemma feed_id [simp]: "ch_id (feed r c) = ch_id c"
  by (simp add: feed_def)

lemma deliver_feed:
  "distinct (map ch_id cs) \<Longrightarrow> \<forall>c\<in>set cs. length data \<le> oroom (ch_out c) \<Longrightarrow>
    deliver type data cs = (True, map (feed (type, rid, data)) cs)"
proof (induction cs)
  case (Cons c cs)
  show ?case
  proof (cases "ch_id c = type")
    case True
    then have "map (feed (type, rid, data)) cs = cs" using Cons.prems(1) by (intro feed_other) simp
    with True Cons.prems(2) show ?thesis by (simp add: fputs_put) (simp add: feed_def)
  next
    case False
    then have "feed (type, rid, data) c = c" by (simp add: feed_def)
    with False Cons show ?thesis by simp
  qed
qed simp

abbreviation datalen :: "(int \<times> int \<times> string) list \<Rightarrow> nat" where
  "datalen rs \<equiv> length (concat (map (snd \<circ> snd) rs))"

lemma feed_room: "length (snd (snd r)) + n \<le> oroom (ch_out c) \<Longrightarrow> n \<le> oroom (ch_out (feed r c))"
  by (auto simp: feed_def)

lemma outplex_loop_feeds:
  "\<forall>r\<in>set (records sk). fst (snd r) = 1 \<Longrightarrow> distinct (map ch_id cs) \<Longrightarrow>
    \<forall>c\<in>set cs. datalen (records sk) \<le> oroom (ch_out c) \<Longrightarrow>
    outplex_loop sk cs = (rec_end sk, map (fold feed (records sk)) cs)"
proof (induction sk arbitrary: cs rule: records.induct)
  case (1 s)
  obtain r p t where rec: "recvrec s = (r, p, t)" using prod_cases3 by blast
  show ?case
  proof (cases r)
    case None
    then show ?thesis
      by (simp add: outplex_loop.simps [of s] rec_end.simps [of s] records.simps [of s] rec)
  next
    case (Some q)
    obtain type rid data where q: "q = (type, rid, data)" using prod_cases3 by blast
    have rs: "records s = q # records t" by (subst records.simps) (simp add: rec Some)
    have e: "rec_end s = rec_end t" by (subst rec_end.simps) (simp add: rec Some)
    have "deliver type data cs = (True, map (feed q) cs)"
      using "1.prems"(2,3) unfolding q by (intro deliver_feed) (auto simp: rs q)
    then have "outplex_loop s cs = outplex_loop t (map (feed q) cs)"
      using "1.prems"(1) by (subst outplex_loop.simps) (simp add: rec Some q rs)
    also have "\<dots> = (rec_end t, map (fold feed (records t)) (map (feed q) cs))"
    proof (rule "1.IH" [OF rec [symmetric] Some refl])
      show "\<forall>c\<in>set (map (feed q) cs). datalen (records t) \<le> oroom (ch_out c)"
        using "1.prems"(3) by (auto simp: rs comp_def intro!: feed_room)
    qed (use "1.prems" in \<open>simp_all add: rs comp_def\<close>)
    finally show ?thesis by (simp add: rs e comp_def)
  qed
qed

lemma feed_stream:
  "ch_out (fold feed rs c) = (if ch_open c then put (stream_of (ch_id c) rs) (ch_out c) else ch_out c) \<and>
   ch_id (fold feed rs c) = ch_id c"
  by (induction rs arbitrary: c) (auto simp: feed_def stream_of_def)

lemma outplex_streams:
  assumes "\<forall>r\<in>set (records sk). fst (snd r) = 1" "datalen (records sk) \<le> oroom pipe"
  shows "outplex sk (out_channels pipe) = (if rec_end sk = Freed then None else
    Some [\<lparr>ch_id = FCGI_STDOUT, ch_open = False, ch_out = put (stream_of FCGI_STDOUT (records sk)) pipe\<rparr>,
      \<lparr>ch_id = FCGI_STDERR, ch_open = False, ch_out = put (stream_of FCGI_STDERR (records sk)) pipe\<rparr>])"
proof -
  let ?cs = "out_channels pipe"
  have "outplex_loop sk ?cs = (rec_end sk, map (fold feed (records sk)) ?cs)"
    using assms by (intro outplex_loop_feeds) (auto simp: out_channels_def fcgi_types)
  moreover have "(fold feed (records sk) c)\<lparr>ch_open := False\<rparr> =
      \<lparr>ch_id = ch_id c, ch_open = False, ch_out = put (stream_of (ch_id c) (records sk)) (ch_out c)\<rparr>"
    if "ch_open c" for c
    using that feed_stream [of "records sk" c] by (cases "fold feed (records sk) c") simp
  ultimately show ?thesis by (simp add: outplex_def out_channels_def)
qed

lemma rec_end_truncated:
  assumes "rec_ok (type, rid, data)" "8 \<le> n" "n < length (frame type rid data)"
  shows "rec_end (take n (frame type rid data)) = Freed" "records (take n (frame type rid data)) = []"
proof -
  let ?s = "take n (frame type rid data)"
  define l p where "l = length data" and "p = (8 - l mod 8) mod 8"
  have f: "frame type rid data = rec_header type rid (int l) (int p) @ data @ replicate p NUL"
    by (simp add: frame_def p_def l_def Let_def)
  have h: "length (rec_header type rid (int l) (int p)) = 8" by (simp add: rec_header_def)
  have "recvrec (frame type rid data @ []) = (Some (type, rid, data), Live, [])" by (rule recvrec_frame [OF assms(1)])
  then have ok: "ord (frame type rid data ! 0) = 1" "ord (frame type rid data ! 7) = 0"
    by (auto simp: recvrec_def Let_def split: if_splits)
  have l: "0 \<le> int l" "int l < 65536" "p < 8" using assms(1) by (simp_all add: l_def p_def)
  have "x div 256 < 256" if "x < 65536" for x :: int using that by presburger
  then have "push_bit 8 (ord (chr (int l div 256))) OR ord (chr (int l mod 256)) = int l"
    using l by (simp add: join_bytes)
  moreover have "frame type rid data ! 4 = chr (int l div 256)" "frame type rid data ! 5 = chr (int l mod 256)"
    "frame type rid data ! 6 = chr (int p)"
    using l by (simp_all add: f rec_header_def word16_bytes del: drop_bit_and)
  ultimately have "nat (push_bit 8 (ord (frame type rid data ! 4)) OR ord (frame type rid data ! 5)) = l"
    "nat (ord (frame type rid data ! 6)) = p"
    using l by simp_all
  moreover have "length ?s - 8 < l + p"
  proof -
    have "length (frame type rid data) = 8 + (l + p)" using h by (simp add: f l_def)
    with assms(2,3) show ?thesis by simp
  qed
  moreover have "take 8 ?s ! i = frame type rid data ! i" if "i < 8" for i
    using that assms(2) by simp
  ultimately have "recvrec ?s = (None, Freed, [])"
    using assms(2,3) ok by (simp add: recvrec_def Let_def)
  then show "rec_end ?s = Freed" "records ?s = []"
    by (simp_all add: rec_end.simps [of ?s] records.simps [of ?s])
qed

lemma rec_end_frame:
  "rec_ok (type, rid, data) \<Longrightarrow> rec_end (frame type rid data @ t) = rec_end t"
  by (subst rec_end.simps) (simp add: recvrec_frame)

lemma rec_end_frames:
  "0 \<le> type \<Longrightarrow> type < 256 \<Longrightarrow> \<forall>d\<in>set ds. length d \<le> 65535 \<Longrightarrow>
    rec_end (frames type ds @ t) = rec_end t"
  by (induction ds) (simp_all add: rec_end_frame)

lemma rec_end_message: "rec_end (fcgi_message params body) = Null"
proof -
  have bounds: "\<forall>d\<in>set (chunks params @ [[]]). length d \<le> 65535" "\<forall>d\<in>set (blocks body @ [[]]). length d \<le> 65535"
    using chunks_bounds [of _ params] blocks_bounds [of _ body] by auto
  have "rec_end [] = Null" by (subst rec_end.simps) (simp add: recvrec_def)
  then have "rec_end (frames FCGI_STDIN (blocks body @ [[]]) @ []) = Null"
    using rec_end_frames [OF _ _ bounds(2), of FCGI_STDIN "[]"] by (simp add: fcgi_types)
  then show ?thesis
    using rec_end_frames [OF _ _ bounds(1), of FCGI_PARAMS]
      rec_end_frames [of FCGI_BEGIN_REQUEST "[[NUL, chr 1, NUL, NUL, NUL, NUL, NUL, NUL]]"]
    unfolding fcgi_message_def by (simp add: fcgi_types)
qed

lemma datalen_records: "datalen (records s) \<le> length s"
proof (induction s rule: records.induct)
  case (1 s)
  obtain r p t where rec: "recvrec s = (r, p, t)" using prod_cases3 by blast
  show ?case
  proof (cases r)
    case (Some q)
    have "length (snd (snd q)) + length t \<le> length s"
      using rec Some by (auto simp: recvrec_def Let_def split: if_splits)
    moreover have "records s = q # records t" by (subst records.simps) (simp add: rec Some)
    ultimately show ?thesis using "1.IH" [OF rec [symmetric] Some refl] by simp
  qed (subst records.simps, simp add: rec)
qed

section \<open>Properties\<close>





text \<open>A server that stops in the middle of a record, after whole ones, brings the gateway down with
  all its other requests: the text of the record is given back by \<open>recvrec\<close> and then again by
  \<open>outplex\<close>.\<close>

lemma fcgi_truncated_reply:
  assumes "server (obytes (snd (fcgi_send version cwd req body os))) =
      frames FCGI_STDOUT ds @ take n (frame type rid data)"
    and "list_all (\<lambda>d. length d \<le> 65535) ds" "rec_ok (type, rid, data)"
    and "8 \<le> n" "n < length (frame type rid data)" "length (concat ds) \<le> oroom pipe"
  shows "fcgi_serve version cwd req body server pipe os client = None"
proof -
  let ?cut = "take n (frame type rid data)"
  let ?r = "frames FCGI_STDOUT ds @ ?cut"
  have ds: "\<forall>d\<in>set ds. length d \<le> 65535" using assms(2) by (simp add: list_all_iff)
  have rs: "records ?r = map (\<lambda>d. (FCGI_STDOUT, 1, d)) ds"
    using records_frames [OF _ _ ds, of FCGI_STDOUT ?cut] rec_end_truncated(2) [OF assms(3-5)]
    by (simp add: fcgi_types)
  have "rec_end ?r = Freed"
    using rec_end_frames [OF _ _ ds, of FCGI_STDOUT ?cut] rec_end_truncated(1) [OF assms(3-5)]
    by (simp add: fcgi_types)
  moreover have "datalen (records ?r) \<le> oroom pipe" using assms(6) by (simp add: rs comp_def)
  ultimately have "outplex ?r (out_channels pipe) = None" using outplex_streams [of ?r pipe] by (simp add: rs)
  moreover obtain r os1 where "fcgi_send version cwd req body os = (r, os1)" by fastforce
  ultimately show ?thesis using assms(1) by (simp add: fcgi_serve_def)
qed

lemma fcgi_truncated_reply_witness:
  "fcgi_serve ''1'' ''/'' a_cgi_req [] (\<lambda>_. frames FCGI_STDOUT [''ab''] @ take 9 (frame FCGI_STDOUT 1 ''xyz''))
     \<lparr>obytes = [], oroom = 100\<rparr> \<lparr>obytes = [], oroom = 1000\<rparr> \<lparr>obytes = [], oroom = 100\<rparr> = None"
proof -
  have "rec_ok (FCGI_STDOUT, 1, ''xyz'')" "list_all (\<lambda>d. length d \<le> 65535) [''ab'']" by (simp_all add: fcgi_types)
  moreover have "9 < length (frame FCGI_STDOUT 1 ''xyz'')" by (simp add: frame_def rec_header_def)
  ultimately show ?thesis
    using fcgi_truncated_reply [where ds = "[''ab'']" and n = 9 and type = FCGI_STDOUT and rid = 1 and data = "''xyz''"]
    by simp
qed

end
