(* ===== verification/Callcgi.thy ===== *)
theory Callcgi
  imports Cgi Children Htparser "HOL-Library.AList"
begin

text \<open>
  The CGI gateway, \<open>src/callcgi.c\<close>, a program started anew for each request by \<open>stdforkserve\<close>: the
  environment it gives to the CGI program, and what it makes of the program's output.
\<close>

section \<open>The environment\<close>

text \<open>
  An environment is a list of names and values; \<open>putenv\<close> replaces the value of a name that is there
  and appends one that is not.
\<close>

type_synonym environment = "(cstring \<times> cstring) list"

definition putenv :: "cstring \<Rightarrow> cstring \<Rightarrow> environment \<Rightarrow> environment" where
  "putenv name val env = AList.update name val env"

definition getenv :: "environment \<Rightarrow> cstring \<Rightarrow> cstring option" where
  "getenv env name = map_of env name"

definition copyenv :: "cstring \<Rightarrow> cstring \<Rightarrow> environment \<Rightarrow> environment" where
  "copyenv src dst env = (case getenv env src of None \<Rightarrow> env | Some v \<Rightarrow> putenv dst v env)"

definition cgi_copies :: "(cstring \<times> cstring) list" where
  "cgi_copies =
     [(''REQ_X_ASH_ADDRESS'', ''REMOTE_ADDR''), (''REQ_X_ASH_PORT'', ''REMOTE_PORT''),
      (''REQ_X_ASH_REMOTE_USER'', ''REMOTE_USER''), (''REQ_CONTENT_TYPE'', ''CONTENT_TYPE''),
      (''REQ_CONTENT_LENGTH'', ''CONTENT_LENGTH'')]"

definition server_copies :: "(cstring \<times> cstring) list" where
  "server_copies =
     [(''REQ_HOST'', ''SERVER_NAME''), (''REQ_X_ASH_SERVER_ADDRESS'', ''SERVER_ADDR''),
      (''REQ_X_ASH_SERVER_PORT'', ''SERVER_PORT'')]"

definition copies :: "(cstring \<times> cstring) list \<Rightarrow> environment \<Rightarrow> environment" where
  "copies cs env = fold (\<lambda>(src, dst). copyenv src dst) cs env"

text \<open>\<open>envp\<close> is the environment the process was started with; the loop goes over it and not over the copy that
  \<open>putenv\<close> has made.\<close>

definition http_copies :: "environment \<Rightarrow> environment \<Rightarrow> environment" where
  "http_copies envp env =
     fold (\<lambda>(n, v) env. if take 4 n = ''REQ_'' then putenv (''HTTP_'' @ drop 4 n) v env else env) envp env"

definition cgi_child_env :: "cstring \<Rightarrow> cstring \<Rightarrow> cstring option \<Rightarrow> cstring \<Rightarrow> cstring \<Rightarrow> cstring \<Rightarrow> environment \<Rightarrow> environment" where
  "cgi_child_env version cwd file method url rest envp =
     (case cgi_url url of (path, qp) \<Rightarrow>
      case script_path rest path of (name, pinf) \<Rightarrow>
      let e1 = putenv ''GATEWAY_INTERFACE'' ''CGI/1.1'' (putenv ''SERVER_SOFTWARE'' (''ashd/'' @ version) envp);
          e2 = putenv ''REQUEST_METHOD'' method (copyenv ''HTTP_VERSION'' ''SERVER_PROTOCOL'' e1);
          e3 = putenv ''SCRIPT_NAME'' name (putenv ''PATH_INFO'' pinf e2);
          e4 = copies server_copies (putenv ''QUERY_STRING'' (case qp of None \<Rightarrow> [] | Some q \<Rightarrow> q) e3);
          e5 = (if getenv e4 ''REQ_X_ASH_PROTOCOL'' = Some ''https'' then putenv ''HTTPS'' ''on'' e4 else e4);
          e6 = http_copies envp (copies cgi_copies e5)
      in case file of None \<Rightarrow> e6 | Some f \<Rightarrow> putenv ''SCRIPT_FILENAME'' (absolutify cwd f) e6)"

text \<open>The program and its arguments: \<open>-p\<close> and \<open>-P\<close> give a program, \<open>-P\<close> leaves out the file; \<open>-c\<close> goes
  to the directory of the file. Without a program the file has to be there.\<close>

definition cgi_dir :: "(cstring \<Rightarrow> bool) \<Rightarrow> cstring \<Rightarrow> cstring" where
  "cgi_dir chdir file = (case strrchr file (CHR ''/'') of
      None \<Rightarrow> file
    | Some (d, r) \<Rightarrow> if chdir d then tl r else file)"

definition cgi_argv :: "cstring list \<Rightarrow> bool \<Rightarrow> cstring option \<Rightarrow> cstring list option" where
  "cgi_argv prog addfile file = (case file of
      None \<Rightarrow> if prog = [] then None else Some prog
    | Some f \<Rightarrow> Some ((if prog = [] then [f] else prog) @ (if addfile then [f] else [])))"

section \<open>The head of the reply\<close>

text \<open>
  The parser of \<open>callcgi\<close> has a buffer that is a null pointer until a byte is added. \<open>trim\<close> on the
  null pointer goes on to a byte before it, which is not defined: \<open>None\<close>.
\<close>

type_synonym rawbuf = "string option"

definition raw_add :: "rawbuf \<Rightarrow> char \<Rightarrow> rawbuf" where
  "raw_add b c = (case b of None \<Rightarrow> Some [c] | Some s \<Rightarrow> Some (s @ [c]))"

definition raw_trim :: "rawbuf \<Rightarrow> string option" where
  "raw_trim b = map_option trim b"

fun cgi_loop :: "nat \<Rightarrow> rawbuf \<Rightarrow> cstring \<Rightarrow> (cstring \<times> cstring) list \<Rightarrow> string \<Rightarrow>
    ((cstring \<times> cstring) list option \<times> string) option" where
  "cgi_loop state buf name hbuf [] = Some (None, [])"
| "cgi_loop state buf name hbuf (c # s) =
     (if c = chr 13 then cgi_loop state buf name hbuf s
      else if state = 0 \<and> c = chr 10 then Some (Some hbuf, s)
      else if state = 0 \<or> state = 1 then
        (if c = CHR '':'' then
           (case raw_trim buf of None \<Rightarrow> None | Some n \<Rightarrow> cgi_loop 2 None (cstr n) hbuf s)
         else if c = chr 10 then Some (None, s)
         else cgi_loop 1 (raw_add buf c) name hbuf s)
      else if c = chr 10 then
        (case raw_trim buf of None \<Rightarrow> None | Some v \<Rightarrow> cgi_loop 0 None [] (hbuf @ [(name, cstr v)]) s)
      else cgi_loop 2 (raw_add buf c) name hbuf s)"

definition parsecgiheaders :: "string \<Rightarrow> ((cstring \<times> cstring) list option \<times> string) option" where
  "parsecgiheaders s = cgi_loop 0 None [] [] s"

definition defstatus :: "int \<Rightarrow> cstring" where
  "defstatus code =
     (if code = 200 then ''OK'' else if code = 201 then ''Created''
      else if code = 202 then ''Accepted'' else if code = 204 then ''No Content''
      else if code = 300 then ''Multiple Choices'' else if code = 301 then ''Moved Permanently''
      else if code = 302 then ''Found'' else if code = 303 then ''See Other''
      else if code = 304 then ''Not Modified'' else if code = 307 then ''Moved Temporarily''
      else if code = 400 then ''Bad Request'' else if code = 401 then ''Unauthorized''
      else if code = 403 then ''Forbidden'' else if code = 404 then ''Not Found''
      else if code = 500 then ''Internal Server Error'' else if code = 501 then ''Not Implemented''
      else if code = 503 then ''Service Unavailable'' else ''Unknown status'')"

text \<open>The scan of \<open>sendstatus\<close>, with the headers it leaves: the name of a status header is made empty.\<close>

fun scan_status :: "(cstring \<times> cstring) list \<Rightarrow> cstring option \<Rightarrow> cstring option \<Rightarrow>
    cstring option \<times> cstring option \<times> (cstring \<times> cstring) list" where
  "scan_status [] status location = (status, location, [])"
| "scan_status ((n, v) # hp) status location =
     (if strcaseeq n ''status'' then
        (case scan_status hp (Some v) location of (s, l, hs) \<Rightarrow> (s, l, ([], v) # hs))
      else if strcaseeq n ''location'' then
        (case scan_status hp status (Some v) of (s, l, hs) \<Rightarrow> (s, l, (n, v) # hs))
      else (case scan_status hp status location of (s, l, hs) \<Rightarrow> (s, l, (n, v) # hs)))"

definition sendstatus :: "(cstring \<times> cstring) list \<Rightarrow> string \<times> (cstring \<times> cstring) list" where
  "sendstatus hs = (case scan_status hs None None of (status, location, hs1) \<Rightarrow>
     (case status of
        Some st \<Rightarrow>
          (if strchr st (CHR '' '') \<noteq> None then ''HTTP/1.1 '' @ st @ [chr 10]
           else ''HTTP/1.1 '' @ show_int (atoi st) @ '' '' @ defstatus (atoi st) @ [chr 10])
      | None \<Rightarrow>
          (if location \<noteq> None then ''HTTP/1.1 303 See Other'' @ [chr 10]
           else ''HTTP/1.1 200 OK'' @ [chr 10]), hs1))"

fun sendheaders :: "(cstring \<times> cstring) list \<Rightarrow> string" where
  "sendheaders [] = []"
| "sendheaders ((n, v) # hs) = (if n \<noteq> [] then n @ '': '' @ v @ [chr 10] else []) @ sendheaders hs"

text \<open>What is written on standard output for the output of the program; the inner \<open>None\<close> is an exit with
  status 1 before anything is written.\<close>

definition cgi_output :: "string \<Rightarrow> string option option" where
  "cgi_output out = (case parsecgiheaders out of
      None \<Rightarrow> None
    | Some (None, _) \<Rightarrow> Some None
    | Some (Some hs, rest) \<Rightarrow>
        (case sendstatus hs of (line, hs1) \<Rightarrow> Some (Some (line @ sendheaders hs1 @ [chr 10] @ rest))))"

text \<open>The whole of \<open>callcgi\<close>: \<open>run\<close> is the CGI program, from its arguments, its environment and the
  body of the request to its output.\<close>

definition callcgi :: "cstring \<Rightarrow> cstring \<Rightarrow> cstring list \<Rightarrow> bool \<Rightarrow> cstring list \<Rightarrow> environment \<Rightarrow> string \<Rightarrow>
    (cstring list \<Rightarrow> environment \<Rightarrow> string \<Rightarrow> string) \<Rightarrow> string option option" where
  "callcgi version cwd prog addfile args envp body run = (case args of
      method # url # rest # _ \<Rightarrow>
        (let file = getenv envp ''REQ_X_ASH_FILE'' in
         case cgi_argv prog addfile file of
           None \<Rightarrow> Some None
         | Some av \<Rightarrow> cgi_output (run av (cgi_child_env version cwd file method url rest envp) body))
    | _ \<Rightarrow> Some None)"

section \<open>Facts on the environment\<close>

lemma getenv_putenv [simp]: "getenv (putenv n v env) m = (if m = n then Some v else getenv env m)"
  by (simp add: getenv_def putenv_def update_conv')

lemma getenv_copyenv: "getenv (copyenv src dst env) m =
    (if m = dst \<and> getenv env src \<noteq> None then getenv env src else getenv env m)"
  by (simp add: copyenv_def split: option.split)

lemma getenv_http_copies: "take 5 m \<noteq> ''HTTP_'' \<Longrightarrow> getenv (http_copies envp env) m = getenv env m"
proof -
  have "getenv (fold (\<lambda>(n, v) env. if take 4 n = ''REQ_'' then putenv (''HTTP_'' @ drop 4 n) v env else env) es env) m =
      getenv env m" if "take 5 m \<noteq> ''HTTP_''" for es
    using that by (induction es arbitrary: env) auto
  then show "take 5 m \<noteq> ''HTTP_'' \<Longrightarrow> getenv (http_copies envp env) m = getenv env m"
    by (simp add: http_copies_def)
qed

text \<open>The variables that are copied from the request.\<close>

definition copied :: "(cstring \<times> cstring) list" where
  "copied = server_copies @ cgi_copies"

lemma copies_other: "m \<notin> snd ` set cs \<Longrightarrow> getenv (copies cs env) m = getenv env m"
  unfolding copies_def by (induction cs arbitrary: env) (auto simp: getenv_copyenv split: prod.split)

lemma copies_copied:
  "(src, dst) \<in> set cs \<Longrightarrow> distinct (map snd cs) \<Longrightarrow> fst ` set cs \<inter> snd ` set cs = {} \<Longrightarrow> getenv env src = Some v \<Longrightarrow>
    getenv (copies cs env) dst = Some v"
proof (induction cs arbitrary: env)
  case (Cons c cs)
  obtain s d where c: "c = (s, d)" by fastforce
  have step: "copies (c # cs) env = copies cs (copyenv s d env)" by (simp add: copies_def c)
  show ?case
  proof (cases "c = (src, dst)")
    case True
    then have "dst \<notin> snd ` set cs" using Cons.prems(2) by auto
    with True c Cons.prems(4) show ?thesis unfolding step by (simp add: copies_other getenv_copyenv)
  next
    case False
    then have m: "(src, dst) \<in> set cs" using Cons.prems(1) by simp
    then have "src \<noteq> d" using Cons.prems(3) c by (force simp: image_iff)
    then have "getenv (copyenv s d env) src = Some v" using Cons.prems(4) by (simp add: getenv_copyenv)
    moreover have "fst ` set cs \<inter> snd ` set cs = {}" "distinct (map snd cs)" using Cons.prems(2,3) by auto
    ultimately show ?thesis unfolding step using Cons.IH m by blast
  qed
qed simp

abbreviation req_var :: "cstring \<Rightarrow> bool" where
  "req_var n \<equiv> take 4 n = ''REQ_''"

lemma req_var_putenv: "req_var m \<Longrightarrow> \<not> req_var n \<Longrightarrow> getenv (putenv n v env) m = getenv env m"
  by auto

lemma req_var_copyenv: "req_var m \<Longrightarrow> \<not> req_var dst \<Longrightarrow> getenv (copyenv src dst env) m = getenv env m"
  by (auto simp: getenv_copyenv)

lemma copy_names:
  "distinct (map snd server_copies)" "fst ` set server_copies \<inter> snd ` set server_copies = {}"
  "distinct (map snd cgi_copies)" "fst ` set cgi_copies \<inter> snd ` set cgi_copies = {}"
  "req_var m \<Longrightarrow> m \<notin> snd ` set server_copies"
  "(src, dst) \<in> set copied \<Longrightarrow> req_var src \<and> take 5 dst \<noteq> ''HTTP_'' \<and> dst \<noteq> ''HTTPS'' \<and> dst \<noteq> ''SCRIPT_FILENAME''"
  "(src, dst) \<in> set server_copies \<Longrightarrow> dst \<notin> snd ` set cgi_copies"
  by (auto simp: copied_def server_copies_def cgi_copies_def)

text \<open>No variable that is read has been written before, so every copy has what the request gave.\<close>

lemma cgi_child_env_copied:
  assumes "(src, dst) \<in> set copied" "getenv envp src = Some v"
  shows "getenv (cgi_child_env version cwd file method url rest envp) dst = Some v"
proof -
  obtain path qp name pinf where u: "cgi_url url = (path, qp)" "script_path rest path = (name, pinf)" by fastforce
  define e3 where "e3 = putenv ''QUERY_STRING'' (case qp of None \<Rightarrow> [] | Some q \<Rightarrow> q) (putenv ''SCRIPT_NAME'' name
    (putenv ''PATH_INFO'' pinf (putenv ''REQUEST_METHOD'' method (copyenv ''HTTP_VERSION'' ''SERVER_PROTOCOL''
      (putenv ''GATEWAY_INTERFACE'' ''CGI/1.1'' (putenv ''SERVER_SOFTWARE'' (''ashd/'' @ version) envp))))))"
  define e4 where "e4 = copies server_copies e3"
  define e5 where "e5 = (if getenv e4 ''REQ_X_ASH_PROTOCOL'' = Some ''https'' then putenv ''HTTPS'' ''on'' e4 else e4)"
  have env: "cgi_child_env version cwd file method url rest envp =
      (case file of None \<Rightarrow> http_copies envp (copies cgi_copies e5)
        | Some f \<Rightarrow> putenv ''SCRIPT_FILENAME'' (absolutify cwd f) (http_copies envp (copies cgi_copies e5)))"
    unfolding cgi_child_env_def u prod.case Let_def e3_def e4_def e5_def ..
  note names = copy_names(6) [OF assms(1)]
  have e3: "getenv e3 src = Some v"
    unfolding e3_def using names assms(2) by (simp add: req_var_putenv req_var_copyenv del: getenv_putenv)
  have e4: "getenv e4 src = Some v" unfolding e4_def using names e3 by (simp add: copies_other copy_names(5))
  have e5: "getenv e5 src = Some v" unfolding e5_def using names e4 by (auto simp: req_var_putenv)
  have "getenv (copies cgi_copies e5) dst = Some v"
  proof (cases "(src, dst) \<in> set cgi_copies")
    case True
    then show ?thesis using copies_copied [OF _ copy_names(3,4) e5] by simp
  next
    case False
    then have s: "(src, dst) \<in> set server_copies" using assms(1) by (simp add: copied_def)
    then have "getenv e4 dst = Some v" unfolding e4_def using copies_copied [OF _ copy_names(1,2) e3] by simp
    then have "getenv e5 dst = Some v" using names by (simp add: e5_def)
    then show ?thesis using copies_other copy_names(7) [OF s] by simp
  qed
  then show ?thesis using names by (simp add: env getenv_http_copies split: option.split)
qed

lemma putenvs_last:
  "\<forall>h\<in>set hs. f (fst h) \<noteq> name \<Longrightarrow>
    getenv (fold (\<lambda>(n, v). putenv n v) (map (\<lambda>(n, v). (f n, v)) hs) env) name = getenv env name"
  by (induction hs arbitrary: env) auto

text \<open>The environment of the process that \<open>stdforkserve\<close> starts.\<close>

definition started_env :: "environment \<Rightarrow> hthead \<Rightarrow> environment" where
  "started_env env req = fold (\<lambda>(n, v). putenv n v) (fork_env req) env"

lemma started_env_header:
  assumes "headers req = hs @ (n, v) # ks" "\<forall>h\<in>set ks. env_name (fst h) \<noteq> env_name n"
  shows "getenv (started_env env req) (env_name n) = Some v"
proof -
  have "env_name n \<noteq> ''HTTP_VERSION''" by (simp add: env_name_def)
  then show ?thesis
    using putenvs_last [of ks env_name "env_name n"] assms by (simp add: started_env_def fork_env_def)
qed

section \<open>Facts on the reply\<close>

definition raw_cat :: "rawbuf \<Rightarrow> string \<Rightarrow> rawbuf" where
  "raw_cat b t = (if t = [] then b else Some ((case b of None \<Rightarrow> [] | Some s \<Rightarrow> s) @ t))"

lemma raw_cat_add: "raw_cat (raw_add b c) t = raw_cat b (c # t)"
  by (simp add: raw_cat_def raw_add_def split: option.split)

lemma cgi_name:
  "chr 13 \<notin> set n \<Longrightarrow> chr 10 \<notin> set n \<Longrightarrow> CHR '':'' \<notin> set n \<Longrightarrow>
    cgi_loop 1 b nm hb (n @ s) = cgi_loop 1 (raw_cat b n) nm hb s"
  by (induction n arbitrary: b) (auto simp: raw_cat_add [symmetric], simp add: raw_cat_def)

lemma cgi_value:
  "chr 13 \<notin> set n \<Longrightarrow> chr 10 \<notin> set n \<Longrightarrow> cgi_loop 2 b nm hb (n @ s) = cgi_loop 2 (raw_cat b n) nm hb s"
  by (induction n arbitrary: b) (auto simp: raw_cat_add [symmetric], simp add: raw_cat_def)

lemma eol_chars [simp]: "CHR '':'' \<noteq> chr 13" "CHR '':'' \<noteq> chr 10" "CHR '' '' \<noteq> chr 13" "CHR '' '' \<noteq> chr 10" "chr 10 \<noteq> chr 13"
  by (auto dest!: arg_cong [of _ _ ord] simp only: ord_simps)

lemmas eol_chars' [simp] = eol_chars [symmetric]

lemma cgi_colon:
  assumes "header_ok (n, v)" "n \<noteq> []"
  shows "cgi_loop 0 None nm hb (n @ '':'' @ s) = cgi_loop 2 None n hb s"
proof -
  have n: "chr 13 \<notin> set n" "chr 10 \<notin> set n" "CHR '':'' \<notin> set n" "trim n = n" "cstr n = n"
    using assms(1) by (auto simp: header_ok_def plain_def)
  have "cgi_loop 0 None nm hb (n @ '':'' @ s) = cgi_loop 1 None nm hb (n @ '':'' @ s)"
    using n assms(2) by (cases n) auto
  also have "\<dots> = cgi_loop 1 (Some n) nm hb ('':'' @ s)"
    using cgi_name [of n None] n assms(2) by (simp add: raw_cat_def)
  also have "\<dots> = cgi_loop 2 None n hb s" using n by (simp add: raw_trim_def)
  finally show ?thesis .
qed

lemma cgi_line:
  assumes "header_ok (n, v)" "n \<noteq> []"
  shows "cgi_loop 0 None [] hb (n @ '': '' @ v @ crlf @ s) = cgi_loop 0 None [] (hb @ [(n, v)]) s"
proof -
  have v: "chr 13 \<notin> set ('' '' @ v)" "chr 10 \<notin> set ('' '' @ v)" "cstr (trim ('' '' @ v)) = v"
    using assms(1) header_ok_trim [OF assms(1)] by (auto simp: header_ok_def plain_def)
  have "cgi_loop 0 None [] hb (n @ '':'' @ ('' '' @ v) @ crlf @ s) = cgi_loop 2 None n hb (('' '' @ v) @ crlf @ s)"
    by (rule cgi_colon [OF assms])
  also have "\<dots> = cgi_loop 2 (Some ('' '' @ v)) n hb (crlf @ s)"
    using cgi_value [OF v(1,2), of None] by (simp add: raw_cat_def)
  also have "\<dots> = cgi_loop 0 None [] (hb @ [(n, v)]) s"
    using v(3) by (simp add: crlf_def raw_trim_def)
  finally show ?thesis by simp
qed

abbreviation named :: "cstring \<times> cstring \<Rightarrow> bool" where
  "named h \<equiv> header_ok h \<and> fst h \<noteq> []"

lemma cgi_lines:
  "list_all named hs \<Longrightarrow> cgi_loop 0 None [] hb (hdr_text hs @ s) = cgi_loop 0 None [] (hb @ hs) s"
proof (induction hs arbitrary: hb)
  case (Cons x hs)
  then show ?case using cgi_line [of "fst x" "snd x" hb "hdr_text hs @ s"] by (cases x) simp
qed simp

lemma parsecgiheaders_text: "list_all named hs \<Longrightarrow> parsecgiheaders (hdr_text hs @ crlf @ s) = Some (Some hs, s)"
  by (simp add: parsecgiheaders_def cgi_lines crlf_def)

text \<open>The status line that a CGI head asks for, after \<open>HTTP/1.1\<close>.\<close>

definition cgi_wanted :: "(cstring \<times> cstring) list \<Rightarrow> string" where
  "cgi_wanted hs = (case find_header (rev hs) ''status'' of
      Some st \<Rightarrow> if CHR '' '' \<in> set st then st else show_int (atoi st) @ '' '' @ defstatus (atoi st)
    | None \<Rightarrow> if find_header (rev hs) ''location'' \<noteq> None then ''303 See Other'' else ''200 OK'')"

definition blank_status :: "cstring \<times> cstring \<Rightarrow> cstring \<times> cstring" where
  "blank_status h = (if strcaseeq (fst h) ''status'' then ([], snd h) else h)"

lemma find_header_append: "find_header (hs @ ks) n = (case find_header hs n of None \<Rightarrow> find_header ks n | Some v \<Rightarrow> Some v)"
  by (induction hs n rule: find_header.induct) auto

lemma status_not_location: "strcaseeq n ''status'' \<Longrightarrow> \<not> strcaseeq n ''location''"
proof -
  have "\<not> strcaseeq ''status'' ''location''" by code_simp
  then show "strcaseeq n ''status'' \<Longrightarrow> \<not> strcaseeq n ''location''"
    using strcaseeq_trans strcaseeq_sym by blast
qed

lemma scan_status_spec:
  "scan_status hs s l =
    (case find_header (rev hs) ''status'' of None \<Rightarrow> s | Some v \<Rightarrow> Some v,
     case find_header (rev hs) ''location'' of None \<Rightarrow> l | Some v \<Rightarrow> Some v, map blank_status hs)"
  by (induction hs s l rule: scan_status.induct)
    (auto simp: find_header_append blank_status_def dest: status_not_location split: option.splits)

fun lf_text :: "(cstring \<times> cstring) list \<Rightarrow> string" where
  "lf_text [] = []"
| "lf_text ((n, v) # hs) = n @ '': '' @ v @ chr 10 # lf_text hs"

abbreviation kept :: "(cstring \<times> cstring) list \<Rightarrow> (cstring \<times> cstring) list" where
  "kept hs \<equiv> filter (\<lambda>h. \<not> strcaseeq (fst h) ''status'') hs"

lemma sendheaders_kept: "list_all named hs \<Longrightarrow> sendheaders (map blank_status hs) = lf_text (kept hs)"
  by (induction hs) (auto simp: blank_status_def)

lemma sendstatus_spec: "sendstatus hs = (''HTTP/1.1 '' @ cgi_wanted hs @ [chr 10], map blank_status hs)"
  unfolding sendstatus_def scan_status_spec
  by (simp add: cgi_wanted_def split: option.split)

text \<open>Such a head, with lines that end in a newline alone, is read by \<open>htparser\<close>.\<close>

lemma hdr_lf_line:
  assumes "header_ok (n, v)" "t + length n + length v + 3 < 65536"
  shows "hdr_loop fgetc 0 [] [] t h (n @ '': '' @ v @ chr 10 # r) =
    hdr_loop fgetc 0 [] [] (t + length n + length v + 3) (headappheader h n v) r"
proof -
  have "hdr_loop fgetc 0 [] [] t h (n @ '': '' @ v @ chr 10 # r) =
      hdr_loop fgetc 2 n ('' '' @ v) (t + length n + length v + 2) h (chr 10 # r)"
    using assms by (intro hdr_line_start) simp_all
  also have "\<dots> = hdr_loop fgetc 0 [] [] (Suc (t + length n + length v + 2)) (headappheader h n v) r"
    using assms(2) header_ok_trim [OF assms(1)] by (subst hdr_loop.simps) (simp add: ord_simps)
  finally show ?thesis by (simp add: numeral_eq_Suc)
qed

lemma hdr_lf_lines:
  "list_all header_ok hs \<Longrightarrow> t + length (lf_text hs) + 1 < 65536 \<Longrightarrow>
    hdr_loop fgetc 0 [] [] t h (lf_text hs @ chr 10 # r) = (True, h\<lparr>headers := headers h @ hs\<rparr>, r)"
proof (induction hs arbitrary: t h)
  case Nil
  then show ?case by (subst hdr_loop.simps) (simp add: ord_simps)
next
  case (Cons x hs)
  obtain n v where x: "x = (n, v)" by fastforce
  have "hdr_loop fgetc 0 [] [] t h (lf_text (x # hs) @ chr 10 # r) =
      hdr_loop fgetc 0 [] [] (t + length n + length v + 3) (headappheader h n v) (lf_text hs @ chr 10 # r)"
    using Cons.prems hdr_lf_line [of n v t h] by (simp add: x)
  with Cons show ?case by (simp add: x headappheader_def)
qed

lemma lf_text_length: "length (lf_text (kept hs)) \<le> length (hdr_text hs)"
  by (induction hs) (auto simp: crlf_def)

lemma resp_msg_lf:
  "\<forall>c\<in>set n. 32 \<le> ord c \<Longrightarrow> length msg + length n < 512 \<Longrightarrow>
     resp_msg fgetc msg (n @ chr 10 # r) = Some (Inr (msg @ n, r))"
proof (induction n arbitrary: msg)
  case Nil
  show ?case by (subst resp_msg.simps) (simp add: ord_simps)
next
  case (Cons c n)
  then have "ord c \<noteq> 10" "ord c \<noteq> 13" by auto
  with Cons show ?case by (subst resp_msg.simps) auto
qed

section \<open>Properties\<close>

text \<open>C30. The head that \<open>callcgi\<close> writes for the output of a CGI program is read by the HTTP front end
  as a response with the status the program asked for, its headers without the status, and its body.\<close>

theorem callcgi_reply:
  assumes "list_all named hs" "length (hdr_text hs) + 1 < 65536"
    and "cgi_wanted hs = show_nat n @ '' '' @ msg" "n < 10000" "list_all (\<lambda>c. 32 \<le> ord c) msg" "length msg < 512"
  shows "\<exists>out. cgi_output (hdr_text hs @ crlf @ body) = Some (Some out) \<and>
    parseresponse out = Some (Some ((mkresp (int n) msg ''HTTP/1.1'')\<lparr>headers := kept hs\<rparr>), body)"
proof -
  define t where "t = lf_text (kept hs) @ chr 10 # body"
  have "cgi_output (hdr_text hs @ crlf @ body) = Some (Some (''HTTP/1.1 '' @ show_nat n @ '' '' @ msg @ chr 10 # t))"
    using assms(1,3) by (simp add: cgi_output_def parsecgiheaders_text sendstatus_spec sendheaders_kept t_def)
  moreover have "resp_ver fgetc [] (''HTTP/1.1 '' @ show_nat n @ '' '' @ msg @ chr 10 # t) =
      Some (Inr (''HTTP/1.1'', show_nat n @ CHR '' '' # msg @ chr 10 # t))"
  proof -
    have "\<forall>c\<in>set ''HTTP/1.1''. 32 < ord c \<and> ord c < 128" by code_simp
    then show ?thesis using resp_ver_text [of "''HTTP/1.1''" "[]"] by simp
  qed
  moreover have "resp_code fgetc 0 (show_nat n @ CHR '' '' # msg @ chr 10 # t) = Some (Inr (int n, msg @ chr 10 # t))"
    using resp_code_text [of 0 "show_nat n"] show_nat_digits scan_show_nat [of n "[]"] assms(4) by simp
  moreover have "resp_msg fgetc [] (msg @ chr 10 # t) = Some (Inr (msg, t))"
    using resp_msg_lf [of msg "[]"] assms(5,6) by (simp add: list_all_iff)
  moreover have "parse_headers fgetc (mkresp (int n) msg ''HTTP/1.1'') t =
      (True, (mkresp (int n) msg ''HTTP/1.1'')\<lparr>headers := kept hs\<rparr>, body)"
  proof -
    have "list_all header_ok (kept hs)" using assms(1) by (auto simp: list_all_iff)
    then show ?thesis
      using hdr_lf_lines [of "kept hs" 0 "mkresp (int n) msg ''HTTP/1.1''" body] lf_text_length [of hs] assms(2)
      by (simp add: parse_headers_def t_def) (simp add: mkresp_def)
  qed
  moreover have "cstr msg = msg" using assms(5) by (force intro!: cstr_nul_free simp: nul_free_def ord_def list_all_iff)
  moreover have "cstr ''HTTP/1.1'' = ''HTTP/1.1''" by code_simp
  ultimately show ?thesis by (simp add: parseresponse_def parse_response_def)
qed

lemma callcgi_reply_witness:
  "\<exists>out. cgi_output (hdr_text [(''Location'', ''/b''), (''Status'', ''404'')] @ crlf @ ''x'') = Some (Some out) \<and>
    parseresponse out = Some (Some ((mkresp 404 ''Not Found'' ''HTTP/1.1'')\<lparr>headers := [(''Location'', ''/b'')]\<rparr>), ''x'')"
proof -
  let ?hs = "[(''Location'', ''/b''), (''Status'', ''404'')]"
  have "list_all named ?hs" "length (hdr_text ?hs) + 1 < 65536" by code_simp+
  moreover have "cgi_wanted ?hs = show_nat 404 @ '' '' @ ''Not Found''" by code_simp
  moreover have "list_all (\<lambda>c. 32 \<le> ord c) ''Not Found''" by code_simp
  moreover have "kept ?hs = [(''Location'', ''/b'')]" by code_simp
  ultimately show ?thesis using callcgi_reply [of ?hs 404 "''Not Found''" "''x''"] by simp
qed

text \<open>A CGI program that writes a header with no value at all, its colon followed by the end of the
  line, takes \<open>callcgi\<close> to memory that is not its own: the buffer that \<open>trim\<close> gets is still a null
  pointer.\<close>

lemma callcgi_empty_value:
  assumes "list_all named hs" "header_ok (n, [])" "n \<noteq> []"
  shows "cgi_output (hdr_text hs @ n @ '':'' @ crlf @ rest) = None"
proof -
  have "cgi_loop 2 None n hs (crlf @ rest) = None" by (simp add: crlf_def raw_trim_def)
  then show ?thesis
    using cgi_lines [OF assms(1), of "[]" "n @ '':'' @ crlf @ rest"] cgi_colon [OF assms(2,3), of "[]" hs "crlf @ rest"]
    by (simp add: cgi_output_def parsecgiheaders_def)
qed

lemma callcgi_empty_value_witness: "cgi_output (hdr_text [(''A'', ''b'')] @ ''X-Foo'' @ '':'' @ crlf @ ''body'') = None"
proof -
  have "list_all named [(''A'', ''b'')]" "header_ok (''X-Foo'', [])" by code_simp+
  then show ?thesis using callcgi_empty_value [of "[(''A'', ''b'')]" "''X-Foo''"] by simp
qed



end
