(* ===== verification/Dirconf.thy ===== *)
theory Dirconf
  imports Children
begin

text \<open>
  The configuration of the directory multiplexer, \<open>src/dirplex/conf.c\<close>: reading a file of \<open>match\<close>
  stanzas and options, the cache of the \<open>.htrc\<close> files with its periodic check, the files that are in
  scope for a path, and the search for handlers and patterns in them.

  \<open>fnmatch\<close> of the C library is a parameter: the flag \<open>FNM_PATHNAME\<close>, the pattern and the string.
\<close>

section \<open>Data\<close>

datatype drule_type = PAT_BASENAME | PAT_PATHNAME | PAT_ALL | PAT_DEFAULT | PAT_LOCAL

datatype dpat_type = PT_FILE | PT_DIR | PT_NOTFOUND

record drule =
  dr_type :: drule_type
  dr_patterns :: "cstring list"

record dpattern =
  dp_type :: dpat_type
  dp_headers :: "(cstring \<times> cstring) list"
  dp_childnm :: "cstring option"
  dp_fchild :: "cstring list option"
  dp_rules :: "drule list"

record dconfig =
  dc_path :: "cstring option"
  dc_mtime :: int
  dc_lastck :: int
  dc_children :: "child list"
  dc_patterns :: "dpattern list"
  dc_index :: "cstring list option"
  dc_dotallow :: "cstring list option"
  dc_capture :: "cstring option"
  dc_reparse :: "cstring option"
  dc_caproot :: bool
  dc_parsecomb :: bool

definition new_dpattern :: "dpat_type \<Rightarrow> dpattern" where
  "new_dpattern t = \<lparr>dp_type = t, dp_headers = [], dp_childnm = None, dp_fchild = None, dp_rules = []\<rparr>"

definition emptyconfig :: dconfig where
  "emptyconfig = \<lparr>dc_path = None, dc_mtime = 0, dc_lastck = 0, dc_children = [], dc_patterns = [], dc_index = None,
     dc_dotallow = None, dc_capture = None, dc_reparse = None, dc_caproot = False, dc_parsecomb = False\<rparr>"

definition getchild :: "dconfig \<Rightarrow> cstring \<Rightarrow> child option" where
  "getchild cf name = find (\<lambda>ch. ch_name ch = name) (dc_children cf)"

section \<open>Reading a file\<close>

definition add_drule :: "drule_type \<Rightarrow> cstring list \<Rightarrow> dpattern \<Rightarrow> dpattern" where
  "add_drule t ps pat = pat\<lparr>dp_rules := dp_rules pat @ [\<lparr>dr_type = t, dr_patterns = ps\<rparr>]\<rparr>"

text \<open>One line of a \<open>match\<close> stanza; the lines that end it are not handled here.\<close>

definition dpattern_line :: "cstring list \<Rightarrow> dpattern \<Rightarrow> dpattern" where
  "dpattern_line w pat =
    (let d = w ! 0 in
     if d = ''filename'' then (if length w < 2 then pat else add_drule PAT_BASENAME (tl w) pat)
     else if d = ''pathname'' then (if length w < 2 then pat else add_drule PAT_PATHNAME (tl w) pat)
     else if d = ''all'' then add_drule PAT_ALL [] pat
     else if d = ''default'' then add_drule PAT_DEFAULT [] pat
     else if d = ''local'' then add_drule PAT_LOCAL [] pat
     else if d = ''handler'' then (if length w < 2 then pat else pat\<lparr>dp_childnm := Some (w ! 1)\<rparr>)
     else if d = ''fork'' then pat\<lparr>dp_fchild := Some (tl w)\<rparr>
     else if d = ''set'' \<or> d = ''xset'' then
       (if length w < 3 then pat
        else pat\<lparr>dp_headers := (if d = ''xset'' then ''X-Ash-'' @ w ! 1 else w ! 1, w ! 2) # dp_headers pat\<rparr>)
     else pat)"

partial_function (option) dpattern_lines :: "filesys \<Rightarrow> dpattern \<Rightarrow> cfstate \<Rightarrow> (cf_err + dpattern \<times> cfstate) option" where
  "dpattern_lines fsys pat s = (case getcfline fsys s of
      None \<Rightarrow> None
    | Some (Inl e) \<Rightarrow> Some (Inl e)
    | Some (Inr s1) \<Rightarrow>
        (if argv s1 ! 0 = ''end'' \<or> argv s1 ! 0 = ''eof'' then Some (Inr (pat, s1))
         else dpattern_lines fsys (dpattern_line (argv s1) pat) s1))"

definition match_type :: "cstring list \<Rightarrow> dpat_type" where
  "match_type w = (if length w > 1 \<and> w ! 1 = ''directory'' then PT_DIR
     else if length w > 1 \<and> w ! 1 = ''notfound'' then PT_NOTFOUND else PT_FILE)"

definition parsepattern :: "filesys \<Rightarrow> cfstate \<Rightarrow> (cf_err + dpattern option \<times> cfstate) option" where
  "parsepattern fsys s =
     (if argv s ! 0 \<noteq> ''match'' then Some (Inr (None, s))
      else (case dpattern_lines fsys (new_dpattern (match_type (argv s))) (s\<lparr>expstart := True\<rparr>) of
          None \<Rightarrow> None
        | Some (Inl e) \<Rightarrow> Some (Inl e)
        | Some (Inr (pat, s1)) \<Rightarrow>
            Some (Inr (if dp_rules pat = [] then None
              else if dp_childnm pat = None \<and> dp_fchild pat = None then None else Some pat, s1))))"

text \<open>A directive of one line in \<open>readconfig\<close>.\<close>

definition config_line :: "cstring list \<Rightarrow> dconfig \<Rightarrow> dconfig" where
  "config_line w cf =
    (let d = w ! 0 in
     if d = ''index-file'' then cf\<lparr>dc_index := Some (tl w)\<rparr>
     else if d = ''dot-allow'' then cf\<lparr>dc_dotallow := Some (tl w)\<rparr>
     else if d = ''capture'' then
       (if length w < 2 then cf
        else cf\<lparr>dc_capture := Some (w ! 1), dc_caproot := length w > 2 \<and> CHR ''D'' \<in> set (w ! 2)\<rparr>)
     else if d = ''reparse'' then
       (if length w < 2 then cf
        else cf\<lparr>dc_reparse := Some (w ! 1), dc_parsecomb := length w > 2 \<and> CHR ''c'' \<in> set (w ! 2)\<rparr>)
     else cf)"

partial_function (option) dconfig_lines :: "filesys \<Rightarrow> dconfig \<Rightarrow> cfstate \<Rightarrow> (cf_err + dconfig) option" where
  "dconfig_lines fsys cf s = (case getcfline fsys s of
      None \<Rightarrow> None
    | Some (Inl e) \<Rightarrow> Some (Inl e)
    | Some (Inr s1) \<Rightarrow> (case parsechild fsys s1 of
        None \<Rightarrow> None
      | Some (Inl e) \<Rightarrow> Some (Inl e)
      | Some (Inr (Some ch, s2)) \<Rightarrow> dconfig_lines fsys (cf\<lparr>dc_children := ch # dc_children cf\<rparr>) s2
      | Some (Inr (None, s2)) \<Rightarrow> (case parsepattern fsys s2 of
          None \<Rightarrow> None
        | Some (Inl e) \<Rightarrow> Some (Inl e)
        | Some (Inr (Some pat, s3)) \<Rightarrow> dconfig_lines fsys (cf\<lparr>dc_patterns := pat # dc_patterns cf\<rparr>) s3
        | Some (Inr (None, s3)) \<Rightarrow>
            (if argv s3 ! 0 = ''eof'' then Some (Inr cf) else dconfig_lines fsys (config_line (argv s3) cf) s3))))"

declare dpattern_lines.simps [code] dconfig_lines.simps [code]

text \<open>\<open>Inr None\<close> is a file that cannot be opened.\<close>

definition readconfig :: "filesys \<Rightarrow> cstring \<Rightarrow> (cf_err + dconfig option) option" where
  "readconfig fsys file = (case fs_open fsys file of
      None \<Rightarrow> Some (Inr None)
    | Some inp \<Rightarrow> (case mkcfparser fsys inp file of
        None \<Rightarrow> None
      | Some (Inl e) \<Rightarrow> Some (Inl e)
      | Some (Inr s) \<Rightarrow> map_option (map_sum id Some) (dconfig_lines fsys emptyconfig s)))"

section \<open>The cache\<close>

text \<open>
  \<open>cflist\<close> is the list of configurations; \<open>access\<close> and \<open>stat\<close> on a \<open>.htrc\<close> file are \<open>readable\<close> and
  \<open>mtime_of\<close>. A configuration that is replaced is unlinked and its children are closed, after
  \<open>mergechildren\<close> has taken their connections over: the closed descriptors are the last part of the
  result. The position of an old configuration is a number, and the entry is a copy.
\<close>

record htstat =
  readable :: "cstring \<Rightarrow> bool"
  mtime_of :: "cstring \<Rightarrow> int option"

definition htrc :: "cstring \<Rightarrow> cstring" where
  "htrc path = path @ ''/.htrc''"

definition path_pos :: "dconfig list \<Rightarrow> cstring \<Rightarrow> nat option" where
  "path_pos cfs path = find (\<lambda>i. dc_path (cfs ! i) = Some path) [0..<length cfs]"

definition drop_at :: "nat \<Rightarrow> 'a list \<Rightarrow> 'a list" where
  "drop_at i xs = take i xs @ drop (Suc i) xs"

definition child_fds_of :: "dconfig \<Rightarrow> int list" where
  "child_fds_of cf = child_fds (dc_children cf)"

text \<open>The configuration of a directory as it is now, with the time of its file; \<open>Inr None\<close> when the file
  cannot be opened.\<close>

definition fresh_config :: "filesys \<Rightarrow> htstat \<Rightarrow> cstring \<Rightarrow> (cf_err + (dconfig \<times> int) option) option" where
  "fresh_config fsys st path =
     (if \<not> readable st (htrc path) \<or> mtime_of st (htrc path) = None then Some (Inr (Some (emptyconfig, 0)))
      else (case readconfig fsys (htrc path) of
          None \<Rightarrow> None
        | Some (Inl e) \<Rightarrow> Some (Inl e)
        | Some (Inr c) \<Rightarrow> Some (Inr (map_option (\<lambda>cf. (cf, the (mtime_of st (htrc path)))) c))))"

text \<open>Putting it into the list; \<open>old\<close> is the place of the one it replaces.\<close>

definition install_config :: "int \<Rightarrow> cstring \<Rightarrow> nat option \<Rightarrow> dconfig list \<Rightarrow> dconfig \<Rightarrow> int \<Rightarrow> dconfig \<times> dconfig list \<times> int list" where
  "install_config now path old cfs cf mt =
     (case (case old of
          None \<Rightarrow> (dc_children cf, cfs, [])
        | Some i \<Rightarrow> (case mergechildren (dc_children cf) (dc_children (cfs ! i)) of
            (new, gone) \<Rightarrow> (new, drop_at i cfs, child_fds gone))) of
      (ch, rest, shut) \<Rightarrow>
        let cf1 = cf\<lparr>dc_children := ch, dc_path := Some path, dc_mtime := mt, dc_lastck := now\<rparr>
        in (cf1, cf1 # rest, shut))"

definition load_config :: "filesys \<Rightarrow> htstat \<Rightarrow> int \<Rightarrow> cstring \<Rightarrow> nat option \<Rightarrow> dconfig list \<Rightarrow>
    (cf_err + dconfig option \<times> dconfig list \<times> int list) option" where
  "load_config fsys st now path old cfs = (case fresh_config fsys st path of
      None \<Rightarrow> None
    | Some (Inl e) \<Rightarrow> Some (Inl e)
    | Some (Inr None) \<Rightarrow> Some (Inr (None, cfs, []))
    | Some (Inr (Some (cf, mt))) \<Rightarrow>
        (case install_config now path old cfs cf mt of (cf1, cfs1, shut) \<Rightarrow> Some (Inr (Some cf1, cfs1, shut))))"

definition getconfig :: "filesys \<Rightarrow> htstat \<Rightarrow> int \<Rightarrow> cstring \<Rightarrow> dconfig list \<Rightarrow>
    (cf_err + dconfig option \<times> dconfig list \<times> int list) option" where
  "getconfig fsys st now path cfs = (case path_pos cfs path of
      None \<Rightarrow> load_config fsys st now path None cfs
    | Some i \<Rightarrow>
        let cf = cfs ! i in
        if now - dc_lastck cf > 5 then
          let cf1 = cf\<lparr>dc_lastck := now\<rparr>; cfs1 = cfs[i := cf1] in
          (if mtime_of st (htrc path) \<noteq> Some (dc_mtime cf) then load_config fsys st now path (Some i) cfs1
           else Some (Inr (Some cf1, cfs1, [])))
        else Some (Inr (Some cf, cfs, [])))"

section \<open>What is in scope\<close>

text \<open>The directories whose configuration counts for a path, the nearest first.\<close>

definition skip_dot :: "cstring \<Rightarrow> cstring" where
  "skip_dot path = (if take 2 path = ''./'' then drop 2 path else path)"

lemma strrchr_shorter: "strrchr s c = Some (a, b) \<Longrightarrow> length a < length s"
  by (auto dest: strrchr_SomeD)

function parent_dirs :: "cstring \<Rightarrow> cstring list" where
  "parent_dirs tmp = (case strrchr tmp (CHR ''/'') of None \<Rightarrow> [] | Some (d, _) \<Rightarrow> d # parent_dirs d)"
  by pat_completeness auto
termination
  by (relation "measure length") (auto dest: strrchr_shorter)

declare parent_dirs.simps [simp del]

definition scope_dirs :: "cstring \<Rightarrow> cstring list" where
  "scope_dirs file = parent_dirs (skip_dot file) @ [''.'']"

fun load_all :: "filesys \<Rightarrow> htstat \<Rightarrow> int \<Rightarrow> cstring list \<Rightarrow> dconfig list \<Rightarrow>
    (cf_err + dconfig list \<times> dconfig list \<times> int list) option" where
  "load_all fsys st now [] cfs = Some (Inr ([], cfs, []))"
| "load_all fsys st now (d # ds) cfs = (case getconfig fsys st now d cfs of
      None \<Rightarrow> None
    | Some (Inl e) \<Rightarrow> Some (Inl e)
    | Some (Inr (c, cfs1, shut)) \<Rightarrow> (case load_all fsys st now ds cfs1 of
        None \<Rightarrow> None
      | Some (Inl e) \<Rightarrow> Some (Inl e)
      | Some (Inr (found, cfs2, shut2)) \<Rightarrow>
          Some (Inr ((case c of None \<Rightarrow> found | Some cf \<Rightarrow> cf # found), cfs2, shut @ shut2))))"

definition getconfigs :: "filesys \<Rightarrow> htstat \<Rightarrow> int \<Rightarrow> dconfig option \<Rightarrow> dconfig option \<Rightarrow> cstring \<Rightarrow> dconfig list \<Rightarrow>
    (cf_err + dconfig list \<times> dconfig list \<times> int list) option" where
  "getconfigs fsys st now lconfig gconfig file cfs = (case load_all fsys st now (scope_dirs file) cfs of
      None \<Rightarrow> None
    | Some (Inl e) \<Rightarrow> Some (Inl e)
    | Some (Inr (found, cfs1, shut)) \<Rightarrow>
        Some (Inr (found @ (case lconfig of None \<Rightarrow> [] | Some cf \<Rightarrow> [cf]) @ (case gconfig of None \<Rightarrow> [] | Some cf \<Rightarrow> [cf]),
          cfs1, shut)))"

text \<open>
  The handler of a name among the configurations in scope, with the configuration that declares it; the
  handler that sends the error page is there without one.
\<close>

datatype found_child = Declared dconfig child | BuiltinNotFound | Undeclared

fun findchild :: "dconfig list \<Rightarrow> cstring \<Rightarrow> found_child" where
  "findchild [] name = (if name = ''.notfound'' then BuiltinNotFound else Undeclared)"
| "findchild (cf # cfs) name = (case getchild cf name of Some ch \<Rightarrow> Declared cf ch | None \<Rightarrow> findchild cfs name)"

text \<open>\<open>findmatch\<close>: the name of the file and its path as the configuration sees it.\<close>

definition base_name :: "cstring \<Rightarrow> cstring" where
  "base_name file = (case strrchr file (CHR ''/'') of None \<Rightarrow> file | Some (_, r) \<Rightarrow> tl r)"

definition local_name :: "dconfig \<Rightarrow> cstring \<Rightarrow> cstring" where
  "local_name cf file = (case dc_path cf of
      None \<Rightarrow> file
    | Some p \<Rightarrow>
        if length file > length p \<and> take (length p) file = p \<and> file ! length p = CHR ''/''
        then drop (length p + 1) file else file)"

definition rule_ok :: "(bool \<Rightarrow> cstring \<Rightarrow> cstring \<Rightarrow> bool) \<Rightarrow> bool \<Rightarrow> cstring \<Rightarrow> cstring \<Rightarrow> drule \<Rightarrow> bool" where
  "rule_ok fnmatch trydefault bn ln rule = (case dr_type rule of
      PAT_BASENAME \<Rightarrow> list_ex (\<lambda>p. fnmatch False p bn) (dr_patterns rule)
    | PAT_PATHNAME \<Rightarrow> list_ex (\<lambda>p. fnmatch True p ln) (dr_patterns rule)
    | PAT_ALL \<Rightarrow> True
    | PAT_DEFAULT \<Rightarrow> trydefault
    | PAT_LOCAL \<Rightarrow> CHR ''/'' \<notin> set ln)"

definition pattern_ok :: "(bool \<Rightarrow> cstring \<Rightarrow> cstring \<Rightarrow> bool) \<Rightarrow> bool \<Rightarrow> dpat_type \<Rightarrow> cstring \<Rightarrow> cstring \<Rightarrow> dpattern \<Rightarrow> bool" where
  "pattern_ok fnmatch trydefault type bn ln pat \<longleftrightarrow>
     dp_type pat = type \<and> list_all (rule_ok fnmatch trydefault bn ln) (dp_rules pat)"

fun match_from :: "(bool \<Rightarrow> cstring \<Rightarrow> cstring \<Rightarrow> bool) \<Rightarrow> cstring \<Rightarrow> bool \<Rightarrow> dpat_type \<Rightarrow> dconfig list \<Rightarrow> dpattern option" where
  "match_from fnmatch file trydefault type [] = None"
| "match_from fnmatch file trydefault type (cf # cfs) =
     (case find (pattern_ok fnmatch trydefault type (base_name file) (local_name cf file)) (dc_patterns cf) of
        Some pat \<Rightarrow> Some pat
      | None \<Rightarrow> match_from fnmatch file trydefault type cfs)"

definition findmatch :: "(bool \<Rightarrow> cstring \<Rightarrow> cstring \<Rightarrow> bool) \<Rightarrow> dconfig list \<Rightarrow> cstring \<Rightarrow> dpat_type \<Rightarrow> dpattern option" where
  "findmatch fnmatch cfs file type = (case match_from fnmatch file False type cfs of
      Some pat \<Rightarrow> Some pat
    | None \<Rightarrow> match_from fnmatch file True type cfs)"

section \<open>Well-formed patterns\<close>

text \<open>What \<open>findmatch\<close> and \<open>handle\<close> rely on when they follow the pointers of a pattern.\<close>

definition rule_wf :: "drule \<Rightarrow> bool" where
  "rule_wf r \<longleftrightarrow> (dr_type r \<in> {PAT_BASENAME, PAT_PATHNAME} \<longleftrightarrow> dr_patterns r \<noteq> [])"

definition pattern_wf :: "dpattern \<Rightarrow> bool" where
  "pattern_wf p \<longleftrightarrow> dp_rules p \<noteq> [] \<and> list_all rule_wf (dp_rules p) \<and> (dp_childnm p \<noteq> None \<or> dp_fchild p \<noteq> None)"

definition child_wf :: "child \<Rightarrow> bool" where
  "child_wf ch \<longleftrightarrow> ch_iface ch = StdHandler \<and> ch_argv (ch_std ch) \<noteq> None \<and> ch_fd (ch_std ch) < 0"

definition config_wf :: "dconfig \<Rightarrow> bool" where
  "config_wf cf \<longleftrightarrow> list_all pattern_wf (dc_patterns cf) \<and> list_all child_wf (dc_children cf)"

lemma dpattern_line_wf: "list_all rule_wf (dp_rules pat) \<Longrightarrow> list_all rule_wf (dp_rules (dpattern_line w pat))"
proof -
  have "tl w \<noteq> []" if "\<not> length w < 2" using that by (cases w) auto
  then show "list_all rule_wf (dp_rules pat) \<Longrightarrow> list_all rule_wf (dp_rules (dpattern_line w pat))"
    by (simp add: dpattern_line_def add_drule_def rule_wf_def Let_def)
qed

lemma dpattern_lines_wf:
  assumes "dpattern_lines fsys pat s = Some (Inr (pat', s'))" "list_all rule_wf (dp_rules pat)"
  shows "list_all rule_wf (dp_rules pat')"
proof -
  define P where "P = (\<lambda>(fsys::filesys) (pat::dpattern) (s::cfstate) (r :: cf_err + dpattern \<times> cfstate).
    \<forall>pat' s'. r = Inr (pat', s') \<longrightarrow> list_all rule_wf (dp_rules pat) \<longrightarrow> list_all rule_wf (dp_rules pat'))"
  have "P fsys pat s (Inr (pat', s'))"
    by (rule dpattern_lines.raw_induct [where P = P, OF _ assms(1)])
       (auto simp: P_def split: option.splits sum.splits if_splits, blast dest: dpattern_line_wf)
  with assms(2) show ?thesis by (simp add: P_def)
qed

lemma parsepattern_wf: "parsepattern fsys s = Some (Inr (Some pat, s')) \<Longrightarrow> pattern_wf pat"
  by (auto simp: parsepattern_def pattern_wf_def new_dpattern_def split: if_splits option.splits sum.splits
      dest!: dpattern_lines_wf)

lemma config_line_fields [simp]:
  "dc_patterns (config_line w cf) = dc_patterns cf" "dc_children (config_line w cf) = dc_children cf"
  by (simp_all add: config_line_def Let_def)

lemma dconfig_lines_wf:
  assumes "dconfig_lines fsys cf s = Some (Inr cf')" "config_wf cf"
  shows "config_wf cf'"
proof -
  define P where "P = (\<lambda>(fsys::filesys) (cf::dconfig) (s::cfstate) (r :: cf_err + dconfig).
    \<forall>cf'. r = Inr cf' \<longrightarrow> config_wf cf \<longrightarrow> config_wf cf')"
  have "P fsys cf s (Inr cf')"
  proof (rule dconfig_lines.raw_induct [where P = P, OF _ assms(1)])
    fix run and fsys :: filesys and cf :: dconfig and s :: cfstate and r
    assume IH: "\<And>fsys cf s r. run fsys cf s = Some r \<Longrightarrow> P fsys cf s r"
      and r: "(case getcfline fsys s of None \<Rightarrow> None | Some (Inl e) \<Rightarrow> Some (Inl e)
        | Some (Inr s1) \<Rightarrow> (case parsechild fsys s1 of None \<Rightarrow> None | Some (Inl e) \<Rightarrow> Some (Inl e)
          | Some (Inr (Some ch, s2)) \<Rightarrow> run fsys (cf\<lparr>dc_children := ch # dc_children cf\<rparr>) s2
          | Some (Inr (None, s2)) \<Rightarrow> (case parsepattern fsys s2 of None \<Rightarrow> None
            | Some (Inl e) \<Rightarrow> Some (Inl e)
            | Some (Inr (Some pat, s3)) \<Rightarrow> run fsys (cf\<lparr>dc_patterns := pat # dc_patterns cf\<rparr>) s3
            | Some (Inr (None, s3)) \<Rightarrow>
                (if argv s3 ! 0 = ''eof'' then Some (Inr cf) else run fsys (config_line (argv s3) cf) s3)))) = Some r"
    show "P fsys cf s r"
    proof (cases "\<exists>e. r = Inl e \<or> r = Inr cf")
      case True
      then show ?thesis by (auto simp: P_def)
    next
      case False
      then consider (child) ch s1 s2 where "parsechild fsys s1 = Some (Inr (Some ch, s2))"
          "run fsys (cf\<lparr>dc_children := ch # dc_children cf\<rparr>) s2 = Some r"
        | (pat) pat s2 s3 where "parsepattern fsys s2 = Some (Inr (Some pat, s3))"
          "run fsys (cf\<lparr>dc_patterns := pat # dc_patterns cf\<rparr>) s3 = Some r"
        | (other) s3 where "run fsys (config_line (argv s3) cf) s3 = Some r"
        using r by (auto split: option.splits sum.splits prod.splits if_splits)
      then show ?thesis
      proof cases
        case child
        then show ?thesis
          using IH [OF child(2)] parsechild_fd [OF child(1)] parsechild_std [OF child(1)]
          by (simp add: P_def config_wf_def child_wf_def)
      next
        case pat
        then show ?thesis using IH [OF pat(2)] parsepattern_wf [OF pat(1)] by (simp add: P_def config_wf_def)
      next
        case other
        then show ?thesis using IH [OF other] by (simp add: P_def config_wf_def)
      qed
    qed
  qed
  with assms(2) show ?thesis by (simp add: P_def)
qed

lemma readconfig_config_wf: "readconfig fsys file = Some (Inr (Some cf)) \<Longrightarrow> config_wf cf"
proof -
  assume "readconfig fsys file = Some (Inr (Some cf))"
  then obtain s r where r: "dconfig_lines fsys emptyconfig s = Some r"
    "map_sum id Some r = (Inr (Some cf) :: cf_err + dconfig option)"
    by (auto simp: readconfig_def split: option.splits sum.splits)
  then have "r = Inr cf" by (cases r) auto
  moreover have "config_wf emptyconfig" by (simp add: config_wf_def emptyconfig_def)
  ultimately show "config_wf cf" using dconfig_lines_wf r(1) by blast
qed

section \<open>The cache as a map\<close>

definition entry :: "dconfig list \<Rightarrow> cstring \<Rightarrow> dconfig option" where
  "entry cfs path = find (\<lambda>cf. dc_path cf = Some path) cfs"

definition cache_ok :: "dconfig list \<Rightarrow> bool" where
  "cache_ok cfs \<longleftrightarrow> distinct (map dc_path cfs)"

lemma path_pos_None: "path_pos cfs p = None \<longleftrightarrow> (\<forall>cf\<in>set cfs. dc_path cf \<noteq> Some p)"
  by (auto simp: path_pos_def find_None_iff all_set_conv_all_nth)

lemma path_pos_Some: "path_pos cfs p = Some i \<Longrightarrow> i < length cfs \<and> dc_path (cfs ! i) = Some p"
  by (auto simp: path_pos_def find_Some_iff)

lemma entry_Some: "entry cfs p = Some cf \<Longrightarrow> cf \<in> set cfs \<and> dc_path cf = Some p"
  by (auto simp: entry_def find_Some_iff)

lemma entry_unique: "cache_ok cfs \<Longrightarrow> entry cfs p = Some cf \<longleftrightarrow> cf \<in> set cfs \<and> dc_path cf = Some p"
proof
  assume ok: "cache_ok cfs" and cf: "cf \<in> set cfs \<and> dc_path cf = Some p"
  then obtain c where "entry cfs p = Some c" unfolding entry_def by (metis (mono_tags) find_None_iff option.exhaust)
  moreover have "inj_on dc_path (set cfs)" using ok by (simp add: cache_ok_def distinct_map)
  ultimately show "entry cfs p = Some cf" using cf entry_Some inj_onD by (metis (no_types))
qed (use entry_Some in blast)

text \<open>What the calls do to the cache: one entry is new, the others stay.\<close>

definition updated :: "dconfig list \<Rightarrow> cstring \<Rightarrow> dconfig \<Rightarrow> dconfig list \<Rightarrow> bool" where
  "updated cfs p cf cfs' \<longleftrightarrow> cache_ok cfs' \<and> entry cfs' p = Some cf \<and> (\<forall>q. q \<noteq> p \<longrightarrow> entry cfs' q = entry cfs q)"

lemma updated_add: "cache_ok cfs \<Longrightarrow> path_pos cfs p = None \<Longrightarrow> dc_path cf = Some p \<Longrightarrow> updated cfs p cf (cf # cfs)"
  by (auto simp: updated_def path_pos_None cache_ok_def entry_def)

lemma drop_at_split: "i < length xs \<Longrightarrow> xs = take i xs @ xs ! i # drop (Suc i) xs"
  by (rule id_take_nth_drop)

lemma updated_replace:
  assumes "cache_ok cfs" "path_pos cfs p = Some i" "dc_path cf = Some p"
  shows "updated cfs p cf (cf # drop_at i cfs)"
proof -
  have i: "i < length cfs" "dc_path (cfs ! i) = Some p" using path_pos_Some [OF assms(2)] by auto
  note cs = drop_at_split [OF i(1)]
  have "distinct (map dc_path (take i cfs @ cfs ! i # drop (Suc i) cfs))" using assms(1) cs by (simp add: cache_ok_def)
  then have "cache_ok (cf # drop_at i cfs)" using i(2) assms(3) by (auto simp: cache_ok_def drop_at_def)
  moreover have "entry (drop_at i cfs) q = entry cfs q" if "q \<noteq> p" for q
  proof -
    have "find P (as @ x # bs) = find P (as @ bs)" if "\<not> P x" for P :: "dconfig \<Rightarrow> bool" and as x bs
      using that by (induction as) auto
    then have "entry (take i cfs @ cfs ! i # drop (Suc i) cfs) q = entry (drop_at i cfs) q"
      using i(2) \<open>q \<noteq> p\<close> by (simp add: entry_def drop_at_def)
    then show ?thesis using cs by simp
  qed
  ultimately show ?thesis using assms(3) by (simp add: updated_def) (simp add: entry_def)
qed

lemma path_pos_update: "path_pos (cfs[i := (cfs ! i)\<lparr>dc_lastck := t\<rparr>]) p = path_pos cfs p"
proof -
  have "dc_path ((cfs[i := (cfs ! i)\<lparr>dc_lastck := t\<rparr>]) ! j) = dc_path (cfs ! j)" for j
    by (cases "i < length cfs") (auto simp: nth_list_update list_update_beyond not_less)
  then show ?thesis by (simp add: path_pos_def)
qed

lemma updated_touch:
  assumes "cache_ok cfs" "path_pos cfs p = Some i"
  shows "updated cfs p ((cfs ! i)\<lparr>dc_lastck := t\<rparr>) (cfs[i := (cfs ! i)\<lparr>dc_lastck := t\<rparr>])"
proof -
  let ?c = "(cfs ! i)\<lparr>dc_lastck := t\<rparr>"
  have i: "i < length cfs" "dc_path (cfs ! i) = Some p" using path_pos_Some [OF assms(2)] by auto
  have "map dc_path (cfs[i := ?c]) = map dc_path cfs" using i by (simp add: map_update list_update_same_conv)
  then have ok: "cache_ok (cfs[i := ?c])" using assms(1) by (simp add: cache_ok_def)
  have "entry (cfs[i := ?c]) q = entry cfs q" if "q \<noteq> p" for q
  proof -
    have "find P (xs[j := y]) = find P xs" if "j < length xs" "\<not> P y" "\<not> P (xs ! j)" for P :: "dconfig \<Rightarrow> bool" and xs j y
      using that by (induction xs arbitrary: j) (auto split: nat.split simp: nth_Cons)
    then show ?thesis using i that by (simp add: entry_def)
  qed
  moreover have "entry (cfs[i := ?c]) p = Some ?c"
    using entry_unique [OF ok] i set_update_memI [OF i(1)] by simp
  ultimately show ?thesis using ok by (simp add: updated_def)
qed

lemma updated_trans: "updated cfs p c cfs1 \<Longrightarrow> updated cfs1 p cf cfs2 \<Longrightarrow> updated cfs p cf cfs2"
  by (simp add: updated_def)

section \<open>Facts on the calls\<close>

definition all_fds :: "dconfig list \<Rightarrow> int list" where
  "all_fds cfs = concat (map child_fds_of cfs)"

lemma all_fds_simps [simp]:
  "all_fds [] = []" "all_fds (cf # cfs) = child_fds_of cf @ all_fds cfs" "all_fds (cfs @ ds) = all_fds cfs @ all_fds ds"
  by (simp_all add: all_fds_def)

lemma all_fds_at: "i < length cfs \<Longrightarrow> live (all_fds cfs) = live (child_fds_of (cfs ! i)) + live (all_fds (drop_at i cfs))"
proof -
  assume "i < length cfs"
  from drop_at_split [OF this] have "all_fds cfs = all_fds (take i cfs @ cfs ! i # drop (Suc i) cfs)" by simp
  then show ?thesis by (simp add: drop_at_def)
qed

lemma all_fds_touch: "all_fds (cfs[i := (cfs ! i)\<lparr>dc_lastck := t\<rparr>]) = all_fds cfs"
proof -
  have "map child_fds_of (cfs[i := (cfs ! i)\<lparr>dc_lastck := t\<rparr>]) = map child_fds_of cfs"
    by (cases "i < length cfs") (simp_all add: map_update list_update_same_conv child_fds_of_def list_update_beyond not_less)
  then show ?thesis by (simp add: all_fds_def)
qed

lemma fresh_children: "config_wf cf \<Longrightarrow> \<forall>ch\<in>set (dc_children cf). freechild ch = []"
  by (auto simp: config_wf_def list_all_iff child_wf_def freechild_def)

lemma no_child_fds: "\<forall>ch\<in>set chs. freechild ch = [] \<Longrightarrow> child_fds chs = []"
  by (simp add: child_fds_def)

lemma fresh_config_wf: "fresh_config fsys st p = Some (Inr (Some (cf, mt))) \<Longrightarrow> config_wf cf"
  by (auto simp: fresh_config_def config_wf_def emptyconfig_def split: if_splits option.splits sum.splits
      dest!: readconfig_config_wf)

lemma install_config_fields:
  "install_config now p old cfs cf mt = (cf1, cfs1, shut) \<Longrightarrow> dc_path cf1 = Some p \<and> dc_lastck cf1 = now"
  by (auto simp: install_config_def Let_def split: option.splits prod.splits)

lemma install_config_fds:
  assumes "install_config now p old cfs cf mt = (cf1, cfs1, shut)" "config_wf cf" "\<forall>i. old = Some i \<longrightarrow> i < length cfs"
  shows "live (all_fds cfs1) + live shut = live (all_fds cfs)"
proof (cases old)
  case None
  with assms no_child_fds [OF fresh_children [OF assms(2)]] show ?thesis
    by (auto simp: install_config_def Let_def child_fds_of_def)
next
  case (Some i)
  obtain new gone where m: "mergechildren (dc_children cf) (dc_children (cfs ! i)) = (new, gone)" by fastforce
  have merged: "live (child_fds (dc_children (cfs ! i))) = live (child_fds new) + live (child_fds gone)"
    using mergechildren_law [OF m fresh_children [OF assms(2)]] by simp
  have "live (all_fds cfs1) = live (child_fds new) + live (all_fds (drop_at i cfs))" "shut = child_fds gone"
    using assms(1) Some m by (auto simp: install_config_def Let_def child_fds_of_def)
  moreover have "live (all_fds cfs) = live (child_fds new) + live (child_fds gone) + live (all_fds (drop_at i cfs))"
    using all_fds_at [of i cfs] assms(3) Some by (simp only: child_fds_of_def merged)
  ultimately show ?thesis by (simp only: add.assoc add.commute [of "live (all_fds (drop_at i cfs))"])
qed

lemma install_config_updated:
  assumes "install_config now p (path_pos cfs p) cfs cf mt = (cf1, cfs1, shut)" "cache_ok cfs"
  shows "updated cfs p cf1 cfs1"
proof (cases "path_pos cfs p")
  case None
  then have "cfs1 = cf1 # cfs" using assms(1) by (auto simp: install_config_def Let_def)
  with updated_add [OF assms(2) None] install_config_fields [OF assms(1)] show ?thesis by simp
next
  case (Some i)
  then have "cfs1 = cf1 # drop_at i cfs" using assms(1) by (auto simp: install_config_def Let_def split: prod.splits)
  with updated_replace [OF assms(2) Some] install_config_fields [OF assms(1)] show ?thesis by simp
qed

lemma load_config_cases:
  assumes "load_config fsys st now p old cfs = Some (Inr (c, cfs', shut))"
  obtains "c = None" "cfs' = cfs" "shut = []"
  | cf mt cf1 where "config_wf cf" "install_config now p old cfs cf mt = (cf1, cfs', shut)" "c = Some cf1"
proof -
  consider "fresh_config fsys st p = Some (Inr None)"
    | cf mt where "fresh_config fsys st p = Some (Inr (Some (cf, mt)))"
    using assms by (auto simp: load_config_def split: option.splits sum.splits)
  then show ?thesis
  proof cases
    case 1
    with assms that(1) show ?thesis by (simp add: load_config_def)
  next
    case 2
    obtain cf1 c1 s1 where i: "install_config now p old cfs cf mt = (cf1, c1, s1)" using prod_cases3 by blast
    with 2 assms that(2) [OF fresh_config_wf [OF 2], of mt cf1] show ?thesis by (simp add: load_config_def)
  qed
qed

text \<open>The four ways through \<open>getconfig\<close>.\<close>

lemma getconfig_cases:
  assumes "getconfig fsys st now p cfs = Some (Inr (c, cfs', shut))"
  obtains (new) "path_pos cfs p = None" "load_config fsys st now p None cfs = Some (Inr (c, cfs', shut))"
  | (recent) i where "path_pos cfs p = Some i" "c = Some (cfs ! i)" "cfs' = cfs" "shut = []" "now - dc_lastck (cfs ! i) \<le> 5"
  | (same) i where "path_pos cfs p = Some i" "c = Some ((cfs ! i)\<lparr>dc_lastck := now\<rparr>)"
      "cfs' = cfs[i := (cfs ! i)\<lparr>dc_lastck := now\<rparr>]" "shut = []"
  | (changed) i where "path_pos cfs p = Some i"
      "load_config fsys st now p (Some i) (cfs[i := (cfs ! i)\<lparr>dc_lastck := now\<rparr>]) = Some (Inr (c, cfs', shut))"
proof (cases "path_pos cfs p")
  case None
  with assms new show ?thesis by (simp add: getconfig_def)
next
  case (Some i)
  define touched where "touched = cfs[i := (cfs ! i)\<lparr>dc_lastck := now\<rparr>]"
  have g: "getconfig fsys st now p cfs =
      (if now - dc_lastck (cfs ! i) > 5 then
         if mtime_of st (htrc p) \<noteq> Some (dc_mtime (cfs ! i)) then load_config fsys st now p (Some i) touched
         else Some (Inr (Some ((cfs ! i)\<lparr>dc_lastck := now\<rparr>), touched, []))
       else Some (Inr (Some (cfs ! i), cfs, [])))"
    by (simp add: getconfig_def Some touched_def Let_def)
  consider "\<not> now - dc_lastck (cfs ! i) > 5"
    | "now - dc_lastck (cfs ! i) > 5" "mtime_of st (htrc p) = Some (dc_mtime (cfs ! i))"
    | "now - dc_lastck (cfs ! i) > 5" "mtime_of st (htrc p) \<noteq> Some (dc_mtime (cfs ! i))" by blast
  then show ?thesis
  proof cases
    case 1
    with assms g show ?thesis by (intro recent [OF Some]) auto
  next
    case 2
    with assms g show ?thesis by (intro same [OF Some]) (auto simp: touched_def)
  next
    case 3
    with assms g show ?thesis by (intro changed [OF Some]) (auto simp: touched_def)
  qed
qed

text \<open>One call of \<open>getconfig\<close>: the entry is checked within the last five seconds, the others are as they were.\<close>

lemma getconfig_updated:
  assumes "getconfig fsys st now p cfs = Some (Inr (Some cf, cfs', shut))" "cache_ok cfs"
  shows "updated cfs p cf cfs' \<and> now - dc_lastck cf \<le> 5"
  using assms(1)
proof (cases rule: getconfig_cases)
  case new
  from new(2) obtain d mt where "install_config now p (path_pos cfs p) cfs d mt = (cf, cfs', shut)"
    using new(1) by (cases rule: load_config_cases) auto
  with install_config_updated [OF _ assms(2)] install_config_fields show ?thesis by fastforce
next
  case (recent i)
  then show ?thesis using entry_unique [OF assms(2)] path_pos_Some [OF recent(1)] assms(2) by (auto simp: updated_def)
next
  case (same i)
  then show ?thesis using updated_touch [OF assms(2) same(1), of now] by simp
next
  case (changed i)
  let ?cfs = "cfs[i := (cfs ! i)\<lparr>dc_lastck := now\<rparr>]"
  note touch = updated_touch [OF assms(2) changed(1), of now]
  from changed(2) obtain d mt where "install_config now p (path_pos ?cfs p) ?cfs d mt = (cf, cfs', shut)"
    using changed(1) by (cases rule: load_config_cases) (auto simp: path_pos_update)
  with install_config_updated [OF this] install_config_fields [OF this] touch updated_trans [OF touch]
  show ?thesis by (auto simp: updated_def)
qed

lemma getconfig_none:
  assumes "getconfig fsys st now p cfs = Some (Inr (None, cfs', shut))" "cache_ok cfs"
  shows "cfs' = cfs \<and> path_pos cfs p = None \<or> (\<exists>c. updated cfs p c cfs')"
  using assms(1)
proof (cases rule: getconfig_cases)
  case new
  from new(2) show ?thesis using new(1) by (cases rule: load_config_cases) auto
next
  case (changed i)
  from changed(2) show ?thesis
    using updated_touch [OF assms(2) changed(1), of now] by (cases rule: load_config_cases) auto
qed auto

lemma load_config_fds:
  assumes "load_config fsys st now p old cfs = Some (Inr (c, cfs', shut))" "\<forall>i. old = Some i \<longrightarrow> i < length cfs"
  shows "live (all_fds cfs') + live shut = live (all_fds cfs)"
  using assms(1) by (cases rule: load_config_cases) (use install_config_fds assms(2) in auto)

lemma getconfig_fds:
  assumes "getconfig fsys st now p cfs = Some (Inr (c, cfs', shut))"
  shows "live (all_fds cfs') + live shut = live (all_fds cfs)"
  using assms
proof (cases rule: getconfig_cases)
  case new
  then show ?thesis using load_config_fds by blast
next
  case (same i)
  then show ?thesis by (simp add: all_fds_touch)
next
  case (changed i)
  then show ?thesis using load_config_fds [OF changed(2)] path_pos_Some [OF changed(1)] by (simp add: all_fds_touch)
qed simp

lemma load_all_fds:
  "load_all fsys st now ds cfs = Some (Inr (found, cfs', shut)) \<Longrightarrow> live (all_fds cfs') + live shut = live (all_fds cfs)"
proof (induction ds arbitrary: cfs found cfs' shut)
  case (Cons d ds)
  then obtain c cfs1 sh1 found1 sh2 where step: "getconfig fsys st now d cfs = Some (Inr (c, cfs1, sh1))"
    "load_all fsys st now ds cfs1 = Some (Inr (found1, cfs', sh2))" "shut = sh1 @ sh2"
    by (auto split: option.splits sum.splits)
  with getconfig_fds [OF step(1)] Cons.IH [OF step(2)] show ?case by (metis live_simps(3) union_assoc union_commute)
qed simp

text \<open>A configuration that has been got is got again as long as the clock stands still.\<close>

definition fresh_at :: "int \<Rightarrow> cstring \<Rightarrow> dconfig \<Rightarrow> dconfig list \<Rightarrow> bool" where
  "fresh_at now p cf cfs \<longleftrightarrow> cache_ok cfs \<and> entry cfs p = Some cf \<and> now - dc_lastck cf \<le> 5"

lemma getconfig_fresh: "fresh_at now p cf cfs \<Longrightarrow> getconfig fsys st now p cfs = Some (Inr (Some cf, cfs, []))"
proof -
  assume f: "fresh_at now p cf cfs"
  then have cf: "cf \<in> set cfs" "dc_path cf = Some p" using entry_Some by (auto simp: fresh_at_def)
  then obtain i where i: "path_pos cfs p = Some i" using path_pos_None [of cfs p] by (cases "path_pos cfs p") auto
  with path_pos_Some [OF i] f have "entry cfs p = Some (cfs ! i)"
    using entry_unique [of cfs p "cfs ! i"] by (simp add: fresh_at_def)
  with f i show ?thesis by (simp add: fresh_at_def getconfig_def Let_def)
qed

lemma fresh_step:
  assumes "fresh_at now p cf cfs" "getconfig fsys st now q cfs = Some (Inr (c, cfs', shut))"
  shows "fresh_at now p cf cfs'"
proof (cases "q = p")
  case True
  then show ?thesis using getconfig_fresh [OF assms(1), of fsys st] assms by simp
next
  case False
  have ok: "cache_ok cfs" using assms(1) by (simp add: fresh_at_def)
  have "cfs' = cfs \<or> (\<exists>d. updated cfs q d cfs')"
    using assms(2) getconfig_updated [OF _ ok] getconfig_none [OF _ ok] by (cases c) blast+
  with False assms(1) show ?thesis by (auto simp: fresh_at_def updated_def)
qed

lemma fresh_steps:
  "fresh_at now p cf cfs \<Longrightarrow> load_all fsys st now ds cfs = Some (Inr (found, cfs', shut)) \<Longrightarrow> fresh_at now p cf cfs'"
proof (induction ds arbitrary: cfs found cfs' shut)
  case (Cons d ds)
  then obtain c cfs1 sh1 found1 sh2 where "getconfig fsys st now d cfs = Some (Inr (c, cfs1, sh1))"
    "load_all fsys st now ds cfs1 = Some (Inr (found1, cfs', sh2))"
    by (auto split: option.splits sum.splits)
  with Cons.IH fresh_step [OF Cons.prems(1)] show ?case by blast
qed simp

section \<open>Properties\<close>

text \<open>C32. Whatever is in a configuration file, every pattern read from it has a rule and a handler, a
  rule on names has a pattern, and every child has arguments and no process yet: the pointers that
  \<open>findmatch\<close>, \<open>handle\<close> and the handlers follow are not null.\<close>

theorem dirplex_config_typed:
  "case readconfig fsys file of Some (Inr (Some cf)) \<Rightarrow> config_wf cf | _ \<Rightarrow> True"
  by (auto split: option.split sum.split dest: readconfig_config_wf)

text \<open>The patterns that match when the \<open>default\<close> rules count as met, in the order of distance.\<close>

definition candidates :: "(bool \<Rightarrow> cstring \<Rightarrow> cstring \<Rightarrow> bool) \<Rightarrow> dconfig list \<Rightarrow> cstring \<Rightarrow> dpat_type \<Rightarrow> dpattern list" where
  "candidates fnmatch cfs file type = concat (map (\<lambda>cf.
     filter (pattern_ok fnmatch True type (base_name file) (local_name cf file)) (dc_patterns cf)) cfs)"

definition has_default :: "dpattern \<Rightarrow> bool" where
  "has_default p = list_ex (\<lambda>r. dr_type r = PAT_DEFAULT) (dp_rules p)"

lemma pattern_ok_plain:
  "pattern_ok fnmatch False type bn ln p \<longleftrightarrow> pattern_ok fnmatch True type bn ln p \<and> \<not> has_default p"
  by (auto simp: pattern_ok_def has_default_def list_all_iff list_ex_iff rule_ok_def split: drule_type.splits)

lemma find_append: "find P (xs @ ys) = (case find P xs of Some x \<Rightarrow> Some x | None \<Rightarrow> find P ys)"
  by (induction xs) auto

lemma find_filter: "find P (filter Q xs) = find (\<lambda>x. Q x \<and> P x) xs"
  by (induction xs) auto

lemma match_from_candidates:
  "match_from fnmatch file True type cfs = find (\<lambda>p. True) (candidates fnmatch cfs file type)"
  "match_from fnmatch file False type cfs = find (\<lambda>p. \<not> has_default p) (candidates fnmatch cfs file type)"
  by (induction cfs) (simp_all add: candidates_def find_append find_filter pattern_ok_plain [abs_def] cong: option.case_cong)

text \<open>\<open>findmatch\<close> chooses the nearest pattern without a \<open>default\<close> rule that matches the file, and
  only when there is none in any configuration in scope the nearest that matches with one.\<close>

lemma dirplex_match_order:
  "findmatch fnmatch cfs file type =
    (case filter (\<lambda>p. \<not> has_default p) (candidates fnmatch cfs file type) of
       p # _ \<Rightarrow> Some p
     | [] \<Rightarrow> (case candidates fnmatch cfs file type of p # _ \<Rightarrow> Some p | [] \<Rightarrow> None))"
proof -
  have "find P xs = (case filter P xs of [] \<Rightarrow> None | x # _ \<Rightarrow> Some x)" for P :: "dpattern \<Rightarrow> bool" and xs
    by (induction xs) auto
  then show ?thesis
    unfolding findmatch_def match_from_candidates by (simp split: list.split option.split)
qed

text \<open>During a request, for which the clock is read once, \<open>getconfig\<close> gives the same configuration for
  a directory each time, whatever other directories are looked at in between, and changes nothing:
  the configuration in use is not given back under its users.\<close>

lemma getconfig_stable:
  assumes "cache_ok cfs" "getconfig fsys st now p cfs = Some (Inr (Some cf, cfs1, shut1))"
    and "getconfigs fsys st now lconfig gconfig file cfs1 = Some (Inr (found, cfs2, shut2))"
  shows "getconfig fsys2 st2 now p cfs2 = Some (Inr (Some cf, cfs2, []))"
proof -
  have "fresh_at now p cf cfs1" using getconfig_updated [OF assms(2,1)] by (simp add: fresh_at_def updated_def)
  moreover obtain f where "load_all fsys st now (scope_dirs file) cfs1 = Some (Inr (f, cfs2, shut2))"
    using assms(3) by (auto simp: getconfigs_def split: option.splits sum.splits)
  ultimately show ?thesis using fresh_steps getconfig_fresh by blast
qed

definition no_files :: filesys where
  "no_files = \<lparr>fs_glob = \<lambda>p. [], fs_open = \<lambda>p. None\<rparr>"

definition no_htrc :: htstat where
  "no_htrc = \<lparr>readable = \<lambda>p. False, mtime_of = \<lambda>p. None\<rparr>"

lemma getconfig_stable_witness:
  "\<exists>cf cfs2. getconfig no_files no_htrc 100 ''a'' [] = Some (Inr (Some cf, [cf], [])) \<and>
     getconfig no_files no_htrc 100 ''a'' cfs2 = Some (Inr (Some cf, cfs2, [])) \<and> map dc_path cfs2 = [Some ''.'', Some ''a'']"
proof -
  let ?c = "emptyconfig\<lparr>dc_path := Some ''a'', dc_lastck := 100\<rparr>"
  let ?d = "emptyconfig\<lparr>dc_path := Some ''.'', dc_lastck := 100\<rparr>"
  have "getconfig no_files no_htrc 100 ''a'' [] = Some (Inr (Some ?c, [?c], []))"
    by (simp add: getconfig_def path_pos_def load_config_def fresh_config_def no_htrc_def install_config_def emptyconfig_def Let_def)
  moreover have "getconfigs no_files no_htrc 100 None None ''a/x'' [?c] = Some (Inr ([?c, ?d], [?d, ?c], []))"
    by code_simp
  moreover have "cache_ok []" by (simp add: cache_ok_def)
  ultimately show ?thesis
    using getconfig_stable [of "[]" no_files no_htrc 100 "''a''" ?c "[?c]" "[]" None None "''a/x''" "[?c, ?d]" "[?d, ?c]" "[]" no_files no_htrc]
    by auto
qed

text \<open>However often configurations are read anew, no connection to a running child is lost or kept
  twice: each is with a child of a configuration in the cache or has been closed.\<close>

lemma cache_conserves_children:
  assumes "getconfigs fsys st now lconfig gconfig file cfs = Some (Inr (found, cfs', shut))"
  shows "live (all_fds cfs') + live shut = live (all_fds cfs)"
  using assms load_all_fds by (auto simp: getconfigs_def split: option.splits sum.splits)

definition old_config :: dconfig where
  "old_config = emptyconfig\<lparr>dc_path := Some ''.'', dc_children := [newchild ''a'' StdHandler a_child]\<rparr>"

lemma cache_conserves_children_witness:
  "\<exists>found cfs' shut. getconfigs no_files no_htrc 100 None None ''x'' [old_config] = Some (Inr (found, cfs', shut)) \<and>
     live (all_fds cfs') + live shut = {#5#}"
proof -
  let ?d = "emptyconfig\<lparr>dc_path := Some ''.'', dc_lastck := 100\<rparr>"
  have "getconfigs no_files no_htrc 100 None None ''x'' [old_config] = Some (Inr ([?d], [?d], [5]))" by code_simp
  from cache_conserves_children [OF this] this show ?thesis
    by (auto simp: old_config_def child_fds_of_def newchild_def a_child_def new_std_def freechild_def)
qed

end
