(* ===== verification/Dirplex.thy ===== *)
theory Dirplex
  imports Dirconf Resp
begin

text \<open>
  The directory multiplexer, \<open>src/dirplex/dirplex.c\<close>: mapping the rest string of a request to a file,
  one path element at a time, and passing the request to the handler for the file.

  The mapping (\<open>checkpath\<close>) ends in a \<open>target\<close>, and \<open>respond\<close> does what the code does there. The file
  system and the configurations are parameters: \<open>d_conf\<close> is what \<open>getconfig\<close> gives for a directory,
  which is the same for the whole request.
\<close>

section \<open>The surroundings\<close>

datatype fkind = FDir | FReg | FOther

record dirsys =
  d_stat :: "cstring \<Rightarrow> fkind option"
  d_list :: "cstring \<Rightarrow> cstring list option"
  d_conf :: "cstring \<Rightarrow> dconfig option"
  d_local :: "dconfig option"
  d_global :: "dconfig option"
  d_fnmatch :: "bool \<Rightarrow> cstring \<Rightarrow> cstring \<Rightarrow> bool"

definition scope :: "dirsys \<Rightarrow> cstring \<Rightarrow> dconfig list" where
  "scope sys file = List.map_filter (d_conf sys) (scope_dirs file) @
     (case d_local sys of None \<Rightarrow> [] | Some cf \<Rightarrow> [cf]) @ (case d_global sys of None \<Rightarrow> [] | Some cf \<Rightarrow> [cf])"

definition join :: "cstring \<Rightarrow> cstring \<Rightarrow> cstring" where
  "join path name = path @ ''/'' @ name"

section \<open>Access and file names\<close>

definition checkaccess :: "dirsys \<Rightarrow> cstring \<Rightarrow> cstring \<Rightarrow> bool" where
  "checkaccess sys path name =
     (if take 1 name = ''.'' then
        (case find (\<lambda>cf. dc_dotallow cf \<noteq> None) (scope sys (path @ ''/'')) of
           None \<Rightarrow> False
         | Some cf \<Rightarrow> list_ex (\<lambda>p. d_fnmatch sys False p name) (the (dc_dotallow cf)))
      else True)"

text \<open>The first entry whose name up to the first dot is \<open>name\<close>; backup files are passed over.\<close>

definition file_candidate :: "dirsys \<Rightarrow> cstring \<Rightarrow> cstring \<Rightarrow> cstring \<Rightarrow> bool" where
  "file_candidate sys path name e \<longleftrightarrow> drop (length e - 1) e \<noteq> ''~'' \<and>
     (case strchr e (CHR ''.'') of None \<Rightarrow> False | Some (a, _) \<Rightarrow> a = name) \<and>
     d_stat sys (join path e) = Some FReg \<and> checkaccess sys path e"

definition findfile :: "dirsys \<Rightarrow> cstring \<Rightarrow> cstring \<Rightarrow> cstring option" where
  "findfile sys path name = (case d_list sys path of
      None \<Rightarrow> None
    | Some es \<Rightarrow> map_option (join path) (find (file_candidate sys path name) es))"

section \<open>Where a request goes\<close>

text \<open>
  The ends of the mapping: a file or a directory, nothing (with the path that goes to the search for a
  handler), a capture by the handler named in a configuration, a redirection or an error page. With
  \<open>NoReply\<close> the request is taken as handled and nothing has been sent; \<open>Died\<close> is a configuration that is
  a null pointer.
\<close>

datatype target =
    MappedFile hthead cstring
  | MappedDir hthead cstring
  | Missing hthead cstring
  | Captured hthead cstring cstring
  | RedirectTo int cstring
  | BadRequest
  | NoReply
  | Died

text \<open>The search for an index file in \<open>handledir\<close>.\<close>

fun find_index :: "dirsys \<Rightarrow> cstring \<Rightarrow> cstring list \<Rightarrow> cstring option" where
  "find_index sys path [] = None"
| "find_index sys path (inm # names) =
     (if d_stat sys (join path inm) = Some FReg then Some (join path inm)
      else (case (if CHR ''.'' \<in> set inm then None else findfile sys path inm) of
          Some f \<Rightarrow> Some f
        | None \<Rightarrow> find_index sys path names))"

definition handledir :: "dirsys \<Rightarrow> hthead \<Rightarrow> cstring \<Rightarrow> target" where
  "handledir sys req path =
     (case find (\<lambda>cf. dc_index cf \<noteq> None) (scope sys (path @ ''/'')) of
        None \<Rightarrow> MappedDir req (path @ ''/'')
      | Some cf \<Rightarrow> (case find_index sys path (the (dc_index cf)) of
          Some f \<Rightarrow> MappedFile req f
        | None \<Rightarrow> MappedDir req (path @ ''/'')))"

text \<open>One step of the mapping; \<open>Enter\<close> is the recursive call for a directory.\<close>

datatype dstep = Answer target | Enter cstring cstring | Nothing

definition checkentry :: "dirsys \<Rightarrow> hthead \<Rightarrow> cstring \<Rightarrow> cstring \<Rightarrow> cstring \<Rightarrow> dstep" where
  "checkentry sys req path rest el = (case d_stat sys (join path el) of
      Some k \<Rightarrow>
        if \<not> checkaccess sys path el then Nothing
        else (case k of
            FDir \<Rightarrow> if rest = [] then Answer (RedirectTo 301 (el @ ''/'')) else Enter (join path el) (tl rest)
          | FReg \<Rightarrow> Answer (MappedFile (replrest req rest) (join path el))
          | FOther \<Rightarrow> Answer (Missing req (path @ ''/'')))
    | None \<Rightarrow> (case (if CHR ''.'' \<in> set el then None else findfile sys path el) of
          Some f \<Rightarrow> Answer (MappedFile (replrest req rest) f)
        | None \<Rightarrow> Nothing))"

text \<open>\<open>DirReparse\<close> is the recursive call for a \<open>reparse\<close>, with its flag.\<close>

datatype dirstep = DirAnswer target | DirReparse cstring bool | DirNothing

definition checkdir :: "dirsys \<Rightarrow> hthead \<Rightarrow> cstring \<Rightarrow> cstring \<Rightarrow> dirstep" where
  "checkdir sys req path rest = (case d_conf sys path of
      None \<Rightarrow> DirAnswer Died
    | Some cf \<Rightarrow>
        if dc_capture cf \<noteq> None \<and> (dc_caproot cf \<or> dc_path cf = None \<or> dc_path cf \<noteq> Some ''.'') then
          DirAnswer (Captured (replrest req (if take 1 rest = ''/'' then tl rest else rest)) (path @ ''/'') (the (dc_capture cf)))
        else (case dc_reparse cf of
            None \<Rightarrow> DirNothing
          | Some r \<Rightarrow>
              let newpath = (if take 1 r = ''/'' then r else join path r) in
              (case d_stat sys newpath of
                 Some FDir \<Rightarrow> DirReparse newpath (\<not> dc_parsecomb cf)
               | Some FReg \<Rightarrow> DirAnswer (MappedFile (replrest req rest) newpath)
               | _ \<Rightarrow> if dc_parsecomb cf then DirNothing else DirAnswer NoReply)))"

text \<open>The middle of \<open>checkpath\<close>: the next element of the rest string.\<close>

definition next_element :: "cstring \<Rightarrow> cstring \<times> cstring" where
  "next_element rest = (case strchr rest (CHR ''/'') of None \<Rightarrow> (rest, []) | Some (a, b) \<Rightarrow> (a, b))"

definition lookup :: "dirsys \<Rightarrow> hthead \<Rightarrow> cstring \<Rightarrow> cstring \<Rightarrow> dstep" where
  "lookup sys req path rest0 = (case next_element rest0 of (quoted, rest) \<Rightarrow>
     (case unquoteurl quoted of
        None \<Rightarrow> Answer BadRequest
      | Some el \<Rightarrow>
          if CHR ''/'' \<in> set el \<or> el = [] \<and> rest \<noteq> [] then Nothing
          else if el = [] then Answer (handledir sys (replrest req rest) path)
          else checkentry sys req path rest el))"

text \<open>
  \<open>checkpath\<close>: \<open>Some None\<close> is the result 0, that nothing has been found and nothing sent. A \<open>reparse\<close> that
  leads back to its directory goes on without end: the result is \<open>None\<close>.
\<close>

definition unless_found :: "bool \<Rightarrow> hthead \<Rightarrow> cstring \<Rightarrow> target option \<Rightarrow> target option" where
  "unless_found final req path r = (case r of
      Some t \<Rightarrow> Some t
    | None \<Rightarrow> if final then Some (Missing req (path @ ''/'')) else None)"

partial_function (option) checkpath :: "dirsys \<Rightarrow> hthead \<Rightarrow> cstring \<Rightarrow> cstring \<Rightarrow> bool \<Rightarrow> target option option" where
  "checkpath sys req path0 rest final =
     Option.bind (case checkdir sys req (skip_dot path0) rest of
          DirAnswer t \<Rightarrow> Some (Some t)
        | DirReparse newpath alone \<Rightarrow> checkpath sys req newpath rest alone
        | DirNothing \<Rightarrow> Some None)
      (\<lambda>r. case r of
         Some t \<Rightarrow> Some (Some t)
       | None \<Rightarrow>
           Option.bind (case lookup sys req (skip_dot path0) rest of
                Answer t \<Rightarrow> Some (Some t)
              | Enter newpath rest1 \<Rightarrow> checkpath sys req newpath rest1 final
              | Nothing \<Rightarrow> Some None)
             (\<lambda>r. Some (unless_found final req (skip_dot path0) r)))"

declare checkpath.simps [code]

section \<open>Responding\<close>

text \<open>
  A request is sent to a child with the directory it is started in, or to a program with its arguments,
  or answered with an error page; \<open>NotFoundPage\<close> is the handler \<open>.notfound\<close> of the program itself.
\<close>

datatype outcome =
    ToChild child "cstring option" hthead
  | Forked "cstring list" hthead
  | NotFoundPage
  | ErrorPage int
  | Redirected int cstring
  | Silence
  | Crash

definition modheaders :: "dpattern \<Rightarrow> hthead \<Rightarrow> hthead" where
  "modheaders pat req = foldl (\<lambda>rq (n, v). headappheader (headrmheader rq n) n v) req (dp_headers pat)"

definition handle :: "dirsys \<Rightarrow> hthead \<Rightarrow> cstring \<Rightarrow> dpattern \<Rightarrow> outcome" where
  "handle sys req0 path0 pat =
     (let req = modheaders pat req0;
          path = (if take 2 path0 = ''./'' \<and> drop 2 path0 \<noteq> [] then drop 2 path0 else path0)
      in case dp_fchild pat of
           Some prog \<Rightarrow> Forked prog (headappheader req ''X-Ash-File'' path)
         | None \<Rightarrow> (case findchild (scope sys path) (the (dp_childnm pat)) of
             Undeclared \<Rightarrow> ErrorPage 500
           | BuiltinNotFound \<Rightarrow> NotFoundPage
           | Declared cf ch \<Rightarrow> (case dc_path cf of
               None \<Rightarrow> ToChild ch None (headappheader req ''X-Ash-File'' path)
             | Some twd \<Rightarrow>
                 if twd = ''.'' then ToChild ch None (headappheader req ''X-Ash-File'' path)
                 else if take (length twd) path \<noteq> twd \<or> take 1 (drop (length twd) path) \<noteq> ''/'' then ErrorPage 500
                 else ToChild ch (Some twd) (headappheader req ''X-Ash-File'' (drop (length twd + 1) path)))))"

definition handle404 :: "dirsys \<Rightarrow> hthead \<Rightarrow> cstring \<Rightarrow> outcome" where
  "handle404 sys req path = (case findmatch (d_fnmatch sys) (scope sys path) path PT_NOTFOUND of
      Some pat \<Rightarrow> handle sys req path pat
    | None \<Rightarrow> (case findchild (scope sys path) ''.notfound'' of
        Declared cf ch \<Rightarrow> ToChild ch (dc_path cf) req
      | _ \<Rightarrow> NotFoundPage))"

definition handlefile :: "dirsys \<Rightarrow> hthead \<Rightarrow> cstring \<Rightarrow> outcome" where
  "handlefile sys req path = (case findmatch (d_fnmatch sys) (scope sys path) path PT_FILE of
      None \<Rightarrow> handle404 sys req path
    | Some pat \<Rightarrow> handle sys req path pat)"

fun respond :: "dirsys \<Rightarrow> target \<Rightarrow> outcome" where
  "respond sys (MappedFile req path) = handlefile sys req path"
| "respond sys (MappedDir req cpath) =
     (case findmatch (d_fnmatch sys) (scope sys cpath) cpath PT_DIR of
        Some pat \<Rightarrow> handle sys req cpath pat
      | None \<Rightarrow> ErrorPage 403)"
| "respond sys (Missing req path) = handle404 sys req path"
| "respond sys (Captured req cpath name) = (case findchild (scope sys cpath) name of
      Declared cf ch \<Rightarrow> ToChild ch (dc_path cf) req
    | BuiltinNotFound \<Rightarrow> NotFoundPage
    | Undeclared \<Rightarrow> ErrorPage 500)"
| "respond sys (RedirectTo code loc) = Redirected code loc"
| "respond sys BadRequest = ErrorPage 400"
| "respond sys NoReply = Silence"
| "respond sys Died = Crash"

definition serve :: "dirsys \<Rightarrow> hthead \<Rightarrow> outcome option" where
  "serve sys req = (case checkpath sys req ''.'' (the (hd_rest req)) True of
      None \<Rightarrow> None
    | Some None \<Rightarrow> Some Silence
    | Some (Some t) \<Rightarrow> Some (respond sys t))"

section \<open>Answers\<close>

lemma next_element_shorter: "next_element rest = (a, b) \<Longrightarrow> b \<noteq> [] \<Longrightarrow> length (tl b) < length rest"
  by (auto simp: next_element_def split: option.splits dest!: strchr_SomeD)

lemma lookup_Enter: "lookup sys req path rest = Enter np r \<Longrightarrow> length r < length rest"
  by (auto simp: lookup_def checkentry_def split: prod.splits option.splits if_splits fkind.splits dest: next_element_shorter)

definition no_reparse :: "dirsys \<Rightarrow> bool" where
  "no_reparse sys \<longleftrightarrow> (\<forall>d cf. d_conf sys d = Some cf \<longrightarrow> dc_reparse cf = None)"

lemma checkdir_plain:
  "no_reparse sys \<Longrightarrow> checkdir sys req path rest = DirNothing \<or>
    checkdir sys req path rest = DirAnswer Died \<or> (\<exists>rq c n. checkdir sys req path rest = DirAnswer (Captured rq c n))"
  by (auto simp: checkdir_def no_reparse_def split: option.splits)

lemma lookup_replies: "lookup sys req path rest \<noteq> Answer NoReply"
  by (auto simp: lookup_def checkentry_def handledir_def split: prod.split option.split fkind.split)

lemma checkpath_dir:
  "checkdir sys req (skip_dot path) rest = DirAnswer t \<Longrightarrow> checkpath sys req path rest final = Some (Some t)"
  "checkdir sys req (skip_dot path) rest = DirNothing \<Longrightarrow> checkpath sys req path rest final =
    Option.bind (case lookup sys req (skip_dot path) rest of
        Answer t \<Rightarrow> Some (Some t)
      | Enter newpath rest1 \<Rightarrow> checkpath sys req newpath rest1 final
      | Nothing \<Rightarrow> Some None)
     (\<lambda>r. Some (unless_found final req (skip_dot path) r))"
  by (subst checkpath.simps, simp)+

lemma checkpath_answers:
  "no_reparse sys \<Longrightarrow> \<exists>r. checkpath sys req path rest final = Some r \<and> (final \<longrightarrow> r \<noteq> None) \<and> r \<noteq> Some NoReply"
proof (induction "length rest" arbitrary: path rest rule: less_induct)
  case less
  let ?p = "skip_dot path"
  from checkdir_plain [OF less.prems, of req ?p rest] show ?case
  proof (elim disjE exE)
    assume nodir: "checkdir sys req ?p rest = DirNothing"
    have step: "checkpath sys req path rest final = Option.bind (case lookup sys req ?p rest of
        Answer t \<Rightarrow> Some (Some t)
      | Enter newpath rest1 \<Rightarrow> checkpath sys req newpath rest1 final
      | Nothing \<Rightarrow> Some None) (\<lambda>r. Some (unless_found final req ?p r))"
      by (rule checkpath_dir(2) [OF nodir])
    show ?thesis
    proof (cases "lookup sys req ?p rest")
      case (Answer t)
      then show ?thesis using lookup_replies [of sys req ?p rest]
        unfolding step by (simp add: unless_found_def)
    next
      case (Enter np r)
      obtain q where "checkpath sys req np r final = Some q" "final \<longrightarrow> q \<noteq> None" "q \<noteq> Some NoReply"
        using less.hyps [OF lookup_Enter [OF Enter] less.prems] by blast
      with Enter show ?thesis unfolding step by (auto simp: unless_found_def split: option.split)
    next
      case Nothing
      then show ?thesis unfolding step by (simp add: unless_found_def)
    qed
  qed (simp_all add: checkpath_dir(1))
qed

lemma handle_speaks: "handle sys req path pat \<noteq> Silence"
  by (simp add: handle_def Let_def split: option.split found_child.split)

lemma handle404_speaks: "handle404 sys req path \<noteq> Silence"
  using handle_speaks by (auto simp: handle404_def split: option.split found_child.split)

lemma respond_speaks: "t \<noteq> NoReply \<Longrightarrow> respond sys t \<noteq> Silence"
  using handle_speaks handle404_speaks
  by (cases t) (auto simp: handlefile_def split: option.split found_child.split)

section \<open>Hidden files\<close>

definition visible :: "cstring \<Rightarrow> bool" where
  "visible w \<longleftrightarrow> w \<noteq> [] \<and> take 1 w \<noteq> ''.''"

abbreviation elements :: "cstring \<Rightarrow> cstring list" where
  "elements p \<equiv> split_on (CHR ''/'') p"

lemma split_on_plain: "c \<notin> set w \<Longrightarrow> split_on c w = [w]"
  by (induction w) auto

lemma split_on_nonempty [simp]: "split_on c s \<noteq> []"
  by (induction s) (auto split: list.split)

lemma split_on_append: "split_on c (p @ c # w) = split_on c p @ split_on c w"
  by (induction p) (auto split: list.split)

text \<open>A path of visible elements below the directory that is served.\<close>

definition clean :: "cstring \<Rightarrow> bool" where
  "clean p \<longleftrightarrow> p = ''.'' \<or> list_all visible (elements p)"

lemma split_on_first: "list_all visible (split_on c s) \<Longrightarrow> take 1 s \<noteq> ''.''"
  by (cases s) (auto simp: visible_def split: list.splits if_splits)

lemma clean_join:
  assumes "clean p" "visible e" "CHR ''/'' \<notin> set e"
  shows "list_all visible (elements (skip_dot (join p e)))"
proof (cases "p = ''.''")
  case True
  then have "skip_dot (join p e) = e" by (simp add: skip_dot_def join_def)
  then show ?thesis using assms(2,3) by (simp add: split_on_plain)
next
  case False
  then have p: "list_all visible (elements p)" using assms(1) by (simp add: clean_def)
  then have "take 1 p \<noteq> ''.''" by (rule split_on_first)
  then have "skip_dot (join p e) = join p e" by (cases p) (simp_all add: skip_dot_def join_def)
  then show ?thesis using p assms(2,3) by (simp add: join_def split_on_append split_on_plain)
qed

lemma clean_skip: "clean p \<Longrightarrow> skip_dot p = p"
proof -
  assume c: "clean p"
  have "take 1 p \<noteq> ''.''" if "list_all visible (elements p)" using that by (rule split_on_first)
  with c show "skip_dot p = p" by (cases p) (auto simp: clean_def skip_dot_def)
qed

definition plain_config :: "dconfig \<Rightarrow> bool" where
  "plain_config cf \<longleftrightarrow> dc_dotallow cf = None \<and>
     (\<forall>names. dc_index cf = Some names \<longrightarrow> (\<forall>n\<in>set names. visible n \<and> CHR ''/'' \<notin> set n))"

text \<open>No directory has a \<open>reparse\<close> or a \<open>dot-allow\<close>, and index files are plain names.\<close>

definition no_exceptions :: "dirsys \<Rightarrow> bool" where
  "no_exceptions sys \<longleftrightarrow> no_reparse sys \<and> (\<forall>d cf. d_conf sys d = Some cf \<longrightarrow> plain_config cf) \<and>
     (\<forall>cf. d_local sys = Some cf \<longrightarrow> plain_config cf) \<and> (\<forall>cf. d_global sys = Some cf \<longrightarrow> plain_config cf) \<and>
     (\<forall>d es. d_list sys d = Some es \<longrightarrow> (\<forall>e\<in>set es. CHR ''/'' \<notin> set e))"

lemma scope_plain: "no_exceptions sys \<Longrightarrow> cf \<in> set (scope sys file) \<Longrightarrow> plain_config cf"
  by (auto simp: no_exceptions_def scope_def map_filter_def split: option.splits)

lemma access_plain: "no_exceptions sys \<Longrightarrow> checkaccess sys path name \<longleftrightarrow> take 1 name \<noteq> ''.''"
proof -
  assume "no_exceptions sys"
  then have "find (\<lambda>cf. dc_dotallow cf \<noteq> None) (scope sys (path @ ''/'')) = None"
    unfolding find_None_iff using scope_plain by (auto simp: plain_config_def)
  then show ?thesis by (simp add: checkaccess_def)
qed

lemma findfile_visible:
  assumes "no_exceptions sys" "findfile sys path name = Some f"
  obtains e where "f = join path e" "visible e" "CHR ''/'' \<notin> set e"
proof -
  obtain es e where e: "d_list sys path = Some es" "find (file_candidate sys path name) es = Some e" "f = join path e"
    using assms(2) by (auto simp: findfile_def split: option.splits)
  then have "e \<in> set es" "file_candidate sys path name e" by (auto simp: find_Some_iff)
  moreover have "e \<noteq> []" using calculation(2) by (auto simp: file_candidate_def strchr_def split: option.splits)
  ultimately show ?thesis
    using e that assms(1) access_plain [OF assms(1)]
    by (auto simp: visible_def file_candidate_def no_exceptions_def)
qed

lemma find_index_visible:
  assumes "no_exceptions sys"
  shows "\<forall>n\<in>set names. visible n \<and> CHR ''/'' \<notin> set n \<Longrightarrow> find_index sys path names = Some f \<Longrightarrow>
    \<exists>e. f = join path e \<and> visible e \<and> CHR ''/'' \<notin> set e"
proof (induction names)
  case (Cons n names)
  show ?case
  proof (cases "d_stat sys (join path n) = Some FReg")
    case True
    with Cons.prems show ?thesis by auto
  next
    case False
    show ?thesis
    proof (cases "if CHR ''.'' \<in> set n then None else findfile sys path n")
      case None
      with False Cons show ?thesis by simp
    next
      case (Some g)
      then have "findfile sys path n = Some g" by (simp split: if_splits)
      with Some False Cons.prems findfile_visible [OF assms this] show ?thesis by auto
    qed
  qed
qed simp

text \<open>The file that a target gives, and where a step goes.\<close>

lemma lookup_visible:
  assumes "no_exceptions sys" "lookup sys req path rest = Answer (MappedFile rq f) \<or> (\<exists>r. lookup sys req path rest = Enter f r)"
  shows "\<exists>e. f = join path e \<and> visible e \<and> CHR ''/'' \<notin> set e"
proof -
  obtain quoted rest1 where n: "next_element rest = (quoted, rest1)" by fastforce
  obtain el where el: "unquoteurl quoted = Some el" "CHR ''/'' \<notin> set el"
    using assms(2) n by (auto simp: lookup_def split: option.splits if_splits)
  show ?thesis
  proof (cases "el = []")
    case True
    then have "rest1 = []" and d: "handledir sys (replrest req rest1) path = MappedFile rq f"
      using assms(2) n el by (auto simp: lookup_def split: if_splits)
    from d obtain cf where cf: "find (\<lambda>cf. dc_index cf \<noteq> None) (scope sys (path @ ''/'')) = Some cf"
      "find_index sys path (the (dc_index cf)) = Some f"
      by (auto simp: handledir_def split: option.splits)
    then have "cf \<in> set (scope sys (path @ ''/''))" "dc_index cf \<noteq> None" by (auto simp: find_Some_iff)
    with scope_plain [OF assms(1)] have "\<forall>n\<in>set (the (dc_index cf)). visible n \<and> CHR ''/'' \<notin> set n"
      by (fastforce simp: plain_config_def)
    from find_index_visible [OF assms(1) this cf(2)] show ?thesis .
  next
    case False
    then have c: "checkentry sys req path rest1 el = Answer (MappedFile rq f) \<or> (\<exists>r. checkentry sys req path rest1 el = Enter f r)"
      using assms(2) n el by (auto simp: lookup_def)
    show ?thesis
    proof (cases "d_stat sys (join path el)")
      case None
      then have "findfile sys path el = Some f" using c by (auto simp: checkentry_def split: option.splits if_splits)
      from findfile_visible [OF assms(1) this] show ?thesis by blast
    next
      case (Some k)
      then have "f = join path el" "checkaccess sys path el"
        using c by (auto simp: checkentry_def split: if_splits fkind.splits)
      with False el access_plain [OF assms(1)] show ?thesis by (auto simp: visible_def)
    qed
  qed
qed

lemma checkpath_clean:
  assumes "no_exceptions sys"
  shows "clean (skip_dot path) \<Longrightarrow> checkpath sys req path rest final = Some (Some (MappedFile rq f)) \<Longrightarrow>
    list_all visible (elements (skip_dot f))"
proof (induction "length rest" arbitrary: path rest rule: less_induct)
  case less
  let ?p = "skip_dot path"
  have nr: "no_reparse sys" using assms by (simp add: no_exceptions_def)
  have nodir: "checkdir sys req ?p rest = DirNothing"
    using checkdir_plain [OF nr, of req ?p rest] less.prems(2) by (auto simp: checkpath_dir(1))
  then consider "lookup sys req ?p rest = Answer (MappedFile rq f)"
    | np r where "lookup sys req ?p rest = Enter np r" "checkpath sys req np r final = Some (Some (MappedFile rq f))"
    using less.prems(2) [unfolded checkpath_dir(2) [OF nodir]]
    by (auto simp: unless_found_def bind_eq_Some_conv split: dstep.splits option.splits if_splits)
  then show ?case
  proof cases
    case 1
    with lookup_visible [OF assms, of req ?p rest rq f] obtain e where
      "f = join ?p e" "visible e" "CHR ''/'' \<notin> set e" by blast
    then show ?thesis using clean_join [OF less.prems(1)] by simp
  next
    case 2
    with lookup_visible [OF assms, of req ?p rest rq np] obtain e where
      "np = join ?p e" "visible e" "CHR ''/'' \<notin> set e" by blast
    then have "clean (skip_dot np)" using clean_join [OF less.prems(1)] by (simp add: clean_def)
    from less.hyps [OF lookup_Enter [OF 2(1)] this 2(2)] show ?thesis .
  qed
qed

section \<open>Finding a file\<close>

fun quoted_path :: "cstring list \<Rightarrow> cstring" where
  "quoted_path [] = []"
| "quoted_path [el] = urlquote el"
| "quoted_path (el # els) = urlquote el @ ''/'' @ quoted_path els"

definition plain_dir :: "dirsys \<Rightarrow> cstring \<Rightarrow> bool" where
  "plain_dir sys p = (case d_conf sys p of None \<Rightarrow> False | Some cf \<Rightarrow> dc_reparse cf = None \<and> dc_capture cf = None)"

definition plain_element :: "cstring \<Rightarrow> bool" where
  "plain_element el \<longleftrightarrow> visible el \<and> CHR ''/'' \<notin> set el \<and> nul_free el"

text \<open>The file that a path names, from a directory on.\<close>

fun walk :: "dirsys \<Rightarrow> cstring \<Rightarrow> cstring list \<Rightarrow> cstring option" where
  "walk sys p [] = None"
| "walk sys p (el # els) =
     (if \<not> plain_element el \<or> \<not> plain_dir sys p then None
      else (case d_stat sys (join p el) of
          Some FReg \<Rightarrow> if els = [] then Some (join p el) else None
        | Some FDir \<Rightarrow> walk sys (skip_dot (join p el)) els
        | _ \<Rightarrow> None))"

lemma plain_dir_checkdir: "plain_dir sys p \<Longrightarrow> checkdir sys req p rest = DirNothing"
  by (auto simp: plain_dir_def checkdir_def split: option.splits)

lemma slash_quoted: "CHR ''/'' \<notin> set el \<Longrightarrow> CHR ''/'' \<notin> set (urlquote el)"
proof (induction el)
  case (Cons c el)
  have "CHR ''/'' \<notin> set (show_hex2 (ord c))"
  proof -
    have "hexcharU d \<noteq> CHR ''/''" if "d < 16" for d
    proof -
      have "ord (hexcharU d) \<noteq> 47" using that by (simp add: hexcharU_def ord_chr)
      moreover have "ord (CHR ''/'') = 47" by (simp add: ord_def)
      ultimately show ?thesis by auto
    qed
    moreover have "nat (ord c) div 16 < 16" using ord_less [of c] by linarith
    moreover have "nat (ord c) mod 16 < 16" by simp
    ultimately have "hexcharU (nat (ord c) div 16) \<noteq> CHR ''/''" "hexcharU (nat (ord c) mod 16) \<noteq> CHR ''/''" by blast+
    then show ?thesis by (simp add: show_hex2_def eq_commute [of "CHR ''/''"])
  qed
  with Cons show ?case by auto
qed simp

lemma next_quoted:
  "CHR ''/'' \<notin> set el \<Longrightarrow> t = [] \<or> hd t = CHR ''/'' \<Longrightarrow> next_element (urlquote el @ t) = (urlquote el, t)"
proof -
  assume "CHR ''/'' \<notin> set el" "t = [] \<or> hd t = CHR ''/''"
  then show "next_element (urlquote el @ t) = (urlquote el, t)"
    using slash_quoted [of el] strchr_None [of "urlquote el" "CHR ''/''", THEN iffD2]
    by (cases t) (auto simp: next_element_def simp del: strchr_None)
qed

lemma lookup_quoted:
  assumes "plain_element el" "t = [] \<or> hd t = CHR ''/''"
  shows "lookup sys req p (urlquote el @ t) = checkentry sys req p t el"
proof -
  have "unquoteurl (urlquote el) = Some el" using assms(1) by (simp add: plain_element_def unquoteurl_def unquote_quote)
  then show ?thesis
    using assms next_quoted [of el t] by (auto simp: lookup_def plain_element_def visible_def)
qed

lemma checkpath_walk:
  "walk sys (skip_dot path) els = Some f \<Longrightarrow> tail = [] \<or> hd tail = CHR ''/'' \<Longrightarrow>
    checkpath sys req path (quoted_path els @ tail) final = Some (Some (MappedFile (replrest req tail) f))"
proof (induction els arbitrary: path)
  case (Cons el els)
  let ?p = "skip_dot path"
  define t where "t = (if els = [] then tail else ''/'' @ quoted_path els @ tail)"
  have q: "quoted_path (el # els) @ tail = urlquote el @ t" by (cases els) (simp_all add: t_def)
  have t: "t = [] \<or> hd t = CHR ''/''" using Cons.prems(2) by (simp add: t_def)
  have el: "plain_element el" "plain_dir sys ?p" using Cons.prems(1) by (auto split: if_splits)
  have acc: "checkaccess sys ?p el" using el(1) by (simp add: checkaccess_def plain_element_def visible_def)
  note step = checkpath_dir(2) [OF plain_dir_checkdir [OF el(2)], of req "urlquote el @ t" final]
  note look = lookup_quoted [OF el(1) t, of sys req ?p]
  show ?case
  proof (cases "d_stat sys (join ?p el)")
    case None
    with Cons.prems(1) el show ?thesis by simp
  next
    case (Some k)
    show ?thesis
    proof (cases k)
      case FDir
      then have w: "walk sys (skip_dot (join ?p el)) els = Some f" using Cons.prems(1) el Some by simp
      then have "els \<noteq> []" by auto
      then have "checkentry sys req ?p t el = Enter (join ?p el) (quoted_path els @ tail)"
        using Some FDir acc by (simp add: checkentry_def t_def)
      with Cons.IH [OF w Cons.prems(2)] show ?thesis unfolding q step look by (simp add: unless_found_def)
    next
      case FReg
      then have "els = []" "f = join ?p el" using Cons.prems(1) el Some by (auto split: if_splits)
      then have "checkentry sys req ?p t el = Answer (MappedFile (replrest req tail) f)"
        using Some FReg acc by (simp add: checkentry_def t_def)
      then show ?thesis unfolding q step look by (simp add: unless_found_def)
    next
      case FOther
      with Cons.prems(1) el Some show ?thesis by simp
    qed
  qed
qed simp

section \<open>Properties\<close>


definition one_config :: "dconfig \<Rightarrow> dirsys" where
  "one_config cf = \<lparr>d_stat = \<lambda>p. if p = ''./a'' then Some FDir else if p = ''a/x.txt'' then Some FReg
      else if p = ''./..'' then Some FDir else if p = ''../key'' then Some FReg else None,
     d_list = \<lambda>p. if p = ''a'' then Some [''.x'', ''x.txt''] else None, d_conf = \<lambda>p. Some cf, d_local = None, d_global = None,
     d_fnmatch = \<lambda>fl p s. p = s \<or> p = ''.*''\<rparr>"

definition root_config :: dconfig where
  "root_config = emptyconfig\<lparr>dc_path := Some ''.''\<rparr>"




text \<open>C21. The rest string made of the quoted names of directories and of a file leads to that file, and
  what follows the name is the rest string that is passed on.\<close>

theorem dirplex_finds_file:
  assumes "walk sys ''.'' els = Some f" "tail = [] \<or> hd tail = CHR ''/''" "the (hd_rest req) = quoted_path els @ tail"
  shows "serve sys req = Some (handlefile sys (replrest req tail) f)"
proof -
  have "skip_dot ''.'' = ''.''" by (simp add: skip_dot_def)
  then have "checkpath sys req ''.'' (quoted_path els @ tail) True = Some (Some (MappedFile (replrest req tail) f))"
    using checkpath_walk [of sys "''.''" els f tail] assms(1,2) by simp
  then show ?thesis using assms(3) by (simp add: serve_def)
qed

lemma dirplex_finds_file_witness:
  "serve (one_config root_config) (mkreq ''GET'' ''a/x.txt/info'' ''HTTP/1.1'') =
    Some (handlefile (one_config root_config) (replrest (mkreq ''GET'' ''a/x.txt/info'' ''HTTP/1.1'') ''/info'') ''a/x.txt'')"
proof -
  have "walk (one_config root_config) ''.'' [''a'', ''x.txt''] = Some ''a/x.txt''" by code_simp
  moreover have "the (hd_rest (mkreq ''GET'' ''a/x.txt/info'' ''HTTP/1.1'')) = quoted_path [''a'', ''x.txt''] @ ''/info''"
    by code_simp
  ultimately show ?thesis using dirplex_finds_file [of "one_config root_config" "[''a'', ''x.txt'']" "''a/x.txt''" "''/info''"] by simp
qed

text \<open>A \<open>dot-allow\<close> pattern that also matches two dots, such as \<open>.*\<close>, opens the directory above
  the one that is served: the access check is the only one that stands between the client and
  there.\<close>

lemma dirplex_dot_allow_escapes:
  assumes "d_conf sys ''.'' = Some cf" "dc_dotallow cf = Some (ps @ p # qs)" "d_fnmatch sys False p ''..''"
    and "plain_dir sys ''.''" "plain_dir sys ''..''" "d_stat sys ''./..'' = Some FDir"
    and "plain_element el" "d_stat sys (''../'' @ el) = Some FReg" "hd_rest req = Some (''../'' @ urlquote el)"
  shows "serve sys req = Some (handlefile sys (replrest req []) (''../'' @ el))"
proof -
  have "parent_dirs [] = []" by (subst parent_dirs.simps) simp
  then obtain cfs where "scope sys ''./'' = cf # cfs"
    using assms(1) by (simp add: scope_def scope_dirs_def skip_dot_def map_filter_def)
  then have "find (\<lambda>cf. dc_dotallow cf \<noteq> None) (scope sys ''./'') = Some cf"
    using assms(2) by simp
  then have acc: "checkaccess sys ''.'' ''..''" using assms(2,3) by (simp add: checkaccess_def)
  have dots: "unquoteurl ''..'' = Some ''..''" "next_element (''../'' @ urlquote el) = (''..'', ''/'' @ urlquote el)"
    by code_simp (simp add: next_element_def strchr_def)
  have "lookup sys req ''.'' (''../'' @ urlquote el) = Enter ''./..'' (urlquote el)"
    using dots acc assms(6) by (simp add: lookup_def checkentry_def join_def)
  moreover have "checkpath sys req ''./..'' (quoted_path [el] @ []) True = Some (Some (MappedFile (replrest req []) (''../'' @ el)))"
    using assms(5,7,8) by (intro checkpath_walk) (simp_all add: skip_dot_def join_def)
  ultimately have "checkpath sys req ''.'' (''../'' @ urlquote el) True = Some (Some (MappedFile (replrest req []) (''../'' @ el)))"
    using checkpath_dir(2) [of sys req "''.''"] plain_dir_checkdir [OF assms(4)] by (simp add: skip_dot_def unless_found_def)
  then show ?thesis using assms(9) by (simp add: serve_def)
qed

lemma dirplex_dot_allow_escapes_witness:
  "serve (one_config (root_config\<lparr>dc_dotallow := Some [''.*'']\<rparr>)) (mkreq ''GET'' ''../key'' ''HTTP/1.1'') =
    Some (handlefile (one_config (root_config\<lparr>dc_dotallow := Some [''.*'']\<rparr>)) (replrest (mkreq ''GET'' ''../key'' ''HTTP/1.1'') []) ''../key'')"
proof -
  let ?cf = "root_config\<lparr>dc_dotallow := Some [''.*'']\<rparr>"
  have "plain_dir (one_config ?cf) ''.''" "plain_dir (one_config ?cf) ''..''"
    by (simp_all add: plain_dir_def one_config_def root_config_def emptyconfig_def)
  moreover have "plain_element ''key''" "urlquote ''key'' = ''key''" by code_simp+
  ultimately show ?thesis
    using dirplex_dot_allow_escapes [of "one_config ?cf" ?cf "[]" "''.*''" "[]" "''key''" "mkreq ''GET'' ''../key'' ''HTTP/1.1''"]
    by (simp add: one_config_def mkreq_def)
qed

text \<open>A \<open>reparse\<close> to something that is not there leaves the client without any answer: the request
  counts as handled, and nothing has been sent.\<close>

lemma dirplex_reparse_silent:
  assumes "d_conf sys ''.'' = Some cf" "dc_capture cf = None" "dc_reparse cf = Some r" "\<not> dc_parsecomb cf"
    and "d_stat sys (if take 1 r = ''/'' then r else join ''.'' r) \<in> {None, Some FOther}"
  shows "serve sys req = Some Silence"
proof -
  have "checkdir sys req ''.'' (the (hd_rest req)) = DirAnswer NoReply"
    using assms by (auto simp: checkdir_def Let_def)
  then show ?thesis using checkpath_dir(1) [of sys req "''.''"] by (simp add: serve_def skip_dot_def)
qed

lemma dirplex_reparse_silent_witness:
  "serve (one_config (root_config\<lparr>dc_reparse := Some ''gone''\<rparr>)) (mkreq ''GET'' ''x'' ''HTTP/1.1'') = Some Silence"
  by (rule dirplex_reparse_silent [where cf = "root_config\<lparr>dc_reparse := Some ''gone''\<rparr>" and r = "''gone''"])
    (simp_all add: one_config_def root_config_def emptyconfig_def join_def)

lemma modheaders_fields [simp]:
  "hd_method (modheaders pat req) = hd_method req" "hd_url (modheaders pat req) = hd_url req"
  "hd_rest (modheaders pat req) = hd_rest req"
proof -
  have "hd_method (foldl (\<lambda>rq (n, v). headappheader (headrmheader rq n) n v) req hs) = hd_method req \<and>
    hd_url (foldl (\<lambda>rq (n, v). headappheader (headrmheader rq n) n v) req hs) = hd_url req \<and>
    hd_rest (foldl (\<lambda>rq (n, v). headappheader (headrmheader rq n) n v) req hs) = hd_rest req" for hs
    by (induction hs arbitrary: req) (auto simp: headappheader_def headrmheader_def)
  then show "hd_method (modheaders pat req) = hd_method req" "hd_url (modheaders pat req) = hd_url req"
    "hd_rest (modheaders pat req) = hd_rest req"
    by (simp_all add: modheaders_def)
qed

text \<open>A \<open>fork\<close> line without a program is taken as it is, and what is then executed for a file is the
  method of the request, a name of the client's choice.\<close>

lemma dirplex_fork_without_program:
  "case handle sys req path (dpattern_line [''fork''] pat) of
     Forked prog rq \<Rightarrow> fork_args prog rq = [the (hd_method req), the (hd_url req), the (hd_rest req)]
   | _ \<Rightarrow> False"
  by (simp add: handle_def dpattern_line_def Let_def fork_args_def headappheader_def)

text \<open>A \<open>set\<close> line does not set the header of a request that comes with it twice: only the first is
  removed, and the new one goes behind the second, which is the one that handlers find.\<close>

lemma dirplex_set_shadowed:
  "getheader (modheaders (pat\<lparr>dp_headers := [(n, v)]\<rparr>) (req\<lparr>headers := (n, v1) # (n, v2) # hs\<rparr>)) n = Some v2"
  by (simp add: modheaders_def headappheader_def headrmheader_def getheader_def)

end
