(* ===== verification/Htextauth.thy ===== *)
theory Htextauth
  imports Base64 Resp
begin

text \<open>
  HTTP Basic authentication by an external program, \<open>src/htextauth.c\<close>: the credentials of a request, the
  cache of those that have been accepted, and which requests are passed on to the child.
\<close>

section \<open>State\<close>

record acache =
  ac_user :: cstring
  ac_pass :: cstring
  lastuse :: int

record authopts =
  docache :: bool
  reqssl :: bool
  realm :: "cstring option"

record authstate =
  au_cache :: "acache list"
  lastclean :: int

text \<open>
  What becomes of the authenticator: it cannot be started, or it ends, with exit status 0 or not and some
  output, or waiting for it fails. It is given the two lines of \<open>auth_input\<close>.
\<close>

datatype authrun = ForkFailed | WaitFailed | Ended bool string

datatype areply = PassOn hthead | Page string

section \<open>The answers\<close>

definition auth_page :: "authopts \<Rightarrow> cstring \<Rightarrow> cstring \<Rightarrow> string" where
  "auth_page opts msg body =
     ''HTTP/1.1 401 '' @ msg @ nl @
     ''WWW-Authenticate: Basic realm='' @ quot @ (case realm opts of None \<Rightarrow> ''auth'' | Some r \<Rightarrow> r) @ quot @ nl @
     ''Content-Type: text/html'' @ nl @
     ''Content-Length: '' @ show_nat (length (error_page msg body)) @ nl @
     nl @ error_page msg body"

definition reqauth :: "authopts \<Rightarrow> string" where
  "reqauth opts = auth_page opts ''Authentication Required''
     ''You need to authenticate to access the requested resource.''"

definition authinval :: "authopts \<Rightarrow> cstring \<Rightarrow> string" where
  "authinval opts msg = auth_page opts ''Invalid authentication'' msg"

section \<open>The cache\<close>

definition cleancache :: "int \<Rightarrow> bool \<Rightarrow> authstate \<Rightarrow> authstate" where
  "cleancache now complete st =
     st\<lparr>au_cache := filter (\<lambda>c. \<not> (complete \<or> now - lastuse c > 3600)) (au_cache st), lastclean := now\<rparr>"

fun ckcache :: "int \<Rightarrow> cstring \<Rightarrow> cstring \<Rightarrow> acache list \<Rightarrow> bool \<times> acache list" where
  "ckcache now user pass [] = (False, [])"
| "ckcache now user pass (c # cs) =
     (if user = ac_user c \<and> pass = ac_pass c then (True, c\<lparr>lastuse := now\<rparr> # cs)
      else (case ckcache now user pass cs of (ok, cs') \<Rightarrow> (ok, c # cs')))"

definition addcache :: "int \<Rightarrow> cstring \<Rightarrow> cstring \<Rightarrow> authstate \<Rightarrow> authstate" where
  "addcache now user pass st =
     st\<lparr>au_cache := \<lparr>ac_user = user, ac_pass = pass, lastuse = now\<rparr> # au_cache st\<rparr>"

section \<open>A request\<close>

text \<open>\<open>serve2\<close>: the request as it goes to the child.\<close>

definition serve2 :: "hthead \<Rightarrow> cstring \<Rightarrow> hthead" where
  "serve2 req user = headappheader req ''X-Ash-Remote-User'' user"

text \<open>\<open>auth\<close>: whether access is granted, and the page that is sent when it is not.\<close>

definition auth_input :: "cstring \<Rightarrow> cstring \<Rightarrow> string" where
  "auth_input user pass = user @ [chr 10] @ pass @ [chr 10]"

definition auth :: "authopts \<Rightarrow> (string \<Rightarrow> authrun) \<Rightarrow> cstring \<Rightarrow> cstring \<Rightarrow> string option" where
  "auth opts program user pass = (case program (auth_input user pass) of
      ForkFailed \<Rightarrow> Some (simpleerror2v 500 ''Server Error'' ''An internal error occurred.'')
    | WaitFailed \<Rightarrow> Some (simpleerror2v 500 ''Server Error'' ''An internal error occurred.'')
    | Ended True out \<Rightarrow> None
    | Ended False out \<Rightarrow>
        Some (authinval opts (if out = [] then ''The supplied credentials are invalid.'' else cstr out)))"

text \<open>
  The part of \<open>serve\<close> before the checks: a page, or the name and the password. A byte of 128 and above is
  negative as a \<open>char\<close>.
\<close>

definition credentials :: "authopts \<Rightarrow> hthead \<Rightarrow> string + cstring \<times> cstring" where
  "credentials opts req =
     (if reqssl opts \<and> getheader req ''X-Ash-Protocol'' \<noteq> Some ''https'' then
        Inl (simpleerror2v 403 ''Forbidden'' ''The requested resource must be requested over HTTPS.'')
      else (case getheader req ''Authorization'' of
          None \<Rightarrow> Inl (reqauth opts)
        | Some raw \<Rightarrow>
            if \<not> strncaseeq raw ''basic '' 6 then Inl (reqauth opts)
            else (case base64decode (drop 6 raw) of
                None \<Rightarrow> Inl (simpleerror2v 400 ''Invalid request'' ''The authentication data is not proper base64.'')
              | Some dec \<Rightarrow>
                  if list_ex (\<lambda>c. schar c < 32) (cstr dec) then
                    Inl (simpleerror2v 400 ''Invalid request'' ''The authentication data is invalid.'')
                  else (case strchr (cstr dec) (CHR '':'') of
                      None \<Rightarrow> Inl (simpleerror2v 400 ''Invalid request'' ''The authentication data is invalid.'')
                    | Some (user, pass) \<Rightarrow> Inr (user, tl pass)))))"

definition checked :: "authopts \<Rightarrow> (string \<Rightarrow> authrun) \<Rightarrow> int \<Rightarrow> hthead \<Rightarrow> cstring \<Rightarrow> cstring \<Rightarrow> authstate \<Rightarrow> areply \<times> authstate" where
  "checked opts program now req user pass st =
     (case (if docache opts then ckcache now user pass (au_cache st) else (False, au_cache st)) of
        (True, cs) \<Rightarrow> (PassOn (serve2 req user), st\<lparr>au_cache := cs\<rparr>)
      | (False, cs) \<Rightarrow> (case auth opts program user pass of
          Some page \<Rightarrow> (Page page, st)
        | None \<Rightarrow> (PassOn (serve2 req user), if docache opts then addcache now user pass st else st)))"

definition serve :: "authopts \<Rightarrow> (string \<Rightarrow> authrun) \<Rightarrow> int \<Rightarrow> hthead \<Rightarrow> authstate \<Rightarrow> areply \<times> authstate" where
  "serve opts program now req st =
     (case (case credentials opts req of
          Inl page \<Rightarrow> (Page page, st)
        | Inr (user, pass) \<Rightarrow> checked opts program now (headrmheader req ''Authorization'') user pass st) of
      (reply, st1) \<Rightarrow> (reply, if docache opts \<and> now - lastclean st1 > 60 then cleancache now False st1 else st1))"

text \<open>The requests of a connection, each with the time and what the authenticator would say then.\<close>

fun auth_run :: "authopts \<Rightarrow> authstate \<Rightarrow> (int \<times> (string \<Rightarrow> authrun) \<times> hthead) list \<Rightarrow> areply list" where
  "auth_run opts st [] = []"
| "auth_run opts st ((now, program, req) # rs) =
     (case serve opts program now req st of (reply, st1) \<Rightarrow> reply # auth_run opts st1 rs)"

section \<open>Facts\<close>

definition grants :: "(string \<Rightarrow> authrun) \<Rightarrow> cstring \<Rightarrow> cstring \<Rightarrow> bool" where
  "grants program user pass \<longleftrightarrow> (\<exists>out. program (auth_input user pass) = Ended True out)"

lemma auth_grants: "auth opts program user pass = None \<longleftrightarrow> grants program user pass"
  by (auto simp: auth_def grants_def split: authrun.split bool.split)

definition known :: "authstate \<Rightarrow> (cstring \<times> cstring) set" where
  "known st = (\<lambda>c. (ac_user c, ac_pass c)) ` set (au_cache st)"

definition vouches :: "authopts \<Rightarrow> int \<times> (string \<Rightarrow> authrun) \<times> hthead \<Rightarrow> cstring \<times> cstring \<Rightarrow> bool" where
  "vouches opts r up \<longleftrightarrow> credentials opts (snd (snd r)) = Inr up \<and> grants (fst (snd r)) (fst up) (snd up)"

lemma ckcache_known:
  "ckcache now user pass cs = (ok, cs') \<Longrightarrow> (ok \<longleftrightarrow> (user, pass) \<in> (\<lambda>c. (ac_user c, ac_pass c)) ` set cs) \<and>
    (\<lambda>c. (ac_user c, ac_pass c)) ` set cs' = (\<lambda>c. (ac_user c, ac_pass c)) ` set cs"
  by (induction cs arbitrary: ok cs') (auto split: if_splits prod.splits)

lemma cleancache_known: "known (cleancache now complete st) \<subseteq> known st"
  by (auto simp: known_def cleancache_def)

lemma addcache_known: "known (addcache now user pass st) = insert (user, pass) (known st)"
  by (simp add: known_def addcache_def)

lemma checked_known:
  assumes "checked opts program now rq user pass st = (reply, st1)"
  shows "case reply of
      PassOn sent \<Rightarrow> sent = serve2 rq user \<and> ((user, pass) \<in> known st \<or> grants program user pass) \<and>
        known st1 \<subseteq> insert (user, pass) (known st)
    | Page page \<Rightarrow> known st1 \<subseteq> known st"
proof -
  obtain ok cs where ck: "(if docache opts then ckcache now user pass (au_cache st) else (False, au_cache st)) = (ok, cs)"
    by fastforce
  show ?thesis
  proof (cases ok)
    case True
    then have k: "ckcache now user pass (au_cache st) = (True, cs)" using ck by (simp split: if_splits)
    from True ck assms have "reply = PassOn (serve2 rq user)" "st1 = st\<lparr>au_cache := cs\<rparr>"
      by (simp_all add: checked_def)
    with ckcache_known [OF k] show ?thesis by (auto simp: known_def)
  next
    case False
    show ?thesis
    proof (cases "auth opts program user pass")
      case None
      with False ck assms have "reply = PassOn (serve2 rq user)"
        "st1 = (if docache opts then addcache now user pass st else st)" by (simp_all add: checked_def)
      with None auth_grants [of opts program user pass] show ?thesis by (auto simp: addcache_known)
    next
      case (Some page)
      with False ck assms show ?thesis by (auto simp: checked_def)
    qed
  qed
qed

text \<open>One request: who is let through, and what the cache has afterwards.\<close>

lemma serve_step:
  assumes "serve opts program now req st = (reply, st')"
  shows "case reply of
      PassOn rq \<Rightarrow> (\<exists>user pass. credentials opts req = Inr (user, pass) \<and>
        rq = serve2 (headrmheader req ''Authorization'') user \<and>
        ((user, pass) \<in> known st \<or> grants program user pass) \<and> known st' \<subseteq> insert (user, pass) (known st))
    | Page page \<Rightarrow> known st' \<subseteq> known st"
proof (cases "credentials opts req")
  case (Inl page)
  with assms cleancache_known [of now False st] show ?thesis by (auto simp: serve_def split: if_splits)
next
  case (Inr up)
  obtain user pass where up: "up = (user, pass)" by fastforce
  obtain r st1 where c: "checked opts program now (headrmheader req ''Authorization'') user pass st = (r, st1)" by fastforce
  have r: "reply = r" and st': "known st' \<subseteq> known st1"
    using assms Inr up c cleancache_known [of now False st1] by (auto simp: serve_def split: if_splits)
  show ?thesis
  proof (cases r)
    case (PassOn sent)
    with checked_known [OF c] have "sent = serve2 (headrmheader req ''Authorization'') user"
      "(user, pass) \<in> known st \<or> grants program user pass" "known st' \<subseteq> insert (user, pass) (known st)"
      using st' by auto
    with PassOn r Inr up show ?thesis by simp
  next
    case (Page page)
    with checked_known [OF c] st' r show ?thesis by auto
  qed
qed

lemma auth_run_granted:
  "i < length rs \<Longrightarrow> auth_run opts st rs ! i = PassOn rq \<Longrightarrow>
    \<exists>up. credentials opts (snd (snd (rs ! i))) = Inr up \<and>
      rq = serve2 (headrmheader (snd (snd (rs ! i))) ''Authorization'') (fst up) \<and>
      (up \<in> known st \<or> (\<exists>j\<le>i. vouches opts (rs ! j) up))"
proof (induction rs arbitrary: i st)
  case (Cons r rs)
  obtain t p q where r: "r = (t, p, q)" using prod_cases3 by blast
  obtain rep st1 where s: "serve opts p t q st = (rep, st1)" by fastforce
  note step = serve_step [OF s]
  show ?case
  proof (cases i)
    case 0
    with Cons.prems s r have "rep = PassOn rq" by simp
    with step obtain user pass where "credentials opts q = Inr (user, pass)"
      "rq = serve2 (headrmheader q ''Authorization'') user" "(user, pass) \<in> known st \<or> grants p user pass" by auto
    with 0 r show ?thesis by (auto simp: vouches_def)
  next
    case (Suc k)
    with Cons.prems r s have "k < length rs" "auth_run opts st1 rs ! k = PassOn rq" by simp_all
    from Cons.IH [OF this] obtain up where up: "credentials opts (snd (snd (rs ! k))) = Inr up"
      "rq = serve2 (headrmheader (snd (snd (rs ! k))) ''Authorization'') (fst up)"
      "up \<in> known st1 \<or> (\<exists>j\<le>k. vouches opts (rs ! j) up)" by blast
    have "up \<in> known st \<or> (\<exists>j\<le>i. vouches opts ((r # rs) ! j) up)"
    proof (cases "up \<in> known st1")
      case True
      then have "up \<in> known st \<or> vouches opts r up"
        using step r by (auto simp: vouches_def split: areply.splits)
      then show ?thesis by force
    next
      case False
      with up(3) obtain j where "j \<le> k" "vouches opts (rs ! j) up" by blast
      then have "Suc j \<le> i \<and> vouches opts ((r # rs) ! Suc j) up" using Suc by simp
      then show ?thesis by blast
    qed
    with up(1,2) Suc show ?thesis by simp
  qed
qed simp

lemma uncached_granted:
  assumes "\<not> docache opts" "i < length rs" "auth_run opts st rs ! i = PassOn rq"
  shows "\<exists>up. credentials opts (snd (snd (rs ! i))) = Inr up \<and>
      rq = serve2 (headrmheader (snd (snd (rs ! i))) ''Authorization'') (fst up) \<and> vouches opts (rs ! i) up"
  using assms(2,3)
proof (induction rs arbitrary: i st)
  case (Cons r rs)
  obtain t p q where r: "r = (t, p, q)" using prod_cases3 by blast
  obtain rep st1 where s: "serve opts p t q st = (rep, st1)" by fastforce
  show ?case
  proof (cases i)
    case 0
    with Cons.prems s r have rep: "rep = PassOn rq" by simp
    show ?thesis
    proof (cases "credentials opts q")
      case (Inl page)
      with s rep assms(1) show ?thesis by (simp add: serve_def)
    next
      case (Inr up)
      with s rep assms(1) r 0 auth_grants [of opts p "fst up" "snd up"] show ?thesis
        by (cases "auth opts p (fst up) (snd up)")
          (auto simp: serve_def checked_def vouches_def split: prod.splits)
    qed
  next
    case (Suc k)
    with Cons.prems r s Cons.IH [of k st1] show ?thesis by simp
  qed
qed simp

text \<open>C6. From an empty cache, a request reaches the child only when its own name and password are good: the
  authenticator has accepted exactly this pair with exit status 0, for this request or, if the cache is in use,
  for an earlier one. What the child gets is the request without its first Authorization header, with the name
  added.
\<close>

theorem authenticated_only:
  assumes "i < length rs" "auth_run opts \<lparr>au_cache = [], lastclean = t0\<rparr> rs ! i = PassOn rq"
  shows "\<exists>user pass j out. credentials opts (snd (snd (rs ! i))) = Inr (user, pass) \<and>
    rq = serve2 (headrmheader (snd (snd (rs ! i))) ''Authorization'') user \<and>
    j \<le> i \<and> (docache opts \<or> j = i) \<and>
    credentials opts (snd (snd (rs ! j))) = Inr (user, pass) \<and>
    fst (snd (rs ! j)) (auth_input user pass) = Ended True out"
proof (cases "docache opts")
  case True
  from auth_run_granted [OF assms] obtain up j where
    "credentials opts (snd (snd (rs ! i))) = Inr up"
    "rq = serve2 (headrmheader (snd (snd (rs ! i))) ''Authorization'') (fst up)"
    "j \<le> i" "vouches opts (rs ! j) up" by (auto simp: known_def)
  with True show ?thesis by (cases up) (auto simp: vouches_def grants_def)
next
  case False
  from uncached_granted [OF this assms] obtain up where
    "credentials opts (snd (snd (rs ! i))) = Inr up"
    "rq = serve2 (headrmheader (snd (snd (rs ! i))) ''Authorization'') (fst up)"
    "vouches opts (rs ! i) up" by blast
  with False show ?thesis by (cases up) (auto simp: vouches_def grants_def)
qed

definition ex_opts :: authopts where
  "ex_opts = \<lparr>docache = True, reqssl = False, realm = None\<rparr>"

definition ex_req :: hthead where
  "ex_req = headappheader (mkreq ''GET'' ''/'' ''HTTP/1.1'') ''Authorization''
     (''Basic '' @ base64encode ''joe:a:b'')"

lemma authenticated_only_witness:
  "auth_run ex_opts \<lparr>au_cache = [], lastclean = 0\<rparr>
     [(5, \<lambda>i. Ended (i = ''joe'' @ [chr 10] @ ''a:b'' @ [chr 10]) [], ex_req)] ! 0 =
       PassOn (serve2 (headrmheader ex_req ''Authorization'') ''joe'') \<and>
   (\<exists>user pass j out. credentials ex_opts ex_req = Inr (user, pass) \<and> j \<le> (0::nat) \<and>
     (\<lambda>i. Ended (i = ''joe'' @ [chr 10] @ ''a:b'' @ [chr 10]) []) (auth_input user pass) = Ended True out)"
  (is "?run ! 0 = PassOn ?rq \<and> _")
proof -
  have run: "?run ! 0 = PassOn ?rq" by code_simp
  show ?thesis
    using run authenticated_only [of 0 "[(5, \<lambda>i. Ended (i = ''joe'' @ [chr 10] @ ''a:b'' @ [chr 10]) [], ex_req)]"
      ex_opts 0 ?rq] by auto
qed

section \<open>Credentials\<close>

lemma colon: "\<not> schar (CHR '':'') < 32" "32 \<le> schar (CHR '':'')" "\<not> 32 \<le> schar (chr 10)"
  by (simp add: schar_def ord_def, simp add: schar_def ord_def, simp add: schar_def)

lemma cstr_printable:
  assumes "\<forall>c \<in> set s. \<not> schar c < 32"
  shows "cstr s = s"
  using assms by (intro cstr_nul_free) (auto simp: nul_free_def schar_def ord_def)

text \<open>C37. The authenticator is asked about the name and password the client has typed: for a name without a colon
  and a password (colons allowed) whose bytes are printable ASCII, the header a client sends is split into
  exactly these two.
\<close>

theorem credentials_roundtrip:
  assumes "getheader req ''Authorization'' = Some (''Basic '' @ base64encode (user @ CHR '':'' # pass))"
    and "CHR '':'' \<notin> set user" "\<forall>c \<in> set (user @ pass). 32 \<le> schar c"
    and "\<not> reqssl opts"
  shows "credentials opts req = Inr (user, pass)"
proof -
  let ?dec = "user @ CHR '':'' # pass"
  have p: "\<forall>c \<in> set ?dec. \<not> schar c < 32" using assms(3) colon(2) by (simp add: ball_Un not_less)
  have "take 6 (''Basic '' @ base64encode ?dec) = ''Basic ''" "take 6 ''basic '' = ''basic ''" by simp_all
  moreover have "map tolower ''Basic '' = map tolower ''basic ''" by code_simp
  ultimately have "strncaseeq (''Basic '' @ base64encode ?dec) ''basic '' 6" by (simp only: strncaseeq_def)
  moreover have "drop 6 (''Basic '' @ base64encode ?dec) = base64encode ?dec" by simp
  ultimately show ?thesis
    using assms(1,4) cstr_printable [OF p] p strchr_append [OF assms(2), of pass]
    by (simp add: credentials_def base64_roundtrip list_ex_iff del: strchr_append)
qed

lemma credentials_roundtrip_witness: "credentials ex_opts ex_req = Inr (''joe'', ''a:b'')"
proof -
  have "getheader ex_req ''Authorization'' = Some (''Basic '' @ base64encode (''joe'' @ CHR '':'' # ''a:b''))"
    by code_simp
  moreover have "\<forall>c \<in> set (''joe'' @ ''a:b''). 32 \<le> schar c" by code_simp
  moreover have "\<not> reqssl ex_opts" by (simp add: ex_opts_def)
  ultimately show ?thesis using credentials_roundtrip [of ex_req "''joe''" "''a:b''" ex_opts] by simp
qed

text \<open>
  What the authenticator reads is two lines, whatever the client has sent: no name or password can bring a line
  of its own.
\<close>

lemma credentials_printable:
  assumes "credentials opts req = Inr (user, pass)"
  shows "\<forall>c \<in> set (user @ pass). 32 \<le> schar c" "CHR '':'' \<notin> set user"
proof -
  from assms obtain dec where d: "\<not> list_ex (\<lambda>c. schar c < 32) (cstr dec)"
    "cstr dec = user @ CHR '':'' # pass" "CHR '':'' \<notin> set user"
    by (fastforce simp: credentials_def dest!: strchr_SomeD split: if_splits option.splits)
  then show "\<forall>c \<in> set (user @ pass). 32 \<le> schar c" "CHR '':'' \<notin> set user"
    by (auto simp: list_ex_iff not_less)
qed

text \<open>
  The lines the authenticator reads say which name and which password are meant: two requests for which
  it is given the same input have the same name and the same password.
\<close>

lemma auth_input_injective:
  assumes "credentials opts req = Inr (user, pass)" "credentials opts' req' = Inr (user', pass')"
    and "auth_input user pass = auth_input user' pass'"
  shows "user = user' \<and> pass = pass'"
proof -
  have nl: "chr 10 \<notin> set (user @ pass)" "chr 10 \<notin> set (user' @ pass')"
    using credentials_printable(1) [OF assms(1)] credentials_printable(1) [OF assms(2)] colon(3) by auto
  from assms(3) have "strchr (user @ chr 10 # pass) (chr 10) = strchr (user' @ chr 10 # pass') (chr 10)"
    by (simp add: auth_input_def)
  with nl show ?thesis by simp
qed

section \<open>Age\<close>

text \<open>
  An entry is accepted however old it is, and is young again after that: \<open>serve\<close> looks into the cache
  before it cleans it.
\<close>

lemma stale_password:
  assumes "credentials opts req = Inr (user, pass)" "docache opts" "(user, pass) \<in> known st"
  shows "\<exists>st'. serve opts program now req st = (PassOn (serve2 (headrmheader req ''Authorization'') user), st') \<and>
    \<lparr>ac_user = user, ac_pass = pass, lastuse = now\<rparr> \<in> set (au_cache st')"
proof -
  obtain ok cs where k: "ckcache now user pass (au_cache st) = (ok, cs)" by fastforce
  with assms(3) have "ok" using ckcache_known [OF k] by (simp add: known_def)
  have "\<lparr>ac_user = user, ac_pass = pass, lastuse = now\<rparr> \<in> set cs" if "ckcache now user pass l = (True, cs)" for l cs
    using that by (induction l arbitrary: cs) (auto split: if_splits prod.splits)
  with k \<open>ok\<close> assms(1,2) show ?thesis
    by (auto simp: serve_def checked_def cleancache_def)
qed

end
