(* ===== verification/Accesslog.thy ===== *)
theory Accesslog
  imports Passdata
begin

text \<open>
  The access log, \<open>src/accesslog.c\<close>: how a request is written as a line of text, the two ways in which the
  program stands before its child, and the log file that is opened again on a signal.
\<close>

section \<open>A line of the log\<close>

text \<open>\<open>qputs\<close>; the bytes that go to the stream.\<close>

fun qputs :: "cstring \<Rightarrow> string" where
  "qputs [] = []"
| "qputs (c # s) =
     (if c = CHR 0x22 then [CHR 0x5C, CHR 0x22]
      else if c = CHR 0x5C then [CHR 0x5C, CHR 0x5C]
      else if c = chr 10 then [CHR 0x5C, CHR ''n'']
      else if c = chr 9 then [CHR 0x5C, CHR ''t'']
      else if ord c < 32 \<or> ord c \<ge> 128
      then [CHR 0x5C, CHR ''x'', hexchar (nat (ord c) div 16), hexchar (nat (ord c) mod 16)]
      else [c]) @ qputs s"

text \<open>Seconds and microseconds since the epoch. The number of bytes is -1 where it is not known.\<close>

record logdata =
  ld_req :: hthead
  ld_resp :: "hthead option"
  ld_start :: "int \<times> int"
  ld_end :: "int \<times> int"
  bytesin :: int
  bytesout :: int

definition defdata :: "hthead \<Rightarrow> int \<times> int \<Rightarrow> logdata" where
  "defdata req now = \<lparr>ld_req = req, ld_resp = None, ld_start = now, ld_end = (0, 0),
     bytesin = - 1, bytesout = - 1\<rparr>"

text \<open>
  \<open>%06i\<close>, and \<open>%.6f\<close> of a time that is given in microseconds (the code divides as a \<open>double\<close>, which is exact to
  the last printed digit for times of less than 60 years).
\<close>

definition show_06 :: "int \<Rightarrow> cstring" where
  "show_06 n = (if n < 0 then CHR ''-'' # replicate (5 - length (show_nat (nat (- n)))) (CHR ''0'') @ show_nat (nat (- n))
     else replicate (6 - length (show_nat (nat n))) (CHR ''0'') @ show_nat (nat n))"

definition show_usec :: "int \<Rightarrow> cstring" where
  "show_usec n = (if n < 0 then ''-'' else []) @ show_int (\<bar>n\<bar> div 1000000) @ ''.'' @ show_06 (\<bar>n\<bar> mod 1000000)"

text \<open>A header of the request or of the response, if there is one.\<close>

definition loghead :: "hthead option \<Rightarrow> cstring \<Rightarrow> string" where
  "loghead h d = (case h of None \<Rightarrow> ''-'' | Some q \<Rightarrow> (case getheader q d of None \<Rightarrow> ''-'' | Some v \<Rightarrow> qputs v))"

text \<open>
  \<open>logitem\<close>: \<open>None\<close> is a null pointer handed to \<open>qputs\<close>. \<open>tf\<close> is \<open>strftime\<close> into the buffer of 1024 bytes, of the
  local time or of the universal one; it depends on the locale and on the time zone.
\<close>

definition logitem :: "(bool \<Rightarrow> cstring \<Rightarrow> int \<Rightarrow> cstring) \<Rightarrow> logdata \<Rightarrow> char \<Rightarrow> cstring \<Rightarrow> string option" where
  "logitem tf data t d =
     (if t = CHR ''%'' then Some ''%''
      else if t = CHR ''h'' then Some (loghead (Some (ld_req data)) d)
      else if t = CHR ''p'' then Some (loghead (ld_resp data) d)
      else if t = CHR ''P'' then Some (loghead (ld_resp data) (''X-Ash-'' @ d))
      else if t = CHR ''u'' then map_option qputs (hd_url (ld_req data))
      else if t = CHR ''U'' then
        map_option (\<lambda>u. qputs (takeWhile (\<lambda>c. c \<noteq> CHR ''?'') (take 1023 u))) (hd_url (ld_req data))
      else if t = CHR ''m'' then map_option qputs (hd_method (ld_req data))
      else if t = CHR ''r'' then map_option qputs (hd_rest (ld_req data))
      else if t = CHR ''v'' then map_option qputs (hd_ver (ld_req data))
      else if t = CHR ''t'' \<or> t = CHR ''T'' then
        Some (qputs (tf (t = CHR ''t'') (if d = [] then ''%a, %d %b %Y %H:%M:%S %z'' else d) (fst (ld_start data))))
      else if t = CHR ''s'' then Some (show_06 (snd (ld_start data)))
      else if t = CHR ''c'' then Some (case ld_resp data of None \<Rightarrow> ''-'' | Some r \<Rightarrow> show_int (hd_code r))
      else if t = CHR ''i'' then Some (if bytesin data < 0 then ''-'' else show_int (bytesin data))
      else if t = CHR ''o'' then Some (if bytesout data < 0 then ''-'' else show_int (bytesout data))
      else if t = CHR ''d'' then
        Some (if fst (ld_end data) = 0 \<and> snd (ld_end data) = 0 then ''-''
          else show_usec ((fst (ld_end data) - fst (ld_start data)) * 1000000 +
            (snd (ld_end data) - snd (ld_start data))))
      else if t = CHR ''A'' then Some (loghead (Some (ld_req data)) ''X-Ash-Address'')
      else if t = CHR ''H'' then Some (loghead (Some (ld_req data)) ''Host'')
      else if t = CHR ''R'' then Some (loghead (Some (ld_req data)) ''Referer'')
      else if t = CHR ''G'' then Some (loghead (Some (ld_req data)) ''User-Agent'')
      else Some [])"

text \<open>
  The loop of \<open>logreq\<close> over the format. A brace that is not closed is passed over, and what follows it is
  printed as it stands.
\<close>

function logfmt :: "(char \<Rightarrow> cstring \<Rightarrow> string option) \<Rightarrow> cstring \<Rightarrow> string option" where
  "logfmt item [] = Some []"
| "logfmt item (c # p) =
     (if c \<noteq> CHR ''%'' then map_option ((#) c) (logfmt item p)
      else (case p of
          [] \<Rightarrow> Some []
        | t # q \<Rightarrow>
            if t = CHR ''{'' then
              (case strchr q (CHR ''}'') of
                 None \<Rightarrow> logfmt item q
               | Some (d, r) \<Rightarrow> (case tl r of
                   [] \<Rightarrow> Some []
                 | t' # r' \<Rightarrow> (case item t' d of None \<Rightarrow> None | Some xs \<Rightarrow> map_option ((@) xs) (logfmt item r'))))
            else (case item t [] of None \<Rightarrow> None | Some xs \<Rightarrow> map_option ((@) xs) (logfmt item q))))"
  by pat_completeness auto
termination
  by (relation "measure (\<lambda>(item, p). length p)") (auto dest!: strchr_SomeD)

declare logfmt.simps(2) [simp del]

definition logreq :: "(bool \<Rightarrow> cstring \<Rightarrow> int \<Rightarrow> cstring) \<Rightarrow> cstring \<Rightarrow> logdata \<Rightarrow> string option" where
  "logreq tf fmt data = map_option (\<lambda>l. l @ [chr 10]) (logfmt (logitem tf data) fmt)"

definition DEFFORMAT :: cstring where
  "DEFFORMAT = ''%{%Y-%m-%d %H:%M:%S}t %m %u %A '' @ [CHR 0x22] @ ''%G'' @ [CHR 0x22]"

section \<open>The log file\<close>

text \<open>
  The files the program deals with are numbered; \<open>names\<close> is what the directory says at the moment. Files from
  \<open>unused\<close> on do not exist yet. \<open>ours\<close> and \<open>theirs\<close> are the files this process and other processes hold a
  lock on; \<open>outf\<close> is the file behind the stream \<open>out\<close>; \<open>child\<close> are the messages the child has been sent.
\<close>

record logworld =
  names :: "cstring \<Rightarrow> nat option"
  texts :: "nat \<Rightarrow> string"
  unused :: nat
  ours :: "nat set"
  theirs :: "nat set"
  outf :: nat
  child :: "string list"

record logopts =
  outname :: "cstring option"
  locklog :: bool
  format :: cstring
  strftime :: "bool \<Rightarrow> cstring \<Rightarrow> int \<Rightarrow> cstring"

text \<open>\<open>fopen\<close> for appending creates the file if it is not there; \<open>fclose\<close> drops the lock on the file.\<close>

definition fopen_a :: "cstring \<Rightarrow> logworld \<Rightarrow> nat \<times> logworld" where
  "fopen_a f w = (case names w f of
      Some i \<Rightarrow> (i, w)
    | None \<Rightarrow> (unused w, w\<lparr>names := (names w)(f \<mapsto> unused w), texts := (texts w)(unused w := []),
        unused := Suc (unused w)\<rparr>))"

definition fclose :: "nat \<Rightarrow> logworld \<Rightarrow> logworld" where
  "fclose i w = w\<lparr>ours := ours w - {i}\<rparr>"

text \<open>\<open>reopenlog\<close>; \<open>can\<close> says whether the file can be opened. \<open>stat\<close> and \<open>fopen\<close> see the same directory.\<close>

definition reopenlog :: "logopts \<Rightarrow> bool \<Rightarrow> logworld \<Rightarrow> logworld" where
  "reopenlog opts can w = (case outname opts of
      None \<Rightarrow> w
    | Some f \<Rightarrow>
        if locklog opts \<and> names w f = Some (outf w) then w
        else if \<not> can then w
        else (case fopen_a f w of (i, w1) \<Rightarrow>
          if locklog opts then
            if i \<in> theirs w1 then fclose i w1
            else (fclose (outf w1) (w1\<lparr>ours := insert i (ours w1)\<rparr>))\<lparr>outf := i\<rparr>
          else (fclose (outf w1) w1)\<lparr>outf := i\<rparr>))"

definition append_log :: "string \<Rightarrow> logworld \<Rightarrow> logworld" where
  "append_log l w = w\<lparr>texts := (texts w)(outf w := texts w (outf w) @ l)\<rparr>"

section \<open>Beside the child\<close>

text \<open>
  \<open>serve\<close>: the request goes to the child with its connection, and is then logged. \<open>Inl\<close> is the exit with
  status 1, \<open>ok\<close> the success of \<open>sendmsg\<close>.
\<close>

definition serve :: "logopts \<Rightarrow> int \<times> int \<Rightarrow> bool \<Rightarrow> hthead \<Rightarrow> logworld \<Rightarrow> (logworld + logworld) option" where
  "serve opts now ok req w = (case sendreq req of
      None \<Rightarrow> None
    | Some m \<Rightarrow>
        if \<not> ok then Some (Inl w)
        else (case logreq (strftime opts) (format opts) (defdata req now) of
            None \<Rightarrow> None
          | Some l \<Rightarrow> Some (Inr (append_log l (w\<lparr>child := child w @ [m]\<rparr>)))))"

text \<open>
  One turn of \<open>sloop\<close>: whether a signal has come, whether the log can be opened then, what there is to read
  (nothing, the end of the requests or another failure of \<open>recvreq\<close>, or a request with its time and the
  success of passing it on), and whether the child has gone.
\<close>

datatype intake = Nothing | Finished | Broken | Request hthead "int \<times> int" bool

record logturn =
  tn_reopen :: bool
  tn_can :: bool
  tn_input :: intake
  tn_hup :: bool

datatype fate = Running | Returned | Exited

definition sloop_turn :: "logopts \<Rightarrow> logturn \<Rightarrow> logworld \<Rightarrow> (fate \<times> logworld) option" where
  "sloop_turn opts t w =
    (let w1 = (if tn_reopen t then reopenlog opts (tn_can t) w else w);
         fin = (if tn_hup t then Returned else Running) in
     case tn_input t of
       Nothing \<Rightarrow> Some (fin, w1)
     | Finished \<Rightarrow> Some (Returned, w1)
     | Broken \<Rightarrow> Some (Exited, w1)
     | Request req now ok \<Rightarrow> (case serve opts now ok req w1 of
           None \<Rightarrow> None
         | Some (Inl w2) \<Rightarrow> Some (Exited, w2)
         | Some (Inr w2) \<Rightarrow> Some (fin, w2)))"

fun sloop :: "logopts \<Rightarrow> logturn list \<Rightarrow> logworld \<Rightarrow> (fate \<times> logworld) option" where
  "sloop opts [] w = Some (Running, w)"
| "sloop opts (t # ts) w = (case sloop_turn opts t w of
      None \<Rightarrow> None
    | Some (Running, w1) \<Rightarrow> sloop opts ts w1
    | Some (e, w1) \<Rightarrow> Some (e, w1))"

text \<open>The format of the option \<open>-a\<close>.\<close>

definition APACHEFORMAT :: cstring where
  "APACHEFORMAT = ''%A - %{log-user}P [%{%d/%b/%Y:%H:%M:%S %z}t] '' @ [CHR 0x22] @ ''%m %u %v'' @ [CHR 0x22] @
     '' %c %o '' @ [CHR 0x22] @ ''%R'' @ [CHR 0x22, CHR '' '', CHR 0x22] @ ''%G'' @ [CHR 0x22]"

section \<open>Printable lines\<close>

definition printable :: "char \<Rightarrow> bool" where
  "printable c \<longleftrightarrow> 32 \<le> ord c \<and> ord c < 128"

definition tidy :: "string \<Rightarrow> bool" where
  "tidy s \<longleftrightarrow> (\<forall>c \<in> set s. printable c)"

lemma clean_simps [simp]:
  "tidy []" "tidy (c # s) \<longleftrightarrow> printable c \<and> tidy s" "tidy (s @ t) \<longleftrightarrow> tidy s \<and> tidy t"
  by (auto simp: tidy_def)

lemma printable_chars [simp]:
  "printable (CHR ''-'')" "printable (CHR ''%'')" "printable (CHR ''.'')" "printable (CHR ''0'')"
  "printable (CHR 0x5C)" "printable (CHR 0x22)" "printable (CHR ''n'')" "printable (CHR ''t'')" "printable (CHR ''x'')"
  by (simp_all add: printable_def ord_def)

lemma printable_hexchar: "d < 16 \<Longrightarrow> printable (hexchar d)"
  by (auto simp: printable_def hexchar_def)

lemma clean_qputs: "tidy (qputs s)"
proof (induction s)
  case (Cons c s)
  have "nat (ord c) div 16 < 16" using ord_less [of c] by (simp add: less_mult_imp_div_less nat_less_iff)
  moreover have "printable c" if "\<not> (ord c < 32 \<or> ord c \<ge> 128)" using that by (simp add: printable_def)
  ultimately show ?case using Cons by (auto simp: printable_hexchar)
qed simp

lemma clean_show_nat: "tidy (show_nat n)"
  using show_nat_digits [of _ n] by (fastforce simp: tidy_def printable_def isdigit_def)

lemma clean_replicate: "printable c \<Longrightarrow> tidy (replicate n c)"
  by (simp add: tidy_def)

lemma clean_numbers: "tidy (show_int n)" "tidy (show_06 n)" "tidy (show_usec n)"
  by (simp_all add: show_int_def show_06_def show_usec_def clean_show_nat clean_replicate)

lemma clean_loghead: "tidy (loghead h d)"
  by (simp add: loghead_def clean_qputs split: option.split)

definition clean_text :: "string option \<Rightarrow> bool" where
  "clean_text x \<longleftrightarrow> (case x of None \<Rightarrow> True | Some xs \<Rightarrow> tidy xs)"

lemma clean_text_intros:
  "clean_text x \<Longrightarrow> clean_text y \<Longrightarrow> clean_text (if b then x else y)"
  "tidy xs \<Longrightarrow> clean_text (Some xs)"
  "clean_text (map_option qputs s)"
  "clean_text (map_option (\<lambda>u. qputs (f u)) s)"
  by (simp_all add: clean_text_def clean_qputs split: option.split)

lemma clean_choices:
  "tidy xs \<Longrightarrow> tidy ys \<Longrightarrow> tidy (if b then xs else ys)"
  "tidy xs \<Longrightarrow> (\<And>r. tidy (f r)) \<Longrightarrow> tidy (case q of None \<Rightarrow> xs | Some r \<Rightarrow> f r)"
  "tidy ''-''" "tidy ''%''"
  by (simp_all split: option.split)

lemma clean_logitem: "clean_text (logitem tf data t d)"
  unfolding logitem_def
  by (intro clean_text_intros clean_choices clean_numbers clean_loghead clean_qputs clean_simps(1))

lemma clean_text_Cons: "printable c \<Longrightarrow> clean_text x \<Longrightarrow> clean_text (map_option ((#) c) x)"
  by (simp add: clean_text_def split: option.splits)

lemma clean_text_append:
  "clean_text x \<Longrightarrow> clean_text y \<Longrightarrow> clean_text (case x of None \<Rightarrow> None | Some xs \<Rightarrow> map_option ((@) xs) y)"
  by (simp add: clean_text_def split: option.splits)

lemma clean_logfmt:
  assumes item: "\<And>t d. clean_text (item t d)"
  shows "tidy p \<Longrightarrow> clean_text (logfmt item p)"
proof (induction "length p" arbitrary: p rule: less_induct)
  case less
  have none: "clean_text (Some [])" by (simp add: clean_text_def)
  show ?case
  proof (cases p)
    case (Cons c q)
    have q: "clean_text (logfmt item q)" using less Cons by simp
    show ?thesis
    proof (cases "c = CHR ''%''")
      case False
      then show ?thesis
        using less.prems Cons q by (simp add: logfmt.simps(2) clean_text_Cons)
    next
      case True
      show ?thesis
      proof (cases q)
        case Nil
        with True Cons none show ?thesis by (simp add: logfmt.simps(2))
      next
        case q': (Cons t r)
        have r: "clean_text (logfmt item r)" using less Cons q' by simp
        have "clean_text (case item t' d of None \<Rightarrow> None | Some xs \<Rightarrow> map_option ((@) xs) (logfmt item r''))"
          if "strchr r (CHR ''}'') = Some (d, r')" "tl r' = t' # r''" for d r' t' r''
        proof -
          from strchr_SomeD [OF that(1)] that(2) have "r = d @ CHR ''}'' # t' # r''" by auto
          with less Cons q' have "clean_text (logfmt item r'')" by simp
          then show ?thesis by (rule clean_text_append [OF item])
        qed
        then show ?thesis
          using True Cons q' r none clean_text_append [OF item r]
          by (auto simp: logfmt.simps(2) split: option.split list.split)
      qed
    qed
  qed (simp add: none)
qed

lemma clean_formats: "tidy DEFFORMAT" "tidy APACHEFORMAT"
  by (simp_all add: DEFFORMAT_def APACHEFORMAT_def printable_def ord_def)

text \<open>A line is printable but for its end.\<close>

lemma logreq_line:
  assumes "tidy fmt" "logreq tf fmt data = Some l"
  obtains xs where "l = xs @ [chr 10]" "tidy xs"
proof -
  obtain xs where "logfmt (logitem tf data) fmt = Some xs" "l = xs @ [chr 10]"
    using assms(2) by (auto simp: logreq_def)
  with clean_logfmt [of "logitem tf data" fmt, OF clean_logitem assms(1)] that show thesis
    by (simp add: clean_text_def)
qed

text \<open>There is always a line when the request has its fields.\<close>

lemma logfmt_total:
  assumes "\<And>t d. item t d \<noteq> None"
  shows "logfmt item p \<noteq> None"
proof (induction "length p" arbitrary: p rule: less_induct)
  case less
  have more: "(case item t d of None \<Rightarrow> None | Some xs \<Rightarrow> map_option ((@) xs) (logfmt item r)) \<noteq> None"
    if "length r < length p" for t d r
    using less that assms [of t d] by (auto split: option.split)
  have "length r'' < Suc (Suc (length r))" if "strchr r (CHR ''}'') = Some (d, r')" "tl r' = t' # r''" for r d r' t' r''
    using strchr_SomeD [OF that(1)] that(2) by auto
  then show ?case
    using less more by (cases p) (auto simp: logfmt.simps(2) split: option.splits list.splits)
qed

lemma logitem_total:
  "hd_url (ld_req data) \<noteq> None \<Longrightarrow> hd_method (ld_req data) \<noteq> None \<Longrightarrow> hd_rest (ld_req data) \<noteq> None \<Longrightarrow>
    hd_ver (ld_req data) \<noteq> None \<Longrightarrow> logitem tf data t d \<noteq> None"
  unfolding logitem_def by (simp split: if_split)

section \<open>Reading a line back\<close>

text \<open>What \<open>qputs\<close> has written, up to the end mark \<open>e\<close>, and what follows it.\<close>

fun unq :: "char \<Rightarrow> string \<Rightarrow> (cstring \<times> string) option" where
  "unq e [] = None"
| "unq e (c # s) =
     (if c = e then Some ([], s)
      else if c = CHR 0x5C then (case s of
          CHR ''n'' # r \<Rightarrow> map_option (apfst ((#) (chr 10))) (unq e r)
        | CHR ''t'' # r \<Rightarrow> map_option (apfst ((#) (chr 9))) (unq e r)
        | CHR ''x'' # a # b # r \<Rightarrow> (case (chunk_digit (ord a), chunk_digit (ord b)) of
              (Some m, Some n) \<Rightarrow> map_option (apfst ((#) (chr (16 * m + n)))) (unq e r)
            | _ \<Rightarrow> None)
        | k # r \<Rightarrow> map_option (apfst ((#) k)) (unq e r)
        | [] \<Rightarrow> None)
      else map_option (apfst ((#) c)) (unq e s))"

lemma hex_byte: "16 * int (nat (ord c) div 16) + int (nat (ord c) mod 16) = ord c"
proof -
  have "int (16 * (nat (ord c) div 16) + nat (ord c) mod 16) = int (nat (ord c))" by simp
  then show ?thesis by (simp only: of_nat_add of_nat_mult) simp
qed

lemma unq_hex:
  "unq e (CHR 0x5C # CHR ''x'' # hexchar (nat (ord c) div 16) # hexchar (nat (ord c) mod 16) # r) =
     (if CHR 0x5C = e then Some ([], CHR ''x'' # hexchar (nat (ord c) div 16) # hexchar (nat (ord c) mod 16) # r)
      else map_option (apfst ((#) c)) (unq e r))"
proof -
  have "nat (ord c) div 16 < 16" using ord_less [of c] by (simp add: less_mult_imp_div_less nat_less_iff)
  then show ?thesis
    using hexchar_digit [of "nat (ord c) div 16"] hexchar_digit [of "nat (ord c) mod 16"] hex_byte [of c]
    by simp
qed

lemma unq_qputs:
  assumes "e \<noteq> CHR 0x5C"
  shows "e = CHR 0x22 \<or> e \<notin> set s \<Longrightarrow> unq e (qputs s @ e # t) = Some (s, t)"
proof (induction s)
  case (Cons c s)
  then have IH: "unq e (qputs s @ e # t) = Some (s, t)" by auto
  have ce: "c \<noteq> CHR 0x22 \<Longrightarrow> c \<noteq> e" using Cons.prems by auto
  consider "c = CHR 0x22" | "c = CHR 0x5C" | "c = chr 10" | "c = chr 9"
    | "c \<noteq> CHR 0x22" "c \<noteq> CHR 0x5C" "c \<noteq> chr 10" "c \<noteq> chr 9" "ord c < 32 \<or> ord c \<ge> 128"
    | "c \<noteq> CHR 0x22" "c \<noteq> CHR 0x5C" "c \<noteq> chr 10" "c \<noteq> chr 9" "\<not> (ord c < 32 \<or> ord c \<ge> 128)"
    by blast
  then show ?case
  proof cases
    case 5
    then have "qputs (c # s) = [CHR 0x5C, CHR ''x'', hexchar (nat (ord c) div 16), hexchar (nat (ord c) mod 16)] @ qputs s"
      by simp
    with IH assms show ?thesis using unq_hex [of e c "qputs s @ e # t"] by (simp del: unq.simps)
  qed (use IH assms ce in \<open>simp_all add: chr_def\<close>)
qed simp

definition read_default :: "string \<Rightarrow> (cstring \<times> cstring \<times> cstring \<times> cstring \<times> cstring \<times> cstring) option" where
  "read_default l = do {
     (date, l) \<leftarrow> unq (CHR '' '') l;
     (time, l) \<leftarrow> unq (CHR '' '') l;
     (meth, l) \<leftarrow> unq (CHR '' '') l;
     (url, l) \<leftarrow> unq (CHR '' '') l;
     (addr, l) \<leftarrow> unq (CHR '' '') l;
     (agent, l) \<leftarrow> (case l of [] \<Rightarrow> None | c # l \<Rightarrow> if c = CHR 0x22 then unq (CHR 0x22) l else None);
     (if l = [chr 10] then Some (date, time, meth, url, addr, agent) else None)
   }"

lemma logfmt_default:
  "logfmt item DEFFORMAT = (case (item (CHR ''t'') ''%Y-%m-%d %H:%M:%S'', item (CHR ''m'') [], item (CHR ''u'') [],
      item (CHR ''A'') [], item (CHR ''G'') []) of
    (Some t, Some m, Some u, Some a, Some g) \<Rightarrow>
      Some (t @ CHR '' '' # m @ CHR '' '' # u @ CHR '' '' # a @ CHR '' '' # CHR 0x22 # g @ [CHR 0x22])
  | _ \<Rightarrow> None)"
  by (simp add: DEFFORMAT_def logfmt.simps(2) strchr_def split: option.split)

lemma qputs_append: "qputs (s @ t) = qputs s @ qputs t"
  by (induction s) auto

lemma space_plain: "qputs (CHR '' '' # s) = CHR '' '' # qputs s"
proof -
  have "CHR '' '' \<noteq> chr 9" "CHR '' '' \<noteq> chr 10" by code_simp+
  then show ?thesis by (simp add: ord_simps(2))
qed

lemma logfmt_items:
  "logitem tf data (CHR ''t'') ''%Y-%m-%d %H:%M:%S'' =
     Some (qputs (tf True ''%Y-%m-%d %H:%M:%S'' (fst (ld_start data))))"
  "logitem tf data (CHR ''m'') [] = map_option qputs (hd_method (ld_req data))"
  "logitem tf data (CHR ''u'') [] = map_option qputs (hd_url (ld_req data))"
  "logitem tf data (CHR ''A'') [] = Some (loghead (Some (ld_req data)) ''X-Ash-Address'')"
  "logitem tf data (CHR ''G'') [] = Some (loghead (Some (ld_req data)) ''User-Agent'')"
  by (simp_all add: logitem_def)

text \<open>C39. A line in the default format says what was asked and by whom, whatever the client has put into its
  request: the fields of the line can be read back, so that no URL and no header can pass for another field or for
  a line of its own. (Methods, URLs and addresses have no spaces when they come from the front end.)\<close>

theorem default_line_readable:
  assumes "hd_method (ld_req data) = Some m" "hd_url (ld_req data) = Some u"
    and "getheader (ld_req data) ''X-Ash-Address'' = Some a"
    and "getheader (ld_req data) ''User-Agent'' = Some g"
    and "tf True ''%Y-%m-%d %H:%M:%S'' (fst (ld_start data)) = dt @ '' '' @ tm"
    and "CHR '' '' \<notin> set (dt @ tm @ m @ u @ a)"
  shows "\<exists>line. logreq tf DEFFORMAT data = Some line \<and> read_default line = Some (dt, tm, m, u, a, g)"
proof -
  have sp: "qputs (dt @ '' '' @ tm) = qputs dt @ CHR '' '' # qputs tm"
    using space_plain by (simp add: qputs_append)
  have "logreq tf DEFFORMAT data = Some (qputs dt @ CHR '' '' # qputs tm @ CHR '' '' # qputs m @ CHR '' '' #
      qputs u @ CHR '' '' # qputs a @ CHR '' '' # CHR 0x22 # qputs g @ CHR 0x22 # [chr 10])"
    using assms(1-5) sp by (simp add: logreq_def logfmt_default logfmt_items loghead_def)
  then show ?thesis
    using assms(6) by (simp add: read_default_def unq_qputs del: unq.simps)
qed

definition ex_request :: hthead where
  "ex_request = headappheader (headappheader (mkreq ''GET'' ''/a'' ''HTTP/1.1'')
     ''X-Ash-Address'' ''10.0.0.1'') ''User-Agent'' ([CHR 0x22, chr 10] @ ''x'')"

definition ex_time :: "bool \<Rightarrow> cstring \<Rightarrow> int \<Rightarrow> cstring" where
  "ex_time loc f t = ''2024-02-29 12:00:00''"

lemma default_line_readable_witness:
  "\<exists>line. logreq ex_time DEFFORMAT (defdata ex_request (5, 6)) = Some line \<and>
     read_default line = Some (''2024-02-29'', ''12:00:00'', ''GET'', ''/a'', ''10.0.0.1'', [CHR 0x22, chr 10] @ ''x'')"
proof (rule default_line_readable)
  show "getheader (ld_req (defdata ex_request (5, 6))) ''User-Agent'' = Some ([CHR 0x22, chr 10] @ ''x'')" by code_simp
  show "getheader (ld_req (defdata ex_request (5, 6))) ''X-Ash-Address'' = Some ''10.0.0.1''" by code_simp
qed (simp_all add: defdata_def ex_request_def ex_time_def mkreq_def headappheader_def)

section \<open>The log file\<close>

text \<open>What other processes do: files get other names or none, new ones appear that are empty, and locks are taken
  and released on files that are not locked here.\<close>

definition elsewhere :: "logworld \<Rightarrow> logworld \<Rightarrow> bool" where
  "elsewhere w w' \<longleftrightarrow> (\<exists>ns k ls. w' = w\<lparr>names := ns, unused := k, theirs := ls\<rparr> \<and> unused w \<le> k \<and>
     ran ns \<subseteq> {..<k} \<and> ls \<inter> ours w = {})"

inductive log_reach :: "logopts \<Rightarrow> logworld \<Rightarrow> logworld \<Rightarrow> bool" for opts w0 where
  log_start: "log_reach opts w0 w0"
| log_turn: "log_reach opts w0 w \<Longrightarrow> sloop_turn opts t w = Some (e, w') \<Longrightarrow> log_reach opts w0 w'"
| log_world: "log_reach opts w0 w \<Longrightarrow> elsewhere w w' \<Longrightarrow> log_reach opts w0 w'"

definition lines_in :: "logworld \<Rightarrow> nat" where
  "lines_in w = (\<Sum>i<unused w. count_list (texts w i) (chr 10))"

definition log_ok :: "logopts \<Rightarrow> logworld \<Rightarrow> bool" where
  "log_ok opts w \<longleftrightarrow> outf w < unused w \<and> ran (names w) \<subseteq> {..<unused w} \<and> (\<forall>i \<ge> unused w. texts w i = []) \<and>
     theirs w \<inter> ours w = {} \<and> ours w \<subseteq> {..<unused w} \<and> (locklog opts \<longrightarrow> outf w \<in> ours w)"

lemma lines_in_same:
  assumes "log_ok opts w" "texts w' = texts w" "unused w \<le> unused w'"
  shows "lines_in w' = lines_in w"
proof -
  have "(\<Sum>i<unused w'. count_list (texts w i) (chr 10)) = (\<Sum>i<unused w. count_list (texts w i) (chr 10))"
    using assms(1,3) by (intro sum.mono_neutral_right) (auto simp: log_ok_def)
  with assms(2) show ?thesis by (simp add: lines_in_def)
qed

text \<open>Nothing is written, and the state is as good as it was.\<close>

definition idle :: "logopts \<Rightarrow> logworld \<Rightarrow> logworld \<Rightarrow> bool" where
  "idle opts w w' \<longleftrightarrow> log_ok opts w' \<and> texts w' = texts w \<and> child w' = child w \<and> lines_in w' = lines_in w"

lemma idleI:
  assumes "log_ok opts w" "log_ok opts w'" "texts w' = texts w" "child w' = child w" "unused w \<le> unused w'"
  shows "idle opts w w'"
  using assms lines_in_same [OF assms(1,3,5)] by (simp add: idle_def)

lemma ran_upd: "ran (m(a \<mapsto> b)) \<subseteq> insert b (ran m)"
  by (auto simp: ran_def)

lemma fopen_a_idle:
  assumes "log_ok opts w" "fopen_a f w = (i, w')"
  shows "log_ok opts w'" "texts w' = texts w" "child w' = child w" "unused w \<le> unused w'" "i < unused w'"
    "outf w' = outf w" "ours w' = ours w" "i = outf w \<longrightarrow> names w f = Some (outf w)"
proof -
  have t: "(texts w)(unused w := []) = texts w" using assms(1) by (auto simp: log_ok_def fun_upd_idem)
  have r: "ran ((names w)(f \<mapsto> unused w)) \<subseteq> {..<Suc (unused w)}"
    using assms(1) ran_upd [of "names w" f "unused w"] by (auto simp: log_ok_def)
  show "log_ok opts w'"
    using assms r t by (cases "names w f") (auto simp: fopen_a_def log_ok_def)
  show "texts w' = texts w" "child w' = child w" "unused w \<le> unused w'" "outf w' = outf w" "ours w' = ours w"
    using assms t by (auto simp: fopen_a_def split: option.splits)
  show "i < unused w'"
    using assms by (auto simp: fopen_a_def log_ok_def ran_def split: option.splits)
  show "i = outf w \<longrightarrow> names w f = Some (outf w)"
    using assms by (auto simp: fopen_a_def log_ok_def split: option.splits)
qed

lemma reopenlog_idle:
  assumes "log_ok opts w"
  shows "idle opts w (reopenlog opts can w)"
proof -
  have refl: "idle opts w w" using assms by (simp add: idle_def)
  show ?thesis
  proof (cases "outname opts")
    case None
    with refl show ?thesis by (simp add: reopenlog_def)
  next
    case (Some f)
    show ?thesis
    proof (cases "(locklog opts \<and> names w f = Some (outf w)) \<or> \<not> can")
      case True
      with refl Some show ?thesis by (auto simp: reopenlog_def)
    next
      case False
      obtain i w1 where o: "fopen_a f w = (i, w1)" by fastforce
      note 1 = fopen_a_idle [OF assms o]
      define w2 where "w2 = reopenlog opts can w"
      have w2: "w2 = (if locklog opts then
            if i \<in> theirs w1 then fclose i w1
            else (fclose (outf w1) (w1\<lparr>ours := insert i (ours w1)\<rparr>))\<lparr>outf := i\<rparr>
          else (fclose (outf w1) w1)\<lparr>outf := i\<rparr>)"
        using False Some o by (auto simp: w2_def reopenlog_def)
      have other: "locklog opts \<Longrightarrow> i \<noteq> outf w1" using 1(6,8) False by auto
      have "log_ok opts w2"
        using 1(1,5) other by (auto simp: w2 fclose_def log_ok_def)
      moreover have "texts w2 = texts w" "child w2 = child w" "unused w2 = unused w1"
        using 1 by (auto simp: w2 fclose_def)
      ultimately show ?thesis using idleI [OF assms, of w2] 1(4) by (simp add: w2_def)
    qed
  qed
qed

lemma elsewhere_idle: "log_ok opts w \<Longrightarrow> elsewhere w w' \<Longrightarrow> idle opts w w'"
  by (rule idleI) (auto simp: elsewhere_def log_ok_def)

lemma append_log_ok:
  assumes "log_ok opts w"
  shows "log_ok opts (append_log l w)" "lines_in (append_log l w) = lines_in w + count_list l (chr 10)"
proof -
  show "log_ok opts (append_log l w)" using assms by (auto simp: append_log_def log_ok_def)
  have out: "outf w \<in> {..<unused w}" using assms by (simp add: log_ok_def)
  have "(\<Sum>i<unused w. count_list (if i = outf w then texts w (outf w) @ l else texts w i) (chr 10)) =
      (\<Sum>i<unused w. count_list (texts w i) (chr 10) + (if i = outf w then count_list l (chr 10) else 0))"
    by (intro sum.cong) auto
  also have "\<dots> = lines_in w + count_list l (chr 10)"
    using out by (simp add: lines_in_def sum.distrib)
  finally show "lines_in (append_log l w) = lines_in w + count_list l (chr 10)"
    by (simp add: lines_in_def append_log_def fun_upd_def)
qed

lemma clean_no_newline: "tidy s \<Longrightarrow> count_list s (chr 10) = 0"
  by (auto simp: tidy_def printable_def count_list_0_iff)

text \<open>One turn: at most one request for the child, and then exactly one line, of printable bytes.\<close>

lemma serve_logs:
  assumes "log_ok opts w" "tidy (format opts)" "serve opts now ok req w = Some res"
  shows "case res of Inl w' \<Rightarrow> w' = w | Inr w' \<Rightarrow> log_ok opts w' \<and> (\<exists>m l. tidy l \<and>
      child w' = child w @ [m] \<and> texts w' = (texts w)(outf w := texts w (outf w) @ l @ [chr 10]) \<and>
      lines_in w' = Suc (lines_in w))"
proof (cases res)
  case (Inl w')
  with assms(3) show ?thesis by (auto simp: serve_def split: option.splits if_splits)
next
  case (Inr w')
  then obtain m l where l: "logreq (strftime opts) (format opts) (defdata req now) = Some l"
    and w': "w' = append_log l (w\<lparr>child := child w @ [m]\<rparr>)"
    using assms(3) by (auto simp: serve_def split: option.splits if_splits)
  obtain xs where xs: "l = xs @ [chr 10]" "tidy xs" by (rule logreq_line [OF assms(2) l])
  have ok: "log_ok opts (w\<lparr>child := child w @ [m]\<rparr>)" using assms(1) by (simp add: log_ok_def)
  have "lines_in (w\<lparr>child := child w @ [m]\<rparr>) = lines_in w" by (simp add: lines_in_def)
  with append_log_ok [OF ok, of l] xs clean_no_newline [OF xs(2)] Inr w' show ?thesis
    by (auto simp: append_log_def)
qed

text \<open>Whole lines of printable bytes, added to some text.\<close>

definition lines_added :: "string \<Rightarrow> string \<Rightarrow> bool" where
  "lines_added s t \<longleftrightarrow> (\<exists>ls. (\<forall>l \<in> set ls. tidy l) \<and> t = s @ concat (map (\<lambda>l. l @ [chr 10]) ls))"

lemma lines_added_refl: "lines_added s s"
  unfolding lines_added_def by (intro exI [of _ "[]"]) simp

lemma lines_added_line: "lines_added s t \<Longrightarrow> tidy l \<Longrightarrow> lines_added s (t @ l @ [chr 10])"
  unfolding lines_added_def
proof (elim exE conjE)
  fix ls
  assume "tidy l" "\<forall>l \<in> set ls. tidy l" "t = s @ concat (map (\<lambda>l. l @ [chr 10]) ls)"
  then show "\<exists>ls. (\<forall>l\<in>set ls. tidy l) \<and> t @ l @ [chr 10] = s @ concat (map (\<lambda>l. l @ [chr 10]) ls)"
    by (intro exI [of _ "ls @ [l]"]) simp
qed

definition logs_from :: "logopts \<Rightarrow> logworld \<Rightarrow> logworld \<Rightarrow> bool" where
  "logs_from opts w0 w \<longleftrightarrow> log_ok opts w \<and> (\<forall>i. lines_added (texts w0 i) (texts w i)) \<and>
     lines_in w + length (child w0) = lines_in w0 + length (child w)"

lemma logs_from_ok: "logs_from opts w0 w \<Longrightarrow> log_ok opts w"
  by (simp add: logs_from_def)

lemma logs_from_idle: "logs_from opts w0 w \<Longrightarrow> idle opts w w' \<Longrightarrow> logs_from opts w0 w'"
  by (simp add: logs_from_def idle_def)

lemma logs_from_turn:
  assumes "logs_from opts w0 w" "sloop_turn opts t w = Some (e, w')" "tidy (format opts)"
  shows "logs_from opts w0 w'"
proof -
  define w1 where "w1 = (if tn_reopen t then reopenlog opts (tn_can t) w else w)"
  have 1: "logs_from opts w0 w1"
    using assms(1) logs_from_idle [OF assms(1) reopenlog_idle [OF logs_from_ok [OF assms(1)]]] by (simp add: w1_def)
  then have ok: "log_ok opts w1" by (simp add: logs_from_def)
  show ?thesis
  proof (cases "tn_input t")
    case (Request req now good)
    obtain res where res: "serve opts now good req w1 = Some res" "w' = (case res of Inl w2 \<Rightarrow> w2 | Inr w2 \<Rightarrow> w2)"
      using assms(2) Request by (auto simp: sloop_turn_def w1_def [symmetric] Let_def split: option.splits sum.splits)
    note step = serve_logs [OF ok assms(3) res(1)]
    show ?thesis
    proof (cases res)
      case (Inl w2)
      with step res 1 show ?thesis by simp
    next
      case (Inr w2)
      with step obtain m l where "log_ok opts w2" "tidy l" "child w2 = child w1 @ [m]"
        "texts w2 = (texts w1)(outf w1 := texts w1 (outf w1) @ l @ [chr 10])" "lines_in w2 = Suc (lines_in w1)"
        by auto
      with 1 res(2) Inr lines_added_line show ?thesis by (auto simp: logs_from_def)
    qed
  qed (use assms(2) 1 in \<open>auto simp: sloop_turn_def w1_def [symmetric] Let_def\<close>)
qed


definition ex_logopts :: logopts where
  "ex_logopts = \<lparr>outname = Some ''log'', locklog = True, format = DEFFORMAT, strftime = ex_time\<rparr>"

definition ex_world :: logworld where
  "ex_world = \<lparr>names = [''log'' \<mapsto> 0], texts = (\<lambda>i. []), unused = 1, ours = {0}, theirs = {}, outf = 0, child = []\<rparr>"


end
