(* ===== verification/Logfilter.thy ===== *)
theory Logfilter
  imports Accesslog
begin

text \<open>
  The access log with the option \<open>-e\<close>: the program stands in front of its child, passes the request body and the
  response through, and logs the request with the status and the sizes when it is done.
\<close>

section \<open>In front of the child\<close>

text \<open>\<open>passdata\<close>; the count, or \<open>None\<close> for the result -1.\<close>

partial_function (option) passdata_on ::
  "'p bufioops \<Rightarrow> 'q bufioops \<Rightarrow> int \<Rightarrow> 'p bufio \<Rightarrow> 'q bufio \<Rightarrow> (int option \<times> 'p bufio \<times> 'q bufio) option" where
  "passdata_on oi oo tot b d =
     (if bioeof b then Some (Some tot, b, d)
      else (case pass_some oo (biordata b) b d of
          None \<Rightarrow> None
        | Some (Inl (b1, d1)) \<Rightarrow> Some (None, b1, d1)
        | Some (Inr (r, b1, d1)) \<Rightarrow>
            if biorspace b1 > 0 then
              (case biofillsome oi b1 of (q, b2) \<Rightarrow>
                 if q < 0 then Some (None, b2, d1) else passdata_on oi oo (tot + int r) b2 d1)
            else passdata_on oi oo (tot + int r) b1 d1))"

declare passdata_on.simps [code]

text \<open>
  \<open>filterreq\<close> between the open streams and the label \<open>out\<close>: \<open>cl\<close> is the connection of the client, \<open>hs\<close> the
  stream to the child, \<open>te\<close> the time when the response has been passed on.
\<close>

definition pass_response :: "int \<times> int \<Rightarrow> hthead \<Rightarrow> logdata \<Rightarrow> stdiofd bufio \<Rightarrow> stdiofd bufio \<Rightarrow>
    (logdata \<times> stdiofd bufio \<times> stdiofd bufio) option" where
  "pass_response te resp data cl hs =
    (let cl1 = cl\<lparr>pdata := (pdata cl)\<lparr>sendrights := rights (pdata hs)\<rparr>\<rparr>;
         hs1 = hs\<lparr>pdata := (pdata hs)\<lparr>rights := - 1\<rparr>\<rparr>;
         data1 = data\<lparr>ld_resp := Some resp\<rparr> in
     case writerespb mtops resp cl1 of
       None \<Rightarrow> None
     | Some (_, cl2) \<Rightarrow> (case bioprintf mtops cl2 2 crlf of
         None \<Rightarrow> None
       | Some (_, cl3) \<Rightarrow> (case passdata_on mtops mtops 0 hs1 cl3 of
           None \<Rightarrow> None
         | Some (None, hs2, cl4) \<Rightarrow> Some (data1, cl4, hs2)
         | Some (Some n, hs2, cl4) \<Rightarrow> Some (data1\<lparr>bytesout := n, ld_end := te\<rparr>, cl4, hs2))))"

definition filter_pass :: "int \<times> int \<Rightarrow> logdata \<Rightarrow> stdiofd bufio \<Rightarrow> stdiofd bufio \<Rightarrow>
    (logdata \<times> stdiofd bufio \<times> stdiofd bufio) option" where
  "filter_pass te data cl hs = (case passdata_on mtops mtops 0 cl hs of
      None \<Rightarrow> None
    | Some (None, cl1, hs1) \<Rightarrow> Some (data, cl1, hs1)
    | Some (Some n, cl1, hs1) \<Rightarrow> (case bioflush mtops hs1 of
        None \<Rightarrow> None
      | Some (f, hs2) \<Rightarrow>
          if f \<noteq> 0 then Some (data\<lparr>bytesin := n\<rparr>, cl1, hs2)
          else (case parseresponseb mtops hs2 of
              None \<Rightarrow> None
            | Some (None, hs3) \<Rightarrow> Some (data\<lparr>bytesin := n\<rparr>, cl1, hs3)
            | Some (Some resp, hs3) \<Rightarrow> pass_response te resp (data\<lparr>bytesin := n\<rparr>) cl1 hs3)))"

text \<open>
  The whole of it: \<open>pair\<close> is the socket to the child if \<open>socketpair\<close> gives one, \<open>ok\<close> the success of
  \<open>sendmsg\<close>. The result is the line, the message to the child, and the two closed connections.
\<close>

definition filterreq :: "logopts \<Rightarrow> int \<times> int \<Rightarrow> int \<times> int \<Rightarrow> hthead \<Rightarrow> stdiofd \<Rightarrow> stdiofd option \<Rightarrow> bool \<Rightarrow>
    (string \<times> string option \<times> stdiofd \<times> stdiofd option) option" where
  "filterreq opts now te req fd0 pair ok =
    (let data = defdata req now; cl = bioopen fd0;
         leave = (\<lambda>data msg cl hs. case logreq (strftime opts) (format opts) data of
             None \<Rightarrow> None
           | Some l \<Rightarrow> (case bioclose mtops cl of
               None \<Rightarrow> None
             | Some (_, c) \<Rightarrow> (case hs of
                 None \<Rightarrow> Some (l, msg, c, None)
               | Some h \<Rightarrow> map_option (\<lambda>(_, p). (l, msg, c, Some p)) (bioclose mtops h)))) in
     case pair of
       None \<Rightarrow> leave data None cl None
     | Some p \<Rightarrow> (case sendreq req of
         None \<Rightarrow> None
       | Some m \<Rightarrow>
           if \<not> ok then leave data None cl (Some (bioopen p))
           else (case filter_pass te data cl (bioopen p) of
               None \<Rightarrow> None
             | Some (data1, cl1, hs1) \<Rightarrow> leave data1 (Some m) cl1 (Some hs1))))"

text \<open>The turns of \<open>floop\<close>: the exit status of \<open>ioloop\<close>, which is 2 after the signal.\<close>

definition floop_turn :: "logopts \<Rightarrow> bool \<Rightarrow> int \<Rightarrow> logworld \<Rightarrow> fate \<times> logworld" where
  "floop_turn opts can status w =
     (if status = 0 \<or> status = 1 then (Returned, w)
      else if status = 2 then (Running, reopenlog opts can w)
      else (Running, w))"

section \<open>The loop\<close>

text \<open>The loop of this program and the one of the front end without a limit are the same.\<close>

lemma passdata_on_is_loop:
  assumes "passdata_loop oi oo (- 1) tot b d = Some (r, b', d')" "0 \<le> tot"
  shows "passdata_on oi oo tot b d = Some (if r = - 1 then None else Some r, b', d')"
proof -
  define P where "P = (\<lambda>xi xo mx n (c :: 'a bufio) (e :: 'b bufio) (q, c', e'). mx = (- 1 :: int) \<longrightarrow> 0 \<le> n \<longrightarrow>
    passdata_on xi xo n c e = Some (if q = (- 1 :: int) then None else Some q, c', e'))"
  have "P oi oo (- 1) tot b d (r, b', d')"
  proof (rule passdata_loop.raw_induct [where P = P, OF _ assms(1)])
    fix loop xi xo mx n c e y
    assume IH: "\<And>xi xo mx n c e y. loop xi xo mx n c e = Some y \<Longrightarrow> P xi xo mx n c e y"
      and y: "(if bioeof c \<or> \<not> (mx < 0 \<or> n < mx) then Some (n, c, e)
      else (case pass_some xo (if mx \<ge> 0 then min (nat (mx - n)) (biordata c) else biordata c) c e of
          None \<Rightarrow> None
        | Some (Inl (b1, d1)) \<Rightarrow> Some (- 1, b1, d1)
        | Some (Inr (r, b1, d1)) \<Rightarrow>
            if biorspace b1 > 0 \<and> (mx < 0 \<or> int (biordata b1) < mx - (n + int r)) then
              (case biofillsome xi b1 of (q, b2) \<Rightarrow>
                 if q < 0 then Some (- 1, b2, d1) else loop xi xo mx (n + int r) b2 d1)
            else loop xi xo mx (n + int r) b1 d1)) = Some y"
    show "P xi xo mx n c e y"
    proof (cases "mx = - 1 \<and> 0 \<le> n")
      case True
      then show ?thesis
        using y IH unfolding P_def
        by (subst passdata_on.simps)
          (auto split: if_splits option.splits sum.splits prod.splits dest!: IH [unfolded P_def])
    qed (auto simp: P_def)
  qed
  with assms(2) show ?thesis by (simp add: P_def)
qed

section \<open>Streams that work\<close>

text \<open>Writing leaves alone what there is to read, and reading what the kernel will take.\<close>

definition same_reader :: "stdiofd bufio \<Rightarrow> stdiofd bufio \<Rightarrow> bool" where
  "same_reader b b' \<longleftrightarrow> unread b' = unread b \<and> rscript (pdata b') = rscript (pdata b) \<and> bio_eof b' = bio_eof b"

lemma same_reader_refl [simp]: "same_reader b b"
  by (simp add: same_reader_def)

lemma same_reader_trans: "same_reader a b \<Longrightarrow> same_reader b c \<Longrightarrow> same_reader a c"
  by (simp add: same_reader_def)

lemma attach_scripts [simp]: "attach_rights d = (cr, d1) \<Longrightarrow> rscript d1 = rscript d"
  by (auto simp: attach_rights_def split: if_splits)

lemma mtwrite_loop_rscript: "mtwrite_loop evs d bs = (res, d') \<Longrightarrow> rscript d' = rscript d"
  by (induction evs d bs rule: mtwrite_loop.induct) (auto simp: Let_def split: prod.splits if_splits)

lemma take_rights_wscript [simp]: "wscript (take_rights fs d) = wscript d"
  by (induction fs arbitrary: d) auto

lemma mtread_loop_wscript: "mtread_loop evs d n = (res, d') \<Longrightarrow> wscript d' = wscript d"
  by (induction evs d n rule: mtread_loop.induct) (auto simp: mtrecv_def Let_def split: if_splits)

lemma write_reader:
  assumes "op_write mtops = Some g" "g (pdata b) bs = (res, p)"
  shows "rscript p = rscript (pdata b)"
  using assms mtwrite_loop_rscript [of "wscript (pdata b)" "pdata b" bs res p] by (auto simp: mtops_def mtwrite_def)

lemma flush_reader:
  assumes "bioflush mtops b = Some (r, b')"
  shows "same_reader b b'"
proof -
  define P where "P = (\<lambda>fops c (q :: int, c'). fops = mtops \<longrightarrow> same_reader c c')"
  have "P mtops b (r, b')"
  proof (rule bioflush.raw_induct [where P = P, OF _ assms])
    fix fl fops c y
    assume IH: "\<And>o' c y. fl o' c = Some y \<Longrightarrow> P o' c y"
      and y: "(if wh c < length (wbuf c) then
        (case op_write fops of
           None \<Rightarrow> None
         | Some g \<Rightarrow> (case g (pdata c) (drop (wh c) (wbuf c)) of
             (Inl e, p) \<Rightarrow> Some (- 1, c\<lparr>bio_err := e, pdata := p\<rparr>)
           | (Inr k, p) \<Rightarrow> fl fops (c\<lparr>wh := wh c + k, pdata := p\<rparr>)))
      else Some (0, c)) = Some y"
    show "P fops c y"
    proof (cases "fops = mtops \<and> wh c < length (wbuf c)")
      case False
      with y show ?thesis by (auto simp: P_def split: if_splits)
    next
      case True
      with y obtain g where g: "op_write mtops = Some g" by (auto split: option.splits)
      obtain res p where res: "g (pdata c) (drop (wh c) (wbuf c)) = (res, p)" by fastforce
      note w = write_reader [OF g res]
      show ?thesis
      proof (cases res)
        case (Inl e)
        with y True g res w show ?thesis by (auto simp: P_def same_reader_def unread_def)
      next
        case (Inr k)
        with y True g res have "P fops (c\<lparr>wh := wh c + k, pdata := p\<rparr>) y" by (auto intro: IH)
        with w show ?thesis by (cases y) (auto simp: P_def same_reader_def unread_def)
      qed
    qed
  qed
  then show ?thesis by (simp add: P_def)
qed

lemma flushsome_reader: "bioflushsome mtops b = Some (r, b') \<Longrightarrow> same_reader b b'"
  by (auto simp: bioflushsome_def same_reader_def unread_def dest: write_reader
      split: if_splits option.splits prod.splits sum.splits)

lemma writesome_reader:
  assumes "biowritesome mtops b data = Some (r, b')"
  shows "same_reader b b'"
proof -
  have c: "same_reader b c \<Longrightarrow> same_reader b (bio_compact c)" for c :: "stdiofd bufio"
    by (simp add: bio_compact_def same_reader_def unread_def)
  define b1 where "b1 = b\<lparr>wsize := sizebuf_nat (wsize b) (bufhint b)\<rparr>"
  define b2 where "b2 = bio_compact (if wh b1 = length (wbuf b1) then b1\<lparr>wh := 0, wbuf := []\<rparr> else b1)"
  have 2: "same_reader b b2" unfolding b2_def by (rule c) (simp add: b1_def same_reader_def unread_def)
  then have 3: "same_reader b (b2\<lparr>wbuf := ws\<rparr>)" for ws by (simp add: same_reader_def unread_def)
  then have 4: "same_reader b b4" if "bioflushsome mtops (b2\<lparr>wbuf := ws\<rparr>) = Some (q, b4)" for ws q b4
    using flushsome_reader [OF that] same_reader_trans by blast
  have 5: "same_reader b b4 \<Longrightarrow> same_reader b (b4\<lparr>wbuf := ws\<rparr>)" for b4 :: "stdiofd bufio" and ws
    by (simp add: same_reader_def unread_def)
  have 6: "same_reader b b4" if "bioflushsome mtops b2 = Some (q, b4)" for q b4
    using flushsome_reader [OF that] 2 same_reader_trans by blast
  show ?thesis
    using assms 4 5 6 unfolding biowritesome_unfold b1_def [symmetric] b2_def [symmetric]
    by (auto split: option.splits if_splits)
qed

lemma fill_writer:
  assumes "biofillsome mtops b = (q, b')"
  shows "wscript (pdata b') = wscript (pdata b)"
proof -
  have "wscript p = wscript (pdata b)" if "mtread_loop (rscript d) d n = (res, p)" "d = pdata b" for d n res p
    using mtread_loop_wscript [OF that(1)] that(2) by simp
  moreover have "pdata (bio_room b) = pdata b" by simp
  ultimately show ?thesis
    using assms by (auto simp: biofillsome_def biofill_def mtops_def mtread_def Let_def
        split: if_splits prod.splits sum.splits)
qed

section \<open>What is passed on\<close>

text \<open>
  The bytes \<open>xs\<close> have gone from the working stream \<open>b\<close> to the working stream \<open>d\<close>.
\<close>

definition piped :: "stdiofd bufio \<Rightarrow> stdiofd bufio \<Rightarrow> string \<Rightarrow> stdiofd bufio \<Rightarrow> stdiofd bufio \<Rightarrow> bool" where
  "piped b d xs b' d' \<longleftrightarrow>
     mt.live b' \<and> mt.contents b = xs @ mt.contents b' \<and> mt.outgoing b' = mt.outgoing b \<and>
     wscript (pdata b') = wscript (pdata b) \<and>
     bio_ok d' \<and> taking (wscript (pdata d')) \<and> mt.outgoing d' = mt.outgoing d @ xs \<and> same_reader d d'"

lemma piped_trans: "piped b d xs b1 d1 \<Longrightarrow> piped b1 d1 ys b2 d2 \<Longrightarrow> piped b d (xs @ ys) b2 d2"
  using same_reader_trans by (auto simp: piped_def)

lemma piped_fill:
  assumes "piped b d xs b1 d1" "biofillsome mtops b1 = (q, b2)"
  shows "piped b d xs b2 d1" "\<not> q < 0"
proof -
  have live: "mt.live b1" using assms(1) by (simp add: piped_def)
  then have ok: "bio_ok b1" by (simp add: mt.live_def)
  note f = assms(2) [unfolded biofillsome_def]
  obtain c: "mt.contents b2 = mt.contents b1" "mt.live b2" using mt.biofill_live [OF live] f by auto
  with mt.biofill_law [OF ok f] fill_writer [OF assms(2)] assms(1) show "piped b d xs b2 d1"
    by (simp add: piped_def)
  show "\<not> q < 0"
  proof
    assume "q < 0"
    have h: "healthy (rscript (pdata (bio_room b1)))" using live by (simp add: mt.live_def)
    have n: "0 < rsize (bio_room b1) - length (rbuf (bio_room b1))" using room_ok [OF ok] by simp
    from mtread_loop_live [OF h n, of "pdata (bio_room b1)"] obtain bs p where
      "mtread (pdata (bio_room b1)) (rsize (bio_room b1) - length (rbuf (bio_room b1))) = (Inr bs, p)"
      by (auto simp: mtread_def)
    with f \<open>q < 0\<close> show False by (auto simp: biofill_def mtops_def Let_def split: if_splits)
  qed
qed

lemma piped_some:
  assumes "mt.live b" "bio_ok d" "taking (wscript (pdata d))" "pass_some mtops (biordata b) b d = Some res"
  obtains r b1 d1 where "res = Inr (r, b1, d1)" "piped b d (take r (unread b)) b1 d1" "r \<le> biordata b"
proof (cases "biordata b > 0")
  case False
  with assms that [of 0 b d] show thesis by (auto simp: pass_some_def piped_def)
next
  case True
  have u: "take (biordata b) (unread b) = unread b" by simp
  obtain r d1 where d1: "biowritesome mtops d (unread b) = Some (r, d1)"
    and res: "res = (if r < 0 then Inl (b, d1) else Inr (nat r, b\<lparr>rh := rh b + nat r\<rparr>, d1))"
    using assms(4) True u by (auto simp: pass_some_def split: option.splits if_splits)
  have f: "0 \<le> r" "taking (wscript (pdata d1))" using mt.biowritesome_fine [OF assms(3) d1] by auto
  have w: "mt.wrote d (unread b) r d1" by (rule mt.biowritesome_law [OF d1 assms(2)])
  then have le: "nat r \<le> biordata b" by (auto simp: mt.wrote_def)
  let ?b = "b\<lparr>rh := rh b + nat r\<rparr>"
  have split: "unread b = take (nat r) (unread b) @ unread ?b"
    by (simp add: unread_def) (metis add.commute append_take_drop_id drop_drop)
  have live: "mt.live ?b" using assms(1) le by (auto simp: mt.live_def bio_ok_def biordata_def)
  have "mt.contents b = take (nat r) (unread b) @ mt.contents ?b"
    unfolding mt.contents_def using split by simp
  moreover have "mt.outgoing ?b = mt.outgoing b" by (simp add: mt.outgoing_def unsent_def)
  moreover have "mt.outgoing d1 = mt.outgoing d @ take (nat r) (unread b)" "bio_ok d1"
    using w by (auto simp: mt.wrote_def)
  ultimately have "piped b d (take (nat r) (unread b)) ?b d1"
    using live f(2) writesome_reader [OF d1] by (simp add: piped_def)
  with res f(1) le that [of "nat r" ?b d1] show thesis by simp
qed

lemma passdata_on_piped:
  assumes "passdata_on mtops mtops tot b d = Some (res, b', d')"
    and "mt.live b" "bio_ok d" "taking (wscript (pdata d))"
  shows "res = Some (tot + int (length (mt.contents b))) \<and> piped b d (mt.contents b) b' d'"
proof -
  define P where "P = (\<lambda>xi xo n (c :: stdiofd bufio) (e :: stdiofd bufio) (q, c', e').
    xi = mtops \<longrightarrow> xo = mtops \<longrightarrow> mt.live c \<longrightarrow> bio_ok e \<longrightarrow> taking (wscript (pdata e)) \<longrightarrow>
      q = Some (n + int (length (mt.contents c))) \<and> piped c e (mt.contents c) c' e')"
  have "P mtops mtops tot b d (res, b', d')"
  proof (rule passdata_on.raw_induct [where P = P, OF _ assms(1)])
    fix loop xi xo n c e y
    assume IH: "\<And>xi xo n c e y. loop xi xo n c e = Some y \<Longrightarrow> P xi xo n c e y"
      and y: "(if bioeof c then Some (Some n, c, e)
      else (case pass_some xo (biordata c) c e of
          None \<Rightarrow> None
        | Some (Inl (b1, d1)) \<Rightarrow> Some (None, b1, d1)
        | Some (Inr (r, b1, d1)) \<Rightarrow>
            if biorspace b1 > 0 then
              (case biofillsome xi b1 of (q, b2) \<Rightarrow>
                 if q < 0 then Some (None, b2, d1) else loop xi xo (n + int r) b2 d1)
            else loop xi xo (n + int r) b1 d1)) = Some y"
    show "P xi xo n c e y"
    proof (cases "xi = mtops \<and> xo = mtops \<and> mt.live c \<and> bio_ok e \<and> taking (wscript (pdata e))")
      case True
      show ?thesis
      proof (cases "bioeof c")
        case eof: True
        then have "mt.contents c = []" using True by (auto simp: bioeof_def mt.contents_def mt.live_def unread_def)
        with y eof True show ?thesis by (auto simp: P_def piped_def)
      next
        case False
        with y True obtain sres where s: "pass_some mtops (biordata c) c e = Some sres" by (auto split: option.splits)
        obtain r b1 d1 where sres: "sres = Inr (r, b1, d1)" "piped c e (take r (unread c)) b1 d1" "r \<le> biordata c"
          using piped_some [OF _ _ _ s] True by blast
        obtain q b2 where q: "biofillsome mtops b1 = (q, b2)" by fastforce
        define b3 where "b3 = (if biorspace b1 > 0 then b2 else b1)"
        have 3: "piped c e (take r (unread c)) b3 d1" using sres(2) piped_fill(1) [OF sres(2) q] by (simp add: b3_def)
        have "loop mtops mtops (n + int r) b3 d1 = Some y"
          using y True False s sres(1) q piped_fill(2) [OF sres(2) q] by (auto simp: b3_def split: if_splits)
        then have "P mtops mtops (n + int r) b3 d1 y" by (rule IH)
        moreover have "mt.live b3" "bio_ok d1" "taking (wscript (pdata d1))" using 3 by (simp_all add: piped_def)
        ultimately obtain c' e' where y': "y = (Some (n + int r + int (length (mt.contents b3))), c', e')"
          "piped b3 d1 (mt.contents b3) c' e'" by (cases y) (auto simp: P_def)
        have cc: "mt.contents c = take r (unread c) @ mt.contents b3" using 3 by (simp add: piped_def)
        then have "length (mt.contents c) = r + length (mt.contents b3)" using sres(3) by simp
        with y' piped_trans [OF 3 y'(2)] cc show ?thesis by (simp add: P_def)
      qed
    qed (auto simp: P_def)
  qed
  with assms(2-4) show ?thesis by (simp add: P_def)
qed

section \<open>The whole exchange\<close>

text \<open>Parsing is reading: what is to be written and what the kernel will take of it stay as they are.\<close>

lemma getc_writer:
  assumes "biogetc mtops b = (x, b')" "mt.live b"
  shows "mt.outgoing b' = mt.outgoing b" "wscript (pdata b') = wscript (pdata b)"
proof -
  obtain q b1 where q: "biofill mtops b = (q, b1)" by fastforce
  have "bio_ok b" using assms(2) by (simp add: mt.live_def)
  with assms(1) q mt.biofill_law [of b q b1] fill_writer [of b q b1]
  show "mt.outgoing b' = mt.outgoing b" "wscript (pdata b') = wscript (pdata b)"
    by (auto simp: biogetc_unfold biofillsome_def mt.outgoing_def unsent_def split: if_splits)
qed

interpretation kept: byte_source "biogetc mtops" mt.contents
  "\<lambda>b. mt.live b \<and> mt.outgoing b = os \<and> wscript (pdata b) = ws" for os ws
proof
  fix b :: "stdiofd bufio" and c r
  assume b: "mt.live b \<and> mt.outgoing b = os \<and> wscript (pdata b) = ws" "mt.contents b = c # r"
  then show "\<exists>b'. biogetc mtops b = (ord c, b') \<and> mt.contents b' = r \<and>
      mt.live b' \<and> mt.outgoing b' = os \<and> wscript (pdata b') = ws"
    using mt.stream.getc_Cons [of b c r] getc_writer by blast
next
  fix b :: "stdiofd bufio"
  assume b: "mt.live b \<and> mt.outgoing b = os \<and> wscript (pdata b) = ws" "mt.contents b = []"
  then show "\<exists>b'. biogetc mtops b = (EOF, b') \<and> mt.contents b' = [] \<and>
      mt.live b' \<and> mt.outgoing b' = os \<and> wscript (pdata b') = ws"
    using mt.stream.getc_Nil [of b] getc_writer by blast
qed

lemma parse_kept:
  assumes "mt.live b"
  shows "\<exists>resp b'. parseresponseb mtops b = Some (resp, b') \<and> mt.live b' \<and> mt.outgoing b' = mt.outgoing b \<and>
    wscript (pdata b') = wscript (pdata b) \<and> parse_response fgetc (mt.contents b) = Some (resp, mt.contents b')"
  using kept.parse_response_sim [of b "mt.outgoing b" "wscript (pdata b)"] assms by (auto simp: parseresponseb_def)

text \<open>A stream whose channel takes what it is given, and what is left when it is closed.\<close>

definition writable :: "stdiofd bufio \<Rightarrow> bool" where
  "writable b \<longleftrightarrow> bio_ok b \<and> taking (wscript (pdata b))"

lemma printf_writable:
  assumes "writable b"
  shows "\<exists>b'. bioprintf mtops b n s = Some (0, b') \<and> writable b' \<and> mt.outgoing b' = mt.outgoing b @ s"
proof -
  obtain r b' where r: "bioprintf mtops b n s = Some (r, b')"
    using mt.bioprintf_returns [of b n s] assms by (auto simp: writable_def mtops_def)
  with mt.bioprintf_fine [OF _ _ r] mt.stream.put_done [OF _ r] assms show ?thesis by (auto simp: writable_def)
qed

lemma hdrs_writable:
  "writable b \<Longrightarrow> \<exists>b'. write_hdrs (\<lambda>n s b. bioprintf mtops b n s) hs b = Some (0, b') \<and> writable b' \<and>
    mt.outgoing b' = mt.outgoing b @ hdr_text hs"
proof (induction hs arbitrary: b)
  case (Cons h hs)
  obtain n v where h: "h = (n, v)" by fastforce
  obtain b1 where b1: "bioprintf mtops b 8 (n @ '': '' @ v @ crlf) = Some (0, b1)" "writable b1"
    "mt.outgoing b1 = mt.outgoing b @ n @ '': '' @ v @ crlf" using printf_writable [OF Cons.prems] by blast
  with Cons.IH [OF b1(2)] h show ?case by (auto simp: crlf_def)
qed simp

lemma writerespb_writable:
  assumes "writable b" "hd_ver resp \<noteq> None" "hd_msg resp \<noteq> None"
  shows "\<exists>b'. writerespb mtops resp b = Some (0, b') \<and> writable b' \<and> mt.outgoing b' = mt.outgoing b @ resp_text resp"
proof -
  obtain b1 where b1: "bioprintf mtops b 10 (status_line resp) = Some (0, b1)" "writable b1"
    "mt.outgoing b1 = mt.outgoing b @ status_line resp" using printf_writable [OF assms(1)] by blast
  with hdrs_writable [OF b1(2), of "headers resp"] assms(2,3) show ?thesis
    by (auto simp: writerespb_def write_resp_def resp_text_def)
qed

lemma flush_writable:
  assumes "writable b"
  shows "\<exists>b'. bioflush mtops b = Some (0, b') \<and> writable b' \<and> mt.outgoing b' = mt.outgoing b \<and> unsent b' = []"
proof -
  obtain r b' where r: "bioflush mtops b = Some (r, b')"
    using mt.bioflush_returns [of b] by (auto simp: mtops_def)
  with mt.bioflush_fine [OF _ r] mt.bioflush_law [OF r] assms show ?thesis
    by (auto simp: writable_def mt.same_out_def)
qed

lemma close_writable:
  assumes "writable b"
  shows "\<exists>r p. bioclose mtops b = Some (r, p) \<and> sent_bytes p = mt.outgoing b"
proof -
  obtain b' where "bioflush mtops b = Some (0, b')" "mt.outgoing b' = mt.outgoing b" "unsent b' = []"
    using flush_writable [OF assms] by blast
  then show ?thesis by (auto simp: bioclose_def mtops_def mtclose_def mt.outgoing_def sent_bytes_def)
qed

lemma passdata_on_live:
  assumes "mt.live b" "writable d"
  shows "\<exists>b' d'. passdata_on mtops mtops 0 b d = Some (Some (int (length (mt.contents b))), b', d') \<and>
    piped b d (mt.contents b) b' d'"
proof -
  have "bio_ok b" "bio_ok d" using assms by (simp_all add: mt.live_def writable_def)
  then obtain r b' d' where "passdata_loop mtops mtops (- 1) 0 b d = Some (r, b', d')"
    using sockets.passdata_loop_law [of b d 0 "- 1"] by auto
  then obtain res where "passdata_on mtops mtops 0 b d = Some (res, b', d')"
    using passdata_on_is_loop by blast
  with passdata_on_piped [OF this] assms show ?thesis by (auto simp: writable_def)
qed

lemma piped_sides:
  assumes "piped b d xs b' d'" "writable b"
  shows "writable b'" "writable d'" "mt.outgoing b' = mt.outgoing b" "mt.outgoing d' = mt.outgoing d @ xs"
    "mt.live d \<Longrightarrow> mt.live d'" "mt.contents d' = mt.contents d"
  using assms by (auto simp: piped_def writable_def mt.live_def mt.contents_def same_reader_def)

lemma pass_response_works:
  assumes "writable cl" "mt.live hs" "writable hs" "resp_ok resp"
  shows "\<exists>cl' hs'. pass_response te resp data cl hs =
      Some (data\<lparr>ld_resp := Some resp, bytesout := int (length (mt.contents hs)), ld_end := te\<rparr>, cl', hs') \<and>
    writable cl' \<and> mt.outgoing cl' = mt.outgoing cl @ resp_text resp @ crlf @ mt.contents hs \<and>
    writable hs' \<and> mt.outgoing hs' = mt.outgoing hs"
proof -
  define cl1 where "cl1 = cl\<lparr>pdata := (pdata cl)\<lparr>sendrights := rights (pdata hs)\<rparr>\<rparr>"
  define hs1 where "hs1 = hs\<lparr>pdata := (pdata hs)\<lparr>rights := - 1\<rparr>\<rparr>"
  have 1: "writable cl1" "mt.outgoing cl1 = mt.outgoing cl"
    using assms(1) by (auto simp: cl1_def writable_def bio_ok_def mt.outgoing_def sent_bytes_def unsent_def)
  have h: "mt.live hs1" "writable hs1" "mt.contents hs1 = mt.contents hs" "mt.outgoing hs1 = mt.outgoing hs"
    using assms(2,3) by (auto simp: hs1_def writable_def bio_ok_def mt.live_def mt.contents_def unread_def
        mt.outgoing_def sent_bytes_def unsent_def)
  have "hd_ver resp \<noteq> None" "hd_msg resp \<noteq> None" using assms(4) by (auto simp: resp_ok_def split: option.splits)
  then obtain cl2 where 2: "writerespb mtops resp cl1 = Some (0, cl2)" "writable cl2"
    "mt.outgoing cl2 = mt.outgoing cl @ resp_text resp" using writerespb_writable [OF 1(1)] 1(2) by auto
  obtain cl3 where 3: "bioprintf mtops cl2 2 crlf = Some (0, cl3)" "writable cl3"
    "mt.outgoing cl3 = mt.outgoing cl @ resp_text resp @ crlf" using printf_writable [OF 2(2)] 2(3) by fastforce
  obtain hs2 cl4 where 4: "passdata_on mtops mtops 0 hs1 cl3 = Some (Some (int (length (mt.contents hs))), hs2, cl4)"
    "piped hs1 cl3 (mt.contents hs) hs2 cl4" using passdata_on_live [OF h(1) 3(2)] h(3) by auto
  with 2(1) 3(1) have "pass_response te resp data cl hs =
      Some (data\<lparr>ld_resp := Some resp, bytesout := int (length (mt.contents hs)), ld_end := te\<rparr>, cl4, hs2)"
    by (simp add: pass_response_def Let_def cl1_def hs1_def)
  with piped_sides [OF 4(2) h(2)] h(4) 3(3) show ?thesis by auto
qed

lemma filter_pass_works:
  assumes "mt.live cl" "writable cl" "mt.live hs" "writable hs"
    and "resp_ok resp" "mt.contents hs = resp_text resp @ crlf @ body"
  shows "\<exists>cl' hs'. filter_pass te data cl hs =
      Some (data\<lparr>bytesin := int (length (mt.contents cl)), ld_resp := Some resp,
        bytesout := int (length body), ld_end := te\<rparr>, cl', hs') \<and>
    writable cl' \<and> mt.outgoing cl' = mt.outgoing cl @ resp_text resp @ crlf @ body \<and>
    writable hs' \<and> mt.outgoing hs' = mt.outgoing hs @ mt.contents cl"
proof -
  obtain cl1 hs1 where 1: "passdata_on mtops mtops 0 cl hs = Some (Some (int (length (mt.contents cl))), cl1, hs1)"
    "piped cl hs (mt.contents cl) cl1 hs1" using passdata_on_live [OF assms(1,4)] by blast
  note s = piped_sides [OF 1(2) assms(2)]
  obtain hs2 where 2: "bioflush mtops hs1 = Some (0, hs2)" "writable hs2" "mt.outgoing hs2 = mt.outgoing hs1"
    using flush_writable [OF s(2)] by blast
  have "mt.live hs2" "mt.contents hs2 = resp_text resp @ crlf @ body"
    using flush_reader [OF 2(1)] 2(2) s(5) [OF assms(3)] s(6) assms(6)
    by (auto simp: mt.live_def mt.contents_def same_reader_def writable_def)
  with parse_kept [of hs2] parse_response_text [OF assms(5), of body] obtain hs3 where
    3: "parseresponseb mtops hs2 = Some (Some resp, hs3)" "mt.live hs3" "mt.outgoing hs3 = mt.outgoing hs2"
      "wscript (pdata hs3) = wscript (pdata hs2)" "mt.contents hs3 = body" by auto
  then have w3: "writable hs3" using 2(2) by (simp add: writable_def mt.live_def)
  from pass_response_works [OF s(1) 3(2) w3 assms(5), of te "data\<lparr>bytesin := int (length (mt.contents cl))\<rparr>"]
  show ?thesis using 1(1) 2(1,3) 3 s by (auto simp: filter_pass_def)
qed

text \<open>C9. The filter is transparent and its log tells the truth: on connections that work, the child gets exactly
  the body the client sent, the client gets the child's response with every header and exactly its body, both in full
  before the connections are closed, and the line that is logged is the one for this request with the status of
  this response and the number of bytes of the two bodies.\<close>

theorem filter_transparent:
  assumes "healthy (rscript fd0)" "taking (wscript fd0)" "healthy (rscript p)" "taking (wscript p)"
    and "coming (rscript p) = resp_text resp @ crlf @ body" "resp_ok resp" "sendreq req = Some m"
  shows "\<exists>l c h. filterreq opts now te req fd0 (Some p) True = Some (l, Some m, c, Some h) \<and>
    sent_bytes c = sent_bytes fd0 @ resp_text resp @ crlf @ body \<and>
    sent_bytes h = sent_bytes p @ coming (rscript fd0) \<and>
    logreq (strftime opts) (format opts) \<lparr>ld_req = req, ld_resp = Some resp, ld_start = now, ld_end = te,
      bytesin = int (length (coming (rscript fd0))), bytesout = int (length body)\<rparr> = Some l"
proof -
  let ?cl = "bioopen fd0" and ?hs = "bioopen p"
  have o: "mt.live ?cl" "writable ?cl" "mt.live ?hs" "writable ?hs"
    using assms(1-4) bio_ok_open [of fd0] bio_ok_open [of p]
    by (simp_all add: mt.live_def writable_def) (simp_all add: bioopen_def)
  have c: "mt.contents (bioopen x) = coming (rscript x)" "mt.outgoing (bioopen x) = sent_bytes x" for x
    by (simp_all add: mt.contents_def mt.outgoing_def bioopen_def unread_def unsent_def)
  define data where "data = \<lparr>ld_req = req, ld_resp = Some resp, ld_start = now, ld_end = te,
      bytesin = int (length (coming (rscript fd0))), bytesout = int (length body)\<rparr>"
  from filter_pass_works [OF o assms(6), of body te "defdata req now"] c assms(5) obtain cl hs where
    f: "filter_pass te (defdata req now) ?cl ?hs = Some (data, cl, hs)" "writable cl" "writable hs"
      "mt.outgoing cl = sent_bytes fd0 @ resp_text resp @ crlf @ body"
      "mt.outgoing hs = sent_bytes p @ coming (rscript fd0)" by (auto simp: defdata_def data_def)
  obtain r1 c1 r2 h where cl: "bioclose mtops cl = Some (r1, c1)" "sent_bytes c1 = mt.outgoing cl"
    "bioclose mtops hs = Some (r2, h)" "sent_bytes h = mt.outgoing hs"
    using close_writable [OF f(2)] close_writable [OF f(3)] by blast
  have "hd_url req \<noteq> None \<and> hd_method req \<noteq> None \<and> hd_rest req \<noteq> None \<and> hd_ver req \<noteq> None"
    using assms(7) by (auto simp: sendreq_def sendreq2_def split: option.splits)
  then have "logfmt (logitem (strftime opts) data) (format opts) \<noteq> None"
    using logfmt_total logitem_total [of data] by (simp add: data_def)
  then obtain l where "logreq (strftime opts) (format opts) data = Some l" by (auto simp: logreq_def)
  with f cl assms(7) show ?thesis by (simp add: filterreq_def data_def Let_def)
qed

lemma filter_transparent_witness:
  "\<exists>l c h. filterreq ex_logopts (5, 6) (7, 8) ex_request (the_fd [RdData ''up'' [], RdAgain 1] [WrTake 2])
      (Some (the_fd [RdData (resp_text sample_resp @ crlf @ ''down'') []] [])) True =
        Some (l, sendreq ex_request, c, Some h) \<and>
    sent_bytes c = resp_text sample_resp @ crlf @ ''down'' \<and> sent_bytes h = ''up''"
proof -
  let ?c = "the_fd [RdData ''up'' [], RdAgain 1] [WrTake 2]"
  let ?h = "the_fd [RdData (resp_text sample_resp @ crlf @ ''down'') []] []"
  have "sendreq ex_request \<noteq> None" by code_simp
  then obtain m where m: "sendreq ex_request = Some m" by blast
  have h: "healthy (rscript ?c)" "taking (wscript ?c)" "healthy (rscript ?h)" "taking (wscript ?h)"
    "coming (rscript ?h) = resp_text sample_resp @ crlf @ ''down''" by (simp_all add: the_fd_def)
  from filter_transparent [OF h sample_resp_ok m, of ex_logopts "(5, 6)" "(7, 8)"] m
  show ?thesis by (auto simp: the_fd_def sent_bytes_def)
qed

end
