(* ===== verification/Ccopen.thy ===== *)
theory Ccopen
  imports Prelude
begin

text \<open>
  The compressed copies of files, \<open>src/compress.c\<close>: the encodings a client accepts, the directory of compressed
  copies with its cleaning, and the choice of what is sent.
\<close>

section \<open>Accepted encodings\<close>

text \<open>
  \<open>parsetypes\<close>: the words of an \<open>Accept-Encoding\<close> header up to a comma, a semicolon or white space; what
  else stands before the next comma is passed over.
\<close>

definition type_char :: "char \<Rightarrow> bool" where
  "type_char c \<longleftrightarrow> c \<noteq> CHR '','' \<and> c \<noteq> CHR '';'' \<and> \<not> isspace c"

function parsetypes :: "cstring \<Rightarrow> cstring list" where
  "parsetypes p =
     (if p = [] then []
      else let p1 = dropWhile isspace p;
               t = takeWhile type_char p1;
               p2 = dropWhile (\<lambda>c. c \<noteq> CHR '','') (dropWhile type_char p1) in
        (if t = [] then [] else [t]) @ parsetypes (tl p2))"
  by pat_completeness auto
termination
proof (relation "measure length", simp)
  fix p p1 t p2 :: cstring
  assume p: "p \<noteq> []" and 1: "p1 = dropWhile isspace p"
    and 2: "p2 = dropWhile (\<lambda>c. c \<noteq> CHR '','') (dropWhile type_char p1)"
  have "length p2 \<le> length p"
    unfolding 1 2 by (meson le_trans length_dropWhile_le)
  with p show "(tl p2, p) \<in> measure length" by (cases p) auto
qed

declare parsetypes.simps [simp del]

section \<open>The directory of copies\<close>

text \<open>A copy has its data and the times the kernel keeps.\<close>

record ccfile =
  cf_data :: string
  cf_mtime :: int
  cf_atime :: int

record ccdir =
  dir_there :: bool
  entries :: "cstring \<Rightarrow> ccfile option"

text \<open>What \<open>fstat\<close> says of the file that is to be sent.\<close>

record fstat =
  st_dev :: nat
  st_ino :: nat
  st_size :: int
  st_mtime :: int

text \<open>
  What the rest of the world decides: the time, the process, which system calls are refused
  (\<open>open\<close> of the new copy, \<open>mkdir\<close>, \<open>rename\<close>), and the compressor of the library, \<open>None\<close> for a failure.
\<close>

record ccworld =
  cc_now :: int
  cc_pid :: nat
  cc_write :: bool
  cc_mkdir :: bool
  cc_rename :: bool
  deflate :: "string \<Rightarrow> string option"

text \<open>
  \<open>checkclean\<close>: once a day, under a lock file that is good for an hour, copies are removed that nobody has read
  for two days. (The kernel keeps the access times.)
\<close>

definition reserved_name :: "cstring \<Rightarrow> bool" where
  "reserved_name n \<longleftrightarrow> take 1 n = ''.'' \<or> n = ''cleaning'' \<or> n = ''lastclean''"

definition touch :: "int \<Rightarrow> ccfile option \<Rightarrow> ccfile option" where
  "touch now f = Some \<lparr>cf_data = (case f of None \<Rightarrow> [] | Some g \<Rightarrow> cf_data g), cf_mtime = now, cf_atime = now\<rparr>"

definition unread_for :: "int \<Rightarrow> int \<Rightarrow> ccfile option \<Rightarrow> bool" where
  "unread_for t now f = (case f of None \<Rightarrow> False | Some g \<Rightarrow> now - cf_atime g > t)"

definition checkclean :: "ccworld \<Rightarrow> ccdir \<Rightarrow> ccdir" where
  "checkclean w d =
    (let now = cc_now w in
     if now - (case entries d ''lastclean'' of None \<Rightarrow> 0 | Some f \<Rightarrow> cf_mtime f) < 3600 * 24 then d
     else if (case entries d ''cleaning'' of Some f \<Rightarrow> now - cf_mtime f < 3600 | None \<Rightarrow> \<not> cc_write w) then d
     else d\<lparr>entries := (\<lambda>n.
         if n = ''cleaning'' then None
         else if n = ''lastclean'' then touch now (entries d n)
         else if \<not> reserved_name n \<and> unread_for (3600 * 48) now (entries d n) then None
         else entries d n)\<rparr>)"

section \<open>Copies\<close>

definition epath :: "nat \<Rightarrow> nat \<Rightarrow> cstring \<Rightarrow> cstring" where
  "epath dev ino type = show_hex dev @ CHR '':'' # show_hex ino @ CHR '':'' # type"

definition npath :: "nat \<Rightarrow> cstring" where
  "npath pid = ''tmp-'' @ show_nat pid"

text \<open>A copy is made under a name of its own and renamed when it is complete.\<close>

definition make_copy :: "ccworld \<Rightarrow> cstring \<Rightarrow> string \<Rightarrow> ccdir \<Rightarrow> string option \<times> ccdir" where
  "make_copy w ep data d =
    (let left = (entries d)(npath (cc_pid w) := None) in
     if \<not> cc_write w then (None, d)
     else (case deflate w data of
         None \<Rightarrow> (None, d\<lparr>entries := left\<rparr>)
       | Some z \<Rightarrow>
           if \<not> cc_rename w then (None, d\<lparr>entries := left\<rparr>)
           else (Some z, checkclean w
             (d\<lparr>entries := left(ep \<mapsto> \<lparr>cf_data = z, cf_mtime = cc_now w, cf_atime = cc_now w\<rparr>)\<rparr>))))"

text \<open>
  \<open>openbytype\<close>: the copy, or \<open>None\<close> for the result -1. When the directory is not there and can be made, the file
  \<open>lastclean\<close> in it is opened with the flags \<open>O_WRONLY\<close> only (\<open>O_CREAT\<close> has become the mode), so that it is not
  created, and the function fails.
\<close>

definition openbytype :: "ccworld \<Rightarrow> cstring \<Rightarrow> fstat \<Rightarrow> string \<Rightarrow> ccdir \<Rightarrow> string option \<times> ccdir" where
  "openbytype w type info data d =
    (let ep = epath (st_dev info) (st_ino info) type in
     if \<not> dir_there d then (None, if cc_mkdir w then \<lparr>dir_there = True, entries = Map.empty\<rparr> else d)
     else (case entries d ep of
         Some f \<Rightarrow> if cf_mtime f \<ge> st_mtime info then (Some (cf_data f), d) else make_copy w ep data d
       | None \<Rightarrow> make_copy w ep data d))"

text \<open>
  The types the program is built with (\<open>findtype\<close>), and the loop of \<open>ccopen\<close> over the accepted ones: the smallest copy
  that is smaller than the file.
\<close>

definition findtype :: "cstring \<Rightarrow> cstring option" where
  "findtype name = (if name = ''deflate'' then Some ''deflate'' else None)"

fun best_copy :: "ccworld \<Rightarrow> fstat \<Rightarrow> string \<Rightarrow> cstring list \<Rightarrow> (cstring \<times> string) option \<Rightarrow> ccdir \<Rightarrow>
    (cstring \<times> string) option \<times> ccdir" where
  "best_copy w info data [] best d = (best, d)"
| "best_copy w info data (t # ts) best d = (case findtype t of
      None \<Rightarrow> best_copy w info data ts best d
    | Some type \<Rightarrow> (case openbytype w type info data d of
        (None, d1) \<Rightarrow> best_copy w info data ts best d1
      | (Some z, d1) \<Rightarrow>
          if int (length z) < st_size info \<and> (case best of None \<Rightarrow> True | Some (_, y) \<Rightarrow> length z < length y)
          then best_copy w info data ts (Some (type, z)) d1
          else best_copy w info data ts best d1))"

text \<open>
  \<open>ccopen\<close>: the size and the times that are to be announced, the data, and the encoding. (The device and the number of
  the copy, which nobody looks at, are left out.)
\<close>

definition ccopen :: "ccworld \<Rightarrow> (fstat \<times> string) option \<Rightarrow> cstring option \<Rightarrow> ccdir \<Rightarrow>
    (fstat \<times> string \<times> cstring option) option \<times> ccdir" where
  "ccopen w file accept d = (case file of
      None \<Rightarrow> (None, d)
    | Some (sb, data) \<Rightarrow> (case accept of
        None \<Rightarrow> (Some (sb, data, None), d)
      | Some a \<Rightarrow> (case best_copy w sb data (parsetypes a) None d of
          (None, d1) \<Rightarrow> (Some (sb, data, None), d1)
        | (Some (type, z), d1) \<Rightarrow> (Some (sb\<lparr>st_size := int (length z)\<rparr>, z, Some type), d1))))"

section \<open>Names of copies\<close>

lemma hexchar_value: "d < 16 \<Longrightarrow> (if ord (hexchar d) < 58 then ord (hexchar d) - 48 else ord (hexchar d) - 87) = int d"
  by (auto simp: hexchar_def)

lemma hexchar_inject: "d < 16 \<Longrightarrow> e < 16 \<Longrightarrow> hexchar d = hexchar e \<longleftrightarrow> d = e"
  using hexchar_value [of d] hexchar_value [of e] by (metis of_nat_eq_iff)

lemma hexchar_colon: "d < 16 \<Longrightarrow> hexchar d \<noteq> CHR '':''"
proof
  assume "d < 16" "hexchar d = CHR '':''"
  moreover have "ord (CHR '':'') = 58" by (simp add: ord_def)
  ultimately show False using hexchar_value [of d] by (auto simp: hexchar_def split: if_splits)
qed

lemma show_hex_colon: "CHR '':'' \<notin> set (show_hex n)"
proof (induction n rule: show_hex.induct)
  case (1 n)
  have "hexchar (n mod 16) \<noteq> CHR '':''" by (rule hexchar_colon) simp
  with 1 hexchar_colon [of n] show ?case by (subst show_hex.simps) auto
qed

lemma show_hex_last: "show_hex n = (if n < 16 then [] else show_hex (n div 16)) @ [hexchar (n mod 16)]"
  by (subst show_hex.simps) simp

lemma show_hex_nonempty: "show_hex n \<noteq> []"
  by (simp add: show_hex_last [of n])

lemma show_hex_inject: "show_hex m = show_hex n \<Longrightarrow> m = n"
proof (induction m arbitrary: n rule: less_induct)
  case (less m)
  from less.prems have e: "(if m < 16 then [] else show_hex (m div 16)) = (if n < 16 then [] else show_hex (n div 16))"
    "hexchar (m mod 16) = hexchar (n mod 16)"
    using show_hex_last [of m] show_hex_last [of n] by auto
  from e(2) have r: "m mod 16 = n mod 16" by (simp add: hexchar_inject)
  show ?case
  proof (cases "m < 16")
    case True
    with e(1) have "n < 16" using show_hex_nonempty by (metis (full_types))
    with True r show ?thesis by simp
  next
    case False
    with e(1) have "\<not> n < 16" using show_hex_nonempty by (metis (full_types))
    with False e(1) less.IH [of "m div 16" "n div 16"] have "m div 16 = n div 16" by simp
    with r show ?thesis by (metis mult_div_mod_eq)
  qed
qed

lemma epath_inject: "epath dev ino t = epath dev' ino' t' \<Longrightarrow> dev = dev' \<and> ino = ino' \<and> t = t'"
proof -
  assume "epath dev ino t = epath dev' ino' t'"
  then have e: "show_hex dev @ CHR '':'' # show_hex ino @ CHR '':'' # t =
      show_hex dev' @ CHR '':'' # show_hex ino' @ CHR '':'' # t'" by (simp add: epath_def)
  have split: "strchr (a @ CHR '':'' # b) (CHR '':'') = Some (a, CHR '':'' # b)" if "CHR '':'' \<notin> set a" for a b
    using that by simp
  from arg_cong [OF e, of "\<lambda>x. strchr x (CHR '':'')"]
  have 1: "show_hex dev = show_hex dev'" "show_hex ino @ CHR '':'' # t = show_hex ino' @ CHR '':'' # t'"
    by (simp_all add: show_hex_colon)
  from arg_cong [OF 1(2), of "\<lambda>x. strchr x (CHR '':'')"] have "show_hex ino = show_hex ino'" "t = t'"
    by (simp_all add: show_hex_colon)
  with 1(1) show_hex_inject show ?thesis by blast
qed

lemma epath_other: "epath dev ino t \<noteq> npath pid" "epath dev ino t \<noteq> ''lastclean''" "epath dev ino t \<noteq> ''cleaning''"
proof -
  have "CHR '':'' \<in> set (epath dev ino t)" by (simp add: epath_def)
  moreover have "CHR '':'' \<notin> set (npath pid)"
    using show_nat_digits [of "CHR '':''" pid] by (auto simp: npath_def isdigit_def ord_def)
  ultimately show "epath dev ino t \<noteq> npath pid" "epath dev ino t \<noteq> ''lastclean''" "epath dev ino t \<noteq> ''cleaning''"
    by auto
qed

section \<open>Copies are copies\<close>

text \<open>
  \<open>files\<close> are the files that can be sent, with their data and their times. A copy that is no older than its file is
  what the compressor makes of the file's data.
\<close>

definition copies_ok :: "(string \<Rightarrow> string option) \<Rightarrow> (nat \<times> nat \<Rightarrow> (string \<times> int) option) \<Rightarrow> ccdir \<Rightarrow> bool" where
  "copies_ok defl files d \<longleftrightarrow> (\<forall>dev ino data m f. files (dev, ino) = Some (data, m) \<longrightarrow>
     entries d (epath dev ino ''deflate'') = Some f \<longrightarrow> m \<le> cf_mtime f \<longrightarrow> defl data = Some (cf_data f))"

lemma copies_ok_mono:
  assumes "copies_ok defl files d"
    and "\<And>dev ino f. entries d' (epath dev ino ''deflate'') = Some f \<Longrightarrow> entries d (epath dev ino ''deflate'') = Some f"
  shows "copies_ok defl files d'"
  using assms unfolding copies_ok_def by blast

lemma checkclean_copies:
  assumes "copies_ok defl files d"
  shows "copies_ok defl files (checkclean w d)"
  by (rule copies_ok_mono [OF assms]) (auto simp: checkclean_def Let_def epath_other split: if_splits)

lemma make_copy_ok:
  assumes "copies_ok (deflate w) files d" "files (dev, ino) = Some (data, m)"
    and "make_copy w (epath dev ino ''deflate'') data d = (r, d')"
  shows "copies_ok (deflate w) files d' \<and> (\<forall>z. r = Some z \<longrightarrow> deflate w data = Some z)"
proof -
  have gone: "copies_ok (deflate w) files (d\<lparr>entries := (entries d)(npath (cc_pid w) := None)\<rparr>)"
    by (rule copies_ok_mono [OF assms(1)]) (auto split: if_splits)
  have new: "copies_ok (deflate w) files (d\<lparr>entries := (entries d)(npath (cc_pid w) := None,
      epath dev ino ''deflate'' \<mapsto> f)\<rparr>)" (is "copies_ok _ _ ?d") if z: "deflate w data = Some (cf_data f)" for f
    unfolding copies_ok_def
  proof (intro allI impI)
    fix dv io dt k g
    assume *: "files (dv, io) = Some (dt, k)" "entries ?d (epath dv io ''deflate'') = Some g" "k \<le> cf_mtime g"
    show "deflate w dt = Some (cf_data g)"
    proof (cases "dv = dev \<and> io = ino")
      case True
      with * assms(2) z show ?thesis by simp
    next
      case False
      then have "epath dv io ''deflate'' \<noteq> epath dev ino ''deflate''" using epath_inject by blast
      with *(2) have "entries d (epath dv io ''deflate'') = Some g" by (simp add: epath_other)
      with assms(1) *(1,3) show ?thesis unfolding copies_ok_def by blast
    qed
  qed
  show ?thesis
    using assms(1,3) gone new checkclean_copies
    by (auto simp: make_copy_def Let_def split: if_splits option.splits)
qed

lemma openbytype_ok:
  assumes "copies_ok (deflate w) files d" "files (st_dev info, st_ino info) = Some (data, st_mtime info)"
    and "openbytype w ''deflate'' info data d = (r, d')"
  shows "copies_ok (deflate w) files d' \<and> (\<forall>z. r = Some z \<longrightarrow> deflate w data = Some z)"
proof (cases "dir_there d")
  case False
  have "copies_ok (deflate w) files \<lparr>dir_there = True, entries = Map.empty\<rparr>" by (simp add: copies_ok_def)
  with False assms(1,3) show ?thesis by (auto simp: openbytype_def split: if_splits)
next
  case True
  let ?ep = "epath (st_dev info) (st_ino info) ''deflate''"
  show ?thesis
  proof (cases "\<exists>f. entries d ?ep = Some f \<and> st_mtime info \<le> cf_mtime f")
    case True
    then obtain f where f: "entries d ?ep = Some f" "st_mtime info \<le> cf_mtime f" by blast
    with assms(1,2) have "deflate w data = Some (cf_data f)" unfolding copies_ok_def by blast
    moreover have "r = Some (cf_data f)" "d' = d"
      using assms(3) f \<open>dir_there d\<close> by (simp_all add: openbytype_def)
    ultimately show ?thesis using assms(1) by simp
  next
    case False
    have "make_copy w ?ep data d = (r, d')"
    proof (cases "entries d ?ep")
      case None
      with assms(3) \<open>dir_there d\<close> show ?thesis by (simp add: openbytype_def)
    next
      case (Some f)
      with False assms(3) \<open>dir_there d\<close> show ?thesis by (simp add: openbytype_def)
    qed
    with make_copy_ok [OF assms(1,2)] show ?thesis by blast
  qed
qed

definition good_copy :: "ccworld \<Rightarrow> fstat \<Rightarrow> string \<Rightarrow> cstring list \<Rightarrow> (cstring \<times> string) option \<Rightarrow> bool" where
  "good_copy w info data ts best \<longleftrightarrow> (case best of None \<Rightarrow> True | Some (type, z) \<Rightarrow>
     type = ''deflate'' \<and> type \<in> set ts \<and> deflate w data = Some z \<and> int (length z) < st_size info)"

lemma best_copy_ok:
  assumes "files (st_dev info, st_ino info) = Some (data, st_mtime info)"
  shows "copies_ok (deflate w) files d \<Longrightarrow> good_copy w info data (us @ ts) best \<Longrightarrow>
    best_copy w info data ts best d = (r, d') \<Longrightarrow>
    copies_ok (deflate w) files d' \<and> good_copy w info data (us @ ts) r"
proof (induction ts arbitrary: us best d)
  case (Cons t ts)
  show ?case
  proof (cases "t = ''deflate''")
    case False
    with Cons.prems Cons.IH [of d "us @ [t]" best] show ?thesis by (simp add: findtype_def)
  next
    case True
    obtain q d1 where q: "openbytype w ''deflate'' info data d = (q, d1)" by fastforce
    note ok = openbytype_ok [OF Cons.prems(1) assms q]
    define b1 where "b1 = (case q of None \<Rightarrow> best | Some z \<Rightarrow>
      if int (length z) < st_size info \<and> (case best of None \<Rightarrow> True | Some (_, y) \<Rightarrow> length z < length y)
      then Some (''deflate'', z) else best)"
    have "best_copy w info data (t # ts) best d = best_copy w info data ts b1 d1"
      using True q by (auto simp: findtype_def b1_def split: option.split)
    moreover have "good_copy w info data (us @ t # ts) b1"
      using Cons.prems(2) ok True by (auto simp: b1_def good_copy_def split: option.split)
    ultimately show ?thesis using Cons.IH [of d1 "us @ [t]" b1] ok Cons.prems(3) by simp
  qed
qed simp


definition ex_ccworld :: ccworld where
  "ex_ccworld = \<lparr>cc_now = 1000000, cc_pid = 7, cc_write = True, cc_mkdir = True, cc_rename = True,
     deflate = (\<lambda>s. Some (take 1 s))\<rparr>"

definition ex_fstat :: fstat where
  "ex_fstat = \<lparr>st_dev = 1, st_ino = 300, st_size = 4, st_mtime = 5\<rparr>"


text \<open>The first request on a new system gets no copy, whatever it accepts: making the directory fails half way.\<close>

lemma first_copy_fails:
  assumes "cc_mkdir w"
  shows "openbytype w type info data \<lparr>dir_there = False, entries = e\<rparr> = (None, \<lparr>dir_there = True, entries = Map.empty\<rparr>)"
  using assms by (simp add: openbytype_def)

text \<open>A quality of zero, by which a client refuses an encoding, is not looked at.\<close>

lemma refused_type_accepted: "parsetypes ''deflate;q=0'' = [''deflate'']"
  by code_simp

end
