(* ===== verification/Sendfile.thy ===== *)
theory Sendfile
  imports Ccopen Resp
begin

text \<open>
  Static files: \<open>src/sendfile.c\<close>, a program for each request, and \<open>src/psendfile.c\<close>, one process for many, which do
  the same but for the way they write. Media types, conditional requests, byte ranges, and the body.
\<close>

section \<open>Media types\<close>

text \<open>\<open>attr\<close> is \<open>getxattr\<close> into a buffer of 1023 bytes: \<open>None\<close> where it fails or the value is longer.\<close>

definition attrmimetype :: "(cstring \<Rightarrow> string option) \<Rightarrow> cstring option" where
  "attrmimetype attr =
    (let got = (\<lambda>n. case attr n of None \<Rightarrow> None | Some v \<Rightarrow> if v = [] \<or> length v > 1023 then None else Some v);
         found = (case got ''user.ash-mime-type'' of Some v \<Rightarrow> Some v
           | None \<Rightarrow> (case got ''user.mime-type'' of Some v \<Rightarrow> Some v
           | None \<Rightarrow> (case got ''user.mime_type'' of Some v \<Rightarrow> Some v
           | None \<Rightarrow> got ''user.Content-Type'')))
     in case found of
          None \<Rightarrow> None
        | Some v \<Rightarrow> if list_ex (\<lambda>c. schar c < 32 \<or> schar c \<ge> 128) v then None else Some v)"

text \<open>\<open>magic\<close> is what the library for file types says, if it says anything.\<close>

definition getmimetype :: "(cstring \<Rightarrow> string option) \<Rightarrow> cstring option \<Rightarrow> cstring" where
  "getmimetype attr magic = (case attrmimetype attr of
      Some t \<Rightarrow> t
    | None \<Rightarrow> (case magic of Some t \<Rightarrow> t | None \<Rightarrow> ''application/octet-stream''))"

definition ckctype :: "cstring \<Rightarrow> cstring \<Rightarrow> cstring" where
  "ckctype codeset ctype =
     (if take 5 ctype = ''text/'' \<and> strchr ctype (CHR '';'') = None
      then ctype @ ''; charset='' @ codeset else ctype)"

section \<open>Heads of replies\<close>

definition line :: "cstring \<Rightarrow> cstring \<Rightarrow> string" where
  "line name val = name @ '': '' @ val @ nl"

definition enc_line :: "cstring option \<Rightarrow> string" where
  "enc_line enc = (case enc of None \<Rightarrow> [] | Some e \<Rightarrow> line ''Content-Encoding'' e)"

text \<open>\<open>checkcache\<close>: the reply if the client's copy is new enough.\<close>

definition checkcache :: "int \<Rightarrow> cstring option \<Rightarrow> fstat \<Rightarrow> string option" where
  "checkcache now ims sb = (case ims of
      None \<Rightarrow> None
    | Some hdr \<Rightarrow>
        if parsehttpdate hdr < st_mtime sb then None
        else Some (''HTTP/1.1 304 Not Modified'' @ nl @ line ''Date'' (fmthttpdate now) @
          line ''Content-Length'' ''0'' @ nl))"

definition dates :: "int \<Rightarrow> fstat \<Rightarrow> string" where
  "dates now sb = line ''Last-Modified'' (fmthttpdate (st_mtime sb)) @ line ''Date'' (fmthttpdate now) @ nl"

text \<open>
  A reply: its head, and the part of the file that follows it, from an offset on and up to a number of bytes (all
  of it if negative).
\<close>

type_synonym freply = "string \<times> (int \<times> int) option"

definition sendwhole :: "int \<Rightarrow> fstat \<Rightarrow> cstring \<Rightarrow> cstring option \<Rightarrow> bool \<Rightarrow> freply" where
  "sendwhole now sb contype enc ishead =
     (''HTTP/1.1 200 OK'' @ nl @ line ''Content-Type'' contype @ enc_line enc @
        line ''Content-Length'' (show_int (st_size sb)) @ dates now sb,
      if ishead then None else Some (0, - 1))"

section \<open>Byte ranges\<close>

datatype extent = Whole | Unsatisfiable | Extent int int

definition clip :: "int \<Rightarrow> int \<Rightarrow> int \<Rightarrow> extent" where
  "clip sz start end1 =
     (if start \<ge> sz then Unsatisfiable
      else if start < 0 \<or> start \<ge> end1 then Whole
      else Extent start (if end1 > sz then sz else end1))"

text \<open>A 64-bit result; \<open>None\<close> is a signed overflow, whose effect C leaves open.\<close>

definition off64 :: "int \<Rightarrow> int option" where
  "off64 n = (if - (2 ^ 63) \<le> n \<and> n < 2 ^ 63 then Some n else None)"

definition range_of :: "int \<Rightarrow> cstring \<Rightarrow> extent option" where
  "range_of sz spec =
     (if take 6 spec \<noteq> ''bytes='' then Some Whole
      else (case strchr (drop 6 spec) (CHR ''-'') of
          None \<Rightarrow> Some Whole
        | Some (a, p) \<Rightarrow>
            if a = [] then
              (if tl p = [] then Some Whole
               else (case strtoll (tl p) of (n, e) \<Rightarrow> (case off64 (sz - n) of
                   None \<Rightarrow> None
                 | Some start \<Rightarrow> Some (if e \<noteq> [] then Whole else clip sz (if start < 0 then 0 else start) sz))))
            else (case strtoll a of (start, e) \<Rightarrow>
              if e \<noteq> [] then Some Whole
              else if tl p = [] then Some (clip sz start sz)
              else (case strtoll (tl p) of (n, e2) \<Rightarrow> (case off64 (n + 1) of
                  None \<Rightarrow> None
                | Some end1 \<Rightarrow> Some (if e2 \<noteq> [] then Whole else clip sz start end1))))))"

text \<open>\<open>sendrange\<close>; \<open>penc\<close> is the encoding that the head of a part names. The file can be seeked.\<close>

definition sendrange :: "int \<Rightarrow> fstat \<Rightarrow> cstring \<Rightarrow> cstring option \<Rightarrow> cstring option \<Rightarrow> cstring \<Rightarrow> bool \<Rightarrow> freply option" where
  "sendrange now sb contype enc penc spec ishead = (case range_of (st_size sb) spec of
      None \<Rightarrow> None
    | Some Whole \<Rightarrow> Some (sendwhole now sb contype enc ishead)
    | Some Unsatisfiable \<Rightarrow> Some (''HTTP/1.1 416 Not satisfiable'' @ nl @
        line ''Content-Range'' (''*/'' @ show_int (st_size sb)) @ line ''Content-Length'' ''0'' @ dates now sb, None)
    | Some (Extent start end1) \<Rightarrow> Some (''HTTP/1.1 206 Partial content'' @ nl @
        line ''Content-Range'' (''bytes '' @ show_int start @ ''-'' @ show_int (end1 - 1) @ ''/'' @ show_int (st_size sb)) @
        line ''Content-Length'' (show_int (end1 - start)) @ line ''Content-Type'' contype @ enc_line penc @ dates now sb,
        if ishead then None else Some (start, end1 - start)))"

section \<open>The body, with read and write\<close>

text \<open>
  What the kernel does with a \<open>write\<close>: it takes some of the bytes (\<open>Some k\<close>: at least one, \<open>k + 1\<close> at most), or
  fails. A list that has run out takes everything.
\<close>

type_synonym wrscript = "nat option list"

text \<open>The inner loop: a failure leaves it, and the rest of the buffer is lost.\<close>

function write_buf :: "string \<Rightarrow> wrscript \<Rightarrow> string \<Rightarrow> wrscript \<times> string" where
  "write_buf bs ws out =
     (if bs = [] then (ws, out)
      else (case ws of
          [] \<Rightarrow> ([], out @ bs)
        | None # ws' \<Rightarrow> (ws', out)
        | Some k # ws' \<Rightarrow> write_buf (drop (Suc k) bs) ws' (out @ take (Suc k) bs)))"
  by pat_completeness auto
termination
  by (relation "measure (\<lambda>(bs, ws, out). length bs)") auto

text \<open>
  \<open>passdata\<close> of \<open>sendfile.c\<close> on what is left of the file; \<open>rs\<close> says how much each \<open>read\<close> gives (as above).
\<close>

function sf_passdata :: "string \<Rightarrow> int \<Rightarrow> nat option list \<Rightarrow> wrscript \<Rightarrow> string \<Rightarrow> string" where
  "sf_passdata data maxlen rs ws out =
    (let len = (if maxlen > 0 \<and> 65536 > maxlen then nat maxlen else 65536) in
     case (case rs of [] \<Rightarrow> Some len | None # _ \<Rightarrow> None | Some k # _ \<Rightarrow> Some (min len (Suc k))) of
       None \<Rightarrow> out
     | Some n \<Rightarrow>
        (let bs = take n data in
         if bs = [] then out
         else (case write_buf bs ws out of (ws', out') \<Rightarrow>
           if maxlen > 0 then
             (if maxlen - int (length bs) \<le> 0 then out'
              else sf_passdata (drop n data) (maxlen - int (length bs)) (tl rs) ws' out')
           else sf_passdata (drop n data) maxlen (tl rs) ws' out')))"
  by pat_completeness auto
termination
  by (relation "measure (\<lambda>(data, maxlen, rs, ws, out). length data)")
    (auto split: option.splits list.splits if_splits)

declare write_buf.simps [simp del] sf_passdata.simps [simp del]

section \<open>The body, with fread and fwrite\<close>

definition fwrite :: "string \<Rightarrow> ofile \<Rightarrow> int \<times> ofile" where
  "fwrite bs f = (let n = min (length bs) (oroom f) in
     (int n, f\<lparr>obytes := obytes f @ take n bs, oroom := oroom f - n\<rparr>))"

text \<open>\<open>passdata\<close> of \<open>psendfile.c\<close>; a read that comes short has met the end of the file. Reading does not fail.\<close>

function ps_passdata :: "int \<Rightarrow> int \<Rightarrow> string \<Rightarrow> bool \<Rightarrow> ofile \<Rightarrow> int \<times> ofile" where
  "ps_passdata mx tot data eof f =
     (if eof \<or> \<not> (mx < 0 \<or> tot < mx) then (tot, f)
      else (let want = nat (if mx \<ge> 0 then min (mx - tot) 8192 else 8192);
                bs = take want data in
        case fwrite bs f of (r, f1) \<Rightarrow>
          if r \<noteq> int (length bs) then (- 1, f1)
          else ps_passdata mx (tot + int (length bs)) (drop want data) (length bs < want) f1))"
  by pat_completeness auto
termination
  by (relation "measure (\<lambda>(mx, tot, data, eof, f). if eof then 0 else Suc (length data))") auto

declare ps_passdata.simps [simp del]

section \<open>Requests\<close>

text \<open>What the programs look at: in the environment (\<open>REQ_...\<close>) or among the headers of the request.\<close>

record freq =
  q_method :: cstring
  q_rest :: cstring
  q_file :: "cstring option"
  q_compress :: bool
  q_accept :: "cstring option"
  q_ctype :: "cstring option"
  q_ims :: "cstring option"
  q_range :: "cstring option"

definition freq_of :: "hthead \<Rightarrow> freq" where
  "freq_of req = \<lparr>q_method = the (hd_method req), q_rest = the (hd_rest req),
     q_file = getheader req ''X-Ash-File'', q_compress = (getheader req ''X-Ash-Compress'' \<noteq> None),
     q_accept = getheader req ''Accept-Encoding'', q_ctype = getheader req ''X-Ash-Content-Type'',
     q_ims = getheader req ''If-Modified-Since'', q_range = getheader req ''Range''\<rparr>"

text \<open>The files with their data and attributes, and the character set of the locale.\<close>

record fileenv =
  fe_files :: "cstring \<Rightarrow> (fstat \<times> string) option"
  fe_attr :: "cstring \<Rightarrow> cstring \<Rightarrow> string option"
  fe_magic :: "cstring \<Rightarrow> cstring option"
  fe_codeset :: cstring

text \<open>
  The end of both programs, when the file is open: \<open>ctype\<close> is the media type that has been asked for, if any, \<open>encs\<close>
  whether the head of a part names the encoding, which is so in \<open>sendfile.c\<close> only.
\<close>

definition file_reply :: "bool \<Rightarrow> fileenv \<Rightarrow> int \<Rightarrow> freq \<Rightarrow> cstring \<Rightarrow> cstring option \<Rightarrow> fstat \<Rightarrow> cstring option \<Rightarrow> bool \<Rightarrow>
    freply option" where
  "file_reply encs env now q file ctype sb enc ishead =
    (let contype = ckctype (fe_codeset env) (case ctype of Some t \<Rightarrow> t
       | None \<Rightarrow> getmimetype (fe_attr env file) (fe_magic env file)) in
     case checkcache now (q_ims q) sb of
       Some h \<Rightarrow> Some (h, None)
     | None \<Rightarrow> (case q_range q of
         None \<Rightarrow> Some (sendwhole now sb contype enc ishead)
       | Some spec \<Rightarrow> sendrange now sb contype enc (if encs then enc else None) spec ishead))"

definition ishead :: "cstring \<Rightarrow> bool option" where
  "ishead meth = (if strcaseeq meth ''get'' then Some False else if strcaseeq meth ''head'' then Some True else None)"

text \<open>
  \<open>main\<close> of \<open>sendfile.c\<close>: \<open>copt\<close> and \<open>fopt\<close> are its options, the result is what has been written to the standard
  output.
\<close>

definition sendfile :: "fileenv \<Rightarrow> ccworld \<Rightarrow> cstring option \<Rightarrow> cstring option \<Rightarrow> freq \<Rightarrow> nat option list \<Rightarrow> wrscript \<Rightarrow>
    ccdir \<Rightarrow> (string \<times> ccdir) option" where
  "sendfile env w copt fopt q rs ws d =
     (case (case fopt of Some f \<Rightarrow> Some f | None \<Rightarrow> q_file q) of
        None \<Rightarrow> Some ([], d)
      | Some file \<Rightarrow>
          if fopt = None \<and> q_rest q \<noteq> [] then
            Some (simpleerror2v 404 ''Not Found'' ''The requested URL has no corresponding resource.'', d)
          else (case ccopen w (fe_files env file) (if q_compress q then q_accept q else Some []) d of
              (None, d1) \<Rightarrow>
                Some (simpleerror2v 500 ''Internal Error'' ''The server could not access its own data.'', d1)
            | (Some (sb, data, enc), d1) \<Rightarrow> (case ishead (q_method q) of
                None \<Rightarrow> Some (simpleerror2v 405 ''Method not allowed''
                  ''The requested method is not defined for this resource.'', d1)
              | Some hon \<Rightarrow> (case file_reply True env (cc_now w) q file
                    (case copt of Some t \<Rightarrow> Some t | None \<Rightarrow> q_ctype q) sb enc hon of
                  None \<Rightarrow> None
                | Some (h, None) \<Rightarrow> Some (h, d1)
                | Some (h, Some (off, n)) \<Rightarrow> Some (sf_passdata (drop (nat off) data) n rs ws h, d1)))))"

text \<open>\<open>serve\<close> of \<open>psendfile.c\<close>; what cannot be printed is lost without notice.\<close>

definition out_puts :: "string \<Rightarrow> ofile \<Rightarrow> ofile" where
  "out_puts s f = (case fprintf 0 s f of None \<Rightarrow> f | Some (_, f1) \<Rightarrow> f1)"

definition psendfile :: "fileenv \<Rightarrow> ccworld \<Rightarrow> hthead \<Rightarrow> ofile \<Rightarrow> ccdir \<Rightarrow> (ofile \<times> ccdir) option" where
  "psendfile env w req out d =
    (let q = freq_of req in
     case q_file q of
        None \<Rightarrow> Some (out_puts (simpleerror2v 500 ''Internal Error'' ''The server is incorrectly configured.'') out, d)
      | Some file \<Rightarrow>
          if q_rest q \<noteq> [] then
            Some (out_puts (simpleerror2v 404 ''Not Found'' ''The requested URL has no corresponding resource.'') out, d)
          else (case ccopen w (fe_files env file) (if q_compress q then q_accept q else Some []) d of
              (None, d1) \<Rightarrow>
                Some (out_puts (simpleerror2v 500 ''Internal Error'' ''The server could not access its own data.'') out, d1)
            | (Some (sb, data, enc), d1) \<Rightarrow> (case ishead (q_method q) of
                None \<Rightarrow> Some (out_puts (simpleerror2v 405 ''Method not allowed''
                  ''The requested method is not defined for this resource.'') out, d1)
              | Some hon \<Rightarrow> (case file_reply False env (cc_now w) q file (q_ctype q) sb enc hon of
                  None \<Rightarrow> None
                | Some (h, None) \<Rightarrow> Some (out_puts h out, d1)
                | Some (h, Some (off, n)) \<Rightarrow>
                    Some (snd (ps_passdata n 0 (drop (nat off) data) False (out_puts h out)), d1)))))"

section \<open>Ranges as the protocol means them\<close>

text \<open>The three forms of a range, how a client writes them, and the part of a file of \<open>sz\<close> bytes each stands for.\<close>

datatype bytes_spec = FromTo nat nat | FromOn nat | LastBytes nat

fun show_spec :: "bytes_spec \<Rightarrow> cstring" where
  "show_spec (FromTo a b) = ''bytes='' @ show_nat a @ CHR ''-'' # show_nat b"
| "show_spec (FromOn a) = ''bytes='' @ show_nat a @ ''-''"
| "show_spec (LastBytes n) = ''bytes=-'' @ show_nat n"

fun part_of :: "bytes_spec \<Rightarrow> nat \<Rightarrow> (nat \<times> nat) option" where
  "part_of (FromTo a b) sz = (if a < sz \<and> a \<le> b then Some (a, min b (sz - 1)) else None)"
| "part_of (FromOn a) sz = (if a < sz then Some (a, sz - 1) else None)"
| "part_of (LastBytes n) sz = (if 0 < n \<and> 0 < sz then Some (sz - n, sz - 1) else None)"

fun numbers :: "bytes_spec \<Rightarrow> nat set" where
  "numbers (FromTo a b) = {a, b}"
| "numbers (FromOn a) = {a}"
| "numbers (LastBytes n) = {n}"

lemma strchr_dash: "strchr (show_nat a @ CHR ''-'' # p) (CHR ''-'') = Some (show_nat a, CHR ''-'' # p)"
proof -
  have "CHR ''-'' \<notin> set (show_nat a)" using show_nat_digits [of "CHR ''-''" a] by (auto simp: isdigit_def ord_def)
  then show ?thesis by simp
qed

lemma strtoll_nat: "n < 2 ^ 63 \<Longrightarrow> strtoll (show_nat n) = (int n, [])"
proof -
  assume "n < 2 ^ 63"
  then have "int n < int (2 ^ 63)" by (simp only: of_nat_less_iff)
  then have "int n < 2 ^ 63" by simp
  then show ?thesis using strtoll_show_nat [of n "[]"] by simp
qed

lemma bytes_prefix: "take 6 (''bytes='' @ s) = ''bytes=''" "drop 6 (''bytes='' @ s) = s"
  by simp_all

lemma range_of_bytes:
  "range_of sz (''bytes='' @ s) = (case strchr s (CHR ''-'') of
      None \<Rightarrow> Some Whole
    | Some (a, p) \<Rightarrow>
        if a = [] then
          (if tl p = [] then Some Whole
           else (case strtoll (tl p) of (n, e) \<Rightarrow> (case off64 (sz - n) of
               None \<Rightarrow> None
             | Some start \<Rightarrow> Some (if e \<noteq> [] then Whole else clip sz (if start < 0 then 0 else start) sz))))
        else (case strtoll a of (start, e) \<Rightarrow>
          if e \<noteq> [] then Some Whole
          else if tl p = [] then Some (clip sz start sz)
          else (case strtoll (tl p) of (n, e2) \<Rightarrow> (case off64 (n + 1) of
              None \<Rightarrow> None
            | Some end1 \<Rightarrow> Some (if e2 \<noteq> [] then Whole else clip sz start end1)))))"
  unfolding range_of_def bytes_prefix by simp

lemma show_spec_bytes:
  "show_spec (FromTo a b) = ''bytes='' @ (show_nat a @ CHR ''-'' # show_nat b)"
  "show_spec (FromOn a) = ''bytes='' @ (show_nat a @ CHR ''-'' # [])"
  "show_spec (LastBytes n) = ''bytes='' @ (CHR ''-'' # show_nat n)"
  by simp_all

lemma range_of_spec:
  assumes "\<forall>n \<in> numbers r. n < 2 ^ 63 - 1" "sz < 2 ^ 63"
  shows "range_of (int sz) (show_spec r) = Some (case part_of r sz of
      Some (a, b) \<Rightarrow> Extent (int a) (int b + 1)
    | None \<Rightarrow> (case r of FromTo a b \<Rightarrow> if a < sz then Whole else Unsatisfiable | _ \<Rightarrow> Unsatisfiable))"
proof (cases r)
  case (FromTo a b)
  with assms have l: "a < 2 ^ 63" "b < 2 ^ 63" "off64 (int b + 1) = Some (int b + 1)"
    by (simp_all add: off64_def)
  have "range_of (int sz) (show_spec r) = Some (clip (int sz) (int a) (int b + 1))"
    unfolding FromTo show_spec_bytes range_of_bytes strchr_dash by (simp add: l(3) strtoll_nat [OF l(1)] strtoll_nat [OF l(2)])
  with FromTo show ?thesis by (auto simp: clip_def min_def)
next
  case (FromOn a)
  with assms have l: "a < 2 ^ 63" by simp
  have "range_of (int sz) (show_spec r) = Some (clip (int sz) (int a) (int sz))"
    unfolding FromOn show_spec_bytes range_of_bytes strchr_dash by (simp add: strtoll_nat [OF l])
  with FromOn show ?thesis by (auto simp: clip_def)
next
  case (LastBytes n)
  with assms have l: "n < 2 ^ 63" "off64 (int sz - int n) = Some (int sz - int n)"
    by (simp_all add: off64_def)
  have "range_of (int sz) (show_spec r) =
      Some (clip (int sz) (if int sz - int n < 0 then 0 else int sz - int n) (int sz))"
    unfolding LastBytes show_spec_bytes range_of_bytes by (simp add: l(2) strtoll_nat [OF l(1)] strchr_def)
  with LastBytes show ?thesis by (auto simp: clip_def of_nat_diff)
qed

section \<open>Bodies in full\<close>

definition obliging :: "wrscript \<Rightarrow> bool" where
  "obliging ws \<longleftrightarrow> None \<notin> set ws"

lemma write_buf_all: "obliging ws \<Longrightarrow> \<exists>ws'. write_buf bs ws out = (ws', out @ bs) \<and> obliging ws'"
proof (induction "length bs" arbitrary: bs ws out rule: less_induct)
  case less
  show ?case
  proof (cases "bs = [] \<or> ws = []")
    case True
    with less.prems show ?thesis by (auto simp: write_buf.simps [of bs ws] obliging_def)
  next
    case False
    then obtain w ws' where w: "ws = w # ws'" by (cases ws) auto
    with less.prems obtain k where k: "ws = Some k # ws'" "obliging ws'" by (cases w) (auto simp: obliging_def)
    have "length (drop (Suc k) bs) < length bs" using False by simp
    from less.hyps [OF this k(2), of "out @ take (Suc k) bs"] False show ?thesis
      unfolding k(1) by (auto simp: write_buf.simps [of bs "Some k # ws'"])
  qed
qed

lemma sf_passdata_all:
  "obliging rs \<Longrightarrow> obliging ws \<Longrightarrow> mx \<noteq> 0 \<Longrightarrow>
     sf_passdata data mx rs ws out = out @ (if mx > 0 then take (nat mx) data else data)"
proof (induction "length data" arbitrary: data mx rs ws out rule: less_induct)
  case less
  define len where "len = (if mx > 0 \<and> 65536 > mx then nat mx else 65536)"
  define n where "n = (case rs of [] \<Rightarrow> len | Some k # _ \<Rightarrow> min len (Suc k) | None # _ \<Rightarrow> 0)"
  have n: "(case rs of [] \<Rightarrow> Some len | None # _ \<Rightarrow> None | Some k # _ \<Rightarrow> Some (min len (Suc k))) = Some n" "0 < n"
    "mx > 0 \<Longrightarrow> int n \<le> mx"
    using less.prems by (auto simp: n_def len_def obliging_def split: list.splits option.splits)
  define bs where "bs = take n data"
  have step: "sf_passdata data mx rs ws out =
      (if bs = [] then out
       else (case write_buf bs ws out of (ws', out') \<Rightarrow>
         if mx > 0 then
           (if mx - int (length bs) \<le> 0 then out'
            else sf_passdata (drop n data) (mx - int (length bs)) (tl rs) ws' out')
         else sf_passdata (drop n data) mx (tl rs) ws' out'))"
    unfolding sf_passdata.simps [of data mx rs ws out] Let_def len_def [symmetric] n(1) bs_def by simp
  show ?case
  proof (cases "bs = []")
    case True
    then have "data = []" using n(2) by (simp add: bs_def)
    with step True show ?thesis by simp
  next
    case False
    obtain ws' where w: "write_buf bs ws out = (ws', out @ bs)" "obliging ws'"
      using write_buf_all less.prems(2) by blast
    have rs: "obliging (tl rs)" using less.prems(1) by (cases rs) (simp_all add: obliging_def)
    have lt: "length (drop n data) < length data" using False n(2) by (auto simp: bs_def)
    have data: "data = bs @ drop n data" by (simp add: bs_def)
    have IH: "sf_passdata (drop n data) m (tl rs) ws' (out @ bs) =
        (out @ bs) @ (if m > 0 then take (nat m) (drop n data) else drop n data)" if "m \<noteq> 0" for m
      by (rule less.hyps [OF lt rs w(2) that])
    consider "mx > 0" "mx - int (length bs) \<le> 0" | "mx > 0" "mx - int (length bs) > 0" | "mx < 0"
      using less.prems(3) by linarith
    then show ?thesis
    proof cases
      case 1
      then have "nat mx = n \<or> n = length bs \<and> nat mx = length bs"
        using n(3) by (auto simp: bs_def min_def split: if_splits)
      then have "take (nat mx) data = bs" by (auto simp: bs_def)
      with 1 step False w(1) show ?thesis by simp
    next
      case 2
      have "take (nat mx) data = bs @ take (nat (mx - int (length bs))) (drop n data)"
        using 2 by (subst data) (simp add: nat_diff_distrib')
      with 2 step False w(1) IH [of "mx - int (length bs)"] show ?thesis by simp
    next
      case 3
      with step False w(1) IH [of mx] data show ?thesis by simp
    qed
  qed
qed

lemma fwrite_room: "length bs \<le> oroom f \<Longrightarrow>
    fwrite bs f = (int (length bs), f\<lparr>obytes := obytes f @ bs, oroom := oroom f - length bs\<rparr>)"
  by (simp add: fwrite_def Let_def)

lemma ps_passdata_all:
  assumes "0 \<le> tot" "length (if mx < 0 then data else take (nat (mx - tot)) data) \<le> oroom f"
  shows "obytes (snd (ps_passdata mx tot data False f)) =
    obytes f @ (if mx < 0 then data else take (nat (mx - tot)) data)"
  using assms
proof (induction "length data" arbitrary: data tot f rule: less_induct)
  case less
  show ?case
  proof (cases "mx < 0 \<or> tot < mx")
    case False
    then show ?thesis by (simp add: ps_passdata.simps [of mx tot data])
  next
    case True
    define want where "want = nat (if mx \<ge> 0 then min (mx - tot) 8192 else 8192)"
    define bs where "bs = take want data"
    define f1 where "f1 = f\<lparr>obytes := obytes f @ bs, oroom := oroom f - length bs\<rparr>"
    have want: "0 < want" "mx \<ge> 0 \<Longrightarrow> want \<le> nat (mx - tot)" using True by (auto simp: want_def)
    have split: "(if mx < 0 then data else take (nat (mx - tot)) data) =
        bs @ (if mx < 0 then drop want data else take (nat (mx - (tot + int (length bs)))) (drop want data))"
    proof (cases "want \<le> length data")
      case True
      then have "length bs = want" by (simp add: bs_def)
      then have "nat (mx - (tot + int (length bs))) = nat (mx - tot) - want" using want(2) by auto
      then show ?thesis
        using want(2) by (auto simp: bs_def take_drop) (metis append_take_drop_id min.absorb1 take_take)
    next
      case False
      then show ?thesis using want(2) by (auto simp: bs_def)
    qed
    have fit: "length bs \<le> oroom f" using less.prems(2) unfolding split by simp
    have step: "ps_passdata mx tot data False f =
        ps_passdata mx (tot + int (length bs)) (drop want data) (length bs < want) f1"
      using True fwrite_room [OF fit]
      unfolding ps_passdata.simps [of mx tot data False f] Let_def want_def [symmetric] bs_def [symmetric] f1_def
      by simp
    show ?thesis
    proof (cases "length bs < want")
      case short: True
      then have "drop want data = []" by (auto simp: bs_def)
      with step short split show ?thesis by (simp add: ps_passdata.simps [of _ _ _ True] f1_def)
    next
      case False
      then have lt: "length (drop want data) < length data" using want(1) by (auto simp: bs_def)
      have "length (if mx < 0 then drop want data else take (nat (mx - (tot + int (length bs)))) (drop want data)) \<le> oroom f1"
        using less.prems(2) unfolding split f1_def by simp
      from less.hyps [OF lt _ this] less.prems(1) step False split show ?thesis by (simp add: f1_def)
    qed
  qed
qed

section \<open>Both programs\<close>

text \<open>The part of the file a reply brings, as bytes.\<close>

definition body_of :: "string \<Rightarrow> (int \<times> int) option \<Rightarrow> string" where
  "body_of data b = (case b of None \<Rightarrow> []
     | Some (off, n) \<Rightarrow> if n < 0 then drop (nat off) data else take (nat n) (drop (nat off) data))"

lemma file_reply_part:
  assumes "file_reply encs env now q file ctype sb enc hon = Some (h, Some (off, n))"
  shows "n \<noteq> 0"
  using assms
  by (auto simp: file_reply_def sendrange_def sendwhole_def range_of_def clip_def Let_def
      split: option.splits if_splits extent.splits prod.splits)

lemma out_puts_room: "length s \<le> oroom f \<Longrightarrow> out_puts s f = f\<lparr>obytes := obytes f @ s, oroom := oroom f - length s\<rparr>"
  by (simp add: out_puts_def fprintf_room)

lemma sendfile_body:
  assumes "obliging rs" "obliging ws" "n \<noteq> 0"
  shows "sf_passdata (drop (nat off) data) n rs ws h = h @ body_of data (Some (off, n))"
  using sf_passdata_all [OF assms, of "drop (nat off) data" h] assms(3) by (auto simp: body_of_def)

lemma psendfile_body:
  assumes "length (h @ body_of data (Some (off, n))) \<le> oroom out"
  shows "obytes (snd (ps_passdata n 0 (drop (nat off) data) False (out_puts h out))) =
    obytes out @ h @ body_of data (Some (off, n))"
  using assms ps_passdata_all [of 0 n "drop (nat off) data" "out_puts h out"] out_puts_room [of h out]
  by (auto simp: body_of_def)

text \<open>
  The two programs differ in the head of a part of an encoded file, and nowhere else.
\<close>

lemma file_reply_plain: "enc = None \<Longrightarrow> file_reply True env now q file ctype sb enc hon = file_reply False env now q file ctype sb enc hon"
  by (simp add: file_reply_def)


text \<open>A file, a server and a request, for the examples.\<close>

definition ex_sb :: fstat where
  "ex_sb = \<lparr>st_dev = 1, st_ino = 2, st_size = 6, st_mtime = 1000000\<rparr>"

definition ex_env :: fileenv where
  "ex_env = \<lparr>fe_files = [''f'' \<mapsto> (ex_sb, ''abcdef'')], fe_attr = (\<lambda>f n. None), fe_magic = (\<lambda>f. None), fe_codeset = ''UTF-8''\<rparr>"

definition ex_get :: hthead where
  "ex_get = headappheader (headappheader (replrest (mkreq ''GET'' ''/f'' ''HTTP/1.1'') [])
     ''X-Ash-File'' ''f'') ''Range'' ''bytes=-4''"

definition ex_dir :: ccdir where
  "ex_dir = \<lparr>dir_there = False, entries = Map.empty\<rparr>"


lemma show_int_nat: "show_int (int n) = show_nat n"
  by (simp add: show_int_def)

lemma part_of_bounds: "part_of r sz = Some (a, b) \<Longrightarrow> a \<le> b \<and> b < sz"
  by (cases r) (auto split: if_splits)

text \<open>C16. A byte range is answered by exactly the bytes it means: for each of the three forms, with the end of the
  file cutting the range off and a suffix longer than the file meaning the whole of it, the reply announces the
  first and last byte, the size of the file and the number of bytes, and brings these bytes and no others.\<close>

theorem range_request_served:
  assumes "q_range q = Some (show_spec r)" "part_of r (length data) = Some (a, b)"
    and "\<forall>n \<in> numbers r. n < 2 ^ 63 - 1" "length data < 2 ^ 63"
    and "fe_files env file = Some (sb, data)" "st_size sb = int (length data)"
    and "q_file q = Some file" "q_rest q = []" "\<not> q_compress q" "q_ims q = None" "strcaseeq (q_method q) ''get''"
    and "obliging rs" "obliging ws"
  shows "\<exists>ls. sendfile env w None None q rs ws d = Some (
      ''HTTP/1.1 206 Partial content'' @ nl @
      line ''Content-Range'' (''bytes '' @ show_nat a @ ''-'' @ show_nat b @ ''/'' @ show_nat (length data)) @
      line ''Content-Length'' (show_nat (b + 1 - a)) @ ls @ nl @
      take (b + 1 - a) (drop a data), d) \<and>
    length (take (b + 1 - a) (drop a data)) = b + 1 - a"
proof -
  note ab = part_of_bounds [OF assms(2)]
  have nil: "parsetypes [] = []" by (simp add: parsetypes.simps [of "[]"])
  have cc: "ccopen w (fe_files env file) (Some []) d = (Some (sb, data, None), d)"
    using assms(5) nil by (simp add: ccopen_def)
  define ct where "ct = ckctype (fe_codeset env) (case q_ctype q of Some t \<Rightarrow> t
       | None \<Rightarrow> getmimetype (fe_attr env file) (fe_magic env file))"
  have x: "range_of (st_size sb) (show_spec r) = Some (Extent (int a) (int b + 1))"
    using range_of_spec [OF assms(3,4)] assms(2,6) by simp
  define k where "k = b + 1 - a"
  have n: "show_int (int a) = show_nat a" "show_int (int b) = show_nat b" "show_int (st_size sb) = show_nat (length data)"
    "int b + 1 - int a = int (k)" "show_int (int (k)) = show_nat (k)" "0 < k"
    using ab assms(6) by (simp_all add: show_int_nat) (simp_all add: k_def)
  define h where "h = ''HTTP/1.1 206 Partial content'' @ nl @
      line ''Content-Range'' (''bytes '' @ show_nat a @ ''-'' @ show_nat b @ ''/'' @ show_nat (length data)) @
      line ''Content-Length'' (show_nat (k)) @ line ''Content-Type'' ct @ dates (cc_now w) sb"
  have rep: "file_reply True env (cc_now w) q file (q_ctype q) sb None False =
      Some (h, Some (int a, int (k)))"
    using assms(1,10) x n by (simp add: file_reply_def checkcache_def sendrange_def ct_def h_def enc_line_def)
  have hd: "ishead (q_method q) = Some False" using assms(11) by (simp add: ishead_def)
  have ct': "(case q_ctype q of None \<Rightarrow> None | Some t \<Rightarrow> Some t) = q_ctype q" by (cases "q_ctype q") simp_all
  have "sendfile env w None None q rs ws d = Some (sf_passdata (drop (nat (int a)) data) (int (k)) rs ws h, d)"
    using assms(7-9) cc hd rep by (simp add: sendfile_def ct')
  also have "sf_passdata (drop (nat (int a)) data) (int (k)) rs ws h = h @ take (k) (drop a data)"
    using sendfile_body [OF assms(12,13), of "int (k)" "int a" data h] n(6) by (simp add: body_of_def)
  finally have "sendfile env w None None q rs ws d = Some (h @ take (k) (drop a data), d)" .
  then show ?thesis
    using ab by (intro exI [of _ "line ''Content-Type'' ct @ line ''Last-Modified'' (fmthttpdate (st_mtime sb)) @
      line ''Date'' (fmthttpdate (cc_now w))"]) (auto simp: h_def dates_def k_def)
qed

lemma range_request_served_witness:
  "\<exists>h. sendfile ex_env ex_ccworld None None (freq_of ex_get) [Some 2] [Some 0, Some 1] ex_dir =
     Some (''HTTP/1.1 206 Partial content'' @ h @ ''cdef'', ex_dir)"
proof -
  have ims: "getheader ex_get ''If-Modified-Since'' = None" and get: "strcaseeq ''GET'' ''get''"
    and f: "getheader ex_get ''X-Ash-File'' = Some ''f''" "getheader ex_get ''X-Ash-Compress'' = None"
      "getheader ex_get ''Range'' = Some (''bytes=-4'')" "show_spec (LastBytes 4) = ''bytes=-4''" by code_simp+
  have "fe_files ex_env ''f'' = Some (ex_sb, ''abcdef'')" "st_size ex_sb = int (length ''abcdef'')"
    by (simp_all add: ex_env_def ex_sb_def)
  moreover have "hd_method ex_get = Some ''GET''" "hd_rest ex_get = Some []"
    by (simp_all add: ex_get_def headappheader_def replrest_def mkreq_def)
  moreover have "part_of (LastBytes 4) (length ''abcdef'') = Some (2, 5)" by simp
  ultimately show ?thesis
    using range_request_served [of "freq_of ex_get" "LastBytes 4" "''abcdef''" 2 5 ex_env "''f''" ex_sb "[Some 2]" "[Some 0, Some 1]"
      ex_ccworld ex_dir] ims f get
    by (auto simp: freq_of_def obliging_def)
qed

text \<open>
  A range that ends at the largest number overflows: C gives the program no meaning. And the head of a part of a
  compressed copy does not name the encoding in \<open>psendfile.c\<close>.
\<close>

lemma range_end_overflows: "range_of 10 ''bytes=0-9223372036854775807'' = None"
  by code_simp

lemma psendfile_part_unencoded:
  assumes "q_ims q = None" "q_range q = Some spec" "range_of (st_size sb) spec = Some (Extent s e)"
  shows "file_reply False env now q file ctype sb enc hon = file_reply False env now q file ctype sb None hon"
  using assms by (simp add: file_reply_def checkcache_def sendrange_def)

text \<open>A write that fails costs the rest of its buffer, and what follows is sent nevertheless.\<close>

lemma failed_write_leaves_gap:
  assumes "length (a @ b) = 65536" "a \<noteq> []" "b \<noteq> []" "c \<noteq> []" "length c \<le> 65536"
  shows "sf_passdata (a @ b @ c) (- 1) [] [Some (length a - 1), None] [] = a @ c"
proof -
  have la: "Suc (length a - 1) = length a" "0 < length a" using assms(2) by auto
  have w: "write_buf (a @ b) [Some (length a - 1), None] [] = ([], a)"
    using assms(2,3) la by (simp add: write_buf.simps [of "a @ b"] write_buf.simps [of b])
  have t: "take 65536 (a @ b @ c) = a @ b" "drop 65536 (a @ b @ c) = c"
    using assms(1) by (metis append.assoc append_eq_conv_conj)+
  show ?thesis
    using assms(2,4,5) w t
    by (simp add: sf_passdata.simps [of "a @ b @ c"] sf_passdata.simps [of c] sf_passdata.simps [of "[]"] write_buf.simps [of c])
qed

text \<open>A client that sends back the date it has been given gets no second copy, until the file changes.\<close>

lemma not_modified_since:
  assumes "0 \<le> t" "q_ims q = Some (fmthttpdate t)"
  shows "st_mtime sb \<le> t \<Longrightarrow> file_reply encs env now q file ctype sb enc hon =
      Some (''HTTP/1.1 304 Not Modified'' @ nl @ line ''Date'' (fmthttpdate now) @ line ''Content-Length'' ''0'' @ nl, None)"
    "t < st_mtime sb \<Longrightarrow> file_reply encs env now q file ctype sb enc hon =
      file_reply encs env now (q\<lparr>q_ims := None\<rparr>) file ctype sb enc hon"
  using assms date_text_read [OF assms(1)] by (auto simp: file_reply_def checkcache_def Let_def)

end
