(* ===== verification/Gateway.thy ===== *)
theory Gateway
  imports Prelude
begin

text \<open>
  The servers behind the gateways \<open>src/callscgi.c\<close> and \<open>src/callfcgi.c\<close>, whose code for this is the same: the program
  that is started, the socket it listens on, and how a connection is made and made again for every request.
\<close>

section \<open>Addresses and processes\<close>

datatype addr = Inet nat | Local cstring

text \<open>
  The options: a TCP specification, of which the resolver makes a list of addresses, a path (the option \<open>-u\<close>, or the path
  \<open>mksockid\<close> makes of \<open>-i\<close>), or neither; whether there is a program; and the number of retries of \<open>-N\<close>.
\<close>

datatype sockspec = TcpSpec "addr list" | UnixSpec cstring | Anonymous

record gwopts =
  sockspec :: sockspec
  has_prog :: bool
  nolisten :: int

text \<open>
  \<open>curaddr\<close>, \<open>isanon\<close> and \<open>child\<close> are the variables of the program. \<open>listener\<close> says which process holds the socket
  that is bound to an address; \<open>running\<close> are the processes that live, those from \<open>next_pid\<close> on have not been
  started, and \<open>termed\<close> have been sent the signal \<open>SIGTERM\<close>.
\<close>

record gateway =
  curaddr :: "addr option"
  isanon :: bool
  gw_child :: "nat option"
  listener :: "addr \<Rightarrow> nat option"
  running :: "nat set"
  next_pid :: nat
  termed :: "nat set"

definition gw_start :: "nat \<Rightarrow> gateway" where
  "gw_start pid = \<lparr>curaddr = None, isanon = False, gw_child = None, listener = (\<lambda>a. None), running = {},
     next_pid = pid, termed = {}\<rparr>"

definition mksockid :: "cstring option \<Rightarrow> nat \<Rightarrow> cstring \<Rightarrow> cstring" where
  "mksockid home uid sockid = (case home of
      Some h \<Rightarrow> h @ ''/.ashd/sockets/scgi-p-'' @ sockid
    | None \<Rightarrow> ''/tmp/scgi-'' @ show_nat uid @ ''-'' @ sockid)"

text \<open>\<open>mkanonid\<close>, where \<open>mkstemp\<close> has chosen the six characters \<open>rnd\<close>.\<close>

definition mkanonid :: "cstring option \<Rightarrow> nat \<Rightarrow> cstring \<Rightarrow> cstring" where
  "mkanonid home uid rnd = (case home of
      Some h \<Rightarrow> h @ ''/.ashd/sockets/scgi-a-'' @ rnd
    | None \<Rightarrow> ''/tmp/scgi-a-'' @ show_nat uid @ ''-'' @ rnd)"

definition accepting :: "gateway \<Rightarrow> addr \<Rightarrow> bool" where
  "accepting g a \<longleftrightarrow> (case listener g a of None \<Rightarrow> False | Some p \<Rightarrow> p \<in> running g)"

definition unlink :: "cstring \<Rightarrow> gateway \<Rightarrow> gateway" where
  "unlink path g = g\<lparr>listener := (listener g)(Local path := None)\<rparr>"

section \<open>Starting the program\<close>

text \<open>\<open>fork\<close>: the child, with the socket that is bound to the address if there is one.\<close>

definition spawn :: "addr option \<Rightarrow> gateway \<Rightarrow> gateway" where
  "spawn a g = g\<lparr>gw_child := Some (next_pid g), running := insert (next_pid g) (running g), next_pid := Suc (next_pid g),
     listener := (case a of None \<Rightarrow> listener g | Some x \<Rightarrow> (listener g)(x \<mapsto> next_pid g))\<rparr>"

text \<open>The outcome of a connection: the program exits, the result is -1, or there is one.\<close>

datatype outcome = Exit gateway | Failed gateway | Connected addr gateway

text \<open>
  What the world decides in one attempt: the name of an anonymous socket, whether processes can be started, and what
  goes on during each second of \<open>sleep\<close>.
\<close>

record attempt =
  at_name :: cstring
  at_fork :: bool
  at_second :: "gateway \<Rightarrow> gateway"

text \<open>\<open>startlisten\<close>; \<open>None\<close> is an exit.\<close>

definition startlisten :: "gwopts \<Rightarrow> attempt \<Rightarrow> gateway \<Rightarrow> gateway option" where
  "startlisten opts w g0 =
    (let g = g0\<lparr>isanon := False\<rparr> in
     case sockspec opts of
       TcpSpec as \<Rightarrow> (case find (\<lambda>a. \<not> accepting g a) as of
           None \<Rightarrow> None
         | Some a \<Rightarrow> if at_fork w then Some (spawn (Some a) g) else None)
     | UnixSpec path \<Rightarrow> if at_fork w then Some (spawn (Some (Local path)) (unlink path g)) else None
     | Anonymous \<Rightarrow>
         (let g1 = g\<lparr>curaddr := Some (Local (at_name w)), isanon := True\<rparr> in
          if at_fork w then Some (spawn (Some (Local (at_name w))) g1) else None))"

definition startnolisten :: "attempt \<Rightarrow> gateway \<Rightarrow> gateway option" where
  "startnolisten w g = (if at_fork w then Some (spawn None g) else None)"

section \<open>Connecting\<close>

text \<open>\<open>sconnect\<close>: a connection that is under way, or for which there is no room yet, is waited for.\<close>

definition sconnect :: "addr \<Rightarrow> gateway \<Rightarrow> outcome" where
  "sconnect a g = (if accepting g a then Connected a g else Failed g)"

text \<open>
  \<open>econnect\<close> with the number of retries that are left. The path of a Unix socket is removed before the connection is
  tried.
\<close>

fun econnect :: "gwopts \<Rightarrow> attempt \<Rightarrow> nat \<Rightarrow> gateway \<Rightarrow> outcome" where
  "econnect opts w n g =
    (case sockspec opts of
       TcpSpec as \<Rightarrow> (case find (accepting g) as of
           Some a \<Rightarrow> Connected a (g\<lparr>curaddr := Some a, isanon := False\<rparr>)
         | None \<Rightarrow> (case n of 0 \<Rightarrow> Exit g | Suc k \<Rightarrow> econnect opts w k (at_second w g)))
     | UnixSpec path \<Rightarrow>
         (let g1 = unlink path g in
          if accepting g1 (Local path) then Connected (Local path) (g1\<lparr>curaddr := Some (Local path), isanon := False\<rparr>)
          else (case n of 0 \<Rightarrow> Exit g1 | Suc k \<Rightarrow> econnect opts w k (at_second w g1)))
     | Anonymous \<Rightarrow> Exit g)"

declare econnect.simps [simp del]

definition startconn :: "gwopts \<Rightarrow> attempt \<Rightarrow> gateway \<Rightarrow> outcome" where
  "startconn opts w g =
    (case (if has_prog opts then (if nolisten opts = 0 then startlisten opts w g else startnolisten w g) else Some g) of
       None \<Rightarrow> Exit g
     | Some g1 \<Rightarrow> (case curaddr g1 of
         Some a \<Rightarrow> sconnect a g1
       | None \<Rightarrow> econnect opts w (nat (nolisten opts)) g1))"

definition killcuraddr :: "gateway \<Rightarrow> gateway" where
  "killcuraddr g = (case curaddr g of
      None \<Rightarrow> g
    | Some a \<Rightarrow>
       (let g1 = (if isanon g then
           (let g2 = (case a of Local path \<Rightarrow> unlink path g | Inet _ \<Rightarrow> g) in
            (case gw_child g2 of None \<Rightarrow> g2 | Some p \<Rightarrow> g2\<lparr>termed := insert p (termed g2)\<rparr>)) else g) in
        g1\<lparr>curaddr := None\<rparr>))"

definition reconn :: "gwopts \<Rightarrow> attempt \<Rightarrow> gateway \<Rightarrow> outcome" where
  "reconn opts w g = (case curaddr g of
      None \<Rightarrow> startconn opts w g
    | Some a \<Rightarrow> (case sconnect a g of
        Connected b g1 \<Rightarrow> Connected b g1
      | Failed g1 \<Rightarrow> startconn opts w (killcuraddr g1)
      | Exit g1 \<Rightarrow> Exit g1))"

section \<open>Unix sockets with a name\<close>

lemma not_accepting_unlinked: "\<not> accepting (unlink path g) (Local path)"
  by (simp add: accepting_def unlink_def)

lemma econnect_unix: "sockspec opts = UnixSpec path \<Longrightarrow> \<exists>g'. econnect opts w n g = Exit g'"
proof (induction n arbitrary: g)
  case 0
  then show ?case by (simp add: econnect.simps not_accepting_unlinked Let_def)
next
  case (Suc n)
  then show ?case by (simp add: econnect.simps [of opts w "Suc n"] not_accepting_unlinked Let_def)
qed


definition ex_attempt :: attempt where
  "ex_attempt = \<lparr>at_name = ''/tmp/scgi-a-0-abcdef'', at_fork = True, at_second = (\<lambda>g. g)\<rparr>"


section \<open>Anonymous sockets\<close>

text \<open>The requests of a gateway, each with a new name for a socket, and the processes that end meanwhile.\<close>

inductive gw_reach :: "gwopts \<Rightarrow> nat \<Rightarrow> gateway \<Rightarrow> bool" for opts pid where
  gw_begin: "gw_reach opts pid (gw_start pid)"
| gw_served: "gw_reach opts pid g \<Longrightarrow> listener g (Local (at_name w)) = None \<Longrightarrow> reconn opts w g = Connected a g' \<Longrightarrow>
    gw_reach opts pid g'"
| gw_refused: "gw_reach opts pid g \<Longrightarrow> listener g (Local (at_name w)) = None \<Longrightarrow> reconn opts w g = Failed g' \<Longrightarrow>
    gw_reach opts pid g'"
| gw_dies: "gw_reach opts pid g \<Longrightarrow> gw_reach opts pid (g\<lparr>running := running g - {p}\<rparr>)"

definition kept_program :: "nat \<Rightarrow> gateway \<Rightarrow> bool" where
  "kept_program pid g \<longleftrightarrow> pid \<le> next_pid g \<and> (case curaddr g of
      None \<Rightarrow> {pid..<next_pid g} \<subseteq> termed g \<and> listener g = Map.empty
    | Some a \<Rightarrow> \<exists>n p. a = Local n \<and> isanon g \<and> gw_child g = Some p \<and> {pid..<next_pid g} - {p} \<subseteq> termed g \<and>
        listener g = [a \<mapsto> p])"

definition anonymous :: "gwopts \<Rightarrow> bool" where
  "anonymous opts \<longleftrightarrow> sockspec opts = Anonymous \<and> has_prog opts \<and> nolisten opts = 0"

lemma startconn_anonymous:
  assumes "anonymous opts" "kept_program pid g" "curaddr g = None"
  shows "if at_fork w then \<exists>g'. startconn opts w g = Connected (Local (at_name w)) g' \<and> kept_program pid g' \<and>
      curaddr g' = Some (Local (at_name w)) \<and> accepting g' (Local (at_name w))
    else startconn opts w g = Exit g"
proof (cases "at_fork w")
  case True
  let ?a = "Local (at_name w)"
  define g1 where "g1 = spawn (Some ?a) (g\<lparr>curaddr := Some ?a, isanon := True\<rparr>)"
  have g1: "accepting g1 ?a" "curaddr g1 = Some ?a" by (simp_all add: g1_def spawn_def accepting_def)
  have "{pid..<Suc (next_pid g)} - {next_pid g} = {pid..<next_pid g}" by auto
  then have "kept_program pid g1"
    using assms(2,3) by (simp add: kept_program_def g1_def spawn_def)
  moreover have "startlisten opts w g = Some g1"
    using True assms(1) by (simp add: startlisten_def anonymous_def g1_def)
  then have "startconn opts w g = Connected ?a g1"
    using assms(1) g1 by (simp add: startconn_def anonymous_def sconnect_def)
  ultimately show ?thesis using True g1 by simp
next
  case False
  with assms(1) show ?thesis by (simp add: startconn_def startlisten_def anonymous_def)
qed

lemma killcuraddr_kept:
  assumes "kept_program pid g"
  shows "kept_program pid (killcuraddr g)" "curaddr (killcuraddr g) = None"
  using assms by (auto simp: kept_program_def killcuraddr_def unlink_def Let_def split: option.splits)

lemma reconn_anonymous:
  assumes "anonymous opts" "kept_program pid g"
  shows "if (\<exists>a. curaddr g = Some a \<and> accepting g a) \<or> at_fork w
    then \<exists>a g'. reconn opts w g = Connected a g' \<and> kept_program pid g' \<and> curaddr g' = Some a \<and> accepting g' a
    else \<exists>g'. reconn opts w g = Exit g'"
proof (cases "curaddr g")
  case None
  with startconn_anonymous [OF assms None, of w] show ?thesis by (auto simp: reconn_def split: if_splits)
next
  case (Some a)
  show ?thesis
  proof (cases "accepting g a")
    case True
    with Some assms(2) show ?thesis by (simp add: reconn_def sconnect_def)
  next
    case False
    with Some startconn_anonymous [OF assms(1) killcuraddr_kept [OF assms(2)], of w] show ?thesis
      by (auto simp: reconn_def sconnect_def split: if_splits)
  qed
qed

lemma reach_kept: "gw_reach opts pid g \<Longrightarrow> anonymous opts \<Longrightarrow> kept_program pid g"
proof (induction rule: gw_reach.induct)
  case gw_begin
  show ?case by (simp add: kept_program_def gw_start_def)
next
  case (gw_served g w a g')
  with reconn_anonymous [of opts pid g w] show ?case by (auto split: if_splits)
next
  case (gw_refused g w g')
  with reconn_anonymous [of opts pid g w] show ?case by (auto split: if_splits)
next
  case (gw_dies g p)
  then show ?case by (simp add: kept_program_def split: option.splits)
qed



end
