(* ===== verification/Threads.thy ===== *)
theory Threads
  imports Prelude Timeheap "HOL-Library.AList"
begin

unbundle bit_operations_syntax

text \<open>
  The threads of \<open>src/lib/mt.c\<close> and what they wait for in the event loop of \<open>src/lib/mtio-epoll.c\<close>: the code
  a thread still has to run is a tree, whose branches are taken by the values it is resumed with; the
  machine is the stack of the threads that have resumed each other, the threads that wait, and the
  tables of the event loop.
\<close>

section \<open>State\<close>

text \<open>
  What a thread does next: it ends, or calls \<open>yield\<close>, \<open>mustart\<close>, \<open>resume\<close>, \<open>block\<close>, \<open>mblock\<close>
  or \<open>exitioloop\<close>.
\<close>

datatype act =
    Ends
  | Yield "int \<Rightarrow> act"
  | Start act act
  | Resume nat int act
  | Block int int int "int \<Rightarrow> act"
  | MBlock int "(int \<times> int) list" "int \<times> int \<Rightarrow> act"
  | ExitLoop int act

definition EV_READ :: int where "EV_READ = 1"
definition EV_WRITE :: int where "EV_WRITE = 2"

record blocker =
  b_fd :: int
  b_ev :: int
  b_rev :: int
  b_id :: int
  b_to :: int
  b_th :: nat
  b_reg :: bool

text \<open>A thread in \<open>yield\<close>, called by the thread itself, by \<open>block\<close> or by \<open>mblock\<close>.\<close>

datatype mt_waiting = AtYield "int \<Rightarrow> act" | AtBlock nat "int \<Rightarrow> act" | AtMBlock "nat list" "int \<times> int \<Rightarrow> act"

text \<open>
  The structures \<open>blocker\<close> are on the stacks of their threads; \<open>mt_bls\<close> has those that exist, by a number that
  is never used again. A list linked by \<open>n\<close> and \<open>p\<close>, or by \<open>n2\<close> and \<open>p2\<close>, is the list of its members, so that
  putting one in front or taking one out of the middle is that operation on the list. \<open>epfd\<close> stands for the
  epoll instance with the descriptors it watches and whether for EPOLLIN and for EPOLLOUT.
\<close>

record mtstate =
  mt_stack :: "(nat \<times> act) list"
  mt_parked :: "(nat \<times> mt_waiting) list"
  mt_next :: nat
  mt_epfd :: "(int \<rightharpoonup> bool \<times> bool) option"
  mt_fdlist :: "int \<Rightarrow> nat list"
  mt_blockers :: "nat list"
  mt_bls :: "nat \<rightharpoonup> blocker"
  mt_heap :: "(nat, int) theap"
  mt_nextbl :: nat
  mt_exit :: int
  mt_now :: int

text \<open>\<open>abort\<close> or a resumption of a thread that has ended, and the use of a blocker that is gone.\<close>

datatype mt_stop = Abort | Dangling | Endless

section \<open>The epoll instance\<close>

text \<open>
  \<open>epoll_ctl\<close>, where \<open>pollable\<close> says which descriptors can be watched: adding fails for the others and for one that
  is there, changing and deleting for one that is not there.
\<close>

definition epoll_add :: "(int \<Rightarrow> bool) \<Rightarrow> (int \<rightharpoonup> bool \<times> bool) \<Rightarrow> int \<Rightarrow> bool \<times> bool \<Rightarrow> (int \<rightharpoonup> bool \<times> bool) option" where
  "epoll_add pollable m fd evs = (if pollable fd \<and> m fd = None then Some (m(fd \<mapsto> evs)) else None)"

definition epoll_mod :: "(int \<rightharpoonup> bool \<times> bool) \<Rightarrow> int \<Rightarrow> bool \<times> bool \<Rightarrow> (int \<rightharpoonup> bool \<times> bool) option" where
  "epoll_mod m fd evs = (if m fd = None then None else Some (m(fd \<mapsto> evs)))"

definition epoll_del :: "(int \<rightharpoonup> bool \<times> bool) \<Rightarrow> int \<Rightarrow> (int \<rightharpoonup> bool \<times> bool) option" where
  "epoll_del m fd = (if m fd = None then None else Some (m(fd := None)))"

text \<open>\<open>EPOLLIN\<close> and \<open>EPOLLOUT\<close> for the blockers of a list.\<close>

definition wants :: "int \<Rightarrow> blocker \<Rightarrow> bool" where
  "wants flag bl \<longleftrightarrow> b_ev bl AND flag \<noteq> 0"

definition events_of :: "mtstate \<Rightarrow> nat list \<Rightarrow> bool \<times> bool" where
  "events_of st bs = (list_ex (\<lambda>b. wants EV_READ (the (mt_bls st b))) bs, list_ex (\<lambda>b. wants EV_WRITE (the (mt_bls st b))) bs)"

definition regfd :: "(int \<Rightarrow> bool) \<Rightarrow> nat \<Rightarrow> mtstate \<Rightarrow> mtstate option" where
  "regfd pollable b st =
     (let bl = the (mt_bls st b); fd = b_fd bl; l = mt_fdlist st fd; m = the (mt_epfd st) in
      if fd < 0 then Some st
      else (case (if l = [] then epoll_add pollable m fd (events_of st [b]) else epoll_mod m fd (events_of st (b # l))) of
          None \<Rightarrow> None
        | Some m' \<Rightarrow> Some (st\<lparr>mt_epfd := Some m', mt_fdlist := (mt_fdlist st)(fd := b # l),
            mt_bls := (mt_bls st)(b \<mapsto> bl\<lparr>b_reg := True\<rparr>)\<rparr>)))"

definition remfd :: "nat \<Rightarrow> mtstate \<Rightarrow> mtstate" where
  "remfd b st =
     (let bl = the (mt_bls st b); fd = b_fd bl; l = remove1 b (mt_fdlist st fd); m = the (mt_epfd st) in
      if \<not> b_reg bl then st
      else st\<lparr>mt_fdlist := (mt_fdlist st)(fd := l), mt_bls := (mt_bls st)(b \<mapsto> bl\<lparr>b_reg := False\<rparr>),
        mt_epfd := (case (if l = [] then epoll_del m fd else epoll_mod m fd (events_of st l)) of
            None \<Rightarrow> mt_epfd st
          | Some m' \<Rightarrow> Some m')\<rparr>)"

section \<open>Timeouts\<close>

text \<open>The place of a blocker that is not in the heap is never looked at; it is negative here.\<close>

definition addtimeout :: "nat \<Rightarrow> int \<Rightarrow> (nat, int) theap \<Rightarrow> (nat, int) theap" where
  "addtimeout b to hp = thraise (b, to) (length (fst hp)) (fst hp @ [(b, to)], snd hp)"

definition deltimeout :: "nat \<Rightarrow> (nat, int) theap \<Rightarrow> (nat, int) theap" where
  "deltimeout b hp =
     (let n = nat (snd hp b); r = last (fst hp); h = butlast (fst hp);
          (h1, pos1) = (if n = length (fst hp) - 1 then (h, snd hp)
            else if n > 0 \<and> snd (h ! th_parent n) > snd r then thraise r n (h, snd hp)
            else thlower r n (h, snd hp))
      in (h1, pos1(b := - 1)))"

section \<open>Blockers\<close>

definition addblock :: "(int \<Rightarrow> bool) \<Rightarrow> nat \<Rightarrow> mtstate \<Rightarrow> mtstate option" where
  "addblock pollable b st =
     (case (if mt_epfd st = None then Some st else regfd pollable b st) of
        None \<Rightarrow> None
      | Some st1 \<Rightarrow> (let to = b_to (the (mt_bls st1 b)) in
          Some (st1\<lparr>mt_blockers := b # mt_blockers st1,
            mt_heap := (if to > 0 then addtimeout b to (mt_heap st1) else mt_heap st1)\<rparr>)))"

definition remblock :: "nat \<Rightarrow> mtstate \<Rightarrow> mtstate" where
  "remblock b st =
     remfd b (st\<lparr>mt_heap := (if b_to (the (mt_bls st b)) > 0 then deltimeout b (mt_heap st) else mt_heap st),
       mt_blockers := remove1 b (mt_blockers st)\<rparr>)"

text \<open>A structure comes to be on the stack of its thread, and ceases to be.\<close>

definition new_blocker :: "blocker \<Rightarrow> mtstate \<Rightarrow> nat \<times> mtstate" where
  "new_blocker bl st = (mt_nextbl st, st\<lparr>mt_bls := (mt_bls st)(mt_nextbl st \<mapsto> bl), mt_nextbl := mt_nextbl st + 1\<rparr>)"

definition drop_blocker :: "nat \<Rightarrow> mtstate \<Rightarrow> mtstate" where
  "drop_blocker b st = st\<lparr>mt_bls := (mt_bls st)(b := None)\<rparr>"

definition leave :: "nat \<Rightarrow> mtstate \<Rightarrow> mtstate" where
  "leave b st = drop_blocker b (remblock b st)"

definition enter :: "(int \<Rightarrow> bool) \<Rightarrow> blocker \<Rightarrow> mtstate \<Rightarrow> mtstate + nat \<times> mtstate" where
  "enter pollable bl st = (case new_blocker bl st of (b, st1) \<Rightarrow>
     (case addblock pollable b st1 of
        None \<Rightarrow> Inl (drop_blocker b st1)
      | Some st2 \<Rightarrow> Inr (b, st2)))"

definition deadline :: "int \<Rightarrow> mtstate \<Rightarrow> int" where
  "deadline to st = (if to > 0 then mt_now st + to else 0)"

text \<open>\<open>block\<close> and \<open>mblock\<close> up to \<open>yield\<close>; a failure is undone.\<close>

definition block :: "(int \<Rightarrow> bool) \<Rightarrow> int \<Rightarrow> int \<Rightarrow> int \<Rightarrow> nat \<Rightarrow> mtstate \<Rightarrow> mtstate + nat \<times> mtstate" where
  "block pollable fd ev to th st =
     enter pollable \<lparr>b_fd = fd, b_ev = ev, b_rev = 0, b_id = - 1, b_to = deadline to st, b_th = th, b_reg = False\<rparr> st"

fun mblock_add :: "(int \<Rightarrow> bool) \<Rightarrow> int \<Rightarrow> nat \<Rightarrow> int \<Rightarrow> (int \<times> int) list \<Rightarrow> nat list \<Rightarrow> mtstate \<Rightarrow> mtstate + nat list \<times> mtstate" where
  "mblock_add pollable to th i [] bs st = Inr (bs, st)"
| "mblock_add pollable to th i ((fd, ev) # spec) bs st =
     (case enter pollable \<lparr>b_fd = fd, b_ev = ev, b_rev = 0, b_id = i, b_to = to, b_th = th, b_reg = False\<rparr> st of
        Inl st1 \<Rightarrow> Inl (fold leave (rev bs) st1)
      | Inr (b, st1) \<Rightarrow> mblock_add pollable to th (i + 1) spec (bs @ [b]) st1)"

definition mblock :: "(int \<Rightarrow> bool) \<Rightarrow> int \<Rightarrow> (int \<times> int) list \<Rightarrow> nat \<Rightarrow> mtstate \<Rightarrow> mtstate + nat list \<times> mtstate" where
  "mblock pollable to spec th st = mblock_add pollable (deadline to st) th 0 spec [] st"

text \<open>\<open>yield\<close> returns: what the thread does then, after \<open>block\<close> and \<open>mblock\<close> have taken their blockers away.\<close>

fun wake :: "mt_waiting \<Rightarrow> int \<Rightarrow> mtstate \<Rightarrow> act \<times> mtstate" where
  "wake (AtYield k) v st = (k v, st)"
| "wake (AtBlock b k) v st = (k v, leave b st)"
| "wake (AtMBlock bs k) v st =
     (let sel = (if v < 0 then (- 1, - 1)
        else (b_fd (the (mt_bls st (bs ! nat v))), b_rev (the (mt_bls st (bs ! nat v)))))
      in (k sel, fold leave bs st))"

section \<open>Threads\<close>

definition park :: "nat \<Rightarrow> mt_waiting \<Rightarrow> mtstate \<Rightarrow> mtstate" where
  "park t w st = st\<lparr>mt_parked := (t, w) # mt_parked st\<rparr>"

definition push :: "nat \<Rightarrow> act \<Rightarrow> mtstate \<Rightarrow> mtstate" where
  "push t a st = st\<lparr>mt_stack := (t, a) # mt_stack st\<rparr>"

text \<open>
  \<open>resume\<close>: the thread has to be in \<open>yield\<close>, where its \<open>last\<close> is null; otherwise it aborts, or the thread does not
  exist any more.
\<close>

definition unpark :: "nat \<Rightarrow> int \<Rightarrow> mtstate \<Rightarrow> mt_stop + mtstate" where
  "unpark u v st = (case map_of (mt_parked st) u of
      None \<Rightarrow> Inl Abort
    | Some w \<Rightarrow> (case wake w v (st\<lparr>mt_parked := AList.delete u (mt_parked st)\<rparr>) of
        (a, st1) \<Rightarrow> Inr (push u a st1)))"

definition mustart :: "act \<Rightarrow> mtstate \<Rightarrow> mtstate" where
  "mustart a st = push (mt_next st) a (st\<lparr>mt_next := mt_next st + 1\<rparr>)"

text \<open>One call of the thread at the top of the stack, which has been taken off.\<close>

fun call :: "(int \<Rightarrow> bool) \<Rightarrow> nat \<Rightarrow> act \<Rightarrow> mtstate \<Rightarrow> mt_stop + mtstate" where
  "call pollable t Ends st = Inr st"
| "call pollable t (Yield k) st = Inr (park t (AtYield k) st)"
| "call pollable t (Start a b) st = Inr (mustart a (push t b st))"
| "call pollable t (Resume u v b) st = unpark u v (push t b st)"
| "call pollable t (Block fd ev to k) st = (case block pollable fd ev to t st of
      Inl st1 \<Rightarrow> Inr (push t (k (- 1)) st1)
    | Inr (b, st1) \<Rightarrow> Inr (park t (AtBlock b k) st1))"
| "call pollable t (MBlock to spec k) st = (case mblock pollable to spec t st of
      Inl st1 \<Rightarrow> Inr (push t (k (- 1, - 1)) st1)
    | Inr (bs, st1) \<Rightarrow> Inr (park t (AtMBlock bs k) st1))"
| "call pollable t (ExitLoop s a) st = Inr (push t a (st\<lparr>mt_exit := s\<rparr>))"

section \<open>A burst of threads ends\<close>

text \<open>
  Every call leaves less to be run: the code of a thread is replaced by parts of it, the code of a waiting
  thread that is resumed by the branch it takes.
\<close>

datatype work = Running act | Waiting mt_waiting

inductive_set less_work :: "(work \<times> work) set" where
  "(Waiting (AtYield k), Running (Yield k)) \<in> less_work"
| "(Running a, Running (Start a b)) \<in> less_work"
| "(Running b, Running (Start a b)) \<in> less_work"
| "(Running b, Running (Resume u v b)) \<in> less_work"
| "(Running (k v), Running (Block fd ev to k)) \<in> less_work"
| "(Waiting (AtBlock b k), Running (Block fd ev to k)) \<in> less_work"
| "(Running (k sel), Running (MBlock to spec k)) \<in> less_work"
| "(Waiting (AtMBlock bs k), Running (MBlock to spec k)) \<in> less_work"
| "(Running a, Running (ExitLoop s a)) \<in> less_work"
| "(Running (k v), Waiting (AtYield k)) \<in> less_work"
| "(Running (k v), Waiting (AtBlock b k)) \<in> less_work"
| "(Running (k sel), Waiting (AtMBlock bs k)) \<in> less_work"

lemma wf_less_work: "wf less_work"
proof (rule wfUNIVI)
  fix P :: "work \<Rightarrow> bool" and x
  assume "\<forall>x. (\<forall>y. (y, x) \<in> less_work \<longrightarrow> P y) \<longrightarrow> P x"
  then have step: "P x" if "\<And>y. (y, x) \<in> less_work \<Longrightarrow> P y" for x using that by blast
  have waiting: "P (Waiting w)" if "\<And>a. (Running a, Waiting w) \<in> less_work \<Longrightarrow> P (Running a)" for w
    by (rule step) (auto elim!: less_work.cases intro!: that less_work.intros)
  have "P (Running a)" for a
  proof (induction a)
    case (Yield k)
    have "P (Waiting (AtYield k))" by (rule waiting) (auto elim!: less_work.cases intro: Yield)
    then show ?case by - (rule step, auto elim!: less_work.cases)
  next
    case (Block fd ev to k)
    have "P (Waiting (AtBlock b k))" for b by (rule waiting) (auto elim!: less_work.cases intro: Block)
    with Block show ?case by - (rule step, auto elim!: less_work.cases)
  next
    case (MBlock to spec k)
    have "P (Waiting (AtMBlock bs k))" for bs by (rule waiting) (auto elim!: less_work.cases intro: MBlock)
    with MBlock show ?case by - (rule step, auto elim!: less_work.cases)
  qed (rule step; auto elim!: less_work.cases)+
  moreover from this have "P (Waiting w)" for w by (rule waiting)
  ultimately show "P x" by (cases x) auto
qed

definition work_of :: "mtstate \<Rightarrow> work multiset" where
  "work_of st = image_mset (Running \<circ> snd) (mset (mt_stack st)) + image_mset (Waiting \<circ> snd) (mset (mt_parked st))"

abbreviation less_left :: "mtstate \<Rightarrow> mtstate \<Rightarrow> bool" where
  "less_left st st' \<equiv> (work_of st, work_of st') \<in> mult less_work"

text \<open>The tables of the event loop have no part in it.\<close>

lemma work_of_tables [simp]:
  "work_of (st\<lparr>mt_next := i\<rparr>) = work_of st" "work_of (st\<lparr>mt_epfd := e\<rparr>) = work_of st"
  "work_of (st\<lparr>mt_fdlist := l\<rparr>) = work_of st" "work_of (st\<lparr>mt_blockers := bs\<rparr>) = work_of st"
  "work_of (st\<lparr>mt_bls := m\<rparr>) = work_of st" "work_of (st\<lparr>mt_heap := h\<rparr>) = work_of st"
  "work_of (st\<lparr>mt_nextbl := j\<rparr>) = work_of st" "work_of (st\<lparr>mt_exit := s\<rparr>) = work_of st"
  "work_of (st\<lparr>mt_now := t\<rparr>) = work_of st"
  by (simp_all add: work_of_def)

lemma work_of_push [simp]: "work_of (push t a st) = add_mset (Running a) (work_of st)"
  by (simp add: work_of_def push_def)

lemma work_of_park [simp]: "work_of (park t w st) = add_mset (Waiting w) (work_of st)"
  by (simp add: work_of_def park_def)

lemma work_of_remfd [simp]: "work_of (remfd b st) = work_of st"
  by (simp add: remfd_def Let_def work_of_def)

lemma work_of_leave [simp]: "work_of (leave b st) = work_of st"
  by (simp add: leave_def drop_blocker_def remblock_def)

lemma work_of_fold_leave [simp]: "work_of (fold leave bs st) = work_of st"
  by (induction bs arbitrary: st) simp_all

lemma work_of_regfd: "regfd pollable b st = Some st' \<Longrightarrow> work_of st' = work_of st"
  by (auto simp: regfd_def Let_def work_of_def split: if_splits option.splits)

lemma work_of_addblock: "addblock pollable b st = Some st' \<Longrightarrow> work_of st' = work_of st"
  by (auto simp: addblock_def Let_def work_of_regfd split: if_splits option.splits)

definition same_work :: "mtstate \<Rightarrow> mtstate + 'a \<times> mtstate \<Rightarrow> bool" where
  "same_work st r \<longleftrightarrow> (case r of Inl st' \<Rightarrow> work_of st' = work_of st | Inr p \<Rightarrow> work_of (snd p) = work_of st)"

lemma work_of_enter: "same_work st (enter pollable bl st)"
  by (auto simp: same_work_def enter_def new_blocker_def drop_blocker_def dest!: work_of_addblock split: option.splits)

lemma work_of_mblock_add: "same_work st (mblock_add pollable to th i spec bs st)"
proof (induction spec arbitrary: i bs st)
  case (Cons s spec)
  obtain fd ev where s: "s = (fd, ev)" by fastforce
  let ?bl = "\<lparr>b_fd = fd, b_ev = ev, b_rev = 0, b_id = i, b_to = to, b_th = th, b_reg = False\<rparr>"
  show ?case
  proof (cases "enter pollable ?bl st")
    case (Inl st1)
    with s work_of_enter [of st pollable ?bl] show ?thesis by (simp add: same_work_def)
  next
    case (Inr p)
    with s work_of_enter [of st pollable ?bl] Cons.IH [of "snd p" "i + 1" "bs @ [fst p]"] show ?thesis
      by (auto simp: same_work_def case_prod_beta split: sum.splits)
  qed
qed (simp add: same_work_def)

lemma work_of_block: "same_work st (block pollable fd ev to th st)"
  by (simp add: block_def work_of_enter)

lemma work_of_mblock: "same_work st (mblock pollable to spec th st)"
  by (simp add: mblock_def work_of_mblock_add)

lemma less_leftI:
  assumes "J \<noteq> {#}" "\<And>k. k \<in># K \<Longrightarrow> \<exists>j. j \<in># J \<and> (k, j) \<in> less_work"
    and "work_of st' = I + K" "work_of st = I + J"
  shows "less_left st' st"
  using one_step_implies_mult [of J K less_work I] assms by auto

lemma wake_less: "wake w v st = (a, st1) \<Longrightarrow> (Running a, Waiting w) \<in> less_work \<and> work_of st1 = work_of st"
  by (cases w) (auto simp: Let_def intro: less_work.intros)

text \<open>A thread that is resumed: what waits for it goes, and a branch of its code comes.\<close>

lemma unpark_less:
  assumes "unpark u v st = Inr st'"
  shows "less_left st' st"
proof -
  obtain w where w: "map_of (mt_parked st) u = Some w" using assms by (auto simp: unpark_def split: option.splits)
  let ?st1 = "st\<lparr>mt_parked := AList.delete u (mt_parked st)\<rparr>"
  obtain a st1 where wk: "wake w v ?st1 = (a, st1)" by fastforce
  have st': "work_of st' = add_mset (Running a) (work_of ?st1)"
    using assms w wk wake_less [OF wk] by (auto simp: unpark_def)
  define gone where "gone = filter (\<lambda>p. fst p = u) (mt_parked st)"
  have "mset ps = mset (AList.delete u ps) + mset (filter (\<lambda>p. fst p = u) ps)" for ps :: "(nat \<times> mt_waiting) list"
    by (induction ps) auto
  then have "mset (mt_parked st) = mset (AList.delete u (mt_parked st)) + mset gone" by (simp add: gone_def)
  then have st: "work_of st = work_of ?st1 + image_mset (Waiting \<circ> snd) (mset gone)"
    by (simp add: work_of_def)
  have "(u, w) \<in> set gone" using w by (auto simp: gone_def dest: map_of_SomeD)
  then have g: "Waiting w \<in># image_mset (Waiting \<circ> snd) (mset gone)" by force
  show ?thesis
  proof (rule less_leftI)
    show "image_mset (Waiting \<circ> snd) (mset gone) \<noteq> {#}" using g by force
    show "work_of st' = work_of ?st1 + {#Running a#}" using st' by simp
    show "\<exists>j. j \<in># image_mset (Waiting \<circ> snd) (mset gone) \<and> (k, j) \<in> less_work" if "k \<in># {#Running a#}" for k
      using that g wake_less [OF wk] by auto
  qed (rule st)
qed

lemma call_less:
  assumes "call pollable t a st = Inr st'"
  shows "(work_of st', add_mset (Running a) (work_of st)) \<in> mult less_work"
proof -
  have less: "(work_of st', add_mset (Running a) (work_of st)) \<in> mult less_work"
    if "work_of st' = work_of st + K" "\<And>k. k \<in># K \<Longrightarrow> (k, Running a) \<in> less_work" for K
    using one_step_implies_mult [of "{#Running a#}" K less_work "work_of st"] that by auto
  show ?thesis
  proof (cases a)
    case Ends
    with assms show ?thesis by (intro less [of "{#}"]) auto
  next
    case (Yield k)
    with assms show ?thesis by (intro less [of "{#Waiting (AtYield k)#}"]) (auto intro: less_work.intros)
  next
    case (Start c d)
    with assms show ?thesis
      by (intro less [of "{#Running c, Running d#}"]) (auto simp: mustart_def intro: less_work.intros)
  next
    case (Resume u v d)
    with assms have "less_left st' (push t d st)" by (auto dest: unpark_less)
    moreover have "(work_of (push t d st), add_mset (Running a) (work_of st)) \<in> mult less_work"
      using one_step_implies_mult [of "{#Running a#}" "{#Running d#}" less_work "work_of st"] Resume
      by (simp add: less_work.intros)
    ultimately show ?thesis unfolding mult_def by (rule trancl_trans)
  next
    case (Block fd ev to k)
    show ?thesis
    proof (cases "block pollable fd ev to t st")
      case (Inl st1)
      with assms Block work_of_block [of st pollable fd ev to t] show ?thesis
        by (intro less [of "{#Running (k (- 1))#}"]) (auto simp: same_work_def intro: less_work.intros)
    next
      case (Inr p)
      with assms Block work_of_block [of st pollable fd ev to t] show ?thesis
        by (intro less [of "{#Waiting (AtBlock (fst p) k)#}"])
          (auto simp: same_work_def case_prod_beta intro: less_work.intros)
    qed
  next
    case (MBlock to spec k)
    show ?thesis
    proof (cases "mblock pollable to spec t st")
      case (Inl st1)
      with assms MBlock work_of_mblock [of st pollable to spec t] show ?thesis
        by (intro less [of "{#Running (k (- 1, - 1))#}"]) (auto simp: same_work_def intro: less_work.intros)
    next
      case (Inr p)
      with assms MBlock work_of_mblock [of st pollable to spec t] show ?thesis
        by (intro less [of "{#Waiting (AtMBlock (fst p) k)#}"])
          (auto simp: same_work_def case_prod_beta intro: less_work.intros)
    qed
  next
    case (ExitLoop s c)
    with assms show ?thesis by (intro less [of "{#Running c#}"]) (auto intro: less_work.intros)
  qed
qed

function run :: "(int \<Rightarrow> bool) \<Rightarrow> mtstate \<Rightarrow> mt_stop + mtstate" where
  "run pollable st = (case mt_stack st of
      [] \<Rightarrow> Inr st
    | (t, a) # rest \<Rightarrow> (case call pollable t a (st\<lparr>mt_stack := rest\<rparr>) of
        Inl e \<Rightarrow> Inl e
      | Inr st1 \<Rightarrow> run pollable st1))"
  by pat_completeness auto
termination
proof (relation "inv_image (mult less_work) (work_of \<circ> snd)")
  show "wf (inv_image (mult less_work) (work_of \<circ> snd))" by (intro wf_inv_image wf_mult wf_less_work)
next
  fix pollable st p rest t a st1
  assume "mt_stack st = p # rest" "(t, a) = p" "call pollable t a (st\<lparr>mt_stack := rest\<rparr>) = Inr st1"
  moreover from this have "work_of st = add_mset (Running a) (work_of (st\<lparr>mt_stack := rest\<rparr>))"
    by (auto simp: work_of_def)
  ultimately show "((pollable, st1), pollable, st) \<in> inv_image (mult less_work) (work_of \<circ> snd)"
    using call_less by auto
qed

declare run.simps [simp del]

end
