(* ===== verification/Mttables.thy ===== *)
theory Mttables
  imports Threads
begin

text \<open>
  The tables of the event loop of \<open>src/lib/mtio-epoll.c\<close>: what every operation on blockers keeps of them.
\<close>

section \<open>The tables agree with the blockers\<close>

definition mirror :: "mtstate \<Rightarrow> (int \<rightharpoonup> bool \<times> bool)" where
  "mirror st = (\<lambda>fd. if mt_fdlist st fd = [] then None else Some (events_of st (mt_fdlist st fd)))"

definition listed :: "mtstate \<Rightarrow> bool" where
  "listed st \<longleftrightarrow> distinct (mt_blockers st) \<and> (\<forall>b. mt_bls st b \<noteq> None \<longleftrightarrow> b \<in> set (mt_blockers st)) \<and>
     (\<forall>b\<in>set (mt_blockers st). b < mt_nextbl st)"

definition fds_listed :: "mtstate \<Rightarrow> bool" where
  "fds_listed st \<longleftrightarrow> (\<forall>fd. distinct (mt_fdlist st fd)) \<and>
     (\<forall>fd b. b \<in> set (mt_fdlist st fd) \<longleftrightarrow> (\<exists>bl. mt_bls st b = Some bl \<and> b_reg bl \<and> b_fd bl = fd))"

definition watched :: "mtstate \<Rightarrow> bool" where
  "watched st \<longleftrightarrow> (case mt_epfd st of None \<Rightarrow> \<forall>fd. mt_fdlist st fd = [] | Some m \<Rightarrow> m = mirror st)"

definition timed :: "mtstate \<Rightarrow> bool" where
  "timed st \<longleftrightarrow> th_ok (mt_heap st) \<and>
     th_due (mt_heap st) = {(b, to). 0 < to \<and> (\<exists>bl. mt_bls st b = Some bl \<and> b_to bl = to)}"

definition loop_inv :: "mtstate \<Rightarrow> bool" where
  "loop_inv st \<longleftrightarrow> listed st \<and> fds_listed st \<and> watched st \<and> timed st"

lemmas loop_inv_defs = loop_inv_def listed_def fds_listed_def watched_def timed_def

lemma addtimeout_set: "th_ok hp \<Longrightarrow> b \<notin> fst ` th_due hp \<Longrightarrow> addtimeout b to hp = th_set b to hp"
  by (simp add: addtimeout_def th_set_def th_ok_def th_due_def not_le [symmetric])

lemma deltimeout_remove:
  assumes "th_ok hp" "b \<in> fst ` th_due hp"
  shows "deltimeout b hp = th_remove b hp"
proof -
  have b: "0 \<le> snd hp b" using assms by (simp add: th_ok_def th_due_def)
  have "nat (snd hp b) < length (fst hp)" by (rule th_ok_place(1) [OF assms(1) b])
  then have "nat (snd hp b) = length (fst hp) - 1 \<longleftrightarrow> \<not> nat (snd hp b) < length (butlast (fst hp))" by auto
  then show ?thesis using b by (simp add: deltimeout_def th_remove_def thadjust_def Let_def)
qed

lemma events_of_cong:
  "(\<And>b. b \<in> set bs \<Longrightarrow> wants EV_READ (the (mt_bls st b)) = wants EV_READ (the (mt_bls st' b)) \<and>
      wants EV_WRITE (the (mt_bls st b)) = wants EV_WRITE (the (mt_bls st' b))) \<Longrightarrow>
    events_of st bs = events_of st' bs"
  by (auto simp: events_of_def list_ex_iff)

lemma wants_update [simp]: "wants f (bl\<lparr>b_reg := r\<rparr>) = wants f bl" "wants f (bl\<lparr>b_rev := v\<rparr>) = wants f bl"
  by (simp_all add: wants_def)

lemma mirror_cong: "mt_fdlist st' = mt_fdlist st \<Longrightarrow> mt_bls st' = mt_bls st \<Longrightarrow> mirror st' = mirror st"
  by (auto simp: mirror_def events_of_def fun_eq_iff)

lemma watched_cong: "mt_fdlist st' = mt_fdlist st \<Longrightarrow> mt_bls st' = mt_bls st \<Longrightarrow> mt_epfd st' = mt_epfd st \<Longrightarrow>
    watched st' = watched st"
  using mirror_cong [of st' st] by (auto simp: watched_def split: option.split)

lemma fds_listed_cong: "mt_fdlist st' = mt_fdlist st \<Longrightarrow> mt_bls st' = mt_bls st \<Longrightarrow> fds_listed st' = fds_listed st"
  by (auto simp: fds_listed_def)

definition same_threads :: "mtstate \<Rightarrow> mtstate \<Rightarrow> bool" where
  "same_threads st st' \<longleftrightarrow> mt_stack st' = mt_stack st \<and> mt_parked st' = mt_parked st \<and> mt_next st' = mt_next st \<and>
     mt_exit st' = mt_exit st \<and> mt_now st' = mt_now st"

lemma same_threads_refl [simp]: "same_threads st st"
  by (simp add: same_threads_def)

lemma same_threads_trans: "same_threads r s \<Longrightarrow> same_threads s t \<Longrightarrow> same_threads r t"
  by (simp add: same_threads_def)

text \<open>Putting a blocker into the tables.\<close>

lemma regfd_fields:
  assumes "regfd pollable b st = Some st'" "mt_bls st b = Some bl"
  shows "mt_fdlist st' = (if b_fd bl < 0 then mt_fdlist st else (mt_fdlist st)(b_fd bl := b # mt_fdlist st (b_fd bl)))"
    "mt_bls st' = (if b_fd bl < 0 then mt_bls st else (mt_bls st)(b \<mapsto> bl\<lparr>b_reg := True\<rparr>))"
    "mt_blockers st' = mt_blockers st" "mt_heap st' = mt_heap st" "mt_nextbl st' = mt_nextbl st" "same_threads st st'"
    "mt_epfd st \<noteq> None \<Longrightarrow> mt_epfd st' \<noteq> None"
  using assms by (auto simp: regfd_def Let_def same_threads_def split: if_splits option.splits)

lemma regfd_law:
  assumes "regfd pollable b st = Some st'" "mt_bls st b = Some bl" "mt_epfd st = Some (mirror st)" "\<not> b_reg bl"
    "fds_listed st"
  shows "mt_epfd st' = Some (mirror st')" "fds_listed st'"
proof -
  note f = regfd_fields [OF assms(1,2)]
  have nb: "b \<notin> set (mt_fdlist st fd)" for fd using assms(2,4,5) by (auto simp: fds_listed_def)
  show "fds_listed st'"
    using assms(2,4,5) nb by (auto simp: fds_listed_def f)
  have keep: "events_of st' bs = events_of st bs" for bs
    using assms(2) by (auto intro!: events_of_cong simp: f split: if_splits)
  show "mt_epfd st' = Some (mirror st')"
  proof (cases "b_fd bl < 0")
    case True
    then show ?thesis using assms(1,2,3) by (simp add: regfd_def Let_def)
  next
    case False
    let ?l = "mt_fdlist st (b_fd bl)"
    have "mt_epfd st' = Some ((mirror st)(b_fd bl \<mapsto> events_of st (b # ?l)))"
      using assms(1,2,3) False
      by (auto simp: regfd_def Let_def epoll_add_def epoll_mod_def split: if_splits option.splits)
    moreover have "mirror st' = (mirror st)(b_fd bl \<mapsto> events_of st (b # ?l))"
      using False by (auto simp: mirror_def keep f)
    ultimately show ?thesis by simp
  qed
qed

text \<open>Taking a blocker out of them.\<close>

lemma remfd_fields:
  assumes "mt_bls st b = Some bl" "fds_listed st" "watched st"
  shows "mt_fdlist (remfd b st) = (\<lambda>fd. remove1 b (mt_fdlist st fd))"
    "mt_bls (remfd b st) = (mt_bls st)(b \<mapsto> bl\<lparr>b_reg := False\<rparr>)"
    "mt_blockers (remfd b st) = mt_blockers st" "mt_heap (remfd b st) = mt_heap st"
    "mt_nextbl (remfd b st) = mt_nextbl st" "same_threads st (remfd b st)"
    "mt_epfd (remfd b st) = None \<longleftrightarrow> mt_epfd st = None"
proof -
  have other: "b \<notin> set (mt_fdlist st fd)" if "fd \<noteq> b_fd bl \<or> \<not> b_reg bl" for fd
    using that assms(1,2) by (auto simp: fds_listed_def)
  then have l: "(mt_fdlist st)(b_fd bl := remove1 b (mt_fdlist st (b_fd bl))) = (\<lambda>fd. remove1 b (mt_fdlist st fd))"
    by (auto simp: remove1_idem)
  show "mt_fdlist (remfd b st) = (\<lambda>fd. remove1 b (mt_fdlist st fd))"
    using assms(1) l other by (cases "b_reg bl") (auto simp: remfd_def Let_def remove1_idem)
  have "(mt_bls st)(b \<mapsto> bl\<lparr>b_reg := False\<rparr>) = mt_bls st" if "\<not> b_reg bl" using assms(1) that by auto
  then show "mt_bls (remfd b st) = (mt_bls st)(b \<mapsto> bl\<lparr>b_reg := False\<rparr>)"
    using assms(1) by (simp add: remfd_def Let_def)
  have "b_reg bl \<Longrightarrow> mt_epfd st \<noteq> None"
    using assms by (fastforce simp: fds_listed_def watched_def split: option.splits)
  then show "mt_epfd (remfd b st) = None \<longleftrightarrow> mt_epfd st = None"
    using assms(1) by (auto simp: remfd_def Let_def epoll_del_def epoll_mod_def split: option.splits)
qed (use assms(1) in \<open>simp_all add: remfd_def Let_def same_threads_def\<close>)

lemma remfd_law:
  assumes "mt_bls st b = Some bl" "watched st" "fds_listed st"
  shows "watched (remfd b st)" "fds_listed (remfd b st)"
proof -
  note f = remfd_fields [OF assms(1,3,2)]
  show "fds_listed (remfd b st)"
    using assms(1,3) by (auto simp: fds_listed_def f)
  have keep: "events_of (remfd b st) bs = events_of st bs" for bs
    using assms(1) by (auto intro!: events_of_cong simp: f split: if_splits)
  have other: "remove1 b (mt_fdlist st fd) = mt_fdlist st fd" if "fd \<noteq> b_fd bl \<or> \<not> b_reg bl" for fd
    using that assms by (auto simp: fds_listed_def remove1_idem)
  show "watched (remfd b st)"
  proof (cases "mt_epfd st")
    case None
    then show ?thesis using assms(2) f by (simp add: watched_def)
  next
    case (Some m)
    then have m: "m = mirror st" using assms(2) by (simp add: watched_def)
    have "mt_epfd (remfd b st) = Some (mirror (remfd b st))"
    proof (cases "b_reg bl")
      case False
      then have "remfd b st = st" using assms(1) by (simp add: remfd_def Let_def)
      then show ?thesis using Some m by simp
    next
      case True
      let ?l = "remove1 b (mt_fdlist st (b_fd bl))"
      have "b \<in> set (mt_fdlist st (b_fd bl))" using True assms(1,3) by (auto simp: fds_listed_def)
      then have "mirror st (b_fd bl) \<noteq> None" by (auto simp: mirror_def)
      moreover have "events_of (st\<lparr>mt_fdlist := l\<rparr>) bs = events_of st bs" for l bs by (simp add: events_of_def)
      ultimately have "mt_epfd (remfd b st) = Some ((mirror st)(b_fd bl := (if ?l = [] then None else Some (events_of st ?l))))"
        using True assms(1) Some m by (auto simp: remfd_def Let_def epoll_del_def epoll_mod_def)
      moreover have "mirror (remfd b st) = (mirror st)(b_fd bl := (if ?l = [] then None else Some (events_of st ?l)))"
        using other by (auto simp: mirror_def f keep)
      ultimately show ?thesis by simp
    qed
    then show ?thesis by (simp add: watched_def)
  qed
qed

text \<open>A thread that comes to wait for something. Without an epoll instance nothing is registered.\<close>

definition entered :: "blocker \<Rightarrow> mtstate \<Rightarrow> mtstate \<Rightarrow> bool" where
  "entered bl st st' \<longleftrightarrow>
     (let b = mt_nextbl st; reg = (mt_epfd st \<noteq> None \<and> 0 \<le> b_fd bl) in
      mt_nextbl st' = b + 1 \<and> mt_blockers st' = b # mt_blockers st \<and> mt_bls st' = (mt_bls st)(b \<mapsto> bl\<lparr>b_reg := reg\<rparr>) \<and>
      mt_fdlist st' = (if reg then (mt_fdlist st)(b_fd bl := b # mt_fdlist st (b_fd bl)) else mt_fdlist st) \<and>
      (mt_epfd st' = None \<longleftrightarrow> mt_epfd st = None) \<and> same_threads st st')"

lemma enter_law:
  assumes "loop_inv st" "\<not> b_reg bl" "enter pollable bl st = Inr (b, st')"
  shows "loop_inv st'" "b = mt_nextbl st" "entered bl st st'"
proof -
  define st1 where "st1 = st\<lparr>mt_bls := (mt_bls st)(mt_nextbl st \<mapsto> bl), mt_nextbl := mt_nextbl st + 1\<rparr>"
  have inv: "listed st" "fds_listed st" "watched st" "timed st" using assms(1) by (simp_all add: loop_inv_def)
  have new: "mt_bls st (mt_nextbl st) = None" using inv(1) by (auto simp: listed_def)
  have b: "b = mt_nextbl st" and add: "addblock pollable b st1 = Some st'"
    using assms(3) by (auto simp: enter_def new_blocker_def st1_def split: option.splits)
  show "b = mt_nextbl st" by (rule b)
  have bls1: "mt_bls st1 b = Some bl" by (simp add: st1_def b)
  have f1: "fds_listed st1" using inv(2) new assms(2) by (auto simp: fds_listed_def st1_def)
  have nb: "mt_nextbl st \<notin> set (mt_fdlist st fd)" for fd using inv(2) new by (auto simp: fds_listed_def)
  have "events_of st1 (mt_fdlist st fd) = events_of st (mt_fdlist st fd)" for fd
    using nb [of fd] by (intro events_of_cong) (auto simp: st1_def)
  moreover have "mt_fdlist st1 = mt_fdlist st" by (simp add: st1_def)
  ultimately have m1: "mirror st1 = mirror st" by (simp only: mirror_def)
  define reg where "reg = (mt_epfd st \<noteq> None \<and> 0 \<le> b_fd bl)"
  have unreg: "bl\<lparr>b_reg := False\<rparr> = bl" using assms(2) by simp
  obtain st2 where st2: "(if mt_epfd st1 = None then Some st1 else regfd pollable b st1) = Some st2"
    and st': "st' = st2\<lparr>mt_blockers := b # mt_blockers st2,
      mt_heap := (if b_to (the (mt_bls st2 b)) > 0 then addtimeout b (b_to (the (mt_bls st2 b))) (mt_heap st2) else mt_heap st2)\<rparr>"
    using add by (auto simp: addblock_def Let_def split: option.splits)
  have "mt_fdlist st2 = (if reg then (mt_fdlist st)(b_fd bl := b # mt_fdlist st (b_fd bl)) else mt_fdlist st) \<and>
      mt_bls st2 = (mt_bls st)(b \<mapsto> bl\<lparr>b_reg := reg\<rparr>) \<and> mt_blockers st2 = mt_blockers st \<and> mt_heap st2 = mt_heap st \<and>
      mt_nextbl st2 = b + 1 \<and> same_threads st st2 \<and> (mt_epfd st2 = None \<longleftrightarrow> mt_epfd st = None) \<and>
      fds_listed st2 \<and> watched st2"
  proof (cases "mt_epfd st")
    case None
    then have "st2 = st1" using st2 by (simp add: st1_def split: if_splits)
    then show ?thesis using None f1 inv(3) unreg by (simp add: reg_def b watched_def) (simp add: st1_def same_threads_def)
  next
    case (Some m)
    then have e1: "mt_epfd st1 = Some (mirror st1)" using inv(3) m1 by (simp add: watched_def st1_def)
    then have r: "regfd pollable b st1 = Some st2" using st2 by simp
    note f = regfd_fields [OF r bls1] and l = regfd_law [OF r bls1 e1 assms(2) f1]
    from f(6) have "same_threads st st2" by (simp add: same_threads_def st1_def)
    then show ?thesis using f l Some unreg by (simp add: reg_def b watched_def) (simp add: st1_def)
  qed
  note tab = this
  then show "entered bl st st'"
    by (simp add: entered_def Let_def b reg_def st' same_threads_def)
  have l': "listed st'" using inv(1) tab by (auto simp: listed_def st' b less_Suc_eq)
  have w': "watched st'" using tab watched_cong [of st' st2] by (simp add: st')
  have f': "fds_listed st'" using tab fds_listed_cong [of st' st2] by (simp add: st')
  have "b \<notin> fst ` th_due (mt_heap st)" using inv(4) new b by (auto simp: timed_def)
  then have t': "timed st'"
    using inv(4) tab new b addtimeout_set [of "mt_heap st" b "b_to bl"] timers.set_law [of "mt_heap st" b "b_to bl"]
    by (auto simp: timed_def st' split: if_splits)
  show "loop_inv st'" using l' w' f' t' by (simp add: loop_inv_def)
qed

lemma enter_fails:
  assumes "loop_inv st" "enter pollable bl st = Inl st'"
  shows "st' = st\<lparr>mt_nextbl := mt_nextbl st + 1\<rparr>" "loop_inv st'"
proof -
  have new: "mt_bls st (mt_nextbl st) = None" using assms(1) by (auto simp: loop_inv_defs)
  then have "(mt_bls st)(mt_nextbl st := None) = mt_bls st" by auto
  then show st': "st' = st\<lparr>mt_nextbl := mt_nextbl st + 1\<rparr>"
    using assms(2) by (auto simp: enter_def new_blocker_def drop_blocker_def split: option.splits)
  have "watched st' = watched st" by (rule watched_cong) (simp_all add: st')
  then show "loop_inv st'" using assms(1)
    by (auto simp: loop_inv_def listed_def fds_listed_def timed_def st' less_Suc_eq)
qed

text \<open>A thread that does not wait for it any more.\<close>

definition left :: "nat \<Rightarrow> mtstate \<Rightarrow> mtstate \<Rightarrow> bool" where
  "left b st st' \<longleftrightarrow> mt_nextbl st' = mt_nextbl st \<and> mt_blockers st' = remove1 b (mt_blockers st) \<and>
     mt_bls st' = (mt_bls st)(b := None) \<and> mt_fdlist st' = (\<lambda>fd. remove1 b (mt_fdlist st fd)) \<and>
     (mt_epfd st' = None \<longleftrightarrow> mt_epfd st = None) \<and> same_threads st st'"

lemma leave_law:
  assumes "loop_inv st" "mt_bls st b = Some bl"
  shows "loop_inv (leave b st)" "left b st (leave b st)"
proof -
  define st1 where "st1 = st\<lparr>mt_heap := (if b_to bl > 0 then deltimeout b (mt_heap st) else mt_heap st),
    mt_blockers := remove1 b (mt_blockers st)\<rparr>"
  have inv: "listed st" "fds_listed st" "watched st" "timed st" using assms(1) by (simp_all add: loop_inv_def)
  have bls1: "mt_bls st1 b = Some bl" and f1: "fds_listed st1" using inv(2) assms(2) by (simp_all add: st1_def fds_listed_def)
  have w1: "watched st1" using inv(3) watched_cong [of st1 st] by (simp add: st1_def)
  have lv: "leave b st = drop_blocker b (remfd b st1)"
    using assms(2) by (simp add: leave_def remblock_def st1_def)
  note f = remfd_fields [OF bls1 f1 w1] and l = remfd_law [OF bls1 w1 f1]
  show "left b st (leave b st)"
    using f by (simp add: left_def lv drop_blocker_def same_threads_def) (simp add: st1_def)
  have nb: "b \<notin> set (mt_fdlist (remfd b st1) fd)" for fd using l(2) f(2) by (auto simp: fds_listed_def)
  have "events_of (leave b st) (mt_fdlist (remfd b st1) fd) = events_of (remfd b st1) (mt_fdlist (remfd b st1) fd)" for fd
    using nb [of fd] by (intro events_of_cong) (auto simp: lv drop_blocker_def)
  moreover have "mt_fdlist (leave b st) = mt_fdlist (remfd b st1)" by (simp add: lv drop_blocker_def)
  ultimately have "mirror (leave b st) = mirror (remfd b st1)" by (simp only: mirror_def)
  moreover have "mt_epfd (leave b st) = mt_epfd (remfd b st1)" by (simp add: lv drop_blocker_def)
  ultimately have w': "watched (leave b st)"
    using l(1) \<open>mt_fdlist (leave b st) = mt_fdlist (remfd b st1)\<close> by (simp add: watched_def split: option.splits)
  have f': "fds_listed (leave b st)"
    using l(2) f(2) by (auto simp: fds_listed_def lv drop_blocker_def)
  have l': "listed (leave b st)"
    using inv(1) f by (auto simp: listed_def lv drop_blocker_def st1_def)
  have t': "timed (leave b st)"
  proof -
    have h: "mt_heap (leave b st) = (if b_to bl > 0 then deltimeout b (mt_heap st) else mt_heap st)"
      by (simp add: lv drop_blocker_def f) (simp add: st1_def)
    have bls': "mt_bls (leave b st) = (mt_bls st)(b := None)" by (simp add: lv drop_blocker_def f) (simp add: st1_def)
    show ?thesis
    proof (cases "b_to bl > 0")
      case True
      then have "(b, b_to bl) \<in> th_due (mt_heap st)" using inv(4) assms(2) by (auto simp: timed_def)
      then have "b \<in> fst ` th_due (mt_heap st)" by force
      with True inv(4) assms(2) timers.cancel_law [of "mt_heap st" b] deltimeout_remove [of "mt_heap st" b]
      show ?thesis by (auto simp: timed_def h bls' split: if_splits)
    next
      case False
      with inv(4) assms(2) show ?thesis by (auto simp: timed_def h bls' split: if_splits)
    qed
  qed
  show "loop_inv (leave b st)" using l' w' f' t' by (simp add: loop_inv_def)
qed

end
