(* ===== verification/Evloop.thy ===== *)
theory Evloop
  imports Mttables
begin

text \<open>
  The event loop of \<open>src/lib/mtio-epoll.c\<close>: \<open>ioloop\<close> from its start to its end, over what \<open>epoll_wait\<close> returns and
  the time it is then.
\<close>

unbundle bit_operations_syntax

section \<open>Threads started and resumed by the main program\<close>

definition start_thread :: "(int \<Rightarrow> bool) \<Rightarrow> act \<Rightarrow> mtstate \<Rightarrow> mt_stop + mtstate" where
  "start_thread pollable a st = run pollable (mustart a st)"

definition resume :: "(int \<Rightarrow> bool) \<Rightarrow> nat \<Rightarrow> int \<Rightarrow> mtstate \<Rightarrow> mt_stop + mtstate" where
  "resume pollable u v st = (case unpark u v st of Inl e \<Rightarrow> Inl e | Inr st1 \<Rightarrow> run pollable st1)"

definition mt_start :: "int \<Rightarrow> mtstate" where
  "mt_start now = \<lparr>mt_stack = [], mt_parked = [], mt_next = 0, mt_epfd = None, mt_fdlist = (\<lambda>fd. []), mt_blockers = [],
     mt_bls = (\<lambda>b. None), mt_heap = ([], \<lambda>b. - 1), mt_nextbl = 0, mt_exit = 0, mt_now = now\<rparr>"

section \<open>What an event or a timeout does to a blocker\<close>

definition set_rev :: "nat \<Rightarrow> int \<Rightarrow> mtstate \<Rightarrow> mtstate" where
  "set_rev b ev st = st\<lparr>mt_bls := (mt_bls st)(b := map_option (\<lambda>bl. bl\<lparr>b_rev := ev\<rparr>) (mt_bls st b))\<rparr>"

text \<open>The thread of \<open>block\<close> gets the event as the value of \<open>yield\<close>, that of \<open>mblock\<close> the number of the blocker.\<close>

definition wakeup :: "(int \<Rightarrow> bool) \<Rightarrow> nat \<Rightarrow> int \<Rightarrow> mtstate \<Rightarrow> mt_stop + mtstate" where
  "wakeup pollable b ev st = (case mt_bls st b of
      None \<Rightarrow> Inl Dangling
    | Some bl \<Rightarrow>
        if b_id bl < 0 then resume pollable (b_th bl) ev st
        else resume pollable (b_th bl) (b_id bl) (set_rev b ev st))"

section \<open>Events\<close>

text \<open>What \<open>epoll_wait\<close> says of a descriptor: EPOLLIN, EPOLLOUT, anything else.\<close>

type_synonym epoll_event = "int \<times> bool \<times> bool \<times> bool"

definition event_bits :: "epoll_event \<Rightarrow> int" where
  "event_bits e = (case e of (fd, rd, wr, other) \<Rightarrow>
     if other then - 1 else (if rd then EV_READ else 0) OR (if wr then EV_WRITE else 0))"

text \<open>The field \<open>n\<close> or \<open>n2\<close> of a member of a list.\<close>

fun after :: "nat list \<Rightarrow> nat \<Rightarrow> nat option" where
  "after (b # c # bs) x = (if b = x then Some c else after (c # bs) x)"
| "after bs x = None"

definition first_in :: "nat list \<Rightarrow> nat option" where
  "first_in bs = (case bs of [] \<Rightarrow> None | b # bs' \<Rightarrow> Some b)"

text \<open>
  The loop over the blockers of a descriptor. The next one is read before the thread of this one runs. The fuel
  is for the turns; the list may change between them.
\<close>

fun dispatch :: "nat \<Rightarrow> (int \<Rightarrow> bool) \<Rightarrow> int \<Rightarrow> int \<Rightarrow> nat option \<Rightarrow> mtstate \<Rightarrow> mt_stop + mtstate" where
  "dispatch n pollable fd ev None st = Inr st"
| "dispatch 0 pollable fd ev (Some b) st = Inl Endless"
| "dispatch (Suc n) pollable fd ev (Some b) st = (case mt_bls st b of
      None \<Rightarrow> Inl Dangling
    | Some bl \<Rightarrow>
        (let nbl = after (mt_fdlist st fd) b in
         if ev < 0 \<or> ev AND b_ev bl \<noteq> 0
         then (case wakeup pollable b ev st of
            Inl e \<Rightarrow> Inl e
          | Inr st1 \<Rightarrow> dispatch n pollable fd ev nbl st1)
         else dispatch n pollable fd ev nbl st))"

fun events :: "(int \<Rightarrow> bool) \<Rightarrow> epoll_event list \<Rightarrow> mtstate \<Rightarrow> mt_stop + mtstate" where
  "events pollable [] st = Inr st"
| "events pollable (e # es) st =
     (let l = mt_fdlist st (fst e) in
      case dispatch (length l) pollable (fst e) (event_bits e) (first_in l) st of
        Inl x \<Rightarrow> Inl x
      | Inr st1 \<Rightarrow> events pollable es st1)"

section \<open>Timeouts\<close>

lemma work_of_set_rev [simp]: "work_of (set_rev b ev st) = work_of st"
  by (simp add: set_rev_def)

lemma run_less: "run pollable st = Inr st' \<Longrightarrow> st' = st \<or> less_left st' st"
proof (induction pollable st rule: run.induct)
  case (1 pollable st)
  show ?case
  proof (cases "mt_stack st")
    case Nil
    with 1(2) show ?thesis by (subst (asm) run.simps) simp
  next
    case (Cons p rest)
    obtain t a where p: "p = (t, a)" by fastforce
    with 1(2) Cons obtain st1 where c: "call pollable t a (st\<lparr>mt_stack := rest\<rparr>) = Inr st1" "run pollable st1 = Inr st'"
      by (subst (asm) run.simps) (auto split: sum.splits)
    have "work_of st = add_mset (Running a) (work_of (st\<lparr>mt_stack := rest\<rparr>))" using Cons p by (auto simp: work_of_def)
    then have "less_left st1 st" using call_less [OF c(1)] by simp
    moreover have "st' = st1 \<or> less_left st' st1" using 1(1) Cons p c by auto
    ultimately show ?thesis unfolding mult_def by (auto intro: trancl_trans)
  qed
qed

lemma resume_less: "resume pollable u v st = Inr st' \<Longrightarrow> less_left st' st"
  using unpark_less [of u v st] run_less [of pollable]
  unfolding resume_def mult_def by (auto split: sum.splits intro: trancl_trans)

lemma wakeup_less: "wakeup pollable b ev st = Inr st' \<Longrightarrow> less_left st' st"
  using resume_less by (fastforce simp: wakeup_def split: option.splits if_splits)

function timeouts :: "(int \<Rightarrow> bool) \<Rightarrow> mtstate \<Rightarrow> mt_stop + mtstate" where
  "timeouts pollable st = (case th_first (mt_heap st) of
      None \<Rightarrow> Inr st
    | Some (b, to) \<Rightarrow>
        if to \<le> mt_now st
        then (case wakeup pollable b 0 st of Inl e \<Rightarrow> Inl e | Inr st1 \<Rightarrow> timeouts pollable st1)
        else Inr st)"
  by pat_completeness auto
termination
  by (relation "inv_image (mult less_work) (work_of \<circ> snd)")
    (auto intro: wf_mult wf_less_work wakeup_less)

declare timeouts.simps [simp del]

section \<open>The loop\<close>

text \<open>The milliseconds \<open>epoll_wait\<close> is told to wait.\<close>

definition poll_timeout :: "int \<Rightarrow> mtstate \<Rightarrow> int" where
  "poll_timeout now st = (case th_first (mt_heap st) of
      None \<Rightarrow> - 1
    | Some (b, to) \<Rightarrow> if to > now then (to - now) * 1000 else 1000)"

text \<open>
  The first part of \<open>ioloop\<close>: a new epoll instance, and the blockers there are registered with it; a thread for
  which this fails is resumed.
\<close>

fun register_all :: "nat \<Rightarrow> (int \<Rightarrow> bool) \<Rightarrow> nat option \<Rightarrow> mtstate \<Rightarrow> mt_stop + mtstate" where
  "register_all n pollable None st = Inr st"
| "register_all 0 pollable (Some b) st = Inl Endless"
| "register_all (Suc n) pollable (Some b) st = (case mt_bls st b of
      None \<Rightarrow> Inl Dangling
    | Some bl \<Rightarrow>
        (let nbl = after (mt_blockers st) b in
         case regfd pollable b st of
           Some st1 \<Rightarrow> register_all n pollable nbl st1
         | None \<Rightarrow> (case resume pollable (b_th bl) (- 1) st of
             Inl e \<Rightarrow> Inl e
           | Inr st1 \<Rightarrow> register_all n pollable nbl st1)))"

definition loop_start :: "(int \<Rightarrow> bool) \<Rightarrow> mtstate \<Rightarrow> mt_stop + mtstate" where
  "loop_start pollable st =
     register_all (length (mt_blockers st)) pollable (first_in (mt_blockers st))
       (st\<lparr>mt_exit := 0, mt_epfd := Some (\<lambda>fd. None)\<rparr>)"

text \<open>
  One turn: \<open>epoll_wait\<close> fails, or returns events; the time is taken when the threads run and again for the
  timeouts.
\<close>

type_synonym turn = "(int + epoll_event list) \<times> int \<times> int"

definition loop_turn :: "(int \<Rightarrow> bool) \<Rightarrow> turn \<Rightarrow> mtstate \<Rightarrow> mt_stop + mtstate" where
  "loop_turn pollable t st = (case t of
      (Inl errno, t1, t2) \<Rightarrow> Inr st
    | (Inr evs, t1, t2) \<Rightarrow> (case events pollable evs (st\<lparr>mt_now := t1\<rparr>) of
        Inl e \<Rightarrow> Inl e
      | Inr st1 \<Rightarrow> timeouts pollable (st1\<lparr>mt_now := t2\<rparr>)))"

definition loop_end :: "mtstate \<Rightarrow> mtstate" where
  "loop_end st = (fold remfd (mt_blockers st) st)\<lparr>mt_epfd := None\<rparr>"

text \<open>
  The turns of the loop as long as there are blockers and nobody has called \<open>exitioloop\<close>; \<open>ioloop\<close> has not returned
  when it waits for another.
\<close>

definition loop_over :: "mtstate \<Rightarrow> bool" where
  "loop_over st \<longleftrightarrow> mt_blockers st = [] \<or> mt_exit st \<noteq> 0"

fun loop_turns :: "(int \<Rightarrow> bool) \<Rightarrow> turn list \<Rightarrow> mtstate \<Rightarrow> mt_stop + mtstate" where
  "loop_turns pollable [] st = Inr st"
| "loop_turns pollable (t # ts) st =
     (if loop_over st then Inr st
      else (case loop_turn pollable t st of
          Inl e \<Rightarrow> Inl e
        | Inr st1 \<Rightarrow> loop_turns pollable ts st1))"

definition ioloop :: "(int \<Rightarrow> bool) \<Rightarrow> turn list \<Rightarrow> mtstate \<Rightarrow> mt_stop + int option \<times> mtstate" where
  "ioloop pollable ts st = (case loop_start pollable st of
      Inl e \<Rightarrow> Inl e
    | Inr st1 \<Rightarrow> (case loop_turns pollable ts st1 of
        Inl e \<Rightarrow> Inl e
      | Inr st2 \<Rightarrow> Inr (if loop_over st2 then (Some (mt_exit st2), loop_end st2) else (None, st2))))"

end
