(* ===== verification/Mtinv.thy ===== *)
theory Mtinv
  imports Evloop
begin

text \<open>
  What the threads of \<open>src/lib/mt.c\<close> keep of the tables of the event loop of \<open>src/lib/mtio-epoll.c\<close>, for every
  program they may run.
\<close>

section \<open>How the tables change\<close>

lemma listed_new: "listed st \<Longrightarrow> mt_nextbl st \<le> b \<Longrightarrow> mt_bls st b = None"
  unfolding listed_def by (metis not_le not_None_eq)

text \<open>A blocker but for the field \<open>rev\<close>.\<close>

definition frozen :: "mtstate \<Rightarrow> nat \<Rightarrow> blocker option" where
  "frozen st b = map_option (\<lambda>bl. bl\<lparr>b_rev := 0\<rparr>) (mt_bls st b)"

text \<open>
  A blocker does not change but may go; the lists lose members and get new ones in front, which are registered
  when there is an epoll instance.
\<close>

definition list_evolves :: "nat \<Rightarrow> nat list \<Rightarrow> nat list \<Rightarrow> bool" where
  "list_evolves n l l' \<longleftrightarrow> (\<exists>new P. l' = new @ filter P l \<and> (\<forall>b\<in>set new. n \<le> b))"

lemma list_evolves_refl [simp]: "list_evolves n l l"
  unfolding list_evolves_def by (intro exI [of _ "[]"] exI [of _ "\<lambda>b. True"]) simp

lemma list_evolves_filter [simp]: "list_evolves n l (filter P l)"
  unfolding list_evolves_def by (intro exI [of _ "[]"] exI [of _ P]) simp

lemma list_evolves_append: "\<forall>b\<in>set new. n \<le> b \<Longrightarrow> list_evolves n l (new @ l)"
  unfolding list_evolves_def by (intro exI [of _ new] exI [of _ "\<lambda>b. True"]) simp

lemma list_evolves_trans:
  assumes "list_evolves m r s" "list_evolves n s t" "m \<le> n"
  shows "list_evolves m r t"
proof -
  obtain n1 P where 1: "s = n1 @ filter P r" "\<forall>b\<in>set n1. m \<le> b" using assms(1) unfolding list_evolves_def by blast
  obtain n2 Q where 2: "t = n2 @ filter Q s" "\<forall>b\<in>set n2. n \<le> b" using assms(2) unfolding list_evolves_def by blast
  have "t = (n2 @ filter Q n1) @ filter (\<lambda>b. P b \<and> Q b) r" "\<forall>b\<in>set (n2 @ filter Q n1). m \<le> b"
    using 1 2 assms(3) by (auto simp: conj_commute)
  then show ?thesis unfolding list_evolves_def by blast
qed

definition registers :: "nat \<Rightarrow> mtstate \<Rightarrow> bool" where
  "registers b st \<longleftrightarrow> (\<forall>bl. mt_bls st b = Some bl \<longrightarrow> b_reg bl = (mt_epfd st \<noteq> None \<and> 0 \<le> b_fd bl))"

definition evolves :: "mtstate \<Rightarrow> mtstate \<Rightarrow> bool" where
  "evolves st st' \<longleftrightarrow> mt_nextbl st \<le> mt_nextbl st' \<and> (mt_epfd st' = None \<longleftrightarrow> mt_epfd st = None) \<and> mt_now st' = mt_now st \<and>
     (\<forall>b<mt_nextbl st. frozen st' b = None \<or> frozen st' b = frozen st b) \<and>
     (\<forall>b. mt_nextbl st \<le> b \<longrightarrow> b < mt_nextbl st' \<longrightarrow> registers b st') \<and>
     (\<forall>fd. list_evolves (mt_nextbl st) (mt_fdlist st fd) (mt_fdlist st' fd)) \<and>
     list_evolves (mt_nextbl st) (mt_blockers st) (mt_blockers st')"

lemma evolves_refl [simp]: "evolves st st"
  by (auto simp: evolves_def)

lemma frozen_registers:
  assumes "frozen t b = None \<or> frozen t b = frozen s b" "mt_epfd t = None \<longleftrightarrow> mt_epfd s = None" "registers b s"
  shows "registers b t"
proof (cases "mt_bls t b")
  case (Some bl)
  with assms(1) obtain bl' where "mt_bls s b = Some bl'" "bl\<lparr>b_rev := 0\<rparr> = bl'\<lparr>b_rev := 0\<rparr>"
    by (cases "mt_bls s b") (auto simp: frozen_def)
  from this(2) have "b_reg bl = b_reg bl' \<and> b_fd bl = b_fd bl'" by (cases bl; cases bl') simp
  with \<open>mt_bls s b = Some bl'\<close> Some assms(2,3) show ?thesis by (simp add: registers_def)
qed (simp add: registers_def)

lemma evolves_trans:
  assumes "evolves r s" "evolves s t"
  shows "evolves r t"
proof -
  have n: "mt_nextbl r \<le> mt_nextbl s" using assms(1) by (simp add: evolves_def)
  have "registers b t" if "mt_nextbl r \<le> b" "b < mt_nextbl t" for b
  proof (cases "b < mt_nextbl s")
    case True
    with assms that have "frozen t b = None \<or> frozen t b = frozen s b" "mt_epfd t = None \<longleftrightarrow> mt_epfd s = None"
      "registers b s" by (simp_all add: evolves_def)
    then show ?thesis by (rule frozen_registers)
  next
    case False
    with assms(2) that show ?thesis by (simp add: evolves_def)
  qed
  moreover have "frozen t b = None \<or> frozen t b = frozen r b" if "b < mt_nextbl r" for b
  proof -
    have "frozen s b = None \<or> frozen s b = frozen r b" "frozen t b = None \<or> frozen t b = frozen s b"
      using assms that n by (simp_all add: evolves_def)
    then show ?thesis by auto
  qed
  moreover have "list_evolves (mt_nextbl r) (mt_fdlist r fd) (mt_fdlist t fd)" for fd
    using assms n list_evolves_trans [of "mt_nextbl r" "mt_fdlist r fd" "mt_fdlist s fd" "mt_nextbl s"]
    by (simp add: evolves_def)
  moreover have "list_evolves (mt_nextbl r) (mt_blockers r) (mt_blockers t)"
    using assms n list_evolves_trans [of "mt_nextbl r" "mt_blockers r" "mt_blockers s" "mt_nextbl s"]
    by (simp add: evolves_def)
  ultimately show ?thesis using assms by (auto simp: evolves_def)
qed

text \<open>The blockers \<open>bs\<close> have come, one after the other.\<close>

definition extended :: "nat list \<Rightarrow> mtstate \<Rightarrow> mtstate \<Rightarrow> bool" where
  "extended bs st st' \<longleftrightarrow> loop_inv st' \<and> mt_blockers st' = rev bs @ mt_blockers st \<and> distinct bs \<and>
     (\<forall>b. b \<notin> set bs \<longrightarrow> mt_bls st' b = mt_bls st b) \<and> (\<forall>b\<in>set bs. mt_nextbl st \<le> b \<and> b < mt_nextbl st') \<and>
     mt_nextbl st \<le> mt_nextbl st' \<and> same_threads st st' \<and> (mt_epfd st' = None \<longleftrightarrow> mt_epfd st = None) \<and>
     (\<forall>fd. \<exists>new. mt_fdlist st' fd = new @ mt_fdlist st fd \<and> set new \<subseteq> set bs) \<and> (\<forall>b\<in>set bs. registers b st')"

lemma extended_fdlist: "extended bs st st' \<Longrightarrow> \<exists>new. mt_fdlist st' fd = new @ mt_fdlist st fd \<and> set new \<subseteq> set bs"
  by (simp add: extended_def)

lemma extended_refl: "loop_inv st \<Longrightarrow> extended [] st st"
  by (simp add: extended_def)

lemma extended_enter:
  assumes "extended bs st st1" "\<not> b_reg bl" "enter pollable bl st1 = Inr (b, st2)"
  shows "extended (bs @ [b]) st st2" "\<exists>r. mt_bls st2 b = Some (bl\<lparr>b_reg := r\<rparr>)"
proof -
  have "loop_inv st1" using assms(1) by (simp add: extended_def)
  note e = enter_law [OF this assms(2,3)]
  show "\<exists>r. mt_bls st2 b = Some (bl\<lparr>b_reg := r\<rparr>)" using e(2,3) by (simp add: entered_def Let_def) blast
  have new: "b \<notin> set bs" "mt_nextbl st \<le> b" "mt_nextbl st2 = b + 1"
    using assms(1) e(2,3) by (auto simp: extended_def entered_def Let_def)
  have "\<exists>new. mt_fdlist st2 fd = new @ mt_fdlist st fd \<and> set new \<subseteq> insert b (set bs)" for fd
  proof -
    obtain new where "mt_fdlist st1 fd = new @ mt_fdlist st fd" "set new \<subseteq> set bs"
      using extended_fdlist [OF assms(1)] by blast
    then show ?thesis using e(2,3)
      by (auto simp: entered_def Let_def intro: exI [of _ new] exI [of _ "b # new"])
  qed
  moreover have "registers x st2" if x: "x \<in> set (bs @ [b])" for x
  proof (cases "x = b")
    case True
    then show ?thesis using e(2,3) by (auto simp: registers_def entered_def Let_def)
  next
    case False
    with x assms(1) have "registers x st1" by (simp add: extended_def)
    with False e(2,3) show ?thesis by (auto simp: registers_def entered_def Let_def)
  qed
  ultimately show "extended (bs @ [b]) st st2"
    using assms(1) e new unfolding extended_def
    by (fastforce simp: entered_def Let_def same_threads_def)
qed

lemma extended_fails:
  assumes "extended bs st st1" "enter pollable bl st1 = Inl st2"
  shows "extended bs st st2"
proof -
  have "loop_inv st1" using assms(1) by (simp add: extended_def)
  note e = enter_fails [OF this assms(2)]
  have "registers b st2 = registers b st1" for b by (simp add: registers_def e(1))
  then show ?thesis using assms(1) e(2) by (auto simp: extended_def same_threads_def e(1) less_SucI)
qed

lemma extended_leave:
  assumes "extended (bs @ [b]) st st1" "loop_inv st"
  shows "extended bs st (leave b st1)"
proof -
  have lst: "listed st" "fds_listed st" "listed st1" using assms by (simp_all add: extended_def loop_inv_def)
  have bs: "mt_nextbl st \<le> b" "b \<in> set (mt_blockers st1)" using assms(1) by (simp_all add: extended_def)
  have old: "b \<notin> set (mt_blockers st)" using lst(1) bs(1) by (auto simp: listed_def)
  moreover from this have "mt_bls st b = None" using lst(1) unfolding listed_def by (metis not_None_eq)
  ultimately have old: "mt_bls st b = None" "b \<notin> set (mt_blockers st)" by simp_all
  then have old: "mt_bls st b = None" "b \<notin> set (mt_blockers st)" "b \<notin> set (mt_fdlist st fd)" for fd
    using lst(2) by (simp_all add: fds_listed_def)
  obtain bl where "mt_bls st1 b = Some bl" using lst(3) bs(2) by (auto simp: listed_def)
  from leave_law [OF _ this] have l: "loop_inv (leave b st1)" "left b st1 (leave b st1)"
    using assms(1) by (simp_all add: extended_def)
  have "\<exists>new. mt_fdlist (leave b st1) fd = new @ mt_fdlist st fd \<and> set new \<subseteq> set bs" for fd
  proof -
    obtain new where n: "mt_fdlist st1 fd = new @ mt_fdlist st fd" "set new \<subseteq> set (bs @ [b])"
      using extended_fdlist [OF assms(1)] by blast
    have "distinct (mt_fdlist st1 fd)" using assms(1) by (auto simp: extended_def loop_inv_def fds_listed_def)
    then have "mt_fdlist (leave b st1) fd = remove1 b new @ mt_fdlist st fd" "set (remove1 b new) \<subseteq> set bs"
      using n old l(2) by (auto simp: left_def remove1_append remove1_idem)
    then show ?thesis by blast
  qed
  moreover have "registers x (leave b st1)" if "x \<in> set bs" for x
    using assms(1) l(2) that by (auto simp: extended_def left_def registers_def)
  ultimately show ?thesis
    using assms(1) l old by (auto simp: extended_def left_def same_threads_def)
qed

lemma extended_undo: "extended bs st st1 \<Longrightarrow> loop_inv st \<Longrightarrow> extended [] st (fold leave (rev bs) st1)"
proof (induction bs arbitrary: st1 rule: rev_induct)
  case (snoc b bs)
  from snoc.IH [OF extended_leave [OF snoc.prems]] snoc.prems show ?case by simp
qed simp

lemma extended_evolves:
  assumes "extended bs st st'" and loop: "loop_inv st"
  shows "evolves st st'"
proof -
  have "frozen st' b = frozen st b" if "b < mt_nextbl st" for b
  proof -
    have "\<forall>b\<in>set bs. mt_nextbl st \<le> b" "\<forall>b. b \<notin> set bs \<longrightarrow> mt_bls st' b = mt_bls st b"
      using assms by (simp_all add: extended_def)
    then show ?thesis using that by (metis frozen_def not_le)
  qed
  moreover have "list_evolves (mt_nextbl st) (mt_fdlist st fd) (mt_fdlist st' fd)" for fd
  proof -
    obtain new where "mt_fdlist st' fd = new @ mt_fdlist st fd" "set new \<subseteq> set bs"
      using extended_fdlist [OF assms(1)] by blast
    moreover from this have "\<forall>b\<in>set new. mt_nextbl st \<le> b" using assms(1) by (auto simp: extended_def)
    ultimately show ?thesis using list_evolves_append [of new] by simp
  qed
  moreover have "list_evolves (mt_nextbl st) (mt_blockers st) (mt_blockers st')"
    using assms list_evolves_append [of "rev bs"] by (simp add: extended_def)
  moreover have "registers b st'" if "mt_nextbl st \<le> b" "loop_inv st" for b
  proof (cases "b \<in> set bs")
    case False
    moreover have "mt_bls st b = None" using that by (intro listed_new) (simp_all add: loop_inv_def)
    ultimately have "mt_bls st' b = None" using assms(1) by (simp add: extended_def)
    then show ?thesis by (simp add: registers_def)
  qed (use assms in \<open>simp add: extended_def\<close>)
  ultimately show ?thesis using assms loop by (simp add: evolves_def extended_def same_threads_def)
qed

text \<open>The blockers \<open>bs\<close> have gone.\<close>

definition shrunk :: "nat list \<Rightarrow> mtstate \<Rightarrow> mtstate \<Rightarrow> bool" where
  "shrunk bs st st' \<longleftrightarrow> loop_inv st' \<and> mt_blockers st' = filter (\<lambda>b. b \<notin> set bs) (mt_blockers st) \<and>
     mt_bls st' = (\<lambda>b. if b \<in> set bs then None else mt_bls st b) \<and>
     mt_fdlist st' = (\<lambda>fd. filter (\<lambda>b. b \<notin> set bs) (mt_fdlist st fd)) \<and>
     mt_nextbl st' = mt_nextbl st \<and> same_threads st st' \<and> (mt_epfd st' = None \<longleftrightarrow> mt_epfd st = None)"

lemma fold_leave:
  assumes "loop_inv st" "distinct bs" "set bs \<subseteq> set (mt_blockers st)"
  shows "shrunk bs st (fold leave bs st)"
  using assms
proof (induction bs arbitrary: st)
  case Nil
  then show ?case by (simp add: shrunk_def)
next
  case (Cons b bs)
  obtain bl where "mt_bls st b = Some bl" using Cons.prems by (force simp: loop_inv_def listed_def)
  note l = leave_law [OF Cons.prems(1) this]
  have d: "distinct (mt_blockers st)" "distinct (mt_fdlist st fd)" for fd
    using Cons.prems(1) by (auto simp: loop_inv_def listed_def fds_listed_def)
  have "set bs \<subseteq> set (mt_blockers (leave b st))" using Cons.prems l(2) d(1) by (auto simp: left_def)
  with Cons.IH [of "leave b st"] l(1) Cons.prems(2) have "shrunk bs (leave b st) (fold leave (b # bs) st)" by simp
  then show ?case
    using l(2) d by (auto simp: shrunk_def left_def same_threads_def distinct_remove1_removeAll removeAll_filter_not_eq
      intro!: filter_cong)
qed

lemma shrunk_evolves:
  assumes "shrunk bs st st'"
  shows "evolves st st'"
proof -
  have "frozen st' b = None \<or> frozen st' b = frozen st b" for b using assms by (simp add: shrunk_def frozen_def)
  then show ?thesis using assms by (simp add: evolves_def shrunk_def same_threads_def)
qed

section \<open>\<open>block\<close> and \<open>mblock\<close>\<close>

lemma block_law:
  assumes "loop_inv st" "block pollable fd ev to t st = r"
  shows "case r of Inl st' \<Rightarrow> extended [] st st'
    | Inr (b, st') \<Rightarrow> extended [b] st st' \<and> (\<exists>bl. mt_bls st' b = Some bl \<and> b_th bl = t \<and> b_id bl < 0)"
proof (cases r)
  case (Inl st')
  with assms extended_fails [OF extended_refl [OF assms(1)]] show ?thesis by (simp add: block_def)
next
  case (Inr p)
  obtain b st' where p: "p = (b, st')" by fastforce
  from extended_enter [OF extended_refl [OF assms(1)] _ assms(2) [unfolded block_def Inr p]]
  show ?thesis by (auto simp: Inr p)
qed

lemma mblock_add_law:
  assumes "extended bs st st1" "loop_inv st"
    and "\<And>j. j < length bs \<Longrightarrow> \<exists>bl. mt_bls st1 (bs ! j) = Some bl \<and> b_th bl = t \<and> b_id bl = int j"
    and "mblock_add pollable to t (int (length bs)) spec bs st1 = r"
  shows "case r of Inl st' \<Rightarrow> extended [] st st'
    | Inr (bs', st') \<Rightarrow> extended bs' st st' \<and>
        (\<forall>j<length bs'. \<exists>bl. mt_bls st' (bs' ! j) = Some bl \<and> b_th bl = t \<and> b_id bl = int j)"
  using assms(1,3,4)
proof (induction spec arbitrary: bs st1)
  case Nil
  then show ?case by auto
next
  case (Cons s spec)
  obtain fd ev where s: "s = (fd, ev)" by fastforce
  let ?bl = "\<lparr>b_fd = fd, b_ev = ev, b_rev = 0, b_id = int (length bs), b_to = to, b_th = t, b_reg = False\<rparr>"
  show ?case
  proof (cases "enter pollable ?bl st1")
    case (Inl st2)
    with Cons.prems s extended_undo [OF extended_fails [OF Cons.prems(1) Inl] assms(2)] show ?thesis by auto
  next
    case (Inr p)
    obtain b st2 where p: "p = (b, st2)" by fastforce
    note e = extended_enter [OF Cons.prems(1) _ Inr [unfolded p]]
    have "\<exists>bl. mt_bls st2 ((bs @ [b]) ! j) = Some bl \<and> b_th bl = t \<and> b_id bl = int j" if "j < length (bs @ [b])" for j
    proof (cases "j < length bs")
      case True
      have "loop_inv st1" using Cons.prems(1) by (simp add: extended_def)
      from enter_law [OF this _ Inr [unfolded p]] have "entered ?bl st1 st2" "b = mt_nextbl st1" by simp_all
      moreover have "bs ! j \<noteq> mt_nextbl st1" using Cons.prems(1) nth_mem [OF True] by (fastforce simp: extended_def)
      ultimately have "mt_bls st2 (bs ! j) = mt_bls st1 (bs ! j)" by (simp add: entered_def Let_def)
      with Cons.prems(2) [OF True] True show ?thesis by (simp add: nth_append)
    next
      case False
      with that have "j = length bs" by simp
      with e(2) show ?thesis by (auto simp: nth_append)
    qed
    moreover have "mblock_add pollable to t (int (length (bs @ [b]))) spec (bs @ [b]) st2 = r"
      using Cons.prems(3) s Inr p by (simp add: add.commute)
    ultimately show ?thesis using Cons.IH [of "bs @ [b]" st2] e(1) by simp
  qed
qed

lemma mblock_law:
  assumes "loop_inv st" "mblock pollable to spec t st = r"
  shows "case r of Inl st' \<Rightarrow> extended [] st st'
    | Inr (bs, st') \<Rightarrow> extended bs st st' \<and>
        (\<forall>j<length bs. \<exists>bl. mt_bls st' (bs ! j) = Some bl \<and> b_th bl = t \<and> b_id bl = int j)"
  using mblock_add_law [OF extended_refl [OF assms(1)] assms(1), of t pollable "deadline to st" spec r] assms(2)
  by (simp add: mblock_def)

lemma loop_inv_cong:
  assumes "mt_fdlist st' = mt_fdlist st" "mt_bls st' = mt_bls st" "mt_epfd st' = mt_epfd st"
    "mt_blockers st' = mt_blockers st" "mt_nextbl st' = mt_nextbl st" "mt_heap st' = mt_heap st"
  shows "loop_inv st' = loop_inv st"
  using assms watched_cong [OF assms(1-3)] fds_listed_cong [OF assms(1,2)]
  by (simp add: loop_inv_def listed_def timed_def)

lemma loop_inv_threads [simp]:
  "loop_inv (push t a st) = loop_inv st" "loop_inv (park t w st) = loop_inv st"
  "loop_inv (mustart a st) = loop_inv st" "loop_inv (st\<lparr>mt_exit := s\<rparr>) = loop_inv st"
  "loop_inv (st\<lparr>mt_now := now\<rparr>) = loop_inv st" "loop_inv (st\<lparr>mt_stack := stk\<rparr>) = loop_inv st"
  by (rule loop_inv_cong; simp add: push_def park_def mustart_def)+

lemma evolves_cong:
  assumes "mt_fdlist s' = mt_fdlist s" "mt_bls s' = mt_bls s" "mt_epfd s' = mt_epfd s" "mt_nextbl s' = mt_nextbl s"
    "mt_blockers s' = mt_blockers s" "mt_now s' = mt_now s"
  shows "evolves r s' = evolves r s" "evolves s' r = evolves s r"
  using assms by (simp_all add: evolves_def frozen_def registers_def)

lemma evolves_threads [simp]:
  "evolves r (push t a st) = evolves r st" "evolves (push t a st) r = evolves st r"
  "evolves r (park t w st) = evolves r st" "evolves r (mustart a st) = evolves r st"
  "evolves r (st\<lparr>mt_exit := s\<rparr>) = evolves r st" "evolves (st\<lparr>mt_stack := stk\<rparr>) r = evolves st r"
  by (rule evolves_cong; simp add: push_def park_def mustart_def)+

section \<open>Every blocker belongs to a thread that waits\<close>

fun waits :: "mt_waiting \<Rightarrow> nat list" where
  "waits (AtYield k) = []"
| "waits (AtBlock b k) = [b]"
| "waits (AtMBlock bs k) = bs"

fun owned :: "(nat \<rightharpoonup> blocker) \<Rightarrow> nat \<Rightarrow> mt_waiting \<Rightarrow> bool" where
  "owned m t (AtYield k) \<longleftrightarrow> True"
| "owned m t (AtBlock b k) \<longleftrightarrow> (\<exists>bl. m b = Some bl \<and> b_th bl = t \<and> b_id bl < 0)"
| "owned m t (AtMBlock bs k) \<longleftrightarrow> (\<forall>i<length bs. \<exists>bl. m (bs ! i) = Some bl \<and> b_th bl = t \<and> b_id bl = int i)"

definition all_waits :: "(nat \<times> mt_waiting) list \<Rightarrow> nat multiset" where
  "all_waits ps = (\<Sum>p\<leftarrow>ps. mset (waits (snd p)))"

definition threads_inv :: "mtstate \<Rightarrow> bool" where
  "threads_inv st \<longleftrightarrow> distinct (map fst (mt_stack st) @ map fst (mt_parked st)) \<and>
     (\<forall>t\<in>set (map fst (mt_stack st) @ map fst (mt_parked st)). t < mt_next st) \<and>
     all_waits (mt_parked st) = mset (mt_blockers st) \<and>
     (\<forall>p\<in>set (mt_parked st). owned (mt_bls st) (fst p) (snd p))"

definition mt_inv :: "mtstate \<Rightarrow> bool" where
  "mt_inv st \<longleftrightarrow> loop_inv st \<and> threads_inv st"

lemma owned_cong: "(\<And>b. b \<in> set (waits w) \<Longrightarrow> m' b = m b) \<Longrightarrow> owned m' t w = owned m t w"
  by (cases w) auto

lemma owned_thread: "owned m t w \<Longrightarrow> b \<in> set (waits w) \<Longrightarrow> \<exists>bl. m b = Some bl \<and> b_th bl = t"
  by (cases w) (force simp: in_set_conv_nth)+

lemma all_waits_member: "p \<in> set ps \<Longrightarrow> mset (waits (snd p)) \<subseteq># all_waits ps"
  by (induction ps) (auto simp: all_waits_def intro: subset_mset.order_trans [OF _ mset_subset_eq_add_right])

lemma all_waits_delete:
  "distinct (map fst ps) \<Longrightarrow> map_of ps u = Some w \<Longrightarrow> all_waits ps = mset (waits w) + all_waits (AList.delete u ps)"
proof (induction ps)
  case (Cons p ps)
  then show ?case
  proof (cases "fst p = u")
    case True
    with Cons.prems have "AList.delete u ps = ps" by (auto intro!: AList.delete_idem)
    with True Cons.prems show ?thesis by (simp add: all_waits_def)
  next
    case False
    with Cons.prems Cons.IH show ?thesis by (simp add: all_waits_def add.left_commute)
  qed
qed simp

lemma all_waits_in: "b \<in># all_waits ps \<longleftrightarrow> (\<exists>p\<in>set ps. b \<in> set (waits (snd p)))"
  by (induction ps) (auto simp: all_waits_def)

lemma waiting_blockers:
  assumes "mt_inv st" "map_of (mt_parked st) u = Some w"
  shows "distinct (waits w)" "set (waits w) \<subseteq> set (mt_blockers st)"
proof -
  have "(u, w) \<in> set (mt_parked st)" using assms(2) by (rule map_of_SomeD)
  from all_waits_member [OF this] have s: "mset (waits w) \<subseteq># mset (mt_blockers st)"
    using assms(1) by (simp add: mt_inv_def threads_inv_def)
  then show "set (waits w) \<subseteq> set (mt_blockers st)" by (metis set_mset_mono set_mset_mset)
  have "distinct (mt_blockers st)" using assms(1) by (simp add: mt_inv_def loop_inv_def listed_def)
  then have "count (mset (mt_blockers st)) b \<le> 1" for b by (simp add: distinct_count_atmost_1)
  then have "count (mset (waits w)) b \<le> 1" for b using mset_subset_eq_count [OF s] le_trans by blast
  then have "count (mset (waits w)) b = (if b \<in> set (waits w) then 1 else 0)" for b
    by (auto simp: le_Suc_eq)
  then show "distinct (waits w)" by (simp add: distinct_count_atmost_1)
qed

text \<open>\<open>unpark\<close> keeps the invariant, and what the thread has waited for is gone.\<close>

lemma wake_shrunk:
  assumes "loop_inv st" "distinct (waits w)" "set (waits w) \<subseteq> set (mt_blockers st)"
  shows "\<exists>a st1. wake w v st = (a, st1) \<and> shrunk (waits w) st st1"
  using assms fold_leave [OF assms]
  by (cases w) (auto simp: Let_def shrunk_def)

lemma unpark_inv:
  assumes "mt_inv st" "map_of (mt_parked st) u = Some w"
  shows "\<exists>st'. unpark u v st = Inr st' \<and> mt_inv st' \<and> evolves st st' \<and> (\<forall>b\<in>set (waits w). mt_bls st' b = None) \<and>
    map fst (mt_stack st') = u # map fst (mt_stack st)"
proof -
  let ?st1 = "st\<lparr>mt_parked := AList.delete u (mt_parked st)\<rparr>"
  note wb = waiting_blockers [OF assms]
  have inv: "loop_inv st" "threads_inv st" using assms(1) by (simp_all add: mt_inv_def)
  have "watched ?st1 = watched st" by (rule watched_cong) simp_all
  then have i1: "loop_inv ?st1" using inv(1) by (simp add: loop_inv_def listed_def fds_listed_def timed_def)
  obtain a st2 where w: "wake w v ?st1 = (a, st2)" "shrunk (waits w) ?st1 st2"
    using wake_shrunk [OF i1, of w v] wb by auto
  let ?st' = "push u a st2"
  have bls: "mt_bls st2 = (\<lambda>b. if b \<in> set (waits w) then None else mt_bls st b)"
    and bs: "mt_blockers st2 = filter (\<lambda>b. b \<notin> set (waits w)) (mt_blockers st)"
    and same: "mt_stack st2 = mt_stack st" "mt_parked st2 = AList.delete u (mt_parked st)" "mt_next st2 = mt_next st"
    and l2: "loop_inv st2"
    using w(2) by (auto simp: shrunk_def same_threads_def fun_eq_iff)
  have d: "distinct (map fst (mt_parked st))" using inv(2) by (simp add: threads_inv_def)
  have aw: "mset (mt_blockers st) = mset (waits w) + all_waits (AList.delete u (mt_parked st))"
    using all_waits_delete [OF d assms(2)] inv(2) by (simp add: threads_inv_def)
  have db: "distinct (mt_blockers st)" using inv(1) by (simp add: loop_inv_def listed_def)
  have aw': "all_waits (AList.delete u (mt_parked st)) = mset (mt_blockers st2)"
  proof (rule multiset_eqI)
    fix b
    have one: "count (mset xs) b = (if b \<in> set xs then 1 else 0)" if "distinct xs" for xs :: "nat list"
      using that by (simp add: distinct_count_atmost_1)
    have "count (mset (mt_blockers st)) b = count (mset (waits w)) b + count (all_waits (AList.delete u (mt_parked st))) b"
      using aw by simp
    moreover have "distinct (mt_blockers st2)" using db by (simp add: bs)
    ultimately show "count (all_waits (AList.delete u (mt_parked st))) b = count (mset (mt_blockers st2)) b"
      unfolding one [OF db] one [OF wb(1)] one [OF \<open>distinct (mt_blockers st2)\<close>] using wb(2)
      by (auto simp: bs split: if_splits)
  qed
  have "owned (mt_bls st2) (fst p) (snd p)" if p: "p \<in> set (AList.delete u (mt_parked st))" for p
  proof -
    have "p \<in> set (mt_parked st)" using p by (auto simp: AList.delete_eq)
    then have o: "owned (mt_bls st) (fst p) (snd p)" using inv(2) by (simp add: threads_inv_def)
    have "b \<notin> set (waits w)" if "b \<in> set (waits (snd p))" for b
    proof -
      have "b \<in># all_waits (AList.delete u (mt_parked st))" using that p all_waits_in by blast
      then have "b \<in> set (mt_blockers st2)" by (simp add: aw')
      then show ?thesis by (simp add: bs)
    qed
    then have "owned (mt_bls st2) (fst p) (snd p) = owned (mt_bls st) (fst p) (snd p)"
      by (intro owned_cong) (simp add: bls)
    with o show ?thesis by simp
  qed
  moreover have "u \<in> fst ` set (mt_parked st)" using assms(2) by (force dest: map_of_SomeD)
  moreover have "set (map fst (AList.delete u (mt_parked st))) = set (map fst (mt_parked st)) - {u}"
    "distinct (map fst (AList.delete u (mt_parked st)))"
    using d by (auto simp: AList.delete_eq distinct_map_filter)
  ultimately have "threads_inv ?st'"
    using inv(2) by (auto simp: threads_inv_def push_def same aw')
  moreover have "loop_inv ?st'"
  proof -
    show ?thesis using l2 by simp
  qed
  moreover have "evolves st ?st'"
    using shrunk_evolves [OF w(2)] evolves_cong(2) [of ?st1 st st2] by simp
  moreover have "unpark u v st = Inr ?st'" using assms(2) w(1) by (simp add: unpark_def)
  ultimately show ?thesis by (intro exI [of _ ?st']) (simp add: mt_inv_def bls push_def same)
qed

section \<open>Bursts\<close>

definition free_thread :: "nat \<Rightarrow> mtstate \<Rightarrow> bool" where
  "free_thread t st \<longleftrightarrow> t < mt_next st \<and> t \<notin> fst ` set (mt_stack st) \<and> t \<notin> fst ` set (mt_parked st)"

text \<open>The invariant while the blockers \<open>bs\<close> belong to the thread that is running.\<close>

definition threads_but :: "nat list \<Rightarrow> mtstate \<Rightarrow> bool" where
  "threads_but bs st \<longleftrightarrow> distinct (map fst (mt_stack st) @ map fst (mt_parked st)) \<and>
     (\<forall>t\<in>set (map fst (mt_stack st) @ map fst (mt_parked st)). t < mt_next st) \<and>
     mset bs + all_waits (mt_parked st) = mset (mt_blockers st) \<and>
     (\<forall>p\<in>set (mt_parked st). owned (mt_bls st) (fst p) (snd p))"

lemma threads_but_Nil: "threads_but [] st = threads_inv st"
  by (simp add: threads_but_def threads_inv_def)

lemma mt_inv_push: "mt_inv (push t a st) \<longleftrightarrow> mt_inv st \<and> free_thread t st"
proof -
  have f: "mt_stack (push t a st) = (t, a) # mt_stack st" "mt_parked (push t a st) = mt_parked st"
    "mt_next (push t a st) = mt_next st" "mt_bls (push t a st) = mt_bls st" "mt_blockers (push t a st) = mt_blockers st"
    by (simp_all add: push_def)
  show ?thesis unfolding mt_inv_def threads_inv_def free_thread_def f loop_inv_threads
    by (simp add: ball_Un) blast
qed

lemma mt_inv_park:
  assumes "loop_inv st" "threads_but (waits w) st" "free_thread t st" "owned (mt_bls st) t w"
  shows "mt_inv (park t w st)"
proof -
  have "threads_inv (park t w st)"
    using assms by (auto simp: threads_inv_def threads_but_def free_thread_def park_def all_waits_def)
  then show ?thesis using assms(1) by (simp add: mt_inv_def)
qed

lemma extended_threads:
  assumes "extended bs st st'" "mt_inv st"
  shows "threads_but bs st'" "free_thread t st \<Longrightarrow> free_thread t st'"
proof -
  have s: "mt_stack st' = mt_stack st" "mt_parked st' = mt_parked st" "mt_next st' = mt_next st"
    using assms(1) by (simp_all add: extended_def same_threads_def)
  then show "free_thread t st \<Longrightarrow> free_thread t st'" by (simp add: free_thread_def)
  have "owned (mt_bls st') (fst p) (snd p)" if p: "p \<in> set (mt_parked st)" for p
  proof -
    have "b \<notin> set bs" if "b \<in> set (waits (snd p))" for b
    proof -
      have "b \<in># all_waits (mt_parked st)" using all_waits_in p that by blast
      then have "b < mt_nextbl st" using assms(2) by (auto simp: mt_inv_def threads_inv_def loop_inv_def listed_def)
      then show ?thesis using assms(1) by (force simp: extended_def)
    qed
    then have "owned (mt_bls st') (fst p) (snd p) = owned (mt_bls st) (fst p) (snd p)"
      using assms(1) by (intro owned_cong) (simp add: extended_def)
    then show ?thesis using assms(2) p by (simp add: mt_inv_def threads_inv_def)
  qed
  then show "threads_but bs st'"
    using assms by (simp add: threads_but_def s mt_inv_def threads_inv_def extended_def)
qed

lemma extended_Nil_inv: "extended [] st st' \<Longrightarrow> mt_inv st \<Longrightarrow> mt_inv st'"
  using extended_threads(1) [of "[]"] by (simp add: mt_inv_def threads_but_Nil extended_def)

lemma mustart_inv: "mt_inv st \<Longrightarrow> mt_inv (mustart a st)"
proof -
  assume i: "mt_inv st"
  have "loop_inv (st\<lparr>mt_next := mt_next st + 1\<rparr>) = loop_inv st" by (rule loop_inv_cong) simp_all
  then have "mt_inv (st\<lparr>mt_next := mt_next st + 1\<rparr>)"
    using i by (auto simp: mt_inv_def threads_inv_def less_Suc_eq)
  moreover have "free_thread (mt_next st) (st\<lparr>mt_next := mt_next st + 1\<rparr>)"
  proof -
    have "\<forall>t\<in>set (map fst (mt_stack st) @ map fst (mt_parked st)). t < mt_next st"
      using i by (simp add: mt_inv_def threads_inv_def)
    then have "mt_next st \<notin> set (map fst (mt_stack st) @ map fst (mt_parked st))" by (meson less_irrefl)
    then show ?thesis by (simp add: free_thread_def)
  qed
  ultimately show ?thesis by (simp add: mustart_def mt_inv_push)
qed

lemma call_inv:
  assumes "mt_inv st" "free_thread t st" "call pollable t a st = Inr st'"
  shows "mt_inv st' \<and> evolves st st'"
proof (cases a)
  case Ends
  with assms show ?thesis by simp
next
  case (Yield k)
  have "threads_but [] st" using assms(1) by (simp add: mt_inv_def threads_but_Nil)
  with Yield assms mt_inv_park [of st "AtYield k" t] show ?thesis by (auto simp: mt_inv_def)
next
  case (Start c d)
  with assms mustart_inv [of "push t d st" c] show ?thesis by (auto simp: mt_inv_push)
next
  case (Resume u v d)
  then have u: "unpark u v (push t d st) = Inr st'" using assms(3) by simp
  then obtain w where w: "map_of (mt_parked (push t d st)) u = Some w"
    by (auto simp: unpark_def split: option.splits)
  have "mt_inv (push t d st)" using assms(1,2) by (simp add: mt_inv_push)
  from unpark_inv [OF this w, of v] u show ?thesis by simp
next
  case (Block fd ev to k)
  have li: "loop_inv st" using assms(1) by (simp add: mt_inv_def)
  show ?thesis
  proof (cases "block pollable fd ev to t st")
    case (Inl st1)
    with block_law [OF li Inl] have "extended [] st st1" by simp
    with Inl Block assms extended_Nil_inv [of st st1] extended_threads(2) [of "[]" st st1 t] extended_evolves [of "[]" st st1] li
    show ?thesis by (auto simp: mt_inv_push)
  next
    case (Inr p)
    obtain b st1 where p: "p = (b, st1)" by fastforce
    from block_law [OF li Inr] p have e: "extended [b] st st1"
      and o: "owned (mt_bls st1) t (AtBlock b k)" by simp_all
    have "loop_inv st1" using e by (simp add: extended_def)
    from mt_inv_park [OF this _ _ o] extended_threads [OF e assms(1)] assms(2)
    have "mt_inv (park t (AtBlock b k) st1)" by simp
    with Inr p Block assms(3) extended_evolves [OF e li] show ?thesis by auto
  qed
next
  case (MBlock to spec k)
  have li: "loop_inv st" using assms(1) by (simp add: mt_inv_def)
  show ?thesis
  proof (cases "mblock pollable to spec t st")
    case (Inl st1)
    with mblock_law [OF li Inl] have "extended [] st st1" by simp
    with Inl MBlock assms extended_Nil_inv [of st st1] extended_threads(2) [of "[]" st st1 t] extended_evolves [of "[]" st st1] li
    show ?thesis by (auto simp: mt_inv_push)
  next
    case (Inr p)
    obtain bs st1 where p: "p = (bs, st1)" by fastforce
    from mblock_law [OF li Inr] p have e: "extended bs st st1"
      and o: "owned (mt_bls st1) t (AtMBlock bs k)" by simp_all
    have "loop_inv st1" using e by (simp add: extended_def)
    from mt_inv_park [OF this _ _ o] extended_threads [OF e assms(1)] assms(2)
    have "mt_inv (park t (AtMBlock bs k) st1)" by simp
    with Inr p MBlock assms(3) extended_evolves [OF e li] show ?thesis by auto
  qed
next
  case (ExitLoop s c)
  have "mt_inv (st\<lparr>mt_exit := s\<rparr>)" "free_thread t (st\<lparr>mt_exit := s\<rparr>)"
    using assms(1,2) by (simp_all add: mt_inv_def threads_inv_def free_thread_def)
  with ExitLoop assms show ?thesis by (auto simp: mt_inv_push)
qed

lemma run_inv:
  "run pollable st = Inr st' \<Longrightarrow> mt_inv st \<Longrightarrow> mt_inv st' \<and> mt_stack st' = [] \<and> evolves st st'"
proof (induction pollable st rule: run.induct)
  case (1 pollable st)
  show ?case
  proof (cases "mt_stack st")
    case Nil
    with 1(2,3) show ?thesis by (subst (asm) run.simps) auto
  next
    case (Cons p rest)
    obtain t a where p: "p = (t, a)" by fastforce
    let ?st0 = "st\<lparr>mt_stack := rest\<rparr>"
    from 1(2) Cons p obtain st1 where c: "call pollable t a ?st0 = Inr st1" "run pollable st1 = Inr st'"
      by (subst (asm) run.simps) (auto split: sum.splits)
    have "push t a ?st0 = st" using Cons p by (simp add: push_def)
    then have "mt_inv ?st0" "free_thread t ?st0" using 1(3) mt_inv_push [of t a ?st0] by simp_all
    note ci = call_inv [OF this c(1)]
    have "mt_inv st' \<and> mt_stack st' = [] \<and> evolves st1 st'"
      by (rule 1(1) [OF Cons p [symmetric] c(1) c(2)]) (use ci in blast)
    then show ?thesis using ci by (auto intro: evolves_trans)
  qed
qed

text \<open>A resumption from outside: what the thread has waited for is gone for good.\<close>

lemma evolves_gone: "evolves st st' \<Longrightarrow> mt_bls st b = None \<Longrightarrow> b < mt_nextbl st \<Longrightarrow> mt_bls st' b = None"
  by (force simp: evolves_def frozen_def)

lemma resume_inv:
  assumes "mt_inv st" "map_of (mt_parked st) u = Some w" "resume pollable u v st = Inr st'"
  shows "mt_inv st' \<and> mt_stack st' = [] \<and> evolves st st' \<and> (\<forall>b\<in>set (waits w). mt_bls st' b = None)"
proof -
  obtain st1 where s: "unpark u v st = Inr st1" "mt_inv st1" "evolves st st1" "\<forall>b\<in>set (waits w). mt_bls st1 b = None"
    using unpark_inv [OF assms(1,2), of v] by auto
  with assms(3) have "run pollable st1 = Inr st'" by (simp add: resume_def)
  note r = run_inv [OF this s(2)]
  have "mt_bls st' b = None" if b: "b \<in> set (waits w)" for b
  proof -
    have "b < mt_nextbl st" using waiting_blockers(2) [OF assms(1,2)] b assms(1)
      by (auto simp: mt_inv_def loop_inv_def listed_def)
    then have "b < mt_nextbl st1" using s(3) by (simp add: evolves_def)
    with r s(4) b show ?thesis by (auto intro: evolves_gone)
  qed
  with r s(3) show ?thesis by (auto intro: evolves_trans)
qed

text \<open>The thread of a blocker waits for it.\<close>

lemma blocker_thread:
  assumes "mt_inv st" "mt_bls st b = Some bl"
  shows "\<exists>w. map_of (mt_parked st) (b_th bl) = Some w \<and> b \<in> set (waits w)"
proof -
  have inv: "all_waits (mt_parked st) = mset (mt_blockers st)" "distinct (map fst (mt_parked st))"
    "\<forall>p\<in>set (mt_parked st). owned (mt_bls st) (fst p) (snd p)" "b \<in> set (mt_blockers st)"
    using assms by (auto simp: mt_inv_def threads_inv_def loop_inv_def listed_def)
  then obtain t w where p: "(t, w) \<in> set (mt_parked st)" "b \<in> set (waits w)"
    using all_waits_in [of b "mt_parked st"] by fastforce
  then have "b_th bl = t" using inv(3) owned_thread [of "mt_bls st" t w b] assms(2) by fastforce
  with p inv(2) show ?thesis by auto
qed

lemma set_rev_inv: "mt_inv st \<Longrightarrow> mt_inv (set_rev b ev st)" "evolves st (set_rev b ev st)"
proof -
  let ?s = "set_rev b ev st"
  have f: "mt_fdlist ?s = mt_fdlist st" "mt_epfd ?s = mt_epfd st" "mt_blockers ?s = mt_blockers st"
    "mt_nextbl ?s = mt_nextbl st" "mt_heap ?s = mt_heap st" "mt_parked ?s = mt_parked st"
    "mt_stack ?s = mt_stack st" "mt_next ?s = mt_next st"
    "mt_bls ?s = (mt_bls st)(b := map_option (\<lambda>bl. bl\<lparr>b_rev := ev\<rparr>) (mt_bls st b))"
    by (simp_all add: set_rev_def)
  have "events_of ?s bs = events_of st bs" if "\<forall>x\<in>set bs. mt_bls st x \<noteq> None" for bs
    using that by (intro events_of_cong) (auto simp: f)
  moreover have "\<forall>x\<in>set (mt_fdlist st fd). mt_bls st x \<noteq> None" if "fds_listed st" for fd
    using that by (auto simp: fds_listed_def)
  ultimately have "mirror ?s = mirror st" if "fds_listed st" using that by (auto simp: mirror_def f fun_eq_iff)
  then have w: "watched ?s = watched st" if "fds_listed st"
    using that by (auto simp: watched_def f split: option.split)
  have fl: "fds_listed ?s = fds_listed st"
    by (auto simp: fds_listed_def f split: if_splits)
      (metis (no_types, lifting) blocker.select_convs(1,7) blocker.surjective blocker.update_convs(3))+
  have o: "owned (mt_bls ?s) t w" if "owned (mt_bls st) t w" for t w
    using that by (cases w) (fastforce simp: f)+
  show "mt_inv ?s" if "mt_inv st"
    using that w fl o by (auto simp: mt_inv_def loop_inv_def threads_inv_def listed_def timed_def f split: if_splits)
  show "evolves st ?s"
    by (auto simp: evolves_def frozen_def f option.map_comp o_def) (simp_all add: set_rev_def)
qed

lemma wakeup_inv:
  assumes "mt_inv st" "wakeup pollable b ev st = Inr st'"
  shows "mt_inv st' \<and> mt_stack st' = [] \<and> evolves st st' \<and> mt_bls st' b = None"
proof -
  obtain bl where bl: "mt_bls st b = Some bl" using assms(2) by (auto simp: wakeup_def split: option.splits)
  obtain w where w: "map_of (mt_parked st) (b_th bl) = Some w" "b \<in> set (waits w)"
    using blocker_thread [OF assms(1) bl] by blast
  show ?thesis
  proof (cases "b_id bl < 0")
    case True
    with assms(2) bl have "resume pollable (b_th bl) ev st = Inr st'" by (simp add: wakeup_def)
    from resume_inv [OF assms(1) w(1) this] w(2) show ?thesis by blast
  next
    case False
    with assms(2) bl have r: "resume pollable (b_th bl) (b_id bl) (set_rev b ev st) = Inr st'" by (simp add: wakeup_def)
    have "map_of (mt_parked (set_rev b ev st)) (b_th bl) = Some w" using w(1) by (simp add: set_rev_def)
    from resume_inv [OF set_rev_inv(1) [OF assms(1)] this r] w(2) set_rev_inv(2) [of st b ev]
    show ?thesis by (auto intro: evolves_trans)
  qed
qed

end
