(* ===== verification/Mtloop.thy ===== *)
theory Mtloop
  imports Mtinv
begin

text \<open>
  What the event loop of \<open>src/lib/mtio-epoll.c\<close> promises the threads: the kernel watches what they wait for, and every
  turn resumes those that an event or the time allows to go on.
\<close>

section \<open>Lists while threads run\<close>

definition bl_alive :: "mtstate \<Rightarrow> nat \<Rightarrow> bool" where
  "bl_alive st b \<longleftrightarrow> mt_bls st b \<noteq> None"

lemma evolves_gone': "evolves st st' \<Longrightarrow> mt_inv st \<Longrightarrow> b \<in> set (mt_blockers st) \<Longrightarrow> \<not> bl_alive st b \<Longrightarrow> \<not> bl_alive st' b"
  by (auto simp: bl_alive_def mt_inv_def loop_inv_def listed_def)

lemma evolves_blocker:
  assumes "evolves st st'" "mt_bls st b = Some bl" "listed st" "mt_bls st' b = Some bl'"
  shows "bl'\<lparr>b_rev := 0\<rparr> = bl\<lparr>b_rev := 0\<rparr>"
proof -
  have "b < mt_nextbl st" using assms(2,3) by (auto simp: listed_def)
  then have "frozen st' b = None \<or> frozen st' b = frozen st b" using assms(1) by (simp add: evolves_def)
  then show ?thesis using assms(2,4) by (simp add: frozen_def)
qed

lemma same_but_rev:
  assumes "bl'\<lparr>b_rev := 0\<rparr> = bl\<lparr>b_rev := 0\<rparr>"
  shows "b_fd bl' = b_fd bl" "b_ev bl' = b_ev bl" "b_id bl' = b_id bl" "b_to bl' = b_to bl" "b_th bl' = b_th bl"
    "b_reg bl' = b_reg bl"
  using assms by (cases bl; cases bl'; simp)+

text \<open>Of a list that was there before, those are left that have not gone.\<close>

lemma list_rest:
  assumes "list_evolves n (pre @ rest) l'" "\<And>b. b \<in> set rest \<Longrightarrow> b < n" "distinct (pre @ rest)"
    and "\<And>b. b \<in> set rest \<Longrightarrow> b \<in> set l' \<longleftrightarrow> Q b"
  shows "\<exists>pre'. l' = pre' @ filter Q rest"
proof -
  obtain new P where l: "l' = new @ filter P (pre @ rest)" "\<forall>b\<in>set new. n \<le> b"
    using assms(1) unfolding list_evolves_def by blast
  have "P b = Q b" if "b \<in> set rest" for b
  proof -
    have "b \<notin> set new" using l(2) assms(2) [of b] that by force
    moreover have "b \<notin> set pre" using assms(3) that by auto
    ultimately have "b \<in> set l' \<longleftrightarrow> P b" using l(1) that by auto
    then show ?thesis using assms(4) [OF that] by simp
  qed
  then have "filter P rest = filter Q rest" by (rule filter_cong [OF refl])
  then show ?thesis using l(1) by auto
qed

lemma fdlist_rest:
  assumes "mt_inv st" "mt_inv st1" "evolves st st1" "mt_fdlist st fd = pre @ rest"
  shows "\<exists>pre'. mt_fdlist st1 fd = pre' @ filter (bl_alive st1) rest"
proof (rule list_rest)
  have inv: "listed st" "fds_listed st" "listed st1" "fds_listed st1" using assms(1,2) by (simp_all add: mt_inv_def loop_inv_def)
  show "list_evolves (mt_nextbl st) (pre @ rest) (mt_fdlist st1 fd)"
    using assms(3) unfolding evolves_def assms(4) [symmetric] by blast
  show "distinct (pre @ rest)" using inv(2) assms(4) unfolding fds_listed_def by metis
  fix b assume "b \<in> set rest"
  then have "b \<in> set (mt_fdlist st fd)" using assms(4) by simp
  then obtain bl where bl: "mt_bls st b = Some bl" "b_reg bl" "b_fd bl = fd" using inv(2) by (auto simp: fds_listed_def)
  then show "b < mt_nextbl st" using inv(1) by (auto simp: listed_def)
  show "b \<in> set (mt_fdlist st1 fd) \<longleftrightarrow> bl_alive st1 b"
  proof
    assume "bl_alive st1 b"
    then obtain bl1 where 1: "mt_bls st1 b = Some bl1" by (auto simp: bl_alive_def)
    note same_but_rev [OF evolves_blocker [OF assms(3) bl(1) inv(1) 1]]
    then show "b \<in> set (mt_fdlist st1 fd)" using bl 1 inv(4) by (auto simp: fds_listed_def)
  qed (use inv(4) in \<open>auto simp: fds_listed_def bl_alive_def\<close>)
qed

lemma blockers_rest:
  assumes "mt_inv st" "mt_inv st1" "evolves st st1" "mt_blockers st = pre @ rest"
  shows "\<exists>pre'. mt_blockers st1 = pre' @ filter (bl_alive st1) rest"
proof (rule list_rest)
  have inv: "listed st" "listed st1" using assms(1,2) by (simp_all add: mt_inv_def loop_inv_def)
  show "list_evolves (mt_nextbl st) (pre @ rest) (mt_blockers st1)"
    using assms(3) unfolding evolves_def assms(4) [symmetric] by blast
  show "distinct (pre @ rest)" using inv(1) assms(4) by (simp add: listed_def)
  fix b assume "b \<in> set rest"
  then show "b < mt_nextbl st" using inv(1) assms(4) by (simp add: listed_def)
  show "b \<in> set (mt_blockers st1) \<longleftrightarrow> bl_alive st1 b" using inv(2) by (simp add: listed_def bl_alive_def)
qed

lemma after_next: "distinct (pre @ b # rest) \<Longrightarrow> after (pre @ b # rest) b = first_in rest"
proof (induction pre)
  case Nil
  then show ?case by (cases rest) (simp_all add: first_in_def)
next
  case (Cons c pre)
  then show ?case by (cases pre; cases rest) (auto simp: first_in_def)
qed

lemma first_in_filter: "first_in rest = Some d \<Longrightarrow> Q d \<Longrightarrow> first_in (filter Q rest) = Some d"
  by (cases rest) (auto simp: first_in_def)

lemma first_in_simps [simp]: "first_in [] = None" "first_in (b # bs) = Some b"
  by (simp_all add: first_in_def)

section \<open>The events of a descriptor\<close>

definition hit :: "int \<Rightarrow> blocker \<Rightarrow> bool" where
  "hit ev bl \<longleftrightarrow> ev < 0 \<or> ev AND b_ev bl \<noteq> 0"

lemma dispatch_inv:
  "dispatch n pollable fd ev p st = Inr st' \<Longrightarrow> mt_inv st \<Longrightarrow> mt_stack st = [] \<Longrightarrow>
    mt_inv st' \<and> mt_stack st' = [] \<and> evolves st st'"
proof (induction n pollable fd ev p st rule: dispatch.induct)
  case (3 n pollable fd ev b st)
  obtain bl where bl: "mt_bls st b = Some bl" using 3(3) by (auto split: option.splits)
  show ?case
  proof (cases "ev < 0 \<or> ev AND b_ev bl \<noteq> 0")
    case True
    with 3(3) bl obtain st1 where w: "wakeup pollable b ev st = Inr st1"
      "dispatch n pollable fd ev (after (mt_fdlist st fd) b) st1 = Inr st'"
      by (auto simp: Let_def split: sum.splits)
    note wi = wakeup_inv [OF 3(4) w(1)]
    have "mt_inv st' \<and> mt_stack st' = [] \<and> evolves st1 st'"
      by (rule 3(1) [OF bl refl True w]) (use wi in auto)
    with wi show ?thesis by (auto intro: evolves_trans)
  next
    case False
    show ?thesis by (rule 3(2) [OF bl refl False]) (use 3(3-5) bl False in \<open>auto simp: Let_def\<close>)
  qed
qed simp_all

text \<open>All that the event concerns have been resumed, whatever the threads have done to the list.\<close>

lemma dispatch_serves:
  assumes "dispatch n pollable fd ev (first_in rest) st = Inr st'" "mt_inv st" "mt_stack st = []"
    and "mt_fdlist st fd = pre @ rest" "b \<in> set rest" "mt_bls st b = Some bl" "hit ev bl"
  shows "\<not> bl_alive st' b"
  using assms
proof (induction n arbitrary: rest pre st bl)
  case 0
  then show ?case by (cases rest) simp_all
next
  case (Suc n)
  obtain c r where rest: "rest = c # r" using Suc.prems(5) by (cases rest) auto
  have inv: "listed st" "fds_listed st" using Suc.prems(2) by (simp_all add: mt_inv_def loop_inv_def)
  have d: "distinct (pre @ c # r)" using inv(2) Suc.prems(4) rest unfolding fds_listed_def by metis
  have nb: "after (mt_fdlist st fd) c = first_in r" using after_next [OF d] Suc.prems(4) rest by simp
  obtain cl where cl: "mt_bls st c = Some cl" using Suc.prems(1) rest by (auto split: option.splits)
  have new: "b < mt_nextbl st" using inv(1) Suc.prems(6) by (auto simp: listed_def)
  show ?case
  proof (cases "hit ev cl")
    case False
    with Suc.prems(1) rest cl nb have "dispatch n pollable fd ev (first_in r) st = Inr st'"
      by (simp add: hit_def Let_def)
    moreover have "b \<in> set r" using Suc.prems(5,6,7) rest cl False by auto
    ultimately show ?thesis using Suc.IH [of r st "pre @ [c]" bl] Suc.prems rest by simp
  next
    case True
    with Suc.prems(1) rest cl nb obtain st1 where w: "wakeup pollable c ev st = Inr st1"
      "dispatch n pollable fd ev (first_in r) st1 = Inr st'"
      by (auto simp: hit_def Let_def split: sum.splits)
    note wi = wakeup_inv [OF Suc.prems(2) w(1)]
    have evo: "evolves st1 st'" using dispatch_inv [OF w(2)] wi by blast
    show ?thesis
    proof (cases "bl_alive st1 b")
      case False
      have "b < mt_nextbl st1" using new wi by (simp add: evolves_def)
      then show ?thesis using evolves_gone [OF evo] False by (simp add: bl_alive_def)
    next
      case True
      then have "b \<noteq> c" using wi by (auto simp: bl_alive_def)
      then have br: "b \<in> set r" using Suc.prems(5) rest by simp
      then obtain e r' where r: "r = e # r'" by (cases r) auto
      have e: "bl_alive st1 e" using w(2) r by (cases n) (auto simp: bl_alive_def split: option.splits)
      obtain pre' where p: "mt_fdlist st1 fd = pre' @ filter (bl_alive st1) r"
        using fdlist_rest [of st st1 fd "pre @ [c]" r] Suc.prems(2,4) rest wi by auto
      obtain bl1 where bl1: "mt_bls st1 b = Some bl1" using True by (auto simp: bl_alive_def)
      then have "hit ev bl1" using same_but_rev(2) [OF evolves_blocker [OF _ Suc.prems(6) inv(1) bl1]] wi Suc.prems(7)
        by (simp add: hit_def)
      moreover have "first_in r = first_in (filter (bl_alive st1) r)" using e r by simp
      ultimately show ?thesis
        using Suc.IH [of "filter (bl_alive st1) r" st1 pre' bl1] w(2) wi p br True bl1 by simp
    qed
  qed
qed

text \<open>The length of the list is fuel enough.\<close>

lemma run_not_endless: "run pollable st \<noteq> Inl Endless"
proof (induction pollable st rule: run.induct)
  case (1 pollable st)
  have c: "call pollable t a st0 \<noteq> Inl Endless" for t a st0
    by (cases a) (auto simp: unpark_def split: option.splits sum.splits prod.splits)
  show ?case
  proof (cases "mt_stack st")
    case Nil
    then show ?thesis by (subst run.simps) simp
  next
    case (Cons p rest)
    obtain t a where p: "p = (t, a)" by fastforce
    show ?thesis
    proof (cases "call pollable t a (st\<lparr>mt_stack := rest\<rparr>)")
      case (Inl e)
      with c [of t a] Cons p show ?thesis by (subst run.simps) auto
    next
      case (Inr st1)
      with 1 [OF Cons p [symmetric] Inr] Cons p show ?thesis by (subst run.simps) simp
    qed
  qed
qed

lemma wakeup_not_endless: "wakeup pollable b ev st \<noteq> Inl Endless"
  using run_not_endless by (auto simp: wakeup_def resume_def unpark_def split: option.splits sum.splits prod.splits)

lemma dispatch_ends:
  assumes "mt_inv st" "mt_fdlist st fd = pre @ rest" "length rest \<le> n"
  shows "dispatch n pollable fd ev (first_in rest) st \<noteq> Inl Endless"
  using assms
proof (induction n arbitrary: rest pre st)
  case 0
  then show ?case by simp
next
  case (Suc n)
  show ?case
  proof (cases rest)
    case Nil
    then show ?thesis by simp
  next
    case (Cons c r)
    have d: "distinct (pre @ c # r)" using Suc.prems(1,2) Cons unfolding mt_inv_def loop_inv_def fds_listed_def by metis
    have nb: "after (mt_fdlist st fd) c = first_in r" using after_next [OF d] Suc.prems(2) Cons by simp
    have same: "dispatch n pollable fd ev (first_in r) st \<noteq> Inl Endless"
      using Suc.IH [of st "pre @ [c]" r] Suc.prems Cons by simp
    have woken: "dispatch n pollable fd ev (first_in r) st1 \<noteq> Inl Endless" if w: "wakeup pollable c ev st = Inr st1" for st1
    proof (cases r)
      case (Cons e r')
      note wi = wakeup_inv [OF Suc.prems(1) w]
      obtain pre' where p: "mt_fdlist st1 fd = pre' @ filter (bl_alive st1) r"
        using fdlist_rest [of st st1 fd "pre @ [c]" r] Suc.prems(1,2) \<open>rest = c # r\<close> wi by auto
      show ?thesis
      proof (cases "bl_alive st1 e")
        case True
        have "length (filter (bl_alive st1) r) \<le> n"
          using Suc.prems(3) \<open>rest = c # r\<close> by (intro le_trans [OF length_filter_le]) simp
        with Suc.IH [of st1 pre' "filter (bl_alive st1) r"] wi p True Cons show ?thesis by simp
      next
        case False
        then show ?thesis using Cons Suc.prems(3) \<open>rest = c # r\<close>
          by (cases n) (simp_all add: bl_alive_def)
      qed
    qed simp
    show ?thesis
      using same woken nb wakeup_not_endless Cons
      by (auto simp: Let_def split: option.splits sum.splits)
  qed
qed

section \<open>Events and timeouts\<close>

lemma events_inv:
  "events pollable es st = Inr st' \<Longrightarrow> mt_inv st \<Longrightarrow> mt_stack st = [] \<Longrightarrow>
    mt_inv st' \<and> mt_stack st' = [] \<and> evolves st st'"
proof (induction es arbitrary: st)
  case (Cons e es)
  obtain st1 where d: "dispatch (length (mt_fdlist st (fst e))) pollable (fst e) (event_bits e)
      (first_in (mt_fdlist st (fst e))) st = Inr st1" "events pollable es st1 = Inr st'"
    using Cons.prems(1) by (auto simp: Let_def split: sum.splits)
  note di = dispatch_inv [OF d(1) Cons.prems(2,3)]
  with Cons.IH [OF d(2)] show ?case by (auto intro: evolves_trans)
qed simp

definition concerned :: "epoll_event list \<Rightarrow> blocker \<Rightarrow> bool" where
  "concerned es bl \<longleftrightarrow> 0 \<le> b_fd bl \<and> list_ex (\<lambda>e. fst e = b_fd bl \<and> hit (event_bits e) bl) es"

lemma registered_listed:
  assumes "mt_inv st" "mt_bls st b = Some bl" "registers b st" "mt_epfd st \<noteq> None" "0 \<le> b_fd bl"
  shows "b \<in> set (mt_fdlist st (b_fd bl))"
  using assms by (auto simp: registers_def mt_inv_def loop_inv_def fds_listed_def)

lemma evolves_registers: "evolves st st' \<Longrightarrow> listed st' \<Longrightarrow> (\<And>b. registers b st) \<Longrightarrow> registers b st'"
proof -
  assume e: "evolves st st'" "listed st'" "\<And>b. registers b st"
  show "registers b st'"
  proof (cases "b < mt_nextbl st")
    case True
    with e(1) have "frozen st' b = None \<or> frozen st' b = frozen st b" "mt_epfd st' = None \<longleftrightarrow> mt_epfd st = None"
      by (simp_all add: evolves_def)
    then show ?thesis using e(3) by (rule frozen_registers)
  next
    case False
    then show ?thesis
    proof (cases "b < mt_nextbl st'")
      case True
      with False e(1) show ?thesis by (simp add: evolves_def)
    next
      case False
      then have "mt_bls st' b = None" using listed_new [OF e(2)] by simp
      then show ?thesis by (simp add: registers_def)
    qed
  qed
qed

lemma concerned_cong:
  assumes "bl'\<lparr>b_rev := 0\<rparr> = bl\<lparr>b_rev := 0\<rparr>"
  shows "concerned es bl' = concerned es bl"
  using same_but_rev(1,2) [OF assms] by (simp add: concerned_def hit_def)

lemma events_serve:
  assumes "events pollable es st = Inr st'" "mt_inv st" "mt_stack st = []" "\<And>b. registers b st" "mt_epfd st \<noteq> None"
    and "mt_bls st b = Some bl" "concerned es bl"
  shows "\<not> bl_alive st' b"
  using assms
proof (induction es arbitrary: st bl)
  case Nil
  then show ?case by (simp add: concerned_def)
next
  case (Cons e es)
  let ?l = "mt_fdlist st (fst e)"
  obtain st1 where d: "dispatch (length ?l) pollable (fst e) (event_bits e) (first_in ?l) st = Inr st1"
    "events pollable es st1 = Inr st'" using Cons.prems(1) by (auto simp: Let_def split: sum.splits)
  note di = dispatch_inv [OF d(1) Cons.prems(2,3)]
  then have ei: "evolves st1 st'" using events_inv [OF d(2)] by blast
  have li: "listed st" "listed st1" using Cons.prems(2) di by (simp_all add: mt_inv_def loop_inv_def)
  show ?case
  proof (cases "mt_bls st1 b")
    case None
    have "b < mt_nextbl st" using li(1) Cons.prems(6) by (auto simp: listed_def)
    then have "b < mt_nextbl st1" using di by (simp add: evolves_def)
    then show ?thesis using evolves_gone [OF ei None] by (simp add: bl_alive_def)
  next
    case (Some bl1)
    then have s: "bl1\<lparr>b_rev := 0\<rparr> = bl\<lparr>b_rev := 0\<rparr>" using evolves_blocker [OF _ Cons.prems(6) li(1)] di by blast
    have "\<not> (fst e = b_fd bl \<and> hit (event_bits e) bl)" if c: "0 \<le> b_fd bl"
    proof
      assume h: "fst e = b_fd bl \<and> hit (event_bits e) bl"
      have "b \<in> set ?l" using registered_listed [OF Cons.prems(2,6,4,5)] h c by simp
      from dispatch_serves [OF d(1) Cons.prems(2,3) _ this Cons.prems(6), of "[]"] h have "\<not> bl_alive st1 b" by simp
      then show False using Some by (simp add: bl_alive_def)
    qed
    then have "concerned es bl1" using Cons.prems(7) concerned_cong [OF s, of es] by (auto simp: concerned_def)
    moreover have "registers x st1" for x using evolves_registers [OF _ li(2) Cons.prems(4)] di by blast
    moreover have "mt_epfd st1 \<noteq> None" using di Cons.prems(5) by (simp add: evolves_def)
    ultimately show ?thesis using Cons.IH [OF d(2) _ _ _ _ Some] di by blast
  qed
qed

lemma timeouts_inv:
  "timeouts pollable st = Inr st' \<Longrightarrow> mt_inv st \<Longrightarrow> mt_stack st = [] \<Longrightarrow>
    mt_inv st' \<and> mt_stack st' = [] \<and> evolves st st' \<and>
    (\<forall>b to. th_first (mt_heap st') = Some (b, to) \<longrightarrow> mt_now st < to)"
proof (induction pollable st rule: timeouts.induct)
  case (1 pollable st)
  show ?case
  proof (cases "th_first (mt_heap st)")
    case None
    with 1(2-4) show ?thesis by (subst (asm) timeouts.simps) auto
  next
    case (Some p)
    obtain b to where p: "p = (b, to)" by fastforce
    show ?thesis
    proof (cases "to \<le> mt_now st")
      case False
      with Some p 1(2-4) show ?thesis by (subst (asm) timeouts.simps) auto
    next
      case True
      with Some p 1(2) obtain st1 where w: "wakeup pollable b 0 st = Inr st1" "timeouts pollable st1 = Inr st'"
        by (subst (asm) timeouts.simps) (auto split: sum.splits)
      note wi = wakeup_inv [OF 1(3) w(1)]
      have "mt_inv st' \<and> mt_stack st' = [] \<and> evolves st1 st' \<and>
        (\<forall>b to. th_first (mt_heap st') = Some (b, to) \<longrightarrow> mt_now st1 < to)"
        by (rule 1(1) [OF Some p [symmetric] True w]) (use wi in auto)
      moreover have "mt_now st1 = mt_now st" using wi by (simp add: evolves_def)
      ultimately show ?thesis using wi by (auto intro: evolves_trans)
    qed
  qed
qed

lemma timeouts_served:
  assumes "timeouts pollable st = Inr st'" "mt_inv st" "mt_stack st = []" "mt_bls st' b = Some bl" "0 < b_to bl"
  shows "mt_now st < b_to bl"
proof -
  note ti = timeouts_inv [OF assms(1-3)]
  then have t: "timed st'" by (simp add: mt_inv_def loop_inv_def)
  then have "(b, b_to bl) \<in> th_due (mt_heap st')" using assms(4,5) by (auto simp: timed_def)
  moreover have "th_ok (mt_heap st')" using t by (simp add: timed_def)
  ultimately show ?thesis using timers.none_overdue [of "mt_heap st'" "mt_now st" b "b_to bl"] ti by blast
qed

section \<open>The states of the loop\<close>

text \<open>
  What the main program does: it starts and resumes threads, and calls \<open>ioloop\<close>, which makes turns and returns.
\<close>

inductive reachable :: "(int \<Rightarrow> bool) \<Rightarrow> mtstate \<Rightarrow> bool" for pollable where
  "reachable pollable (mt_start now)"
| "reachable pollable st \<Longrightarrow> start_thread pollable a st = Inr st' \<Longrightarrow> reachable pollable st'"
| "reachable pollable st \<Longrightarrow> resume pollable u v st = Inr st' \<Longrightarrow> reachable pollable st'"
| "reachable pollable st \<Longrightarrow> mt_epfd st = None \<Longrightarrow> loop_start pollable st = Inr st' \<Longrightarrow> reachable pollable st'"
| "reachable pollable st \<Longrightarrow> mt_epfd st \<noteq> None \<Longrightarrow> loop_turn pollable t st = Inr st' \<Longrightarrow> reachable pollable st'"
| "reachable pollable st \<Longrightarrow> mt_epfd st \<noteq> None \<Longrightarrow> reachable pollable (loop_end st)"

definition sys_inv :: "mtstate \<Rightarrow> bool" where
  "sys_inv st \<longleftrightarrow> mt_inv st \<and> mt_stack st = [] \<and> (\<forall>b. registers b st)"

lemma sys_inv_start: "sys_inv (mt_start now)"
  by (simp add: sys_inv_def mt_inv_def loop_inv_defs threads_inv_def mt_start_def registers_def all_waits_def
      th_ok_def th_heap_def th_places_def th_due_def)

lemma evolves_sys: "mt_inv st' \<Longrightarrow> mt_stack st' = [] \<Longrightarrow> evolves st st' \<Longrightarrow> sys_inv st \<Longrightarrow> sys_inv st'"
  using evolves_registers [of st st'] by (simp add: sys_inv_def mt_inv_def loop_inv_def)

lemma start_thread_inv: "sys_inv st \<Longrightarrow> start_thread pollable a st = Inr st' \<Longrightarrow> sys_inv st' \<and> evolves st st'"
  using run_inv [of pollable "mustart a st" st'] mustart_inv [of st a] evolves_sys [of st' st]
    evolves_cong(2) [of "mustart a st" st st']
  by (auto simp: start_thread_def sys_inv_def mustart_def push_def)

lemma resume_sys: "sys_inv st \<Longrightarrow> resume pollable u v st = Inr st' \<Longrightarrow> sys_inv st'"
proof -
  assume s: "sys_inv st" and r: "resume pollable u v st = Inr st'"
  then obtain w where "map_of (mt_parked st) u = Some w" by (auto simp: resume_def unpark_def split: option.splits)
  with s r resume_inv [of st u w pollable v st'] show ?thesis
    by (intro evolves_sys [of st' st]) (auto simp: sys_inv_def)
qed

lemma regfd_inv:
  assumes "regfd pollable c st = Some st1" "mt_inv st" "mt_bls st c = Some cl" "\<not> b_reg cl" "mt_epfd st \<noteq> None"
  shows "mt_inv st1" "mt_epfd st1 \<noteq> None" "mt_stack st1 = mt_stack st" "mt_parked st1 = mt_parked st"
    "mt_blockers st1 = mt_blockers st" "mt_bls st1 = (mt_bls st)(c \<mapsto> cl\<lparr>b_reg := 0 \<le> b_fd cl\<rparr>)"
proof -
  have inv: "listed st" "fds_listed st" "watched st" "timed st" using assms(2) by (simp_all add: mt_inv_def loop_inv_def)
  note f = regfd_fields [OF assms(1,3)]
  obtain m where "mt_epfd st = Some m" using assms(5) by auto
  then have "mt_epfd st = Some (mirror st)" using inv(3) by (simp add: watched_def)
  note l = regfd_law [OF assms(1,3) this assms(4) inv(2)]
  show th: "mt_stack st1 = mt_stack st" "mt_parked st1 = mt_parked st"
    using f(6) by (simp_all add: same_threads_def)
  have nx: "mt_next st1 = mt_next st" using f(6) by (simp add: same_threads_def)
  show bls: "mt_bls st1 = (mt_bls st)(c \<mapsto> cl\<lparr>b_reg := 0 \<le> b_fd cl\<rparr>)"
    using assms(3,4) by (auto simp: f(2) fun_eq_iff)
  show "mt_blockers st1 = mt_blockers st" by (rule f(3))
  show "mt_epfd st1 \<noteq> None" using l(1) by simp
  have ow: "owned (mt_bls st1) t w = owned (mt_bls st) t w" for t w
    using assms(3) by (cases w) (auto simp: bls split: if_splits)
  have "listed st1" "timed st1" using inv assms(3) by (auto simp: listed_def timed_def f bls split: if_splits)
  moreover have "watched st1" using l(1) by (simp add: watched_def)
  ultimately show "mt_inv st1"
    using l(2) assms(2) ow by (simp add: mt_inv_def loop_inv_def threads_inv_def th nx f)
qed

text \<open>The start: the blockers that have been looked at are registered, those to come are not.\<close>

lemma register_all_inv:
  assumes "register_all n pollable (first_in rest) st = Inr st'" "mt_inv st" "mt_stack st = []" "mt_epfd st \<noteq> None"
    and "mt_blockers st = pre @ rest" "\<And>b. b \<notin> set rest \<Longrightarrow> registers b st"
    and "\<And>b bl. b \<in> set rest \<Longrightarrow> mt_bls st b = Some bl \<Longrightarrow> \<not> b_reg bl"
  shows "sys_inv st' \<and> mt_epfd st' \<noteq> None"
  using assms
proof (induction n arbitrary: rest pre st)
  case 0
  then have "rest = []" by (cases rest) simp_all
  with 0 show ?case by (simp add: sys_inv_def)
next
  case (Suc n)
  show ?case
  proof (cases rest)
    case Nil
    with Suc.prems show ?thesis by (simp add: sys_inv_def)
  next
    case (Cons c r)
    have inv: "listed st" "fds_listed st" "watched st" "timed st" using Suc.prems(2) by (simp_all add: mt_inv_def loop_inv_def)
    have d: "distinct (pre @ c # r)" using inv(1) Suc.prems(5) Cons by (simp add: listed_def)
    have nb: "after (mt_blockers st) c = first_in r" using after_next [OF d] Suc.prems(5) Cons by simp
    obtain cl where cl: "mt_bls st c = Some cl" using Suc.prems(1) Cons by (auto split: option.splits)
    have unreg: "\<not> b_reg cl" using Suc.prems(7) [OF _ cl] Cons by simp
    show ?thesis
    proof (cases "regfd pollable c st")
      case (Some st1)
      note f = regfd_inv [OF Some Suc.prems(2) cl unreg Suc.prems(4)]
      have "register_all n pollable (first_in r) st1 = Inr st'"
        using Suc.prems(1) Cons cl nb Some by (simp add: Let_def)
      moreover have "registers b st1" if "b \<notin> set r" for b
        using Suc.prems(6) [of b] that Cons Suc.prems(4) by (cases "b = c") (auto simp: registers_def f)
      moreover have "\<not> b_reg bl" if "b \<in> set r" "mt_bls st1 b = Some bl" for b bl
        using Suc.prems(7) [of b bl] that Cons d by (auto simp: f split: if_splits)
      ultimately show ?thesis
        using Suc.IH [of r st1 "pre @ [c]"] Suc.prems(3,5) Cons f by simp
    next
      case None
      with Suc.prems(1) Cons cl nb obtain st1 where r1: "resume pollable (b_th cl) (- 1) st = Inr st1"
        "register_all n pollable (first_in r) st1 = Inr st'" by (auto simp: Let_def split: sum.splits)
      obtain w where w: "map_of (mt_parked st) (b_th cl) = Some w" "c \<in> set (waits w)"
        using blocker_thread [OF Suc.prems(2) cl] by blast
      note ri = resume_inv [OF Suc.prems(2) w(1) r1(1)]
      have li: "listed st1" using ri by (simp add: mt_inv_def loop_inv_def)
      obtain pre' where p: "mt_blockers st1 = pre' @ filter (bl_alive st1) r"
        using blockers_rest [of st st1 "pre @ [c]" r] Suc.prems(2,5) Cons ri by auto
      have first: "first_in r = first_in (filter (bl_alive st1) r) \<or> register_all n pollable (first_in r) st1 = Inl Dangling \<or>
          register_all n pollable (first_in r) st1 = Inl Endless"
        by (cases r; cases n) (auto simp: bl_alive_def)
      have e1: "mt_epfd st1 \<noteq> None" using ri Suc.prems(4) by (simp add: evolves_def)
      have fr: "frozen st1 b = None \<or> frozen st1 b = frozen st b" if "b < mt_nextbl st" for b
        using ri that by (simp add: evolves_def)
      have reg: "registers b st1" if "b \<notin> set (filter (bl_alive st1) r)" for b
      proof (cases "b \<in> set rest")
        case True
        then have "mt_bls st1 b = None" using that Cons ri w(2) by (auto simp: bl_alive_def)
        then show ?thesis by (simp add: registers_def)
      next
        case False
        note s = Suc.prems(6) [OF False]
        show ?thesis
        proof (cases "b < mt_nextbl st")
          case True
          have "mt_epfd st1 = None \<longleftrightarrow> mt_epfd st = None" using ri by (simp add: evolves_def)
          from frozen_registers [OF fr [OF True] this s] show ?thesis .
        next
          case False
          show ?thesis
          proof (cases "b < mt_nextbl st1")
            case True
            with False ri show ?thesis by (simp add: evolves_def)
          next
            case False
            then show ?thesis using listed_new [OF li, of b] by (simp add: registers_def)
          qed
        qed
      qed
      have nreg: "\<not> b_reg bl" if b: "b \<in> set (filter (bl_alive st1) r)" "mt_bls st1 b = Some bl" for b bl
      proof -
        have "b \<in> set (mt_blockers st)" using b(1) Cons Suc.prems(5) by simp
        then obtain bl0 where "mt_bls st b = Some bl0" using inv(1) unfolding listed_def by (metis not_None_eq)
        moreover from this have "\<not> b_reg bl0" using Suc.prems(7) [of b bl0] b(1) Cons by simp
        ultimately show ?thesis using same_but_rev(6) [OF evolves_blocker [OF _ _ inv(1) b(2)]] ri by blast
      qed
      have "register_all n pollable (first_in (filter (bl_alive st1) r)) st1 = Inr st'" using first r1(2) by auto
      then show ?thesis by (rule Suc.IH [OF _ _ _ e1 p]) (use ri reg nreg in blast)+
    qed
  qed
qed

lemma loop_start_ready:
  assumes "sys_inv st" "mt_epfd st = None"
  shows "mt_inv (st\<lparr>mt_exit := 0, mt_epfd := Some (\<lambda>fd. None)\<rparr>)" "mt_bls st b = Some bl \<Longrightarrow> \<not> b_reg bl"
proof -
  let ?st1 = "st\<lparr>mt_exit := 0, mt_epfd := Some (\<lambda>fd. None)\<rparr>"
  have inv: "mt_inv st" "mt_stack st = []" using assms(1) by (simp_all add: sys_inv_def)
  have e: "mt_fdlist st fd = []" for fd using inv(1) assms(2) by (simp add: mt_inv_def loop_inv_def watched_def)
  have f: "fds_listed st" using inv(1) by (simp add: mt_inv_def loop_inv_def)
  show "\<not> b_reg bl" if b: "mt_bls st b = Some bl"
  proof
    assume "b_reg bl"
    then have "b \<in> set (mt_fdlist st (b_fd bl))" using f b by (simp add: fds_listed_def)
    then show False by (simp add: e)
  qed
  have "mirror ?st1 = (\<lambda>fd. None)" by (simp add: mirror_def e)
  then have "watched ?st1" by (simp add: watched_def)
  then show "mt_inv ?st1" using inv(1)
    by (simp add: mt_inv_def loop_inv_def listed_def fds_listed_def timed_def threads_inv_def)
qed

lemma loop_start_inv:
  assumes "sys_inv st" "mt_epfd st = None" "loop_start pollable st = Inr st'"
  shows "sys_inv st' \<and> mt_epfd st' \<noteq> None"
proof -
  let ?st1 = "st\<lparr>mt_exit := 0, mt_epfd := Some (\<lambda>fd. None)\<rparr>"
  have inv: "mt_inv st" "mt_stack st = []" using assms(1) by (simp_all add: sys_inv_def)
  have "registers b ?st1" if "b \<notin> set (mt_blockers st)" for b
  proof -
    have "mt_bls st b = None" using that inv(1) unfolding mt_inv_def loop_inv_def listed_def by (metis not_None_eq)
    then show ?thesis by (simp add: registers_def)
  qed
  with loop_start_ready [OF assms(1,2)] show ?thesis
    using register_all_inv [of "length (mt_blockers st)" pollable "mt_blockers st" ?st1 st' "[]"] assms(3) inv(2)
    by (auto simp: loop_start_def)
qed

lemma sys_inv_now: "sys_inv (st\<lparr>mt_now := t\<rparr>) = sys_inv st"
  by (simp add: sys_inv_def mt_inv_def threads_inv_def registers_def)

lemma loop_turn_inv:
  assumes "sys_inv st" "mt_epfd st \<noteq> None" "loop_turn pollable t st = Inr st'"
  shows "sys_inv st' \<and> mt_epfd st' \<noteq> None"
proof -
  obtain r t1 t2 where t: "t = (r, t1, t2)" using prod_cases3 by blast
  show ?thesis
  proof (cases r)
    case (Inl e)
    with t assms show ?thesis by (simp add: loop_turn_def)
  next
    case (Inr es)
    with t assms(3) obtain st1 where e: "events pollable es (st\<lparr>mt_now := t1\<rparr>) = Inr st1"
      "timeouts pollable (st1\<lparr>mt_now := t2\<rparr>) = Inr st'" by (auto simp: loop_turn_def split: sum.splits)
    have s0: "sys_inv (st\<lparr>mt_now := t1\<rparr>)" using assms(1) by (simp add: sys_inv_now)
    then have ei: "mt_inv st1 \<and> mt_stack st1 = [] \<and> evolves (st\<lparr>mt_now := t1\<rparr>) st1"
      using events_inv [OF e(1)] by (simp add: sys_inv_def)
    then have "sys_inv st1" using evolves_sys [OF _ _ _ s0] by blast
    then have s1: "sys_inv (st1\<lparr>mt_now := t2\<rparr>)" by (simp add: sys_inv_now)
    then have ti: "mt_inv st' \<and> mt_stack st' = [] \<and> evolves (st1\<lparr>mt_now := t2\<rparr>) st'"
      using timeouts_inv [OF e(2)] by (simp add: sys_inv_def)
    then have "sys_inv st'" using evolves_sys [OF _ _ _ s1] by blast
    then show ?thesis using ei ti assms(2) by (simp add: evolves_def)
  qed
qed

text \<open>The end: nothing is registered any more.\<close>

definition unregister :: "blocker \<Rightarrow> blocker" where
  "unregister bl = bl\<lparr>b_reg := False\<rparr>"

lemma fold_remfd:
  assumes "fds_listed st" "watched st" "\<forall>b\<in>set bs. mt_bls st b \<noteq> None"
  shows "fds_listed (fold remfd bs st) \<and> watched (fold remfd bs st) \<and> same_threads st (fold remfd bs st) \<and>
    mt_blockers (fold remfd bs st) = mt_blockers st \<and> mt_heap (fold remfd bs st) = mt_heap st \<and>
    mt_nextbl (fold remfd bs st) = mt_nextbl st \<and>
    mt_bls (fold remfd bs st) = (\<lambda>b. if b \<in> set bs then map_option unregister (mt_bls st b) else mt_bls st b)"
  using assms
proof (induction bs arbitrary: st)
  case (Cons c bs)
  obtain cl where cl: "mt_bls st c = Some cl" using Cons.prems(3) by auto
  note f = remfd_fields [OF cl Cons.prems(1,2)] and l = remfd_law [OF cl Cons.prems(2,1)]
  have "\<forall>b\<in>set bs. mt_bls (remfd c st) b \<noteq> None" using Cons.prems(3) by (simp add: f(2))
  note ih = Cons.IH [OF l(2,1) this]
  have "(if b \<in> set bs then map_option unregister (mt_bls (remfd c st) b) else mt_bls (remfd c st) b) =
    (if b \<in> set (c # bs) then map_option unregister (mt_bls st b) else mt_bls st b)" for b
    using cl by (auto simp: f(2) unregister_def)
  with ih show ?case
    using same_threads_trans [OF f(6)] by (auto simp: f(3-5))
qed simp

lemma loop_end_inv:
  assumes "sys_inv st"
  shows "sys_inv (loop_end st) \<and> mt_epfd (loop_end st) = None \<and> mt_blockers (loop_end st) = mt_blockers st"
proof -
  define st1 where "st1 = fold remfd (mt_blockers st) st"
  have le: "loop_end st = st1\<lparr>mt_epfd := None\<rparr>" by (simp add: loop_end_def st1_def)
  have inv: "listed st" "fds_listed st" "watched st" "timed st" "threads_inv st" "mt_stack st = []"
    using assms by (simp_all add: sys_inv_def mt_inv_def loop_inv_def)
  have live: "mt_bls st b \<noteq> None \<longleftrightarrow> b \<in> set (mt_blockers st)" for b using inv(1) by (simp add: listed_def)
  from fold_remfd [OF inv(2,3), of "mt_blockers st"] live
  have f: "fds_listed st1" "same_threads st st1" "mt_blockers st1 = mt_blockers st" "mt_heap st1 = mt_heap st"
    "mt_nextbl st1 = mt_nextbl st"
    "mt_bls st1 = (\<lambda>b. if b \<in> set (mt_blockers st) then map_option unregister (mt_bls st b) else mt_bls st b)"
    by (simp_all add: st1_def)
  have bls: "mt_bls st1 = (\<lambda>b. map_option unregister (mt_bls st b))"
  proof
    show "mt_bls st1 b = map_option unregister (mt_bls st b)" for b
      using live [of b] by (cases "mt_bls st b") (auto simp: f(6))
  qed
  have nil: "mt_fdlist st1 fd = []" for fd
  proof -
    have "b \<notin> set (mt_fdlist st1 fd)" for b using f(1) by (auto simp: fds_listed_def bls unregister_def)
    then show ?thesis using last_in_set by blast
  qed
  have "owned (mt_bls st1) t w" if "owned (mt_bls st) t w" for t w
    using that by (cases w) (fastforce simp: bls unregister_def)+
  then have "threads_inv st1"
    using inv(5) f(2,3) by (simp add: threads_inv_def same_threads_def)
  moreover have "listed st1" "timed st1"
    using inv(1,4) by (auto simp: listed_def timed_def f(3-5) bls unregister_def)
  moreover have "watched (loop_end st)" "fds_listed (loop_end st)"
    using f(1) nil by (simp_all add: watched_def fds_listed_def le)
  moreover have "mt_stack st1 = []" using f(2) inv(6) by (simp add: same_threads_def)
  ultimately show ?thesis
    by (auto simp: sys_inv_def mt_inv_def loop_inv_def threads_inv_def listed_def timed_def le registers_def bls
        unregister_def f(3))
qed

lemma reachable_inv: "reachable pollable st \<Longrightarrow> sys_inv st"
  by (induction rule: reachable.induct)
    (auto simp: sys_inv_start start_thread_inv loop_end_inv intro: resume_sys dest: loop_start_inv loop_turn_inv start_thread_inv)

text \<open>C4. While the loop runs the kernel watches exactly what the threads wait for: in every state of the program, for
  each descriptor that a blocker names the events that some blocker on it names, and no other descriptor.
\<close>

theorem epoll_follows_blockers:
  assumes "reachable pollable st" "mt_epfd st = Some m" "0 \<le> fd"
  shows "m fd = (if \<exists>b bl. mt_bls st b = Some bl \<and> b_fd bl = fd
    then Some (\<exists>b bl. mt_bls st b = Some bl \<and> b_fd bl = fd \<and> b_ev bl AND EV_READ \<noteq> 0,
      \<exists>b bl. mt_bls st b = Some bl \<and> b_fd bl = fd \<and> b_ev bl AND EV_WRITE \<noteq> 0)
    else None)"
proof -
  have s: "sys_inv st" by (rule reachable_inv [OF assms(1)])
  then have "fds_listed st" and m: "m = mirror st" and "\<And>b. registers b st"
    using assms(2) by (auto simp: sys_inv_def mt_inv_def loop_inv_def watched_def)
  then have l: "b \<in> set (mt_fdlist st fd) \<longleftrightarrow> (\<exists>bl. mt_bls st b = Some bl \<and> b_fd bl = fd)" for b
    using assms(2,3) by (auto simp: fds_listed_def registers_def)
  have w: "list_ex (\<lambda>b. wants f (the (mt_bls st b))) (mt_fdlist st fd) \<longleftrightarrow>
      (\<exists>b bl. mt_bls st b = Some bl \<and> b_fd bl = fd \<and> b_ev bl AND f \<noteq> 0)" for f
    by (simp add: list_ex_iff Bex_def l wants_def) (metis option.sel)
  have "mt_fdlist st fd = [] \<longleftrightarrow> \<not> (\<exists>b bl. mt_bls st b = Some bl \<and> b_fd bl = fd)"
    using l by (metis empty_iff last_in_set list.set(1))
  then show ?thesis by (simp add: m mirror_def events_of_def w)
qed

text \<open>C3. No wakeup is lost: after a turn of the loop none of those blockers is there any more that an event of the turn
  concerned or whose time had come, so that their threads have gone on; and whatever waits then waits for a time
  that has not come.
\<close>

theorem loop_turn_serves:
  assumes "reachable pollable st" "mt_epfd st \<noteq> None" "loop_turn pollable (Inr es, t1, t2) st = Inr st'"
  shows "(mt_bls st b = Some bl \<and> (concerned es bl \<or> 0 < b_to bl \<and> b_to bl \<le> t2) \<longrightarrow> mt_bls st' b = None) \<and>
    (mt_bls st' b = Some bl' \<longrightarrow> 0 < b_to bl' \<longrightarrow> t2 < b_to bl')"
proof -
  obtain st1 where e: "events pollable es (st\<lparr>mt_now := t1\<rparr>) = Inr st1"
    "timeouts pollable (st1\<lparr>mt_now := t2\<rparr>) = Inr st'" using assms(3) by (auto simp: loop_turn_def split: sum.splits)
  have s0: "sys_inv (st\<lparr>mt_now := t1\<rparr>)" using reachable_inv [OF assms(1)] by (simp add: sys_inv_now)
  then have ei: "mt_inv st1 \<and> mt_stack st1 = [] \<and> evolves (st\<lparr>mt_now := t1\<rparr>) st1"
    using events_inv [OF e(1)] by (simp add: sys_inv_def)
  have s1: "mt_inv (st1\<lparr>mt_now := t2\<rparr>)" "mt_stack (st1\<lparr>mt_now := t2\<rparr>) = []"
    using ei by (simp_all add: mt_inv_def threads_inv_def)
  note ti = timeouts_inv [OF e(2) s1]
  have late: "t2 < b_to bl'" if "mt_bls st' b = Some bl'" "0 < b_to bl'" for bl'
    using timeouts_served [OF e(2) s1 that] by simp
  have "mt_bls st' b = None" if bl: "mt_bls st b = Some bl" and c: "concerned es bl \<or> 0 < b_to bl \<and> b_to bl \<le> t2"
  proof (rule ccontr)
    assume "mt_bls st' b \<noteq> None"
    then obtain bl2 where b2: "mt_bls st' b = Some bl2" by auto
    have new: "b < mt_nextbl st" using bl reachable_inv [OF assms(1)]
      by (auto simp: sys_inv_def mt_inv_def loop_inv_def listed_def)
    have n1: "mt_nextbl st \<le> mt_nextbl st1" using ei by (simp add: evolves_def)
    have "mt_bls st1 b \<noteq> None"
      using evolves_gone [of "st1\<lparr>mt_now := t2\<rparr>" st' b] ti b2 new n1 by auto
    then obtain bl1 where b1: "mt_bls st1 b = Some bl1" by auto
    have "bl2\<lparr>b_rev := 0\<rparr> = bl1\<lparr>b_rev := 0\<rparr>"
      using evolves_blocker [of "st1\<lparr>mt_now := t2\<rparr>" st' b bl1 bl2] ti b1 b2 s1 by (simp add: mt_inv_def loop_inv_def)
    moreover have "bl1\<lparr>b_rev := 0\<rparr> = bl\<lparr>b_rev := 0\<rparr>"
      using evolves_blocker [of "st\<lparr>mt_now := t1\<rparr>" st1 b bl bl1] ei bl b1 s0 by (simp add: sys_inv_def mt_inv_def loop_inv_def)
    ultimately have "b_to bl2 = b_to bl" using same_but_rev(4) by metis
    then have "\<not> (0 < b_to bl \<and> b_to bl \<le> t2)" using late [OF b2] by auto
    then have "concerned es bl" using c by blast
    moreover have "\<And>b. registers b (st\<lparr>mt_now := t1\<rparr>)" using s0 by (simp add: sys_inv_def)
    ultimately have "\<not> bl_alive st1 b"
      using events_serve [OF e(1)] s0 bl assms(2) by (simp add: sys_inv_def)
    then show False using b1 by (simp add: bl_alive_def)
  qed
  then show ?thesis using late by blast
qed

text \<open>A thread that waits ten seconds for the descriptor 5 to be readable.\<close>

definition ex_reader :: act where
  "ex_reader = Block 5 EV_READ 10 (\<lambda>v. Ends)"

definition ex_started :: mtstate where
  "ex_started = projr (start_thread (\<lambda>fd. True) ex_reader (mt_start 0))"

definition ex_looping :: mtstate where
  "ex_looping = projr (loop_start (\<lambda>fd. True) ex_started)"

lemma ex_reachable: "reachable (\<lambda>fd. True) ex_looping"
proof -
  have "\<not> isl (start_thread (\<lambda>fd. True) ex_reader (mt_start 0))" "\<not> isl (loop_start (\<lambda>fd. True) ex_started)"
    "mt_epfd ex_started = None" by code_simp+
  moreover from this have "start_thread (\<lambda>fd. True) ex_reader (mt_start 0) = Inr ex_started"
    "loop_start (\<lambda>fd. True) ex_started = Inr ex_looping" by (simp_all add: ex_started_def ex_looping_def)
  ultimately show ?thesis using reachable.intros(1,2,4) by metis
qed

lemma epoll_follows_blockers_witness:
  "the (mt_epfd ex_looping) 5 = Some (True, False) \<and> (\<exists>b bl. mt_bls ex_looping b = Some bl \<and> b_fd bl = 5)"
proof -
  have m: "the (mt_epfd ex_looping) 5 = Some (True, False)" by code_simp
  have "mt_epfd ex_looping \<noteq> None" by code_simp
  then obtain k where "mt_epfd ex_looping = Some k" by auto
  from epoll_follows_blockers [OF ex_reachable this, of 5] m \<open>mt_epfd ex_looping = Some k\<close> show ?thesis
    by (auto split: if_splits)
qed

lemma loop_turn_serves_witness:
  "mt_bls ex_looping 0 \<noteq> None \<and>
    mt_bls (projr (loop_turn (\<lambda>fd. True) (Inr [(5, True, False, False)], 3, 4) ex_looping)) 0 = None"
proof -
  let ?turn = "loop_turn (\<lambda>fd. True) (Inr [(5, True, False, False)], 3, 4) ex_looping"
  have e: "mt_epfd ex_looping \<noteq> None" and t: "\<not> isl ?turn" by code_simp+
  have b: "mt_bls ex_looping 0 = Some \<lparr>b_fd = 5, b_ev = 1, b_rev = 0, b_id = - 1, b_to = 10, b_th = 0, b_reg = True\<rparr>"
    by code_simp
  have c: "concerned [(5, True, False, False)] \<lparr>b_fd = 5, b_ev = 1, b_rev = 0, b_id = - 1, b_to = 10, b_th = 0, b_reg = True\<rparr>"
    by code_simp
  have "?turn = Inr (projr ?turn)" using t by simp
  from loop_turn_serves [OF ex_reachable e this, of 0
      "\<lparr>b_fd = 5, b_ev = 1, b_rev = 0, b_id = - 1, b_to = 10, b_th = 0, b_reg = True\<rparr>"] b c
  show ?thesis by simp
qed

end
