(* ===== verification/Mtsafe.thy ===== *)
theory Mtsafe
  imports Mtloop
begin

text \<open>
  Programs whose threads do not resume each other: the loop of \<open>src/lib/mtio-epoll.c\<close> never aborts, never follows a
  pointer to a blocker that is gone, and its inner loops end. Where threads do more, it can.
\<close>

section \<open>Threads that only wait\<close>

primrec plain_act :: "act \<Rightarrow> bool" where
  "plain_act Ends \<longleftrightarrow> True"
| "plain_act (Yield k) \<longleftrightarrow> (\<forall>v. plain_act (k v))"
| "plain_act (Start a b) \<longleftrightarrow> plain_act a \<and> plain_act b"
| "plain_act (Resume u v b) \<longleftrightarrow> False"
| "plain_act (Block fd ev to k) \<longleftrightarrow> (\<forall>v. plain_act (k v))"
| "plain_act (MBlock to spec k) \<longleftrightarrow> distinct (map fst spec) \<and> (\<forall>sel. plain_act (k sel))"
| "plain_act (ExitLoop s a) \<longleftrightarrow> plain_act a"

fun plain_waiting :: "mt_waiting \<Rightarrow> bool" where
  "plain_waiting (AtYield k) \<longleftrightarrow> (\<forall>v. plain_act (k v))"
| "plain_waiting (AtBlock b k) \<longleftrightarrow> (\<forall>v. plain_act (k v))"
| "plain_waiting (AtMBlock bs k) \<longleftrightarrow> (\<forall>sel. plain_act (k sel))"

definition fd_of :: "mtstate \<Rightarrow> nat \<Rightarrow> int" where
  "fd_of st b = b_fd (the (mt_bls st b))"

lemma fd_of_same [simp]:
  "fd_of (push t a st) = fd_of st" "fd_of (park t w st) = fd_of st" "fd_of (mustart a st) = fd_of st"
  "fd_of (st\<lparr>mt_exit := s\<rparr>) = fd_of st" "fd_of (st\<lparr>mt_now := n\<rparr>) = fd_of st" "fd_of (st\<lparr>mt_stack := l\<rparr>) = fd_of st"
  by (simp_all add: fd_of_def fun_eq_iff push_def park_def mustart_def)

lemma threads_of [simp]:
  "mt_stack (push t a st) = (t, a) # mt_stack st" "mt_parked (push t a st) = mt_parked st"
  "mt_stack (park t w st) = mt_stack st" "mt_parked (park t w st) = (t, w) # mt_parked st"
  "mt_stack (mustart a st) = (mt_next st, a) # mt_stack st" "mt_parked (mustart a st) = mt_parked st"
  by (simp_all add: push_def park_def mustart_def)

lemma alive_same [simp]:
  "bl_alive (push t a st) = bl_alive st" "bl_alive (park t w st) = bl_alive st" "bl_alive (mustart a st) = bl_alive st"
  "bl_alive (st\<lparr>mt_exit := s\<rparr>) = bl_alive st" "bl_alive (st\<lparr>mt_now := n\<rparr>) = bl_alive st" "bl_alive (st\<lparr>mt_stack := l\<rparr>) = bl_alive st"
  by (simp_all add: bl_alive_def fun_eq_iff push_def park_def mustart_def)

definition plain_sys :: "mtstate \<Rightarrow> bool" where
  "plain_sys st \<longleftrightarrow> (\<forall>p\<in>set (mt_stack st). plain_act (snd p)) \<and>
     (\<forall>p\<in>set (mt_parked st). plain_waiting (snd p) \<and> distinct (map (fd_of st) (waits (snd p))))"

definition keeps :: "mtstate \<Rightarrow> mtstate \<Rightarrow> bool" where
  "keeps st st' \<longleftrightarrow> (\<forall>b. bl_alive st b \<longrightarrow> bl_alive st' b \<and> fd_of st' b = fd_of st b)"

lemma keeps_refl [simp]: "keeps st st"
  by (simp add: keeps_def)

lemma keeps_trans: "keeps r s \<Longrightarrow> keeps s t \<Longrightarrow> keeps r t"
  by (simp add: keeps_def)

lemma extended_keeps:
  assumes "extended bs st st'" "loop_inv st"
  shows "keeps st st'"
proof -
  have "mt_bls st' b = mt_bls st b" if a: "bl_alive st b" for b
  proof -
    have "b < mt_nextbl st" using a assms(2) by (auto simp: bl_alive_def loop_inv_def listed_def)
    then have "b \<notin> set bs" using assms(1) by (auto simp: extended_def)
    then show ?thesis using assms(1) by (simp add: extended_def)
  qed
  then show ?thesis by (simp add: keeps_def bl_alive_def fd_of_def)
qed

lemma parked_alive:
  assumes "mt_inv st" "p \<in> set (mt_parked st)" "b \<in> set (waits (snd p))"
  shows "bl_alive st b"
proof -
  have "owned (mt_bls st) (fst p) (snd p)" using assms(1,2) by (simp add: mt_inv_def threads_inv_def)
  then show ?thesis using owned_thread assms(3) by (fastforce simp: bl_alive_def)
qed

lemma plain_parked:
  assumes "keeps st st'" "mt_inv st" "p \<in> set (mt_parked st)" "distinct (map (fd_of st) (waits (snd p)))"
  shows "distinct (map (fd_of st') (waits (snd p)))"
proof -
  have "map (fd_of st') (waits (snd p)) = map (fd_of st) (waits (snd p))"
    using parked_alive [OF assms(2,3)] assms(1) by (simp add: keeps_def)
  then show ?thesis using assms(4) by (simp only:)
qed

text \<open>The blockers of \<open>mblock\<close> are for the descriptors it was given.\<close>

lemma mblock_add_fds:
  assumes "extended bs st0 st" "mblock_add pollable to t i spec bs st = Inr (bs', st')"
  shows "map (fd_of st') bs' = map (fd_of st) bs @ map fst spec"
  using assms
proof (induction spec arbitrary: i bs st)
  case (Cons s spec)
  obtain fd ev where s: "s = (fd, ev)" by fastforce
  let ?bl = "\<lparr>b_fd = fd, b_ev = ev, b_rev = 0, b_id = i, b_to = to, b_th = t, b_reg = False\<rparr>"
  obtain b st1 where e: "enter pollable ?bl st = Inr (b, st1)"
    "mblock_add pollable to t (i + 1) spec (bs @ [b]) st1 = Inr (bs', st')"
    using Cons.prems(2) s by (auto split: sum.splits)
  have li: "loop_inv st" using Cons.prems(1) by (simp add: extended_def)
  have u: "\<not> b_reg ?bl" by simp
  note ent = enter_law [OF li u e(1)]
  have "fd_of st1 b = fd" using ent(2,3) by (simp add: entered_def Let_def fd_of_def)
  moreover have "map (fd_of st1) bs = map (fd_of st) bs"
  proof -
    have "x \<noteq> b" if "x \<in> set bs" for x using that Cons.prems(1) ent(2) by (auto simp: extended_def)
    then show ?thesis using ent(2,3) by (auto simp: entered_def Let_def fd_of_def)
  qed
  ultimately show ?case using Cons.IH [OF extended_enter(1) [OF Cons.prems(1) u e(1)] e(2)] s by simp
qed simp

section \<open>Bursts\<close>

lemma plain_sys_push: "plain_sys (push t a st) \<longleftrightarrow> plain_sys st \<and> plain_act a"
  by (auto simp: plain_sys_def)

lemma plain_sys_park:
  "plain_sys (park t w st) \<longleftrightarrow> plain_sys st \<and> plain_waiting w \<and> distinct (map (fd_of st) (waits w))"
  by (auto simp: plain_sys_def)

lemma plain_sys_extended:
  assumes "extended bs st st'" "mt_inv st" "plain_sys st"
  shows "plain_sys st'"
proof -
  have k: "keeps st st'" using extended_keeps [OF assms(1)] assms(2) by (simp add: mt_inv_def)
  have "mt_stack st' = mt_stack st" "mt_parked st' = mt_parked st" using assms(1) by (simp_all add: extended_def same_threads_def)
  then show ?thesis using assms(3) plain_parked [OF k assms(2)] by (simp add: plain_sys_def)
qed

lemma keeps_push [simp]: "keeps st (push t a st') = keeps st st'" "keeps st (park t w st') = keeps st st'"
  by (simp_all add: keeps_def)

lemma plain_call:
  assumes "mt_inv st" "plain_sys st" "plain_act a"
  shows "\<exists>st'. call pollable t a st = Inr st' \<and> plain_sys st' \<and> keeps st st'"
proof -
  have li: "loop_inv st" using assms(1) by (simp add: mt_inv_def)
  show ?thesis
  proof (cases a)
    case (Start c d)
    have "plain_sys (mustart c (push t d st)) \<and> keeps st (mustart c (push t d st))"
      using assms Start by (auto simp: plain_sys_def keeps_def)
    with Start show ?thesis by simp
  next
    case (Block fd ev to k)
    show ?thesis
    proof (cases "block pollable fd ev to t st")
      case (Inl st1)
      with block_law [OF li Inl] have e: "extended [] st st1" by simp
      with Inl Block assms plain_sys_extended [OF e] extended_keeps [OF e li] show ?thesis by (simp add: plain_sys_push)
    next
      case (Inr p)
      obtain b st1 where p: "p = (b, st1)" by fastforce
      with block_law [OF li Inr] have e: "extended [b] st st1" by simp
      with Inr p Block assms plain_sys_extended [OF e] extended_keeps [OF e li] show ?thesis by (simp add: plain_sys_park)
    qed
  next
    case (MBlock to spec k)
    show ?thesis
    proof (cases "mblock pollable to spec t st")
      case (Inl st1)
      with mblock_law [OF li Inl] have e: "extended [] st st1" by simp
      with Inl MBlock assms plain_sys_extended [OF e] extended_keeps [OF e li] show ?thesis by (simp add: plain_sys_push)
    next
      case (Inr p)
      obtain bs st1 where p: "p = (bs, st1)" by fastforce
      with mblock_law [OF li Inr] have e: "extended bs st st1" by simp
      have "map (fd_of st1) bs = map fst spec"
        using mblock_add_fds [OF extended_refl [OF li]] Inr p by (simp add: mblock_def)
      with e Inr p MBlock assms plain_sys_extended [OF e] extended_keeps [OF e li] show ?thesis by (simp add: plain_sys_park)
    qed
  next
    case (ExitLoop s c)
    have "plain_sys (push t c (st\<lparr>mt_exit := s\<rparr>)) \<and> keeps st (push t c (st\<lparr>mt_exit := s\<rparr>))"
      using assms ExitLoop by (auto simp: plain_sys_def keeps_def)
    with ExitLoop show ?thesis by simp
  qed (use assms in \<open>simp_all add: plain_sys_park\<close>)
qed

lemma plain_run:
  "mt_inv st \<Longrightarrow> plain_sys st \<Longrightarrow> \<exists>st'. run pollable st = Inr st' \<and> plain_sys st' \<and> keeps st st'"
proof (induction pollable st rule: run.induct)
  case (1 pollable st)
  show ?case
  proof (cases "mt_stack st")
    case Nil
    with 1(3) show ?thesis by (subst run.simps) simp
  next
    case (Cons p rest)
    obtain t a where p: "p = (t, a)" by fastforce
    let ?st0 = "st\<lparr>mt_stack := rest\<rparr>"
    have st: "push t a ?st0 = st" using Cons p by (simp add: push_def)
    then have i0: "mt_inv ?st0" "free_thread t ?st0" using 1(2) mt_inv_push [of t a ?st0] by simp_all
    have p0: "plain_sys ?st0" "plain_act a" using 1(3) plain_sys_push [of t a ?st0] st by simp_all
    obtain st1 where c: "call pollable t a ?st0 = Inr st1" "plain_sys st1" "keeps ?st0 st1"
      using plain_call [OF i0(1) p0] by blast
    have "mt_inv st1" using call_inv [OF i0 c(1)] by blast
    then obtain st' where "run pollable st1 = Inr st'" "plain_sys st'" "keeps st1 st'"
      using 1(1) [OF Cons p [symmetric] c(1)] c(2) by blast
    moreover have "keeps st ?st0" by (simp add: keeps_def)
    moreover have "run pollable st = run pollable st1" using Cons p c(1) by (subst run.simps) simp
    ultimately show ?thesis using c(3) keeps_trans by (metis (no_types))
  qed
qed

text \<open>A thread that is resumed takes only its own blockers with it.\<close>

definition loses :: "nat list \<Rightarrow> mtstate \<Rightarrow> mtstate \<Rightarrow> bool" where
  "loses bs st st' \<longleftrightarrow> (\<forall>b. bl_alive st b \<longrightarrow> b \<notin> set bs \<longrightarrow> bl_alive st' b)"

lemma plain_resume:
  assumes "mt_inv st" "mt_stack st = []" "plain_sys st" "map_of (mt_parked st) u = Some w"
  shows "\<exists>st'. resume pollable u v st = Inr st' \<and> plain_sys st' \<and> loses (waits w) st st'"
proof -
  obtain st1 where u: "unpark u v st = Inr st1" "mt_inv st1" using unpark_inv [OF assms(1,4), of v] by blast
  let ?st0 = "st\<lparr>mt_parked := AList.delete u (mt_parked st)\<rparr>"
  have w: "(u, w) \<in> set (mt_parked st)" using assms(4) by (rule map_of_SomeD)
  have pw: "plain_waiting w" using assms(3) w by (auto simp: plain_sys_def)
  note wb = waiting_blockers [OF assms(1,4)]
  have "loop_inv ?st0 = loop_inv st" by (rule loop_inv_cong) simp_all
  then have l0: "loop_inv ?st0" using assms(1) by (simp add: mt_inv_def)
  obtain a st2 where k: "wake w v ?st0 = (a, st2)" "shrunk (waits w) ?st0 st2"
    using wake_shrunk [OF l0, of w v] wb by auto
  have st1: "st1 = push u a st2" using u(1) assms(4) k(1) by (simp add: unpark_def)
  have "plain_act a" using pw k(1) by (cases w) (auto simp: Let_def)
  have same: "mt_stack st2 = []" "mt_parked st2 = AList.delete u (mt_parked st)"
    "mt_bls st2 = (\<lambda>b. if b \<in> set (waits w) then None else mt_bls st b)"
    using k(2) assms(2) by (auto simp: shrunk_def same_threads_def fun_eq_iff)
  have "distinct (map (fd_of st2) (waits (snd p)))" if p: "p \<in> set (mt_parked st2)" for p
  proof -
    have p0: "p \<in> set (mt_parked st)" using p same(2) by (auto simp: AList.delete_eq)
    have "mt_parked st1 = mt_parked st2" by (simp add: st1 push_def)
    then have al: "bl_alive st1 b" if "b \<in> set (waits (snd p))" for b using parked_alive [OF u(2) _ that] p by simp
    have "mt_bls st2 b = mt_bls st b" if "b \<in> set (waits (snd p))" for b
      using al [OF that] by (auto simp: bl_alive_def st1 push_def same(3) split: if_splits)
    then have "map (fd_of st2) (waits (snd p)) = map (fd_of st) (waits (snd p))" by (simp add: fd_of_def)
    moreover have "distinct (map (fd_of st) (waits (snd p)))" using assms(3) p0 by (simp add: plain_sys_def)
    ultimately show ?thesis by (simp only:)
  qed
  moreover have "plain_waiting (snd p)" if "p \<in> set (mt_parked st2)" for p
    using that same(2) assms(3) by (auto simp: plain_sys_def AList.delete_eq)
  ultimately have "plain_sys st1" using \<open>plain_act a\<close> same(1) by (simp add: st1 plain_sys_push) (simp add: plain_sys_def)
  from plain_run [OF u(2) this] obtain st' where r: "run pollable st1 = Inr st'" "plain_sys st'" "keeps st1 st'" by blast
  have "bl_alive st' b" if "bl_alive st b" "b \<notin> set (waits w)" for b
  proof -
    have "bl_alive st1 b" using that by (simp add: bl_alive_def st1 push_def same(3))
    with r(3) show ?thesis by (simp add: keeps_def)
  qed
  then show ?thesis using u(1) r by (auto simp: resume_def loses_def)
qed

section \<open>The loop\<close>

lemma set_rev_alive [simp]: "bl_alive (set_rev b ev st) = bl_alive st"
  by (simp add: bl_alive_def set_rev_def fun_eq_iff)

lemma set_rev_plain: "plain_sys (set_rev b ev st) = plain_sys st"
proof -
  have "fd_of (set_rev b ev st) = fd_of st" if "mt_bls st b \<noteq> None"
    using that by (auto simp: fd_of_def set_rev_def fun_eq_iff)
  moreover have "set_rev b ev st = st" if "mt_bls st b = None" using that by (simp add: set_rev_def fun_upd_idem)
  ultimately have "fd_of (set_rev b ev st) = fd_of st" by (cases "mt_bls st b") auto
  then show ?thesis by (simp add: plain_sys_def) (simp add: set_rev_def)
qed

lemma plain_wakeup:
  assumes "mt_inv st" "mt_stack st = []" "plain_sys st" "bl_alive st b"
  shows "\<exists>st' w t. wakeup pollable b ev st = Inr st' \<and> plain_sys st' \<and> loses (waits w) st st' \<and>
    (t, w) \<in> set (mt_parked st) \<and> b \<in> set (waits w)"
proof -
  obtain bl where bl: "mt_bls st b = Some bl" using assms(4) by (auto simp: bl_alive_def)
  obtain w where w: "map_of (mt_parked st) (b_th bl) = Some w" "b \<in> set (waits w)"
    using blocker_thread [OF assms(1) bl] by blast
  note p = map_of_SomeD [OF w(1)]
  show ?thesis
  proof (cases "b_id bl < 0")
    case True
    from plain_resume [OF assms(1-3) w(1), of pollable ev] p w(2) True bl show ?thesis
      by (auto simp: wakeup_def)
  next
    case False
    have "map_of (mt_parked (set_rev b ev st)) (b_th bl) = Some w" using w(1) by (simp add: set_rev_def)
    moreover have "mt_stack (set_rev b ev st) = []" using assms(2) by (simp add: set_rev_def)
    ultimately obtain st' where "resume pollable (b_th bl) (b_id bl) (set_rev b ev st) = Inr st'" "plain_sys st'"
      "loses (waits w) (set_rev b ev st) st'"
      using plain_resume [OF set_rev_inv(1) [OF assms(1)]] set_rev_plain assms(3) by blast
    with p w(2) False bl show ?thesis by (auto simp: wakeup_def loses_def)
  qed
qed

text \<open>The next blocker of a descriptor belongs to another thread, and is still there.\<close>

lemma plain_dispatch:
  assumes "mt_inv st" "mt_stack st = []" "plain_sys st" "mt_fdlist st fd = pre @ rest" "length rest \<le> n"
  shows "\<exists>st'. dispatch n pollable fd ev (first_in rest) st = Inr st' \<and> plain_sys st'"
  using assms
proof (induction n arbitrary: rest pre st)
  case 0
  then show ?case by simp
next
  case (Suc n)
  show ?case
  proof (cases rest)
    case Nil
    with Suc.prems show ?thesis by simp
  next
    case (Cons c r)
    have fl: "fds_listed st" using Suc.prems(1) by (simp add: mt_inv_def loop_inv_def)
    then have d: "distinct (pre @ c # r)" using Suc.prems(4) Cons unfolding fds_listed_def by metis
    have nb: "after (mt_fdlist st fd) c = first_in r" using after_next [OF d] Suc.prems(4) Cons by simp
    have on: "bl_alive st x \<and> fd_of st x = fd" if "x \<in> set (c # r)" for x
    proof -
      have "x \<in> set (mt_fdlist st fd)" using that Suc.prems(4) Cons by auto
      then show ?thesis using fl by (auto simp: fds_listed_def bl_alive_def fd_of_def)
    qed
    then obtain cl where cl: "mt_bls st c = Some cl" by (auto simp: bl_alive_def)
    show ?thesis
    proof (cases "hit ev cl")
      case False
      with Suc.IH [of st "pre @ [c]" r] Suc.prems Cons nb cl show ?thesis by (simp add: hit_def Let_def)
    next
      case True
      have "bl_alive st c" using on by simp
      then obtain st1 w t where w: "wakeup pollable c ev st = Inr st1" "plain_sys st1" "loses (waits w) st st1"
        "(t, w) \<in> set (mt_parked st)" "c \<in> set (waits w)"
        using plain_wakeup [OF Suc.prems(1-3)] by blast
      note wi = wakeup_inv [OF Suc.prems(1) w(1)]
      have "bl_alive st1 x" if x: "x \<in> set r" for x
      proof -
        have "x \<notin> set (waits w)"
        proof
          assume "x \<in> set (waits w)"
          moreover have "inj_on (fd_of st) (set (waits w))"
            using Suc.prems(3) w(4) by (fastforce simp: plain_sys_def distinct_map)
          ultimately have "x = c" using on [of x] on [of c] x w(5) by (auto dest: inj_onD)
          then show False using d x by simp
        qed
        then show ?thesis using w(3) on [of x] x by (simp add: loses_def)
      qed
      then have f: "filter (bl_alive st1) r = r" by (simp add: filter_id_conv)
      obtain pre' where "mt_fdlist st1 fd = pre' @ r"
        using fdlist_rest [of st st1 fd "pre @ [c]" r] Suc.prems(1,4) Cons wi f by auto
      with Suc.IH [of st1 pre' r] wi w(2) Suc.prems(5) Cons
      obtain st' where "dispatch n pollable fd ev (first_in r) st1 = Inr st'" "plain_sys st'" by auto
      with w(1) True cl nb Cons show ?thesis by (auto simp: hit_def Let_def)
    qed
  qed
qed

lemma plain_events:
  "mt_inv st \<Longrightarrow> mt_stack st = [] \<Longrightarrow> plain_sys st \<Longrightarrow> \<exists>st'. events pollable es st = Inr st' \<and> plain_sys st'"
proof (induction es arbitrary: st)
  case (Cons e es)
  let ?l = "mt_fdlist st (fst e)"
  obtain st1 where d: "dispatch (length ?l) pollable (fst e) (event_bits e) (first_in ?l) st = Inr st1" "plain_sys st1"
    using plain_dispatch [OF Cons.prems, of "fst e" "[]" ?l "length ?l" pollable "event_bits e"] by auto
  with dispatch_inv [OF d(1) Cons.prems(1,2)] Cons.IH [of st1] show ?case by (auto simp: Let_def)
qed simp

lemma plain_timeouts:
  "mt_inv st \<Longrightarrow> mt_stack st = [] \<Longrightarrow> plain_sys st \<Longrightarrow> \<exists>st'. timeouts pollable st = Inr st' \<and> plain_sys st'"
proof (induction pollable st rule: timeouts.induct)
  case (1 pollable st)
  show ?case
  proof (cases "th_first (mt_heap st)")
    case None
    with 1(4) show ?thesis by (subst timeouts.simps) simp
  next
    case (Some p)
    obtain b to where p: "p = (b, to)" by fastforce
    show ?thesis
    proof (cases "to \<le> mt_now st")
      case False
      with Some p 1(4) show ?thesis by (subst timeouts.simps) simp
    next
      case True
      have t: "timed st" using 1(2) by (simp add: mt_inv_def loop_inv_def)
      then have "(b, to) \<in> th_due (mt_heap st)" using th_first_Some [OF _ Some] p by (auto simp: timed_def)
      then have "bl_alive st b" using t by (auto simp: timed_def bl_alive_def)
      then obtain st1 where w: "wakeup pollable b 0 st = Inr st1" "plain_sys st1"
        using plain_wakeup [OF 1(2-4)] by blast
      then obtain st' where "timeouts pollable st1 = Inr st'" "plain_sys st'"
        using 1(1) [OF Some p [symmetric] True w(1)] wakeup_inv [OF 1(2) w(1)] by blast
      with w(1) Some p True show ?thesis by (subst timeouts.simps) simp
    qed
  qed
qed

lemma plain_turn:
  assumes "sys_inv st" "plain_sys st"
  shows "\<exists>st'. loop_turn pollable t st = Inr st' \<and> plain_sys st'"
proof -
  obtain r t1 t2 where t: "t = (r, t1, t2)" using prod_cases3 by blast
  show ?thesis
  proof (cases r)
    case (Inl e)
    with t assms(2) show ?thesis by (simp add: loop_turn_def)
  next
    case (Inr es)
    let ?st0 = "st\<lparr>mt_now := t1\<rparr>"
    have s0: "mt_inv ?st0" "mt_stack ?st0 = []" "plain_sys ?st0"
      using assms sys_inv_now [of t1 st] by (simp_all add: sys_inv_def plain_sys_def)
    then obtain st1 where e: "events pollable es ?st0 = Inr st1" "plain_sys st1" using plain_events by blast
    note ei = events_inv [OF e(1) s0(1,2)]
    have "mt_inv (st1\<lparr>mt_now := t2\<rparr>)" "mt_stack (st1\<lparr>mt_now := t2\<rparr>) = []" "plain_sys (st1\<lparr>mt_now := t2\<rparr>)"
      using ei e(2) by (simp_all add: mt_inv_def threads_inv_def plain_sys_def)
    then obtain st' where "timeouts pollable (st1\<lparr>mt_now := t2\<rparr>) = Inr st'" "plain_sys st'" using plain_timeouts by blast
    with e(1) Inr t show ?thesis by (simp add: loop_turn_def)
  qed
qed

text \<open>With descriptors that can be watched all blockers there are get registered.\<close>

lemma regfd_works:
  assumes "mt_inv st" "mt_epfd st \<noteq> None" "\<forall>fd. pollable fd" "mt_bls st b = Some bl"
  shows "\<exists>st'. regfd pollable b st = Some st'"
proof -
  obtain m where m: "mt_epfd st = Some m" using assms(2) by auto
  then have "m = mirror st" using assms(1) by (simp add: mt_inv_def loop_inv_def watched_def)
  with m assms(3,4) show ?thesis
    by (auto simp: regfd_def Let_def epoll_add_def epoll_mod_def mirror_def split: option.splits)
qed

lemma plain_register:
  assumes "mt_inv st" "mt_epfd st \<noteq> None" "\<forall>fd. pollable fd" "plain_sys st" "mt_blockers st = pre @ rest" "length rest \<le> n"
    and "\<And>b bl. b \<in> set rest \<Longrightarrow> mt_bls st b = Some bl \<Longrightarrow> \<not> b_reg bl"
  shows "\<exists>st'. register_all n pollable (first_in rest) st = Inr st' \<and> plain_sys st'"
  using assms
proof (induction n arbitrary: rest pre st)
  case 0
  then show ?case by simp
next
  case (Suc n)
  show ?case
  proof (cases rest)
    case Nil
    with Suc.prems show ?thesis by simp
  next
    case (Cons c r)
    have li: "listed st" using Suc.prems(1) by (simp add: mt_inv_def loop_inv_def)
    then have d: "distinct (pre @ c # r)" using Suc.prems(5) Cons by (simp add: listed_def)
    have nb: "after (mt_blockers st) c = first_in r" using after_next [OF d] Suc.prems(5) Cons by simp
    have "mt_bls st c \<noteq> None" using li Suc.prems(5) Cons by (simp add: listed_def)
    then obtain cl where cl: "mt_bls st c = Some cl" by auto
    have unreg: "\<not> b_reg cl" using Suc.prems(7) [OF _ cl] Cons by simp
    obtain st1 where r1: "regfd pollable c st = Some st1" using regfd_works [OF Suc.prems(1-3) cl] by blast
    note f = regfd_inv [OF r1 Suc.prems(1) cl unreg Suc.prems(2)]
    have "fd_of st1 = fd_of st" using cl by (auto simp: fd_of_def f fun_eq_iff)
    then have ps: "plain_sys st1" using Suc.prems(4) by (simp add: plain_sys_def f)
    have nreg: "\<not> b_reg bl" if "b \<in> set r" "mt_bls st1 b = Some bl" for b bl
      using Suc.prems(7) [of b bl] that Cons d by (auto simp: f split: if_splits)
    have p: "mt_blockers st1 = (pre @ [c]) @ r" "length r \<le> n" using f(5) Suc.prems(5,6) Cons by simp_all
    have "\<exists>st'. register_all n pollable (first_in r) st1 = Inr st' \<and> plain_sys st'"
      by (rule Suc.IH [OF f(1,2) Suc.prems(3) ps p]) (rule nreg)
    then obtain st' where "register_all n pollable (first_in r) st1 = Inr st'" "plain_sys st'" by blast
    with r1 cl nb Cons show ?thesis by (simp add: Let_def)
  qed
qed

text \<open>The threads a program starts before it calls \<open>ioloop\<close>.\<close>

fun start_all :: "(int \<Rightarrow> bool) \<Rightarrow> act list \<Rightarrow> mtstate \<Rightarrow> mt_stop + mtstate" where
  "start_all pollable [] st = Inr st"
| "start_all pollable (a # as) st = (case start_thread pollable a st of
      Inl e \<Rightarrow> Inl e
    | Inr st1 \<Rightarrow> start_all pollable as st1)"

lemma plain_start:
  "sys_inv st \<Longrightarrow> plain_sys st \<Longrightarrow> list_all plain_act as \<Longrightarrow> mt_epfd st = None \<Longrightarrow>
    \<exists>st'. start_all pollable as st = Inr st' \<and> sys_inv st' \<and> plain_sys st' \<and> mt_epfd st' = None"
proof (induction as arbitrary: st)
  case (Cons a as)
  have "mt_inv (mustart a st)" "plain_sys (mustart a st)"
    using Cons.prems mustart_inv [of st a] by (auto simp: sys_inv_def plain_sys_def)
  then obtain st1 where s: "start_thread pollable a st = Inr st1" "plain_sys st1"
    using plain_run [of "mustart a st" pollable] by (auto simp: start_thread_def)
  note i = start_thread_inv [OF Cons.prems(1) s(1)]
  then have "mt_epfd st1 = None" using Cons.prems(4) by (simp add: evolves_def)
  with Cons.IH [of st1] i s Cons.prems(3) show ?case by simp
qed simp

lemma plain_loop_start:
  assumes "sys_inv st" "mt_epfd st = None" "plain_sys st" "\<forall>fd. pollable fd"
  shows "\<exists>st'. loop_start pollable st = Inr st' \<and> plain_sys st'"
proof -
  let ?st1 = "st\<lparr>mt_exit := 0, mt_epfd := Some (\<lambda>fd. None)\<rparr>"
  note l = loop_start_ready [OF assms(1,2)]
  have "fd_of ?st1 = fd_of st" by (simp add: fd_of_def fun_eq_iff)
  then have "plain_sys ?st1" using assms(3) by (simp add: plain_sys_def)
  then show ?thesis
    using plain_register [of ?st1 pollable "[]" "mt_blockers st" "length (mt_blockers st)"] l assms(4)
    by (simp add: loop_start_def)
qed

text \<open>C7. A program whose threads wait only by \<open>block\<close> and \<open>mblock\<close>, with different descriptors in each \<open>mblock\<close>, and do
  not resume each other, runs without a fault on descriptors that can be watched: the threads start, and for every
  sequence of events and times the loop neither aborts nor uses a blocker that is gone, nor runs for ever inside
  a turn.
\<close>

theorem loop_never_faults:
  assumes "list_all plain_act as" "\<forall>fd. pollable fd"
  shows "\<exists>st r. start_all pollable as (mt_start now) = Inr st \<and> ioloop pollable ts st = Inr r"
proof -
  have turns: "\<exists>st'. loop_turns pollable ts st = Inr st'" if "sys_inv st" "plain_sys st" "mt_epfd st \<noteq> None" for st
    using that
  proof (induction ts arbitrary: st)
    case (Cons t ts)
    obtain st1 where t: "loop_turn pollable t st = Inr st1" "plain_sys st1" using plain_turn [OF Cons.prems(1,2)] by blast
    with loop_turn_inv [OF Cons.prems(1,3) t(1)] Cons.IH [of st1] show ?case by auto
  qed simp
  have "plain_sys (mt_start now)" by (simp add: plain_sys_def mt_start_def)
  moreover have "mt_epfd (mt_start now) = None" by (simp add: mt_start_def)
  ultimately obtain st where s: "start_all pollable as (mt_start now) = Inr st" "sys_inv st" "plain_sys st" "mt_epfd st = None"
    using plain_start [OF sys_inv_start _ assms(1)] by blast
  obtain st1 where l: "loop_start pollable st = Inr st1" "plain_sys st1"
    using plain_loop_start [OF s(2,4,3) assms(2)] by blast
  obtain st2 where "loop_turns pollable ts st1 = Inr st2"
    using turns [of st1] loop_start_inv [OF s(2,4) l(1)] l(2) by blast
  then show ?thesis using s(1) l(1) by (simp add: ioloop_def)
qed

lemma loop_never_faults_witness:
  "\<exists>st r. start_all (\<lambda>fd. True) [ex_reader, ex_reader] (mt_start 0) = Inr st \<and>
    ioloop (\<lambda>fd. True) [(Inr [(5, True, False, False)], 3, 4)] st = Inr r"
  using loop_never_faults [of "[ex_reader, ex_reader]" "\<lambda>fd. True" 0] by (simp add: ex_reader_def)

section \<open>What other programs can meet\<close>

text \<open>
  An \<open>mblock\<close> that names a descriptor twice: both blockers are in the list of the descriptor, the thread takes
  both away when it is resumed for the first, and \<open>ioloop\<close> goes on with the second.
\<close>

definition faults :: "mt_stop + 'a \<Rightarrow> mt_stop \<Rightarrow> bool" where
  "faults r e \<longleftrightarrow> (case r of Inl e' \<Rightarrow> e' = e | Inr x \<Rightarrow> False)"

definition ex_twice :: act where
  "ex_twice = MBlock 0 [(5, EV_READ), (5, EV_WRITE)] (\<lambda>sel. Ends)"

lemma mblock_twice_dangles:
  "faults (ioloop (\<lambda>fd. True) [(Inr [(5, True, False, False)], 3, 4)]
     (projr (start_all (\<lambda>fd. True) [ex_twice] (mt_start 0)))) Dangling"
  by code_simp

text \<open>
  An \<open>mblock\<close> before the loop on descriptors that epoll does not take, such as files: \<open>ioloop\<close> resumes the thread
  for the first and goes on with the second, which is gone.
\<close>

definition ex_two :: act where
  "ex_two = MBlock 0 [(5, EV_READ), (6, EV_READ)] (\<lambda>sel. Ends)"

lemma mblock_unpollable_dangles:
  "faults (ioloop (\<lambda>fd. False) [] (projr (start_all (\<lambda>fd. False) [ex_two] (mt_start 0)))) Dangling"
  by code_simp

text \<open>An \<open>mblock\<close> of nothing waits for ever, whatever its timeout: there is no blocker that could expire.\<close>

lemma mblock_nothing_hangs:
  "mt_blockers (projr (start_all (\<lambda>fd. True) [MBlock 600 [] (\<lambda>sel. Ends)] (mt_start 0))) = [] \<and>
   length (mt_parked (projr (start_all (\<lambda>fd. True) [MBlock 600 [] (\<lambda>sel. Ends)] (mt_start 0)))) = 1"
  by code_simp

end
