(* ===== verification/Spec2Isabelle.thy ===== *)
theory Spec2Isabelle
  imports Utils Base64 Btree Streams Bufio Mtio Req Resp Passdata Htparser Conf Children Patplex Ratetable Timeheap Ratequeue Ratelimit Cgi Fcgi Callcgi Dirconf Dirplex Htextauth Logfilter Sendfile Gateway Mtsafe
begin

text \<open>
  A verification library for ashd, an HTTP server made of small programs. The front end \<open>htparser\<close> accepts client
  connections, reads requests and hands each one, with a descriptor for the body and the reply, to a root handler
  over a Unix socket; handlers such as \<open>patplex\<close> and \<open>dirplex\<close> choose by pattern among further handlers and hand
  the request on, filters such as \<open>ratequeue\<close>, \<open>htextauth\<close> and \<open>accesslog\<close> hold it back, refuse it or write it down,
  the file servers \<open>sendfile\<close> and \<open>psendfile\<close> answer it, and the gateways
  \<open>callcgi\<close>, \<open>callscgi\<close> and \<open>callfcgi\<close> turn it into a CGI, SCGI or FastCGI request. All of them share the library
  under \<open>src/lib\<close>: message heads, buffered streams, configuration files, child processes, cooperative threads.

  \<^bold>\<open>Conventions.\<close> A C string is a list of characters without NUL, a buffer a list of bytes. Errors, early returns
  and undefined behaviour are constructors of result types (\<open>cf_err\<close>, \<open>mt_stop\<close>, \<open>rq_stop\<close>, \<open>outcome\<close> and so on).
  System calls are scripts of outcomes or parameters with the documented behaviour as hypothesis; what a program
  of somebody else answers is a function. Loops that end are recursive functions with their termination proof; a
  loop over a stream that need not end is a \<open>partial_function (option)\<close>, where \<open>None\<close> means that it runs for ever.
  Linked lists are lists, pointers to nodes are positions or numbers; where the code follows a pointer to
  something that is gone, the model says so (\<open>Dangling\<close>, \<open>Crash\<close>).

  \<^bold>\<open>The library of the server.\<close>
  \<^item> \<open>Prelude\<close>: bytes, C strings, decimal printing, lemmas on lists. \<open>Utils\<close> (\<open>lib/utils.c\<close>): buffer growth,
    \<open>decstr\<close>, \<open>tokenize\<close>. \<open>Base64\<close>: the codec of \<open>lib/utils.c\<close> with its round trip. \<open>Btree\<close>: the balanced trees of
    \<open>lib/utils.c\<close>, what insertion and deletion keep of order, contents and balance.
  \<^item> \<open>Streams\<close>: sources and sinks as interfaces (locales), interpreted for files and for buffered streams. \<open>Bufio\<close>
    (\<open>lib/bufio.c\<close>): every operation over any table of channel functions; no byte is lost, doubled or reordered.
    \<open>Mtio\<close> (\<open>lib/mtio.c\<close>): descriptors that would block, and descriptor passing, as such a table.
  \<^item> \<open>Threads\<close>, \<open>Evloop\<close> (\<open>lib/mt.c\<close>, \<open>lib/mtio-epoll.c\<close>): threads as trees of calls, the stack of those that have
    resumed each other, \<open>block\<close> and \<open>mblock\<close>, the loop. A burst of threads ends because every call leaves less to be
    run (a well-founded multiset order). \<open>Mttables\<close> and \<open>Mtinv\<close>: what every operation keeps of the tables; \<open>Mtloop\<close>:
    the kernel watches what is waited for and no wakeup is lost; \<open>Mtsafe\<close>: when the loop cannot fault, and programs
    with which it does. The walks over lists have fuel, the length of the list, which is shown to be enough.
  \<^item> \<open>Req\<close> (\<open>lib/req.c\<close>): heads, their parsers (from a file and from a buffered stream, shown equal) and the
    datagrams between handlers with their round trip. \<open>Resp\<close> (\<open>lib/resp.c\<close>): quoting, error pages, dates.
  \<^item> \<open>Conf\<close> (\<open>lib/cf.c\<close>): the parser coroutine, the reader and the search for files; blocks are balanced, reading
    always returns. \<open>Children\<close> (\<open>lib/cf.c\<close>, \<open>lib/proc.c\<close>): declarations, arguments, delivery with restart, reload.

  \<^bold>\<open>The programs.\<close>
  \<^item> \<open>Passdata\<close>, \<open>Htparser\<close> (\<open>src/htparser.c\<close>, \<open>src/plaintcp.c\<close>): the transfer of bodies (by length, chunked in both
    directions, to the end), cleaning of requests, a connection from the first request to the close.
  \<^item> \<open>Patplex\<close> (\<open>src/patplex.c\<close>): stanzas, the choice of a pattern as a specification by priority, dispatch, reload.
  \<^item> \<open>Dirconf\<close>, \<open>Dirplex\<close> (\<open>src/dirplex\<close>): the configuration of directories with its cache, the mapping of a path to a
    file; which files no request can reach, that every request is answered.
  \<^item> \<open>Ratetable\<close>, \<open>Timeheap\<close>, \<open>Ratequeue\<close>, \<open>Ratelimit\<close> (\<open>src/ratequeue.c\<close>): the hash table and the heap as
    implementations of two interfaces (a map, a queue of timers), the buckets, the daemon; it refines a map of
    buckets, keeps to the rate and accounts for every request. \<open>Timeheap\<close> also carries the event loop.
  \<^item> \<open>Htextauth\<close> (\<open>src/htextauth.c\<close>): who is let through.
  \<^item> \<open>Accesslog\<close>, \<open>Logfilter\<close> (\<open>src/accesslog.c\<close>): the quoting and the formats of a line, with a reader of lines as
    the specification; the log file under rotation as a step relation on a small file system with locks; the filter in
    front of the child, whose loop is shown to be the one of the front end, and which passes everything unchanged.
  \<^item> \<open>Ccopen\<close> (\<open>src/compress.c\<close>), \<open>Sendfile\<close> (\<open>src/sendfile.c\<close>, \<open>src/psendfile.c\<close>): compressed copies are copies of
    what the file is now; ranges against their meaning in the protocol; the two servers write the same.
  \<^item> \<open>Gateway\<close> (\<open>src/callscgi.c\<close>, \<open>src/callfcgi.c\<close>): the program behind a gateway and the connections to it, as a state
    machine over processes and sockets.
  \<^item> \<open>Cgi\<close>, \<open>Callcgi\<close>, \<open>Fcgi\<close> (\<open>src/callcgi.c\<close>, \<open>src/callscgi.c\<close>, \<open>src/callfcgi.c\<close>): the variables, the encodings, the
    replies, with a reader of the protocol as the specification of what is sent.

  \<^bold>\<open>Not modelled.\<close> The start of the programs (options, daemonising, signals, opening ports), the loops \<open>lib/mtio-select.c\<close> and \<open>lib/mtio-kqueue.c\<close>
  (alternatives to epoll chosen when building), the TLS front ends (almost all calls of GnuTLS and OpenSSL), and
  small programs that are mostly input and output; \<open>PROJECT.json\<close> lists each with the reason. Memory that is
  allocated is never short, as the code's own \<open>smalloc\<close> assumes; freed memory has no counterpart except where the
  code uses it afterwards. Times are integers or exact rationals instead of floating point.
\<close>

end
